(* ===== verification/Prelude.thy ===== *)
theory Prelude
  imports Main "HOL-Library.Word" "HOL-Library.Monad_Syntax"
begin

text \<open>
  What every component shares: the collections of lemmas that carry the component proofs,
  the machine types of \<^verbatim>\<open>include/types.h\<close>, generic facts on lists, maps and
  computations that may fault, and the lookup of the first element of an array that
  satisfies a test, the shape of most search loops of the kernel.

  A computation that may fault returns an \<open>option\<close>: \<open>None\<close> is a memory access the
  machine refuses (a NULL or unmapped pointer in kernel mode). The kernel's page fault
  handler does not return, so a fault ends the run.
\<close>

unbundle bit_operations_syntax

named_theorems fault_simps \<open>unfolding of computations that may fault\<close>
named_theorems wf_intros \<open>preservation of well-formedness, used as introduction rules\<close>

type_synonym u8 = "8 word"
type_synonym u16 = "16 word"
type_synonym u32 = "32 word"

section \<open>Computations that may fault\<close>

lemma bind_eq_SomeE [elim!]:
  assumes "Option.bind m f = Some y"
  obtains x where "m = Some x" "f x = Some y"
  using assms by (cases m) auto

lemma bind_Some_ex [fault_simps]:
  "(\<exists>y. Option.bind m f = Some y \<and> P y) \<longleftrightarrow> (\<exists>x. m = Some x \<and> (\<exists>y. f x = Some y \<and> P y))"
  by (cases m) auto

lemma bind_None_const [simp]: "Option.bind m (\<lambda>_. None) = None"
  by (cases m) auto

section \<open>Lists and maps\<close>

lemma last_in_Cons: "last (a # xs) \<in> insert a (set xs)"
  by (metis last_in_set list.discI list.simps(15))

lemma hd_append_single: "hd (xs @ [b]) = (if xs = [] then b else hd xs)"
  by (simp add: hd_append)

lemma not_in_butlast_if_distinct: "distinct xs \<Longrightarrow> xs \<noteq> [] \<Longrightarrow> last xs \<notin> set (butlast xs)"
  by (metis append_butlast_last_id distinct_butlast not_distinct_conv_prefix)

lemma not_in_tl_if_distinct: "distinct xs \<Longrightarrow> xs \<noteq> [] \<Longrightarrow> hd xs \<notin> set (tl xs)"
  by (cases xs) auto

lemma in_set_tlD: "x \<in> set (tl xs) \<Longrightarrow> x \<in> set xs"
  by (cases xs) auto

lemma remove1_split: "n \<notin> set ys \<Longrightarrow> remove1 n (ys @ n # zs) = ys @ zs"
  by (simp add: remove1_append)

section \<open>Words as numbers\<close>

lemma unat_u32: "unat (x :: u32) < 4294967296"
  using unsigned_less [of x, where ?'a = nat] by simp

lemma unat_u64: "unat (x :: 64 word) < 18446744073709551616"
  using unsigned_less [of x, where ?'a = nat] by simp

section \<open>Loops over an array\<close>

text \<open>Initialisation loops over an array write a value at each index of a range.\<close>

lemma fold_fun_upd:
  "fold (\<lambda>i F. F(i := v i (F i))) [m..<n] F = (\<lambda>k. if m \<le> k \<and> k < n then v k (F k) else F k)"
  by (induction n) (auto simp: fun_eq_iff)

text \<open>A loop over a range whose body may fault: the body runs at each index until one faults.\<close>

fun foldo :: "('a \<Rightarrow> 's \<Rightarrow> 's option) \<Rightarrow> 'a list \<Rightarrow> 's \<Rightarrow> 's option" where
  "foldo f [] s = Some s"
| "foldo f (x # xs) s = Option.bind (f x s) (foldo f xs)"

lemma foldo_append: "foldo f (xs @ ys) s = Option.bind (foldo f xs s) (foldo f ys)"
proof (induction xs arbitrary: s)
  case (Cons x xs)
  then have "foldo f (xs @ ys) = (\<lambda>s. Option.bind (foldo f xs s) (foldo f ys))" by (simp add: fun_eq_iff)
  then show ?case by (simp add: Option.bind_assoc)
qed simp

lemma foldo_inv:
  assumes "I s" and "\<And>x s. x \<in> set xs \<Longrightarrow> I s \<Longrightarrow> \<exists>s'. f x s = Some s' \<and> I s'"
  shows "\<exists>s'. foldo f xs s = Some s' \<and> I s'"
  using assms
proof (induction xs arbitrary: s)
  case (Cons x xs)
  then obtain s1 where "f x s = Some s1" "I s1" by force
  with Cons show ?case by simp
qed simp

lemma foldo_run:
  assumes "foldo f xs s = Some s'" "I s"
    and "\<And>x s s'. x \<in> set xs \<Longrightarrow> I s \<Longrightarrow> f x s = Some s' \<Longrightarrow> I s'"
  shows "I s'"
  using assms
proof (induction xs arbitrary: s)
  case (Cons x xs)
  then obtain s1 where "f x s = Some s1" "foldo f xs s1 = Some s'" by auto
  with Cons show ?case by auto
qed simp

lemma foldo_cong:
  "(\<And>x s. x \<in> set xs \<Longrightarrow> f x s = g x s) \<Longrightarrow> foldo f xs s = foldo g xs s"
proof (induction xs arbitrary: s)
  case (Cons x xs)
  then have "foldo f xs = foldo g xs" by (simp add: fun_eq_iff)
  with Cons.prems show ?case by simp
qed simp

lemma foldo_total:
  "(\<And>x s. x \<in> set xs \<Longrightarrow> f x s = Some (g x s)) \<Longrightarrow> foldo f xs s = Some (fold g xs s)"
  by (induction xs arbitrary: s) auto

section \<open>The first index that satisfies a test\<close>

text \<open>
  The kernel searches its tables with
  \<^verbatim>\<open>for (i = lo; i < hi; i += step) if (p(i)) ...; break\<close>.
  \<^term>\<open>Some i\<close> is the index the loop stops at, \<^term>\<open>None\<close> a loop that ran to its end.
\<close>

function find_from :: "nat \<Rightarrow> (nat \<Rightarrow> bool) \<Rightarrow> nat \<Rightarrow> nat \<Rightarrow> nat option" where
  "find_from step p i hi =
     (if i < hi then if p i then Some i else find_from step p (i + Suc step) hi else None)"
  by pat_completeness auto
termination
  by (relation "measure (\<lambda>(step, p, i, hi). hi - i)") auto

declare find_from.simps [simp del]

lemma find_from_Some:
  "find_from step p i hi = Some j \<Longrightarrow>
     i \<le> j \<and> j < hi \<and> p j \<and> (j - i) mod Suc step = 0 \<and>
     (\<forall>k. i \<le> k \<and> k < j \<and> (k - i) mod Suc step = 0 \<longrightarrow> \<not> p k)"
proof (induction step p i hi rule: find_from.induct)
  case (1 step p i hi)
  show ?case
  proof (cases "i < hi \<and> \<not> p i")
    case True
    with "1.prems" have eq: "find_from step p (i + Suc step) hi = Some j"
      by (simp add: find_from.simps [of step p i])
    note IH = "1.IH" [OF _ _ eq]
    have le: "i + Suc step \<le> j" using IH True by blast
    have shift: "(k - i) mod Suc step = 0 \<longleftrightarrow> (k - (i + Suc step)) mod Suc step = 0"
      if "i + Suc step \<le> k" for k
      using that by (metis diff_diff_left le_diff_conv2 le_mod_geq le_add1 order_trans add.commute)
    have skip: "i + Suc step \<le> k" if "i < k" "(k - i) mod Suc step = 0" for k
      using that by (metis add.commute gr_implies_not0 less_diff_conv2 linorder_not_less mod_less
          nat_less_le zero_less_diff)
    show ?thesis
    proof (intro conjI allI impI)
      fix k assume k: "i \<le> k \<and> k < j \<and> (k - i) mod Suc step = 0"
      show "\<not> p k"
      proof (cases "k = i")
        case False
        then show ?thesis using k IH True shift skip by (metis nat_less_le)
      qed (use True in simp)
    qed (use IH True le shift in auto)
  next
    case False
    with "1.prems" show ?thesis by (auto simp: find_from.simps [of step p i] split: if_splits)
  qed
qed

lemma find_from_None:
  "find_from step p i hi = None \<Longrightarrow> i \<le> k \<Longrightarrow> k < hi \<Longrightarrow> (k - i) mod Suc step = 0 \<Longrightarrow> \<not> p k"
proof (induction step p i hi rule: find_from.induct)
  case (1 step p i hi)
  have i: "i < hi" using "1.prems" by simp
  have np: "\<not> p i" using "1.prems"(1) i by (auto simp: find_from.simps [of step p i] split: if_splits)
  have eq: "find_from step p (i + Suc step) hi = None"
    using "1.prems"(1) i np by (simp add: find_from.simps [of step p i])
  show ?case
  proof (cases "k = i")
    case False
    then have ge: "i + Suc step \<le> k" using "1.prems"
      by (metis add.commute gr_implies_not0 less_diff_conv2 linorder_not_less mod_less
          nat_less_le zero_less_diff)
    then have "(k - (i + Suc step)) mod Suc step = 0" using "1.prems"
      by (metis diff_diff_left le_diff_conv2 le_mod_geq le_add1 order_trans add.commute)
    with "1.prems" show ?thesis using "1.IH" [OF i np eq ge] by simp
  qed (use np in simp)
qed

lemma find_from_unit_Some:
  "find_from 0 p i hi = Some j \<Longrightarrow> i \<le> j \<and> j < hi \<and> p j \<and> (\<forall>k. i \<le> k \<and> k < j \<longrightarrow> \<not> p k)"
  using find_from_Some [of 0 p i hi j] by simp

lemma find_from_unit_None: "find_from 0 p i hi = None \<Longrightarrow> i \<le> k \<Longrightarrow> k < hi \<Longrightarrow> \<not> p k"
  using find_from_None [of 0 p i hi k] by simp

lemma find_from_exists:
  "p k \<Longrightarrow> i \<le> k \<Longrightarrow> k < hi \<Longrightarrow> \<exists>j. find_from 0 p i hi = Some j"
  using find_from_unit_None [of p i hi k] by (cases "find_from 0 p i hi") auto

end
