(* ===== verification/Lists.thy ===== *)
theory Lists
  imports Prelude
begin

text \<open>
  The intrusive doubly linked lists of \<^verbatim>\<open>list.c\<close> and \<^verbatim>\<open>include/list.h\<close>, at the
  level of the two pointers of each node. A node is named by a value of an address type
  \<open>'a\<close> (the kernel instantiates it with its queues and the anchors of its process
  table), a pointer is \<open>'a option\<close> with \<open>None\<close> for NULL, and the memory that holds
  the nodes is a function \<open>links\<close>. Writing through NULL faults (\<open>None\<close>).

  \<open>reps\<close> relates such a memory to the HOL lists it represents, one per list head; the
  locale \<open>list_store\<close> is the contract the rest of the kernel uses, and its
  interpretation at the end discharges the contract for the pointer operations.
\<close>

section \<open>The code\<close>

record 'a list_head =
  nxt :: "'a option"
  prv :: "'a option"

type_synonym 'a links = "'a \<Rightarrow> 'a list_head"

fun set_nxt :: "'a option \<Rightarrow> 'a option \<Rightarrow> 'a links \<Rightarrow> 'a links option" where
  "set_nxt None v h = None"
| "set_nxt (Some p) v h = Some (h(p := (h p)\<lparr>nxt := v\<rparr>))"

fun set_prv :: "'a option \<Rightarrow> 'a option \<Rightarrow> 'a links \<Rightarrow> 'a links option" where
  "set_prv None v h = None"
| "set_prv (Some p) v h = Some (h(p := (h p)\<lparr>prv := v\<rparr>))"

definition INIT_LIST_HEAD :: "'a \<Rightarrow> 'a links \<Rightarrow> 'a links" where
  "INIT_LIST_HEAD l h = h(l := \<lparr>nxt = Some l, prv = Some l\<rparr>)"

definition list_add_between :: "'a \<Rightarrow> 'a option \<Rightarrow> 'a option \<Rightarrow> 'a links \<Rightarrow> 'a links option" where
  "list_add_between new p n h = do {
     h1 \<leftarrow> set_prv n (Some new) h;
     h2 \<leftarrow> set_nxt (Some new) n h1;
     h3 \<leftarrow> set_prv (Some new) p h2;
     set_nxt p (Some new) h3 }"

definition list_add :: "'a \<Rightarrow> 'a \<Rightarrow> 'a links \<Rightarrow> 'a links option" where
  "list_add new head h = list_add_between new (Some head) (nxt (h head)) h"

definition list_add_tail :: "'a \<Rightarrow> 'a \<Rightarrow> 'a links \<Rightarrow> 'a links option" where
  "list_add_tail new head h = list_add_between new (prv (h head)) (Some head) h"

definition list_del_between :: "'a option \<Rightarrow> 'a option \<Rightarrow> 'a links \<Rightarrow> 'a links option" where
  "list_del_between p n h = do {
     h1 \<leftarrow> set_prv n p h;
     set_nxt p n h1 }"

definition list_del :: "'a \<Rightarrow> 'a links \<Rightarrow> 'a links option" where
  "list_del entry h = do {
     h1 \<leftarrow> list_del_between (prv (h entry)) (nxt (h entry)) h;
     h2 \<leftarrow> set_nxt (Some entry) None h1;
     set_prv (Some entry) None h2 }"

definition list_is_last :: "'a \<Rightarrow> 'a \<Rightarrow> 'a links \<Rightarrow> bool" where
  "list_is_last l head h \<longleftrightarrow> nxt (h l) = Some head"

definition list_empty :: "'a \<Rightarrow> 'a links \<Rightarrow> bool" where
  "list_empty head h \<longleftrightarrow> nxt (h head) = Some head"

definition list_first :: "'a \<Rightarrow> 'a links \<Rightarrow> 'a option" where
  "list_first head h = nxt (h head)"

text \<open>
  The two traversal macros, as loops over a state \<open>'s\<close> that holds the links. Running the
  body on NULL dereferences it, so it faults; a list that never comes back to its head
  makes the loop run forever, which is \<open>None\<close> as well.
\<close>

partial_function (option) for_each_from ::
  "('s \<Rightarrow> 'a links) \<Rightarrow> ('a \<Rightarrow> 's \<Rightarrow> 's option) \<Rightarrow> 'a \<Rightarrow> 'a option \<Rightarrow> 's \<Rightarrow> 's option" where
  "for_each_from lk body head pos s =
     (if pos = Some head then Some s
      else case pos of None \<Rightarrow> None
      | Some p \<Rightarrow> Option.bind (body p s) (\<lambda>s'.
          for_each_from lk body head (nxt (lk s' p)) s'))"

definition list_for_each ::
  "('s \<Rightarrow> 'a links) \<Rightarrow> ('a \<Rightarrow> 's \<Rightarrow> 's option) \<Rightarrow> 'a \<Rightarrow> 's \<Rightarrow> 's option" where
  "list_for_each lk body head s = for_each_from lk body head (nxt (lk s head)) s"

partial_function (option) for_each_safe_from ::
  "('s \<Rightarrow> 'a links) \<Rightarrow> ('a \<Rightarrow> 's \<Rightarrow> 's option) \<Rightarrow> 'a \<Rightarrow> 'a option \<Rightarrow> 'a option \<Rightarrow> 's \<Rightarrow> 's option" where
  "for_each_safe_from lk body head pos n s =
     (if pos = Some head then Some s
      else case pos of None \<Rightarrow> None
      | Some p \<Rightarrow> Option.bind (body p s) (\<lambda>s'.
          case n of None \<Rightarrow> None
          | Some q \<Rightarrow> for_each_safe_from lk body head n (nxt (lk s' q)) s'))"

definition list_for_each_safe ::
  "('s \<Rightarrow> 'a links) \<Rightarrow> ('a \<Rightarrow> 's \<Rightarrow> 's option) \<Rightarrow> 'a \<Rightarrow> 's \<Rightarrow> 's option" where
  "list_for_each_safe lk body head s =
     (case nxt (lk s head) of None \<Rightarrow> None
      | Some p \<Rightarrow> for_each_safe_from lk body head (Some p) (nxt (lk s p)) s)"

section \<open>Rings of nodes\<close>

text \<open>
  Two nodes are linked when each points at the other; a head and its elements form a list
  when consecutive nodes of the ring are linked and no node occurs twice.
\<close>

definition edge :: "'a links \<Rightarrow> 'a \<Rightarrow> 'a \<Rightarrow> bool" where
  "edge h a b \<longleftrightarrow> nxt (h a) = Some b \<and> prv (h b) = Some a"

definition dll :: "'a links \<Rightarrow> 'a \<Rightarrow> 'a list \<Rightarrow> bool" where
  "dll h a xs \<longleftrightarrow> successively (edge h) (a # xs @ [a]) \<and> distinct (a # xs)"

lemma successively_edge_cong:
  assumes "\<And>x. x \<in> set (butlast A) \<Longrightarrow> nxt (h' x) = nxt (h x)"
    and "\<And>y. y \<in> set (tl A) \<Longrightarrow> prv (h' y) = prv (h y)"
    and "successively (edge h) A"
  shows "successively (edge h') A"
  using assms
proof (induction "edge h" A rule: successively.induct)
  case (3 x y xs)
  have "successively (edge h') (y # xs)"
    by (rule "3.hyps") (use "3.prems" in \<open>auto split: if_splits dest: list.set_sel(2)\<close>)
  with "3.prems" show ?case by (auto simp: edge_def)
qed auto

lemma dll_cong:
  assumes "\<And>n. n \<in> insert a (set xs) \<Longrightarrow> h' n = h n"
  shows "dll h' a xs \<longleftrightarrow> dll h a xs"
proof -
  have "successively (edge h') (a # xs @ [a])" if "successively (edge h) (a # xs @ [a])"
    and "\<And>n. n \<in> insert a (set xs) \<Longrightarrow> h' n = h n" for h h' :: "'a links"
    by (rule successively_edge_cong [OF _ _ that(1)]) (auto dest: in_set_butlastD simp: that(2))
  from this [of h h'] this [of h' h] assms show ?thesis by (auto simp: dll_def)
qed

lemma dll_nxt: "dll h a xs \<Longrightarrow> nxt (h a) = Some (hd (xs @ [a]))"
  by (cases xs) (auto simp: dll_def edge_def)

lemma dll_prv: "dll h a xs \<Longrightarrow> prv (h a) = Some (last (a # xs))"
proof -
  assume "dll h a xs"
  then have "successively (edge h) ((a # xs) @ [a])" by (simp add: dll_def)
  then have "edge h (last (a # xs)) a" by (subst (asm) successively_append_iff) auto
  then show ?thesis by (simp add: edge_def)
qed

text \<open>Inserting a node between the two ends of a cut of the ring.\<close>

lemma add_between:
  assumes ring: "successively (edge h) (A @ B)" "A \<noteq> []" "B \<noteq> []"
    and new: "new \<notin> set A" "new \<notin> set B"
    and dA: "last A \<notin> set (butlast A)" "last A \<notin> set (butlast B)"
    and dB: "hd B \<notin> set (tl B)" "hd B \<notin> set (tl A)"
  shows "\<exists>h'. list_add_between new (Some (last A)) (Some (hd B)) h = Some h' \<and>
     successively (edge h') (A @ new # B) \<and>
     (\<forall>n. n \<noteq> new \<longrightarrow> n \<noteq> last A \<longrightarrow> n \<noteq> hd B \<longrightarrow> h' n = h n)"
proof -
  let ?p = "last A" and ?q = "hd B"
  let ?h1 = "h(?q := (h ?q)\<lparr>prv := Some new\<rparr>)"
  let ?h2 = "?h1(new := (?h1 new)\<lparr>nxt := Some ?q\<rparr>)"
  let ?h3 = "?h2(new := (?h2 new)\<lparr>prv := Some ?p\<rparr>)"
  let ?h' = "?h3(?p := (?h3 ?p)\<lparr>nxt := Some new\<rparr>)"
  have eq: "list_add_between new (Some ?p) (Some ?q) h = Some ?h'"
    by (simp add: list_add_between_def)
  have pq: "?p \<noteq> new" "?q \<noteq> new" using ring new last_in_set hd_in_set by metis+
  have A: "successively (edge ?h') A"
    by (rule successively_edge_cong [of A _ h])
      (use ring new dA dB pq in \<open>auto simp: successively_append_iff dest: in_set_butlastD in_set_tlD\<close>)
  have B: "successively (edge ?h') B"
    by (rule successively_edge_cong [of B _ h])
      (use ring new dA dB pq in \<open>auto simp: successively_append_iff dest: in_set_butlastD in_set_tlD\<close>)
  have "edge ?h' ?p new" "edge ?h' new ?q" using pq by (auto simp: edge_def)
  with A B ring have "successively (edge ?h') (A @ new # B)"
    by (cases B) (auto simp: successively_append_iff)
  with eq show ?thesis by auto
qed

lemma del_between:
  assumes ring: "successively (edge h) (A @ n # B)" "A \<noteq> []" "B \<noteq> []"
    and n: "n \<notin> set A" "n \<notin> set B"
    and dA: "last A \<notin> set (butlast A)" "last A \<notin> set (butlast B)"
    and dB: "hd B \<notin> set (tl B)" "hd B \<notin> set (tl A)"
  shows "\<exists>h'. list_del n h = Some h' \<and> successively (edge h') (A @ B) \<and>
     h' n = \<lparr>nxt = None, prv = None\<rparr> \<and>
     (\<forall>m. m \<noteq> n \<longrightarrow> m \<noteq> last A \<longrightarrow> m \<noteq> hd B \<longrightarrow> h' m = h m)"
proof -
  let ?p = "last A" and ?q = "hd B"
  have e: "edge h ?p n" "edge h n ?q" and AB: "successively (edge h) A" "successively (edge h) B"
    using ring by (cases B; auto simp: successively_append_iff)+
  let ?h1 = "h(?q := (h ?q)\<lparr>prv := Some ?p\<rparr>)"
  let ?h2 = "?h1(?p := (?h1 ?p)\<lparr>nxt := Some ?q\<rparr>)"
  let ?h3 = "?h2(n := (?h2 n)\<lparr>nxt := None\<rparr>)"
  let ?h' = "?h3(n := (?h3 n)\<lparr>prv := None\<rparr>)"
  have pq: "?p \<noteq> n" "?q \<noteq> n" using ring n last_in_set hd_in_set by metis+
  have eq: "list_del n h = Some ?h'"
    using e by (simp add: list_del_def list_del_between_def edge_def)
  have A: "successively (edge ?h') A"
    by (rule successively_edge_cong [of A _ h])
      (use AB n dA dB pq in \<open>auto dest: in_set_butlastD in_set_tlD\<close>)
  have B: "successively (edge ?h') B"
    by (rule successively_edge_cong [of B _ h])
      (use AB n dA dB pq in \<open>auto dest: in_set_butlastD in_set_tlD\<close>)
  have "edge ?h' ?p ?q" using pq by (auto simp: edge_def)
  with A B ring have "successively (edge ?h') (A @ B)"
    by (auto simp: successively_append_iff)
  with eq pq show ?thesis by auto
qed

lemma dll_init: "dll (INIT_LIST_HEAD a h) a []"
  by (simp add: dll_def edge_def INIT_LIST_HEAD_def)

lemma dll_add_tail:
  assumes "dll h a xs" and "n \<notin> insert a (set xs)"
  shows "\<exists>h'. list_add_tail n a h = Some h' \<and> dll h' a (xs @ [n]) \<and>
     (\<forall>m. m \<notin> insert n (insert a (set xs)) \<longrightarrow> h' m = h m)"
proof -
  have d: "distinct (a # xs)" and r: "successively (edge h) ((a # xs) @ [a])"
    using assms(1) by (auto simp: dll_def)
  have "last (a # xs) \<notin> set (butlast (a # xs))"
    by (rule not_in_butlast_if_distinct) (use d in auto)
  moreover have "a \<notin> set (tl (a # xs))" using d by simp
  ultimately obtain h' where "list_add_between n (Some (last (a # xs))) (Some a) h = Some h'"
    "successively (edge h') ((a # xs) @ n # [a])"
    "\<forall>m. m \<noteq> n \<longrightarrow> m \<noteq> last (a # xs) \<longrightarrow> m \<noteq> a \<longrightarrow> h' m = h m"
    using add_between [of h "a # xs" "[a]" n] r assms(2) by auto
  with assms d last_in_Cons [of a xs] show ?thesis
    by (auto simp: list_add_tail_def dll_prv [OF assms(1)] dll_def)
qed

lemma dll_add:
  assumes "dll h a xs" and "n \<notin> insert a (set xs)"
  shows "\<exists>h'. list_add n a h = Some h' \<and> dll h' a (n # xs) \<and>
     (\<forall>m. m \<notin> insert n (insert a (set xs)) \<longrightarrow> h' m = h m)"
proof -
  have d: "distinct (a # xs)" and r: "successively (edge h) ([a] @ (xs @ [a]))"
    using assms(1) by (auto simp: dll_def)
  let ?q = "hd (xs @ [a])"
  have "?q \<notin> set (tl (xs @ [a]))"
    by (rule not_in_tl_if_distinct) (use d in auto)
  moreover have q: "?q \<in> insert a (set xs)" by (cases xs) auto
  ultimately obtain h' where "list_add_between n (Some a) (Some ?q) h = Some h'"
    "successively (edge h') ([a] @ n # (xs @ [a]))"
    "\<forall>m. m \<noteq> n \<longrightarrow> m \<noteq> a \<longrightarrow> m \<noteq> ?q \<longrightarrow> h' m = h m"
    using add_between [of h "[a]" "xs @ [a]" n] r assms(2) d by auto
  with assms d q show ?thesis
    by (auto simp: list_add_def dll_nxt [OF assms(1)] dll_def)
qed

lemma dll_del:
  assumes "dll h a xs" and "n \<in> set xs"
  shows "\<exists>h'. list_del n h = Some h' \<and> dll h' a (remove1 n xs) \<and>
     h' n = \<lparr>nxt = None, prv = None\<rparr> \<and>
     (\<forall>m. m \<notin> insert a (set xs) \<longrightarrow> h' m = h m)"
proof -
  from assms(2) obtain ys zs where xs: "xs = ys @ n # zs" and ny: "n \<notin> set ys"
    using split_list_first by metis
  have d: "distinct (a # ys @ n # zs)" and r: "successively (edge h) ((a # ys) @ n # (zs @ [a]))"
    using assms(1) xs by (auto simp: dll_def)
  let ?p = "last (a # ys)" and ?q = "hd (zs @ [a])"
  have "?p \<notin> set (butlast (a # ys))"
    by (rule not_in_butlast_if_distinct) (use d in auto)
  moreover have "?q \<notin> set (tl (zs @ [a]))"
    by (rule not_in_tl_if_distinct) (use d in auto)
  moreover have p: "?p \<in> insert a (set ys)" by (rule last_in_Cons)
  moreover have q: "?q \<in> insert a (set zs)" by (cases zs) auto
  moreover have "?p \<notin> set zs" "?q \<notin> set ys" using p q d by auto
  ultimately obtain h' where "list_del n h = Some h'"
    "successively (edge h') ((a # ys) @ (zs @ [a]))"
    "h' n = \<lparr>nxt = None, prv = None\<rparr>"
    "\<forall>m. m \<noteq> n \<longrightarrow> m \<noteq> ?p \<longrightarrow> m \<noteq> ?q \<longrightarrow> h' m = h m"
    using del_between [of h "a # ys" n "zs @ [a]"] r d by auto
  with d p q xs ny show ?thesis
    by (auto simp: dll_def remove1_append)
qed

section \<open>A memory of disjoint lists\<close>

text \<open>
  \<open>reps h Q\<close>: the links \<open>h\<close> hold, for each list head \<open>a\<close> with
  \<open>Q a = Some xs\<close>, the list \<open>xs\<close>; no node belongs to two lists and no head is an
  element. Nodes outside \<open>Q\<close> are unconstrained: they may hold stale pointers.
\<close>

type_synonym 'a lists = "'a \<Rightarrow> 'a list option"

definition unlinked :: "'a lists \<Rightarrow> 'a \<Rightarrow> bool" where
  "unlinked Q n \<longleftrightarrow> (\<forall>a xs. Q a = Some xs \<longrightarrow> n \<notin> insert a (set xs))"

definition reps :: "'a links \<Rightarrow> 'a lists \<Rightarrow> bool" where
  "reps h Q \<longleftrightarrow>
     (\<forall>a xs. Q a = Some xs \<longrightarrow> dll h a xs) \<and>
     (\<forall>a b xs ys. Q a = Some xs \<longrightarrow> Q b = Some ys \<longrightarrow> a \<noteq> b \<longrightarrow>
        insert a (set xs) \<inter> insert b (set ys) = {})"

lemma repsD_dll: "reps h Q \<Longrightarrow> Q a = Some xs \<Longrightarrow> dll h a xs"
  by (simp add: reps_def)

lemma repsD_disjoint:
  "reps h Q \<Longrightarrow> Q a = Some xs \<Longrightarrow> Q b = Some ys \<Longrightarrow> a \<noteq> b \<Longrightarrow>
     insert a (set xs) \<inter> insert b (set ys) = {}"
  unfolding reps_def by blast

lemma disjoint_mono: "A' \<subseteq> A \<Longrightarrow> B' \<subseteq> B \<Longrightarrow> A \<inter> B = {} \<Longrightarrow> A' \<inter> B' = {}"
  by blast

lemma reps_upd:
  assumes "reps h Q" and "dll h' a ys"
    and "\<And>b xs. Q b = Some xs \<Longrightarrow> b \<noteq> a \<Longrightarrow>
           insert a (set ys) \<inter> insert b (set xs) = {} \<and> (\<forall>m \<in> insert b (set xs). h' m = h m)"
  shows "reps h' (Q(a \<mapsto> ys))"
proof -
  have "dll h' b xs" if "Q b = Some xs" "b \<noteq> a" for b xs
    using assms(3) [OF that] repsD_dll [OF assms(1) that(1)] dll_cong [of b xs h' h] by blast
  moreover have "insert b (set xs) \<inter> insert c (set zs) = {}"
    if "(Q(a \<mapsto> ys)) b = Some xs" "(Q(a \<mapsto> ys)) c = Some zs" "b \<noteq> c" for b c xs zs
    using that assms(3) [of b xs] assms(3) [of c zs] repsD_disjoint [OF assms(1), of b xs c zs]
    by (cases "b = a"; cases "c = a") (simp_all, blast+)
  ultimately show ?thesis using assms(2) by (simp add: reps_def)
qed

lemma reps_init:
  assumes "reps h Q" and "unlinked (Q(a := None)) a"
  shows "reps (INIT_LIST_HEAD a h) (Q(a \<mapsto> []))"
  by (rule reps_upd [OF assms(1) dll_init])
    (use assms(2) in \<open>auto simp: INIT_LIST_HEAD_def unlinked_def split: if_splits\<close>)

lemma reps_upd_own:
  assumes r: "reps h Q" and a: "Q a = Some xs" and ys: "dll h' a ys" "set ys \<subseteq> insert n (set xs)"
    and n: "n \<in> set xs \<or> unlinked Q n"
    and frame: "\<forall>m. m \<notin> insert n (insert a (set xs)) \<longrightarrow> h' m = h m"
  shows "reps h' (Q(a \<mapsto> ys))"
proof (rule reps_upd [OF r ys(1)])
  fix b zs assume b: "Q b = Some zs" "b \<noteq> a"
  have d: "insert a (set xs) \<inter> insert b (set zs) = {}"
    using repsD_disjoint [OF r a b(1)] b(2) by simp
  have "n \<notin> insert b (set zs)" using n d b(1) by (auto simp: unlinked_def)
  with d have d': "insert n (insert a (set xs)) \<inter> insert b (set zs) = {}" by simp
  then have "h' m = h m" if "m \<in> insert b (set zs)" for m
    using frame [rule_format, of m] that by (simp only: disjoint_iff) blast
  moreover have "insert a (set ys) \<inter> insert b (set zs) = {}"
    by (rule disjoint_mono [OF _ subset_refl d']) (use ys(2) in auto)
  ultimately show "insert a (set ys) \<inter> insert b (set zs) = {} \<and> (\<forall>m \<in> insert b (set zs). h' m = h m)"
    by simp
qed

lemma reps_add_tail:
  assumes r: "reps h Q" and a: "Q a = Some xs" and n: "unlinked Q n"
  shows "\<exists>h'. list_add_tail n a h = Some h' \<and> reps h' (Q(a \<mapsto> xs @ [n]))"
proof -
  have "n \<notin> insert a (set xs)" using n a by (simp add: unlinked_def)
  from dll_add_tail [OF repsD_dll [OF r a] this] obtain h' where h':
    "list_add_tail n a h = Some h'" "dll h' a (xs @ [n])"
    "\<forall>m. m \<notin> insert n (insert a (set xs)) \<longrightarrow> h' m = h m" by blast
  have "reps h' (Q(a \<mapsto> xs @ [n]))"
    by (rule reps_upd_own [OF r a h'(2), of n]) (use h'(3) n in auto)
  with h'(1) show ?thesis by blast
qed

lemma reps_add:
  assumes r: "reps h Q" and a: "Q a = Some xs" and n: "unlinked Q n"
  shows "\<exists>h'. list_add n a h = Some h' \<and> reps h' (Q(a \<mapsto> n # xs))"
proof -
  have "n \<notin> insert a (set xs)" using n a by (simp add: unlinked_def)
  from dll_add [OF repsD_dll [OF r a] this] obtain h' where h':
    "list_add n a h = Some h'" "dll h' a (n # xs)"
    "\<forall>m. m \<notin> insert n (insert a (set xs)) \<longrightarrow> h' m = h m" by blast
  have "reps h' (Q(a \<mapsto> n # xs))"
    by (rule reps_upd_own [OF r a h'(2), of n]) (use h'(3) n in auto)
  with h'(1) show ?thesis by blast
qed

lemma reps_del:
  assumes r: "reps h Q" and a: "Q a = Some xs" and n: "n \<in> set xs"
  shows "\<exists>h'. list_del n h = Some h' \<and> reps h' (Q(a \<mapsto> remove1 n xs))"
proof -
  from dll_del [OF repsD_dll [OF r a] n] obtain h' where h':
    "list_del n h = Some h'" "dll h' a (remove1 n xs)"
    "\<forall>m. m \<notin> insert a (set xs) \<longrightarrow> h' m = h m" by blast
  have "reps h' (Q(a \<mapsto> remove1 n xs))"
    by (rule reps_upd_own [OF r a h'(2), of n]) (use h'(3) n set_remove1_subset in \<open>auto\<close>)
  with h'(1) show ?thesis by blast
qed

lemma reps_drop: "reps h Q \<Longrightarrow> reps h (Q(a := None))"
  unfolding reps_def by (auto split: if_splits)

lemma reps_scribble: "reps h Q \<Longrightarrow> unlinked Q n \<Longrightarrow> reps (h(n := v)) Q"
proof -
  assume r: "reps h Q" and n: "unlinked Q n"
  have "dll (h(n := v)) a xs" if "Q a = Some xs" for a xs
  proof -
    have "n \<notin> insert a (set xs)" using n that by (simp add: unlinked_def)
    then have "dll (h(n := v)) a xs = dll h a xs" by (intro dll_cong) auto
    then show ?thesis using repsD_dll [OF r that] by simp
  qed
  with r show ?thesis by (simp add: reps_def)
qed

lemma reps_first: "reps h Q \<Longrightarrow> Q a = Some xs \<Longrightarrow> list_first a h = Some (hd (xs @ [a]))"
  by (simp add: list_first_def dll_nxt repsD_dll)

lemma reps_empty: "reps h Q \<Longrightarrow> Q a = Some xs \<Longrightarrow> list_empty a h \<longleftrightarrow> xs = []"
proof -
  assume r: "reps h Q" "Q a = Some xs"
  have "a \<notin> set xs" using repsD_dll [OF r] by (simp add: dll_def)
  then show ?thesis using dll_nxt [OF repsD_dll [OF r]]
    by (cases xs) (auto simp: list_empty_def)
qed

lemma reps_nxt:
  assumes "reps h Q" "Q a = Some (xs @ n # ys)"
  shows "nxt (h n) = Some (hd (ys @ [a]))"
proof -
  have "successively (edge h) ((a # xs) @ n # (ys @ [a]))"
    using repsD_dll [OF assms] by (simp add: dll_def)
  then have "edge h n (hd (ys @ [a]))"
    by (subst (asm) successively_append_iff) (auto simp: successively_Cons)
  then show ?thesis by (simp add: edge_def)
qed

section \<open>Which list a node is on\<close>

definition on_list :: "'a lists \<Rightarrow> 'a \<Rightarrow> 'a \<Rightarrow> bool" where
  "on_list Q a n \<longleftrightarrow> (\<exists>xs. Q a = Some xs \<and> n \<in> set xs)"

definition unlink :: "'a \<Rightarrow> 'a lists \<Rightarrow> 'a lists" where
  "unlink n Q = (\<lambda>a. map_option (remove1 n) (Q a))"

definition enqueue :: "'a \<Rightarrow> 'a \<Rightarrow> 'a lists \<Rightarrow> 'a lists" where
  "enqueue n d Q = Q(d := map_option (\<lambda>xs. xs @ [n]) (Q d))"

lemma unlink_None [simp]: "unlink n Q a = None \<longleftrightarrow> Q a = None"
  by (simp add: unlink_def)

lemma enqueue_None [simp]: "enqueue n d Q a = None \<longleftrightarrow> Q a = None"
  by (simp add: enqueue_def)

lemma on_list_enqueue [simp]:
  "on_list (enqueue n d Q) a m \<longleftrightarrow> on_list Q a m \<or> a = d \<and> m = n \<and> Q d \<noteq> None"
  by (auto simp: on_list_def enqueue_def)

lemma unlinked_on_list: "unlinked Q n \<Longrightarrow> \<not> on_list Q a n"
  by (auto simp: unlinked_def on_list_def)

lemma unlinkedI: "Q n = None \<Longrightarrow> (\<And>a. \<not> on_list Q a n) \<Longrightarrow> unlinked Q n"
  by (auto simp: unlinked_def on_list_def)

lemma unlinked_conv: "unlinked Q n \<longleftrightarrow> Q n = None \<and> (\<forall>a. \<not> on_list Q a n)"
  by (cases "Q n") (auto simp: unlinked_def on_list_def)

lemma remove1_absent: "n \<notin> set xs \<Longrightarrow> remove1 n xs = xs"
  by (induction xs) auto

lemma unlink_id: "\<forall>a. \<not> on_list Q a n \<Longrightarrow> unlink n Q = Q"
proof
  fix a assume "\<forall>a. \<not> on_list Q a n"
  then show "unlink n Q a = Q a" by (cases "Q a") (auto simp: unlink_def on_list_def remove1_absent)
qed

section \<open>The contract of the lists, and its interpretation\<close>

text \<open>
  What the scheduler and the system calls rely on. \<open>rep h Q\<close> is the abstraction; the
  operations are the ones of \<^verbatim>\<open>list.h\<close> that the kernel calls.
\<close>

locale list_store =
  fixes rep :: "'h \<Rightarrow> 'a lists \<Rightarrow> bool"
    and init :: "'a \<Rightarrow> 'h \<Rightarrow> 'h"
    and add_tail :: "'a \<Rightarrow> 'a \<Rightarrow> 'h \<Rightarrow> 'h option"
    and del :: "'a \<Rightarrow> 'h \<Rightarrow> 'h option"
    and is_empty :: "'a \<Rightarrow> 'h \<Rightarrow> bool"
    and first :: "'a \<Rightarrow> 'h \<Rightarrow> 'a option"
  assumes rep_disjoint:
      "rep h Q \<Longrightarrow> Q a = Some xs \<Longrightarrow> Q b = Some ys \<Longrightarrow> a \<noteq> b \<Longrightarrow>
         insert a (set xs) \<inter> insert b (set ys) = {}"
    and rep_distinct: "rep h Q \<Longrightarrow> Q a = Some xs \<Longrightarrow> distinct (a # xs)"
    and rep_drop: "rep h Q \<Longrightarrow> rep h (Q(a := None))"
    and rep_init: "rep h Q \<Longrightarrow> unlinked (Q(a := None)) a \<Longrightarrow> rep (init a h) (Q(a \<mapsto> []))"
    and rep_add_tail: "rep h Q \<Longrightarrow> Q a = Some xs \<Longrightarrow> unlinked Q n \<Longrightarrow>
         \<exists>h'. add_tail n a h = Some h' \<and> rep h' (Q(a \<mapsto> xs @ [n]))"
    and rep_del: "rep h Q \<Longrightarrow> Q a = Some xs \<Longrightarrow> n \<in> set xs \<Longrightarrow>
         \<exists>h'. del n h = Some h' \<and> rep h' (Q(a \<mapsto> remove1 n xs))"
    and rep_empty: "rep h Q \<Longrightarrow> Q a = Some xs \<Longrightarrow> is_empty a h \<longleftrightarrow> xs = []"
    and rep_first: "rep h Q \<Longrightarrow> Q a = Some xs \<Longrightarrow> first a h = Some (List.hd (xs @ [a]))"
begin

lemma owner_unique:
  "rep h Q \<Longrightarrow> Q a = Some xs \<Longrightarrow> Q b = Some ys \<Longrightarrow> n \<in> set xs \<Longrightarrow> n \<in> set ys \<Longrightarrow> a = b"
  using rep_disjoint by blast

lemma member_not_head: "rep h Q \<Longrightarrow> Q a = Some xs \<Longrightarrow> n \<in> set xs \<Longrightarrow> Q n = None"
  using rep_disjoint [of h Q a xs n] rep_distinct [of h Q a xs] by (cases "Q n") auto

lemma unlinked_after_del:
  "rep h Q \<Longrightarrow> Q a = Some xs \<Longrightarrow> n \<in> set xs \<Longrightarrow> unlinked (Q(a \<mapsto> remove1 n xs)) n"
  unfolding unlinked_def using rep_disjoint rep_distinct
  by (auto split: if_splits dest: owner_unique)

text \<open>Taking a node off one list and appending it to another.\<close>

lemma move:
  assumes "rep h Q" "Q a = Some xs" "n \<in> set xs" "Q b = Some ys" "a \<noteq> b"
  shows "\<exists>h1 h2. del n h = Some h1 \<and> add_tail n b h1 = Some h2 \<and>
           rep h2 (Q(a \<mapsto> remove1 n xs, b \<mapsto> ys @ [n]))"
proof -
  obtain h1 where h1: "del n h = Some h1" "rep h1 (Q(a \<mapsto> remove1 n xs))"
    using rep_del assms by blast
  have "unlinked (Q(a \<mapsto> remove1 n xs)) n" using unlinked_after_del assms by blast
  with rep_add_tail [OF h1(2), of b ys n] assms h1 show ?thesis by auto
qed

lemma requeue:
  assumes "rep h Q" "Q a = Some xs" "n \<in> set xs"
  shows "\<exists>h1 h2. del n h = Some h1 \<and> add_tail n a h1 = Some h2 \<and>
           rep h2 (Q(a \<mapsto> remove1 n xs @ [n]))"
proof -
  obtain h1 where h1: "del n h = Some h1" "rep h1 (Q(a \<mapsto> remove1 n xs))"
    using rep_del assms by blast
  have "unlinked (Q(a \<mapsto> remove1 n xs)) n" using unlinked_after_del assms by blast
  with rep_add_tail [OF h1(2), of a "remove1 n xs" n] h1 show ?thesis by auto
qed

text \<open>The same, for whatever list the node is on.\<close>

lemma on_list_unlink:
  "rep h Q \<Longrightarrow> on_list (unlink n Q) a m \<longleftrightarrow> on_list Q a m \<and> m \<noteq> n"
  using rep_distinct [of h Q a] by (auto simp: on_list_def unlink_def)

lemma on_list_unique: "rep h Q \<Longrightarrow> on_list Q a n \<Longrightarrow> on_list Q b n \<Longrightarrow> a = b"
  by (auto simp: on_list_def dest: owner_unique)

lemma unlinked_unlink: "rep h Q \<Longrightarrow> Q n = None \<Longrightarrow> unlinked (unlink n Q) n"
  by (simp add: unlinked_conv on_list_unlink)

lemma unlink_upd:
  assumes "rep h Q" "Q a = Some xs" "n \<in> set xs"
  shows "unlink n Q = Q(a \<mapsto> remove1 n xs)"
proof
  fix b
  show "unlink n Q b = (Q(a \<mapsto> remove1 n xs)) b"
  proof (cases "b = a \<or> Q b = None")
    case False
    then obtain ys where "Q b = Some ys" "n \<notin> set ys"
      using owner_unique [OF assms(1,2) _ assms(3), of b] by auto
    with False show ?thesis by (simp add: unlink_def remove1_absent)
  qed (use assms(2) in \<open>auto simp: unlink_def\<close>)
qed

lemma del_unlink:
  assumes "rep h Q" "on_list Q a n"
  shows "\<exists>h'. del n h = Some h' \<and> rep h' (unlink n Q)"
  using rep_del [OF assms(1)] unlink_upd [OF assms(1)] assms(2) by (fastforce simp: on_list_def)

lemma add_tail_enqueue:
  assumes "rep h Q" "Q d \<noteq> None" "unlinked Q n"
  shows "\<exists>h'. add_tail n d h = Some h' \<and> rep h' (enqueue n d Q)"
  using rep_add_tail [OF assms(1) _ assms(3)] assms(2) by (fastforce simp: enqueue_def)

lemma del_add_tail:
  assumes "rep h Q" "on_list Q a n" "Q d \<noteq> None"
  shows "\<exists>h1 h2. del n h = Some h1 \<and> add_tail n d h1 = Some h2 \<and> rep h2 (enqueue n d (unlink n Q))"
proof -
  obtain h1 where h1: "del n h = Some h1" "rep h1 (unlink n Q)" using del_unlink assms by blast
  have "Q n = None" using assms(1,2) member_not_head by (auto simp: on_list_def)
  then have "unlinked (unlink n Q) n" using unlinked_unlink assms(1) by blast
  with add_tail_enqueue [OF h1(2)] assms(3) h1(1) show ?thesis by auto
qed

text \<open>Taking the first element: the idiom \<open>e = list_first(q); list_del(e)\<close>.\<close>

lemma pop:
  assumes "rep h Q" "Q a = Some (x # xs)"
  shows "first a h = Some x \<and> (\<exists>h'. del x h = Some h' \<and> rep h' (Q(a \<mapsto> xs)) \<and> unlinked (Q(a \<mapsto> xs)) x)"
  using rep_first [OF assms] rep_del [OF assms, of x] unlinked_after_del [OF assms, of x] by simp

end

interpretation dl: list_store reps INIT_LIST_HEAD list_add_tail list_del list_empty list_first
  by unfold_locales
    (auto simp: dll_def reps_add_tail reps_del reps_empty reps_first reps_drop reps_init
       dest: repsD_dll repsD_disjoint)

section \<open>Traversals\<close>

text \<open>
  A traversal whose body leaves the traversed list as it is visits its elements in order,
  so it is a fold over the HOL list.
\<close>

lemma for_each_from_fold:
  assumes "I s" and "\<And>s. I s \<Longrightarrow> \<exists>Q. reps (lk s) Q \<and> Q a = Some (xs @ ys)"
    and "\<And>n s. n \<in> set ys \<Longrightarrow> I s \<Longrightarrow> \<exists>s'. body n s = Some s' \<and> I s'"
  shows "for_each_from lk body a (Some (hd (ys @ [a]))) s = foldo body ys s \<and>
     (\<exists>s'. foldo body ys s = Some s' \<and> I s')"
  using assms
proof (induction ys arbitrary: xs s)
  case (Cons n ys)
  obtain s' where s': "body n s = Some s'" "I s'" using Cons.prems by force
  obtain Q where Q: "reps (lk s') Q" "Q a = Some (xs @ n # ys)" using Cons.prems(2) s' by blast
  have "n \<noteq> a" using repsD_dll [OF Q] by (auto simp: dll_def)
  with s' Cons.IH [of s' "xs @ [n]"] Cons.prems reps_nxt [OF Q] show ?case
    by (simp add: for_each_from.simps [of lk body a "Some n"])
qed (simp add: for_each_from.simps)

lemma list_for_each_fold:
  assumes "I s" and "\<And>s. I s \<Longrightarrow> \<exists>Q. reps (lk s) Q \<and> Q a = Some ys"
    and "\<And>n s. n \<in> set ys \<Longrightarrow> I s \<Longrightarrow> \<exists>s'. body n s = Some s' \<and> I s'"
  shows "list_for_each lk body a s = foldo body ys s \<and> (\<exists>s'. foldo body ys s = Some s' \<and> I s')"
proof -
  obtain Q where "reps (lk s) Q" "Q a = Some ys" using assms by blast
  then have "nxt (lk s a) = Some (hd (ys @ [a]))" using reps_first by (fastforce simp: list_first_def)
  then show ?thesis using for_each_from_fold [of I s lk a "[]" ys body] assms
    by (simp add: list_for_each_def)
qed

text \<open>
  A traversal that saves the successor before it runs its body: the body may move the node it is
  given, as long as the nodes behind it keep their place. \<open>I ys s\<close> says that \<open>ys\<close> is left.
\<close>

lemma for_each_safe_from_fold:
  assumes "I ys s" and "\<And>n ys s. I (n # ys) s \<Longrightarrow> n \<noteq> a \<and> nxt (lk s n) = Some (hd (ys @ [a]))"
    and "\<And>n ys s. I (n # ys) s \<Longrightarrow> \<exists>s'. body n s = Some s' \<and> I ys s'"
    and "ys \<noteq> [] \<Longrightarrow> q = Some (hd (tl ys @ [a]))"
  shows "for_each_safe_from lk body a (Some (hd (ys @ [a]))) q s = foldo body ys s \<and>
     (\<exists>s'. foldo body ys s = Some s' \<and> I [] s')"
  using assms(1,4)
proof (induction ys arbitrary: s q)
  case (Cons n ys)
  obtain s' where s': "body n s = Some s'" "I ys s'" using assms(3) Cons.prems by blast
  have "n \<noteq> a" using assms(2) Cons.prems by blast
  moreover have "nxt (lk s' (hd (ys @ [a]))) = Some (hd (tl ys @ [a]))" if "ys \<noteq> []"
    using assms(2) s'(2) that by (cases ys) auto
  ultimately show ?case using s' Cons.IH [of s' "nxt (lk s' (hd (ys @ [a])))"] Cons.prems
    by (simp add: for_each_safe_from.simps [of lk body a "Some n"])
qed (simp add: for_each_safe_from.simps)

lemma list_for_each_safe_fold:
  assumes "I ys s" and "nxt (lk s a) = Some (hd (ys @ [a]))"
    and "\<And>n ys s. I (n # ys) s \<Longrightarrow> n \<noteq> a \<and> nxt (lk s n) = Some (hd (ys @ [a]))"
    and "\<And>n ys s. I (n # ys) s \<Longrightarrow> \<exists>s'. body n s = Some s' \<and> I ys s'"
  shows "list_for_each_safe lk body a s = foldo body ys s \<and> (\<exists>s'. foldo body ys s = Some s' \<and> I [] s')"
proof -
  have "nxt (lk s (hd (ys @ [a]))) = Some (hd (tl ys @ [a]))" if "ys \<noteq> []"
    using assms(1,3) that by (cases ys) auto
  then show ?thesis
    using for_each_safe_from_fold [of I ys s a lk body "nxt (lk s (hd (ys @ [a])))"] assms
    by (simp add: list_for_each_safe_def)
qed

lemma add_tail_frame:
  assumes "reps h Q" "Q a = Some xs" "list_add_tail n a h = Some h'" "unlinked Q m" "m \<noteq> n"
  shows "h' m = h m"
proof -
  have "m \<notin> insert a (set xs)" using assms(2,4) by (simp add: unlinked_def)
  then have "m \<noteq> a" "m \<noteq> last (a # xs)" using last_in_Cons [of a xs] by (auto split: if_splits)
  then show ?thesis using assms(3,5) dll_prv [OF repsD_dll [OF assms(1,2)]]
    by (auto simp: list_add_tail_def list_add_between_def split: if_splits)
qed

text \<open>Taking over the elements of a list without taking them off it: the old list is lost.\<close>

definition chain :: "'a links \<Rightarrow> 'a \<Rightarrow> 'a list \<Rightarrow> bool" where
  "chain h a ns \<longleftrightarrow> successively (\<lambda>x y. nxt (h x) = Some y) (ns @ [a])"

lemma dll_chain: "dll h a ns \<Longrightarrow> chain h a ns"
proof -
  assume "dll h a ns"
  then have "successively (edge h) (ns @ [a])" by (simp add: dll_def successively_Cons)
  then show ?thesis unfolding chain_def by (rule successively_mono) (simp add: edge_def)
qed

lemma chain_Cons: "chain h a (n # ns) \<longleftrightarrow> nxt (h n) = Some (hd (ns @ [a])) \<and> chain h a ns"
  by (cases ns) (simp_all add: chain_def)

lemma chain_cong: "(\<And>x. x \<in> set ns \<Longrightarrow> h' x = h x) \<Longrightarrow> chain h a ns \<Longrightarrow> chain h' a ns"
  by (induction ns) (auto simp: chain_Cons, simp add: chain_def)

end
