(* ===== verification/Paging.thy ===== *)
theory Paging
  imports Prelude
begin

text \<open>
  Physical frames and page tables: \<^verbatim>\<open>mm.c\<close>, \<^verbatim>\<open>include/mm.h\<close>,
  \<^verbatim>\<open>include/mm_address.h\<close> and the \<open>page_table_entry\<close> union of
  \<^verbatim>\<open>include/types.h\<close>.

  A page table entry is its 32-bit \<open>entry\<close> word and the bit fields are read and written
  with masks and shifts, so the two views of the union agree by construction. The arrays
  of the C code are functions on indices. \<open>pagusr_page\<close> is the number of the page in
  which the linker put \<open>pagusr_table\<close>: each of its rows fills exactly one page.
\<close>

section \<open>Constants\<close>

abbreviation (input) TOTAL_PAGES :: nat where "TOTAL_PAGES \<equiv> 1024"
abbreviation (input) NUM_PAG_KERNEL :: nat where "NUM_PAG_KERNEL \<equiv> 256"
abbreviation (input) NUM_PAG_CODE :: nat where "NUM_PAG_CODE \<equiv> 8"
abbreviation (input) NUM_PAG_DATA :: nat where "NUM_PAG_DATA \<equiv> 20"
abbreviation (input) PAGE_SIZE :: nat where "PAGE_SIZE \<equiv> 4096"
abbreviation (input) PAG_LOG_INIT_DATA :: nat where "PAG_LOG_INIT_DATA \<equiv> 256"
abbreviation (input) PAG_LOG_INIT_CODE :: nat where "PAG_LOG_INIT_CODE \<equiv> PAG_LOG_INIT_DATA + NUM_PAG_DATA"
abbreviation (input) PAG_LOG_INIT_HEAP :: nat where "PAG_LOG_INIT_HEAP \<equiv> PAG_LOG_INIT_CODE + NUM_PAG_CODE"
abbreviation (input) ENTRY_DIR_PAGES :: nat where "ENTRY_DIR_PAGES \<equiv> 0"
abbreviation (input) NR_TASKS :: nat where "NR_TASKS \<equiv> 10"
abbreviation (input) FREE_FRAME :: u8 where "FREE_FRAME \<equiv> 0"
abbreviation (input) USED_FRAME :: u8 where "USED_FRAME \<equiv> 1"

section \<open>Page table entries\<close>

type_synonym page_table_entry = u32

definition get_bits :: "nat \<Rightarrow> nat \<Rightarrow> page_table_entry \<Rightarrow> u32" where
  "get_bits lo n e = drop_bit lo e AND mask n"

definition set_bits :: "nat \<Rightarrow> nat \<Rightarrow> u32 \<Rightarrow> page_table_entry \<Rightarrow> page_table_entry" where
  "set_bits lo n v e = (e AND NOT (push_bit lo (mask n))) OR push_bit lo (v AND mask n)"

definition present :: "page_table_entry \<Rightarrow> bool" where "present e \<longleftrightarrow> get_bits 0 1 e = 1"
definition rw :: "page_table_entry \<Rightarrow> bool" where "rw e \<longleftrightarrow> get_bits 1 1 e = 1"
definition user :: "page_table_entry \<Rightarrow> bool" where "user e \<longleftrightarrow> get_bits 2 1 e = 1"
definition pbase_addr :: "page_table_entry \<Rightarrow> u32" where "pbase_addr e = get_bits 12 20 e"

definition set_present :: "u32 \<Rightarrow> page_table_entry \<Rightarrow> page_table_entry" where "set_present = set_bits 0 1"
definition set_rw :: "u32 \<Rightarrow> page_table_entry \<Rightarrow> page_table_entry" where "set_rw = set_bits 1 1"
definition set_user :: "u32 \<Rightarrow> page_table_entry \<Rightarrow> page_table_entry" where "set_user = set_bits 2 1"
definition set_pbase_addr :: "u32 \<Rightarrow> page_table_entry \<Rightarrow> page_table_entry" where
  "set_pbase_addr = set_bits 12 20"

type_synonym page_table = "nat \<Rightarrow> page_table_entry"

definition set_ss_pag :: "page_table \<Rightarrow> nat \<Rightarrow> u32 \<Rightarrow> page_table" where
  "set_ss_pag PT page frame =
     PT(page := set_present 1 (set_rw 1 (set_user 1 (set_pbase_addr frame 0))))"

definition del_ss_pag :: "page_table \<Rightarrow> nat \<Rightarrow> page_table" where
  "del_ss_pag PT logical_page = PT(logical_page := 0)"

definition get_frame :: "page_table \<Rightarrow> nat \<Rightarrow> u32" where
  "get_frame PT logical_page = pbase_addr (PT logical_page)"

section \<open>State\<close>

record mm_state =
  phys_mem :: "nat \<Rightarrow> u8"
  dir_pages :: "nat \<Rightarrow> page_table"
  pagusr_table :: "nat \<Rightarrow> page_table"
  dir_pages_num_references :: "nat \<Rightarrow> int"
  heap_zones :: "nat \<Rightarrow> int"
  pagusr_page :: nat
  cr3 :: "nat option"

section \<open>Initialisation\<close>

definition init_dir_page :: "nat \<Rightarrow> mm_state \<Rightarrow> mm_state" where
  "init_dir_page i mm =
     (let e = set_present 1 (set_rw 1 (set_user 1
                (set_pbase_addr (of_nat (pagusr_page mm + i)) 0)))
      in mm\<lparr>dir_pages := (dir_pages mm)(i := (dir_pages mm i)(ENTRY_DIR_PAGES := e)),
            dir_pages_num_references := (dir_pages_num_references mm)(i := 0)\<rparr>)"

definition init_dir_pages :: "mm_state \<Rightarrow> mm_state" where
  "init_dir_pages mm = fold init_dir_page [0..<NR_TASKS] mm"

definition clear_table :: "page_table \<Rightarrow> page_table" where
  "clear_table PT = fold (\<lambda>i PT. PT(i := 0)) [0..<TOTAL_PAGES] PT"

definition map_kernel_pages :: "page_table \<Rightarrow> page_table" where
  "map_kernel_pages PT =
     fold (\<lambda>i PT. PT(i := set_present 1 (set_rw 1 (set_pbase_addr (of_nat i) (PT i)))))
       [1..<NUM_PAG_KERNEL] PT"

definition init_table_pages :: "mm_state \<Rightarrow> mm_state" where
  "init_table_pages mm =
     mm\<lparr>pagusr_table :=
          fold (\<lambda>j T. T(j := map_kernel_pages (clear_table (T j)))) [0..<NR_TASKS] (pagusr_table mm)\<rparr>"

definition init_frames :: "mm_state \<Rightarrow> mm_state" where
  "init_frames mm =
     mm\<lparr>phys_mem :=
          fold (\<lambda>i F. F(i := USED_FRAME)) [0..<NUM_PAG_KERNEL]
            (fold (\<lambda>i F. F(i := FREE_FRAME)) [0..<TOTAL_PAGES] (phys_mem mm))\<rparr>"

section \<open>Frames\<close>

text \<open>The search advances by two frames, so the holes the source's comment wants are kept.\<close>

definition alloc_frame :: "mm_state \<Rightarrow> int \<times> mm_state" where
  "alloc_frame mm =
     (case find_from 1 (\<lambda>i. phys_mem mm i = FREE_FRAME) NUM_PAG_KERNEL TOTAL_PAGES of
        Some i \<Rightarrow> (int i, mm\<lparr>phys_mem := (phys_mem mm)(i := USED_FRAME)\<rparr>)
      | None \<Rightarrow> (-1, mm))"

definition free_frame :: "u32 \<Rightarrow> mm_state \<Rightarrow> mm_state" where
  "free_frame frame mm =
     (if NUM_PAG_KERNEL < unat frame \<and> unat frame < TOTAL_PAGES
      then mm\<lparr>phys_mem := (phys_mem mm)(unat frame := FREE_FRAME)\<rparr> else mm)"

text \<open>
  The page table of a page directory: \<open>get_PT\<close> follows the directory's first entry. Here
  the address it yields is turned back into a row of \<open>pagusr_table\<close>.
\<close>

definition dir_PT :: "mm_state \<Rightarrow> nat \<Rightarrow> nat" where
  "dir_PT mm d = unat (pbase_addr (dir_pages mm d ENTRY_DIR_PAGES)) - pagusr_page mm"

definition upd_PT :: "nat \<Rightarrow> (page_table \<Rightarrow> page_table) \<Rightarrow> mm_state \<Rightarrow> mm_state" where
  "upd_PT p f mm = mm\<lparr>pagusr_table := (pagusr_table mm)(p := f (pagusr_table mm p))\<rparr>"

definition set_user_code_page :: "nat \<Rightarrow> nat \<Rightarrow> mm_state \<Rightarrow> mm_state" where
  "set_user_code_page p pag mm =
     (let (new_ph_pag, mm1) = alloc_frame mm in
      upd_PT p (\<lambda>PT. PT(PAG_LOG_INIT_CODE + pag :=
        set_present 1 (set_user 1 (set_pbase_addr (word_of_int new_ph_pag) 0)))) mm1)"

definition set_user_data_page :: "nat \<Rightarrow> nat \<Rightarrow> mm_state \<Rightarrow> mm_state" where
  "set_user_data_page p pag mm =
     (let (new_ph_pag, mm1) = alloc_frame mm in
      upd_PT p (\<lambda>PT. PT(PAG_LOG_INIT_DATA + pag :=
        set_present 1 (set_rw 1 (set_user 1 (set_pbase_addr (word_of_int new_ph_pag) 0))))) mm1)"

definition set_user_pages :: "nat \<Rightarrow> mm_state \<Rightarrow> mm_state" where
  "set_user_pages p mm =
     fold (set_user_data_page p) [0..<NUM_PAG_DATA] (fold (set_user_code_page p) [0..<NUM_PAG_CODE] mm)"

definition free_user_pages :: "nat \<Rightarrow> mm_state \<Rightarrow> mm_state" where
  "free_user_pages p mm =
     fold (\<lambda>pag mm.
         upd_PT p (\<lambda>PT. PT(PAG_LOG_INIT_DATA + pag := 0))
           (free_frame (get_frame (pagusr_table mm p) (PAG_LOG_INIT_DATA + pag)) mm))
       [0..<NUM_PAG_DATA] mm"

section \<open>Bit fields\<close>

lemma bit_set_bits:
  "bit (set_bits lo n v e) k \<longleftrightarrow> k < 32 \<and> (if lo \<le> k \<and> k < lo + n then bit v (k - lo) else bit e k)"
  by (auto simp: set_bits_def bit_simps dest: bit_imp_le_length)

lemma bit_get_bits: "bit (get_bits lo n e) k \<longleftrightarrow> k < n \<and> bit e (lo + k)"
  by (auto simp: get_bits_def bit_simps dest: bit_imp_le_length)

lemma get_set_bits: "lo + n \<le> 32 \<Longrightarrow> get_bits lo n (set_bits lo n v e) = v AND mask n"
  by (rule bit_word_eqI) (auto simp: bit_get_bits bit_set_bits bit_simps)

lemma get_set_bits_other:
  "lo + n \<le> lo' \<or> lo' + n' \<le> lo \<Longrightarrow> get_bits lo n (set_bits lo' n' v e) = get_bits lo n e"
  by (rule bit_word_eqI) (auto simp: bit_get_bits bit_set_bits bit_simps dest: bit_imp_le_length)

lemma get_bits_0 [simp]: "get_bits lo n 0 = 0"
  by (simp add: get_bits_def)

lemmas pte_defs = set_present_def set_rw_def set_user_def set_pbase_addr_def
  present_def rw_def user_def pbase_addr_def

lemma mask_1_word [simp]: "(1 :: u32) AND mask 1 = 1"
  by (simp add: mask_1)

lemma pte_0 [simp]: "\<not> present 0" "\<not> rw 0" "\<not> user 0" "pbase_addr 0 = 0"
  by (simp_all add: pte_defs)

lemma pte_fields [simp]:
  "present (set_present 1 e)"
  "present (set_rw v e) = present e" "present (set_user v e) = present e"
  "present (set_pbase_addr f e) = present e"
  "rw (set_present v e) = rw e" "rw (set_rw 1 e)" "rw (set_user v e) = rw e"
  "rw (set_pbase_addr f e) = rw e"
  "user (set_present v e) = user e" "user (set_rw v e) = user e" "user (set_user 1 e)"
  "user (set_pbase_addr f e) = user e"
  "pbase_addr (set_present v e) = pbase_addr e" "pbase_addr (set_rw v e) = pbase_addr e"
  "pbase_addr (set_user v e) = pbase_addr e"
  "pbase_addr (set_pbase_addr f e) = f AND mask 20"
  by (simp_all add: pte_defs get_set_bits get_set_bits_other)

lemma mask20_of_nat [simp]: "k < 2 ^ 20 \<Longrightarrow> (of_nat k :: u32) AND mask 20 = of_nat k"
  by (simp flip: take_bit_eq_mask)
    (rule word_unat_eq_iff [THEN iffD2],
     simp add: unat_of_nat take_bit_nat_eq_self unsigned_take_bit_eq)

lemma set_ss_pag_same: "set_ss_pag PT p f p = push_bit 12 f OR mask 3"
  unfolding set_ss_pag_def fun_upd_same
  by (rule bit_word_eqI) (auto simp: pte_defs bit_set_bits bit_simps)

lemma set_ss_pag_other [simp]: "q \<noteq> p \<Longrightarrow> set_ss_pag PT p f q = PT q"
  by (simp add: set_ss_pag_def)

lemma set_ss_pag_fields [simp]:
  "present (set_ss_pag PT p f p)" "rw (set_ss_pag PT p f p)" "user (set_ss_pag PT p f p)"
  by (simp_all add: set_ss_pag_def)

lemma get_frame_set_ss_pag [simp]:
  "get_frame (set_ss_pag PT p f) q = (if q = p then f AND mask 20 else get_frame PT q)"
  by (simp add: get_frame_def set_ss_pag_def)

lemma del_ss_pag_simps [simp]:
  "del_ss_pag PT p p = 0" "q \<noteq> p \<Longrightarrow> del_ss_pag PT p q = PT q"
  by (simp_all add: del_ss_pag_def)

lemma del_set_ss_pag [simp]: "del_ss_pag (set_ss_pag PT p f) p = del_ss_pag PT p"
  by (simp add: del_ss_pag_def set_ss_pag_def)

section \<open>Initial tables\<close>

lemma clear_table_eq: "clear_table PT k = (if k < TOTAL_PAGES then 0 else PT k)"
  unfolding clear_table_def using fold_fun_upd [of "\<lambda>_ _. 0" 0 TOTAL_PAGES PT] by simp

lemma map_kernel_pages_eq:
  "map_kernel_pages PT k =
     (if 1 \<le> k \<and> k < NUM_PAG_KERNEL then set_present 1 (set_rw 1 (set_pbase_addr (of_nat k) (PT k)))
      else PT k)"
  unfolding map_kernel_pages_def
  using fold_fun_upd [of "\<lambda>i e. set_present 1 (set_rw 1 (set_pbase_addr (of_nat i) e))"
      1 NUM_PAG_KERNEL PT] by simp

lemma init_table_pages_eq:
  "pagusr_table (init_table_pages mm) j =
     (if j < NR_TASKS then map_kernel_pages (clear_table (pagusr_table mm j)) else pagusr_table mm j)"
  unfolding init_table_pages_def
  using fold_fun_upd [of "\<lambda>_ PT. map_kernel_pages (clear_table PT)" 0 NR_TASKS "pagusr_table mm"]
  by simp

lemma init_frames_eq:
  "phys_mem (init_frames mm) k =
     (if k < NUM_PAG_KERNEL then USED_FRAME else if k < TOTAL_PAGES then FREE_FRAME else phys_mem mm k)"
  unfolding init_frames_def
  using fold_fun_upd [of "\<lambda>_ _. USED_FRAME" 0 NUM_PAG_KERNEL]
    fold_fun_upd [of "\<lambda>_ _. FREE_FRAME" 0 TOTAL_PAGES "phys_mem mm"] by simp

lemma init_dir_pages_upto:
  "dir_pages (fold init_dir_page [0..<n] mm) d =
     (if d < n then (dir_pages mm d)(ENTRY_DIR_PAGES := set_present 1 (set_rw 1 (set_user 1
                (set_pbase_addr (of_nat (pagusr_page mm + d)) 0)))) else dir_pages mm d) \<and>
   dir_pages_num_references (fold init_dir_page [0..<n] mm) d =
     (if d < n then 0 else dir_pages_num_references mm d) \<and>
   pagusr_page (fold init_dir_page [0..<n] mm) = pagusr_page mm \<and>
   pagusr_table (fold init_dir_page [0..<n] mm) = pagusr_table mm \<and>
   phys_mem (fold init_dir_page [0..<n] mm) = phys_mem mm \<and>
   heap_zones (fold init_dir_page [0..<n] mm) = heap_zones mm"
  by (induction n) (auto simp: init_dir_page_def Let_def)

lemma dir_PT_init_dir_pages:
  assumes "pagusr_page mm + NR_TASKS \<le> 2 ^ 20" and "d < NR_TASKS"
  shows "dir_PT (init_dir_pages mm) d = d"
proof -
  have "pagusr_page mm + d < 2 ^ 20" using assms by simp
  then have "unat ((of_nat (pagusr_page mm + d) :: u32) AND mask 20) = pagusr_page mm + d"
    by (subst mask20_of_nat) (simp_all add: unat_of_nat take_bit_nat_eq_self del: of_nat_add)
  with assms show ?thesis
    unfolding dir_PT_def init_dir_pages_def
    using init_dir_pages_upto [of NR_TASKS mm d] by simp
qed

end
