(* ===== verification/Frames.thy ===== *)
theory Frames
  imports Paging
begin

text \<open>
  The frame allocator of \<^verbatim>\<open>mm.c\<close>: what \<open>alloc_frame\<close> and \<open>free_frame\<close> promise,
  and the allocation loop with rollback that \<^verbatim>\<open>sys_fork\<close> and \<^verbatim>\<open>sys_dyn_mem\<close>
  (\<^verbatim>\<open>sys.c\<close>) both contain. The promise is the locale \<open>frame_store\<close>; the loop is
  proved once inside it and used through its interpretations.
\<close>

section \<open>The pool of frames\<close>

text \<open>Frames the allocator can ever hand out: the ones its stride of two reaches.\<close>

definition pool :: "nat set" where
  "pool = {i. NUM_PAG_KERNEL \<le> i \<and> i < TOTAL_PAGES \<and> even i}"

definition avail :: "mm_state \<Rightarrow> nat set" where
  "avail mm = {i \<in> pool. phys_mem mm i = FREE_FRAME}"

lemma finite_pool [simp]: "finite pool"
  by (rule finite_subset [of _ "{..<TOTAL_PAGES}"]) (auto simp: pool_def)

lemma card_pool: "card pool = 384"
proof -
  have "x \<in> (\<lambda>k. 256 + 2 * k) ` {..<384}" if "x \<in> pool" for x
    by (rule image_eqI [of _ _ "(x - 256) div 2"]) (use that in \<open>auto simp: pool_def\<close>)
  then have "pool = (\<lambda>k. 256 + 2 * k) ` {..<384}"
    by (auto simp: pool_def)
  moreover have "card ((\<lambda>k::nat. 256 + 2 * k) ` {..<384}) = card {..<384::nat}"
    by (rule card_image) (simp add: inj_on_def)
  ultimately show ?thesis by (metis card_lessThan)
qed

lemma finite_avail [simp]: "finite (avail mm)"
  by (simp add: avail_def)

lemma availD: "f \<in> avail mm \<Longrightarrow> 256 \<le> f \<and> f < 1024 \<and> even f"
  by (simp add: avail_def pool_def)

lemma avail_init: "avail (init_frames mm) = pool"
  by (auto simp: avail_def pool_def init_frames_eq)

lemma stride_even: "(256::nat) \<le> k \<Longrightarrow> (k - 256) mod Suc 1 = 0 \<longleftrightarrow> even k"
  by presburger

lemma alloc_frame_cases:
  obtains (none) "avail mm = {}" "alloc_frame mm = (-1, mm)"
  | (some) f where "f \<in> avail mm" "\<forall>g \<in> avail mm. f \<le> g"
      "alloc_frame mm = (int f, mm\<lparr>phys_mem := (phys_mem mm)(f := USED_FRAME)\<rparr>)"
proof (cases "find_from 1 (\<lambda>i. phys_mem mm i = FREE_FRAME) NUM_PAG_KERNEL TOTAL_PAGES")
  case None
  have "phys_mem mm k \<noteq> FREE_FRAME" if "k \<in> pool" for k
    using find_from_None [OF None, of k] that stride_even [of k] by (simp add: pool_def)
  then show ?thesis using None none by (simp add: alloc_frame_def avail_def)
next
  case (Some f)
  note f = find_from_Some [OF Some]
  have "f \<in> avail mm" using f stride_even [of f] by (simp add: avail_def pool_def)
  moreover have "f \<le> g" if "g \<in> avail mm" for g
    using f that stride_even [of g] by (auto simp: avail_def pool_def not_less [symmetric])
  ultimately show ?thesis using Some some by (simp add: alloc_frame_def)
qed

text \<open>\<open>alloc_frame\<close> returns -1 and changes nothing exactly when no frame of its pool
  is free; otherwise it returns the lowest free frame of the pool, marks that frame used
  and changes no other entry of the table.\<close>
lemma alloc_frame_spec:
  "(avail mm = {} \<and> alloc_frame mm = (-1, mm)) \<or>
   (\<exists>f. avail mm \<noteq> {} \<and> f = Min (avail mm) \<and>
        alloc_frame mm = (int f, mm\<lparr>phys_mem := (phys_mem mm)(f := USED_FRAME)\<rparr>))"
proof (cases rule: alloc_frame_cases [of mm])
  case (some f)
  then have "f = Min (avail mm)" by (intro Min_eqI [symmetric]) auto
  with some show ?thesis by blast
qed simp

lemma unat_frame [simp]: "f < 1024 \<Longrightarrow> unat (word_of_nat f :: u32) = f"
  by (simp add: unat_of_nat take_bit_nat_eq_self)

lemma avail_mark_used: "avail (mm\<lparr>phys_mem := (phys_mem mm)(f := USED_FRAME)\<rparr>) = avail mm - {f}"
  by (auto simp: avail_def)

lemma avail_free_frame:
  "f \<in> pool \<Longrightarrow> avail (free_frame (word_of_int (int f)) mm) =
     (if f = NUM_PAG_KERNEL then avail mm else insert f (avail mm))"
  by (auto simp: avail_def pool_def free_frame_def)

text \<open>C32. Releasing the frame that was just allocated gives the frame table back, except for
  frame 256: the guard \<open>frame > NUM_PAG_KERNEL\<close> of \<open>free_frame\<close> refuses the first frame
  the allocator hands out, so that frame stays marked used for ever.\<close>
theorem alloc_free_roundtrip:
  assumes "alloc_frame mm = (f, mm1)" and "0 \<le> f"
  shows "phys_mem (free_frame (word_of_int f) mm1) =
           (if f = int NUM_PAG_KERNEL then phys_mem mm1 else phys_mem mm) \<and>
         phys_mem mm1 (nat f) = USED_FRAME \<and> phys_mem mm (nat f) = FREE_FRAME"
proof (cases rule: alloc_frame_cases [of mm])
  case (some g)
  with assms availD [of g mm] show ?thesis
    by (auto simp: free_frame_def avail_def fun_eq_iff)
qed (use assms in simp)

definition sample_mm :: mm_state where
  "sample_mm = init_frames \<lparr>phys_mem = \<lambda>_. 0, dir_pages = \<lambda>_ _. 0, pagusr_table = \<lambda>_ _. 0,
     dir_pages_num_references = \<lambda>_. 0, heap_zones = \<lambda>_. 0, pagusr_page = 100, cr3 = None\<rparr>"

lemma alloc_frame_sample:
  "alloc_frame sample_mm = (256, sample_mm\<lparr>phys_mem := (phys_mem sample_mm)(256 := 1)\<rparr>)"
  by (simp add: alloc_frame_def find_from.simps [of "Suc 0" _ 256] sample_mm_def init_frames_eq)

lemma alloc_free_roundtrip_witness:
  "phys_mem (free_frame (word_of_int 256) (sample_mm\<lparr>phys_mem := (phys_mem sample_mm)(256 := 1)\<rparr>)) 256 = 1"
  using alloc_free_roundtrip [OF alloc_frame_sample] by simp

section \<open>Allocation with rollback\<close>

text \<open>
  The loop \<^verbatim>\<open>for (i = 0; i < n; i++) { frames[i] = alloc(i); if (frames[i] < 0) { for (j = 0; j < i; j++)
  release(j, frames[j]); return error; } }\<close>; \<open>acc\<close> is the filled part of \<open>frames\<close>.
\<close>

fun alloc_loop ::
  "(nat \<Rightarrow> 's \<Rightarrow> int \<times> 's) \<Rightarrow> (nat \<Rightarrow> int \<Rightarrow> 's \<Rightarrow> 's) \<Rightarrow> nat \<Rightarrow> int list \<Rightarrow> 's \<Rightarrow> int list option \<times> 's" where
  "alloc_loop alloc release 0 acc s = (Some acc, s)"
| "alloc_loop alloc release (Suc n) acc s =
     (let (f, s1) = alloc (length acc) s in
      if f < 0 then (None, fold (\<lambda>(j, g). release j g) (enumerate 0 acc) s1)
      else alloc_loop alloc release n (acc @ [f]) s1)"

locale frame_store =
  fixes free_set :: "'s \<Rightarrow> nat set"
    and frames :: "nat set"
    and stuck :: "nat set"
    and alloc :: "nat \<Rightarrow> 's \<Rightarrow> int \<times> 's"
    and release :: "nat \<Rightarrow> int \<Rightarrow> 's \<Rightarrow> 's"
  assumes finite_frames: "finite frames"
    and free_subset: "free_set s \<subseteq> frames"
    and alloc_none: "free_set s = {} \<Longrightarrow> alloc i s = (-1, s)"
    and alloc_some: "free_set s \<noteq> {} \<Longrightarrow>
          \<exists>f s'. alloc i s = (int f, s') \<and> f \<in> free_set s \<and> free_set s' = free_set s - {f}"
    and release_some: "f \<in> frames \<Longrightarrow>
          free_set (release i (int f) s) = (if f \<in> stuck then free_set s else insert f (free_set s))"
begin

lemma finite_free: "finite (free_set s)"
  using finite_subset [OF free_subset finite_frames] .

lemma release_all:
  "set fs \<subseteq> frames \<Longrightarrow>
     free_set (fold (\<lambda>(j, g). release j g) (enumerate k (map int fs)) s) =
       free_set s \<union> (set fs - stuck)"
  by (induction fs arbitrary: k s) (auto simp: release_some)

text \<open>With enough free frames the loop fills the array with distinct frames, which leave the pool.\<close>

lemma alloc_loop_enough:
  assumes "n \<le> card (free_set s)"
  shows "\<exists>fs s'. alloc_loop alloc release n (map int acc) s = (Some (map int (acc @ fs)), s') \<and>
     length fs = n \<and> distinct fs \<and> set fs \<subseteq> free_set s \<and> free_set s' = free_set s - set fs"
  using assms
proof (induction n arbitrary: acc s)
  case (Suc n)
  then have "free_set s \<noteq> {}" by auto
  then obtain f s1 where f: "alloc (length (map int acc)) s = (int f, s1)" "f \<in> free_set s"
    "free_set s1 = free_set s - {f}" using alloc_some by meson
  have "n \<le> card (free_set s1)" using Suc.prems f finite_free by simp
  then obtain fs s' where fs:
    "alloc_loop alloc release n (map int (acc @ [f])) s1 = (Some (map int ((acc @ [f]) @ fs)), s')"
    "length fs = n" "distinct fs" "set fs \<subseteq> free_set s1" "free_set s' = free_set s1 - set fs"
    using Suc.IH [of s1 "acc @ [f]"] by blast
  show ?case
    by (rule exI [of _ "f # fs"], rule exI [of _ s']) (use f fs in auto)
qed simp

text \<open>Without, it gives back every frame it took but the stuck ones, and reports the failure.\<close>

lemma alloc_loop_short:
  assumes "card (free_set s) < n" and "set acc \<subseteq> frames"
  shows "\<exists>s'. alloc_loop alloc release n (map int acc) s = (None, s') \<and>
     free_set s' = (free_set s \<union> set acc) - stuck"
  using assms
proof (induction n arbitrary: acc s)
  case (Suc n)
  show ?case
  proof (cases "free_set s = {}")
    case True
    then show ?thesis using release_all [OF Suc.prems(2), of 0 s] alloc_none [OF True] by simp
  next
    case False
    then obtain f s1 where f: "alloc (length (map int acc)) s = (int f, s1)" "f \<in> free_set s"
      "free_set s1 = free_set s - {f}" using alloc_some by meson
    have "0 < card (free_set s)" using False finite_free by (simp add: card_gt_0_iff)
    then have "card (free_set s1) < n" using Suc.prems f finite_free by simp
    with Suc.IH [of s1 "acc @ [f]"] Suc.prems(2) f subsetD [OF free_subset f(2)] obtain s' where
      "alloc_loop alloc release n (map int (acc @ [f])) s1 = (None, s')"
      "free_set s' = free_set s1 \<union> set (acc @ [f]) - stuck" by auto
    with f show ?thesis by auto
  qed
qed simp

end

interpretation fr: frame_store avail pool "{NUM_PAG_KERNEL}" "\<lambda>_. alloc_frame"
    "\<lambda>_ f. free_frame (word_of_int f)"
proof unfold_locales
  show "\<exists>f s'. alloc_frame s = (int f, s') \<and> f \<in> avail s \<and> avail s' = avail s - {f}"
    if "avail s \<noteq> {}" for s
    by (cases rule: alloc_frame_cases [of s]) (use that in \<open>auto simp: avail_mark_used\<close>)
  show "alloc_frame s = (-1, s)" if "avail s = {}" for s
    by (cases rule: alloc_frame_cases [of s]) (use that in auto)
  show "avail (free_frame (word_of_int (int f)) s) =
      (if f \<in> {NUM_PAG_KERNEL} then avail s else insert f (avail s))" if "f \<in> pool" for f s
    using avail_free_frame [OF that] by simp
qed (auto simp: avail_def)

end

