(* ===== verification/Memory.thy ===== *)
theory Memory
  imports Paging "HOL-Library.Signed_Division"
begin

text \<open>
  \<^verbatim>\<open>utils.c\<close>: the three copy routines, \<open>access_ok\<close>, and the 64 by 32 bit division
  behind \<open>get_ticks\<close>.

  Memory is physical (\<open>ram\<close>, a byte for every physical address) and every access goes
  through a translation of virtual to physical addresses; an unmapped address faults.
  \<open>translate\<close> is what the processor does with the tables \<^verbatim>\<open>mm.c\<close> builds: a walk of the
  directory \<open>cr3\<close> points at. The kernel runs with write protection off, so in kernel mode
  only the present bits matter.
\<close>

section \<open>Access to memory\<close>

type_synonym ram = "nat \<Rightarrow> u8"
type_synonym translation = "nat \<Rightarrow> nat option"

definition translate :: "mm_state \<Rightarrow> translation" where
  "translate mm a =
     (case cr3 mm of None \<Rightarrow> None
      | Some d \<Rightarrow>
          let pde = dir_pages mm d (a div (PAGE_SIZE * TOTAL_PAGES)) in
          if \<not> present pde then None
          else let pte = pagusr_table mm (unat (pbase_addr pde) - pagusr_page mm)
                           (a div PAGE_SIZE mod TOTAL_PAGES) in
            if present pte then Some (unat (pbase_addr pte) * PAGE_SIZE + a mod PAGE_SIZE) else None)"

definition ld8 :: "translation \<Rightarrow> nat \<Rightarrow> ram \<Rightarrow> u8 option" where
  "ld8 tr a m = map_option m (tr a)"

definition st8 :: "translation \<Rightarrow> nat \<Rightarrow> u8 \<Rightarrow> ram \<Rightarrow> ram option" where
  "st8 tr a v m = map_option (\<lambda>p. m(p := v)) (tr a)"

definition le32 :: "u8 \<Rightarrow> u8 \<Rightarrow> u8 \<Rightarrow> u8 \<Rightarrow> u32" where
  "le32 b0 b1 b2 b3 =
     ucast b0 OR push_bit 8 (ucast b1) OR push_bit 16 (ucast b2) OR push_bit 24 (ucast b3)"

definition byte_of :: "nat \<Rightarrow> u32 \<Rightarrow> u8" where
  "byte_of k w = ucast (drop_bit (8 * k) w)"

definition ld32 :: "translation \<Rightarrow> nat \<Rightarrow> ram \<Rightarrow> u32 option" where
  "ld32 tr a m = do {
     b0 \<leftarrow> ld8 tr a m; b1 \<leftarrow> ld8 tr (a + 1) m; b2 \<leftarrow> ld8 tr (a + 2) m; b3 \<leftarrow> ld8 tr (a + 3) m;
     Some (le32 b0 b1 b2 b3) }"

definition st32 :: "translation \<Rightarrow> nat \<Rightarrow> u32 \<Rightarrow> ram \<Rightarrow> ram option" where
  "st32 tr a w m = do {
     m0 \<leftarrow> st8 tr a (byte_of 0 w) m; m1 \<leftarrow> st8 tr (a + 1) (byte_of 1 w) m0;
     m2 \<leftarrow> st8 tr (a + 2) (byte_of 2 w) m1; st8 tr (a + 3) (byte_of 3 w) m2 }"

lemma translate_cong:
  assumes "cr3 m' = cr3 m" "dir_pages m' = dir_pages m" "pagusr_table m' = pagusr_table m" "pagusr_page m' = pagusr_page m"
  shows "translate m' = translate m"
  by (rule ext) (simp only: translate_def assms)

section \<open>The copy loops\<close>

text \<open>
  \<open>copy_words\<close> is the first loop of \<open>copy_data\<close>, \<open>copy_bytes\<close> the second. The first
  keeps going while \<^emph>\<open>more\<close> than four bytes are left, so the second copies the last one to
  four bytes. The three C functions have the same body.
\<close>

function copy_words :: "translation \<Rightarrow> nat \<Rightarrow> nat \<Rightarrow> int \<Rightarrow> ram \<Rightarrow> (nat \<times> nat \<times> int \<times> ram) option" where
  "copy_words tr p q sz m =
     (if sz > 4
      then Option.bind (ld32 tr p m) (\<lambda>w. Option.bind (st32 tr q w m) (\<lambda>m'.
             copy_words tr (p + 4) (q + 4) (sz - 4) m'))
      else Some (p, q, sz, m))"
  by pat_completeness auto
termination
  by (relation "measure (\<lambda>(tr, p, q, sz, m). nat sz)") auto

declare copy_words.simps [simp del]

fun copy_bytes :: "translation \<Rightarrow> nat \<Rightarrow> nat \<Rightarrow> nat \<Rightarrow> ram \<Rightarrow> ram option" where
  "copy_bytes tr p q 0 m = Some m"
| "copy_bytes tr p q (Suc n) m =
     Option.bind (ld8 tr p m) (\<lambda>b. Option.bind (st8 tr q b m) (\<lambda>m'.
       copy_bytes tr (Suc p) (Suc q) n m'))"

definition copy_data :: "translation \<Rightarrow> nat \<Rightarrow> nat \<Rightarrow> int \<Rightarrow> ram \<Rightarrow> ram option" where
  "copy_data tr start dest sz m = do {
     (p, q, left, m1) \<leftarrow> copy_words tr start dest sz m;
     copy_bytes tr p q (nat left) m1 }"

definition copy_from_user :: "translation \<Rightarrow> nat \<Rightarrow> nat \<Rightarrow> int \<Rightarrow> ram \<Rightarrow> (int \<times> ram) option" where
  "copy_from_user tr start dest sz m = do {
     (p, q, left, m1) \<leftarrow> copy_words tr start dest sz m;
     m2 \<leftarrow> copy_bytes tr p q (nat left) m1;
     Some (0, m2) }"

definition copy_to_user :: "translation \<Rightarrow> nat \<Rightarrow> nat \<Rightarrow> int \<Rightarrow> ram \<Rightarrow> (int \<times> ram) option" where
  "copy_to_user tr start dest sz m = do {
     (p, q, left, m1) \<leftarrow> copy_words tr start dest sz m;
     m2 \<leftarrow> copy_bytes tr p q (nat left) m1;
     Some (0, m2) }"

section \<open>Checking user pointers\<close>

abbreviation (input) VERIFY_READ :: int where "VERIFY_READ \<equiv> 0"
abbreviation (input) VERIFY_WRITE :: int where "VERIFY_WRITE \<equiv> 1"
abbreviation (input) USER_FIRST_PAGE :: u32 where "USER_FIRST_PAGE \<equiv> 256"

text \<open>The \<open>switch\<close> has no \<open>break\<close>: a write that fails its own test falls through to the read's.\<close>

definition access_ok :: "int \<Rightarrow> u32 \<Rightarrow> u32 \<Rightarrow> int" where
  "access_ok type addr sz =
     (let addr_ini = drop_bit 12 addr; addr_fin = drop_bit 12 (addr + sz) in
      if addr_fin < addr_ini then 0
      else if type = VERIFY_WRITE \<and> USER_FIRST_PAGE \<le> addr_ini \<and> addr_fin \<le> USER_FIRST_PAGE + 20 then 1
      else if USER_FIRST_PAGE \<le> addr_ini \<and> addr_fin \<le> USER_FIRST_PAGE + 8 + 20 then 1
      else 0)"

section \<open>Division of the time stamp\<close>

text \<open>
  \<open>divl\<close> divides \<open>upper * 2^32 + low\<close> by a 32-bit base and traps (\<open>None\<close>) when the base
  is zero or the quotient does not fit in 32 bits.
\<close>

definition divl :: "u32 \<Rightarrow> u32 \<Rightarrow> u32 \<Rightarrow> (u32 \<times> u32) option" where
  "divl upper low base =
     (let n = unat upper * 2 ^ 32 + unat low in
      if base = 0 \<or> 2 ^ 32 \<le> n div unat base then None
      else Some (of_nat (n div unat base), of_nat (n mod unat base)))"

definition do_div :: "64 word \<Rightarrow> u32 \<Rightarrow> (64 word \<times> u32) option" where
  "do_div n base =
     (let low = ucast n :: u32; high = ucast (drop_bit 32 n) :: u32;
          upper = (if high \<noteq> 0 then high mod base else high);
          high' = (if high \<noteq> 0 then high div base else high) in
      map_option (\<lambda>(q, r). (push_bit 32 (ucast high') + ucast q, r)) (divl upper low base))"

abbreviation (input) CYCLESPERTICK :: u32 where "CYCLESPERTICK \<equiv> 109000"

definition get_ticks :: "u32 \<Rightarrow> u32 \<Rightarrow> u32 option" where
  "get_ticks edx eax =
     (let ticks = push_bit 32 (ucast edx :: 64 word) + ucast eax in
      map_option (\<lambda>(n, _). ucast n) (do_div ticks CYCLESPERTICK))"

section \<open>Words and bytes\<close>

lemma bit_u8: "8 \<le> n \<Longrightarrow> \<not> bit (b :: u8) n"
  using bit_imp_le_length [of b n] by auto

lemma byte_of_le32 [simp]:
  "byte_of 0 (le32 b0 b1 b2 b3) = b0" "byte_of (Suc 0) (le32 b0 b1 b2 b3) = b1"
  "byte_of 2 (le32 b0 b1 b2 b3) = b2" "byte_of 3 (le32 b0 b1 b2 b3) = b3"
  by (rule bit_word_eqI; auto simp: byte_of_def le32_def bit_simps bit_u8 simp del: One_nat_def)+

lemma ld8_st8:
  "st8 tr a v m = Some m' \<Longrightarrow> ld8 tr b m' = (if tr b = tr a then Some v else ld8 tr b m)"
  by (cases "tr a"; cases "tr b") (auto simp: ld8_def st8_def)

lemma le32_byte_of [simp]: "le32 (byte_of 0 w) (byte_of (Suc 0) w) (byte_of 2 w) (byte_of 3 w) = w"
proof (rule bit_word_eqI)
  fix n assume "n < LENGTH(32)"
  then have "n < 8 \<or> 8 \<le> n \<and> n < 16 \<or> 16 \<le> n \<and> n < 24 \<or> 24 \<le> n \<and> n < 32" by auto
  then show "bit (le32 (byte_of 0 w) (byte_of (Suc 0) w) (byte_of 2 w) (byte_of 3 w)) n \<longleftrightarrow> bit w n"
    by (elim disjE) (auto simp: le32_def byte_of_def bit_simps)
qed

text \<open>Storing a word and reading it back; a load elsewhere does not see the store.\<close>

lemma ld32_st32:
  assumes "st32 tr a w m = Some m'" and "inj_on tr {a..<a + 4}"
  shows "ld32 tr a m' = Some w"
proof -
  have d: "tr (a + i) = tr (a + j) \<longleftrightarrow> i = j" if "i < 4" "j < 4" for i j
    using inj_on_eq_iff [OF assms(2), of "a + i" "a + j"] that by simp
  obtain m0 m1 m2 where s: "st8 tr a (byte_of 0 w) m = Some m0" "st8 tr (a + 1) (byte_of 1 w) m0 = Some m1"
    "st8 tr (a + 2) (byte_of 2 w) m1 = Some m2" "st8 tr (a + 3) (byte_of 3 w) m2 = Some m'"
    using assms(1) by (auto simp: st32_def)
  have "ld8 tr a m' = Some (byte_of 0 w)" "ld8 tr (a + 1) m' = Some (byte_of 1 w)"
    "ld8 tr (a + 2) m' = Some (byte_of 2 w)" "ld8 tr (a + 3) m' = Some (byte_of 3 w)"
    using ld8_st8 [OF s(1)] ld8_st8 [OF s(2)] ld8_st8 [OF s(3)] ld8_st8 [OF s(4)]
      d [of 0 1] d [of 0 2] d [of 0 3] d [of 1 2] d [of 1 3] d [of 2 3] by simp_all
  then show ?thesis by (simp add: ld32_def)
qed

lemma ld32_st32_other:
  assumes "st32 tr a w m = Some m'" and "\<forall>i<4. \<forall>j<4. tr (b + i) \<noteq> tr (a + j)"
  shows "ld32 tr b m' = ld32 tr b m"
proof -
  obtain m0 m1 m2 where s: "st8 tr a (byte_of 0 w) m = Some m0" "st8 tr (a + 1) (byte_of 1 w) m0 = Some m1"
    "st8 tr (a + 2) (byte_of 2 w) m1 = Some m2" "st8 tr (a + 3) (byte_of 3 w) m2 = Some m'"
    using assms(1) by (auto simp: st32_def)
  have "ld8 tr (b + i) m' = ld8 tr (b + i) m" if "i < 4" for i
    using ld8_st8 [OF s(1)] ld8_st8 [OF s(2)] ld8_st8 [OF s(3)] ld8_st8 [OF s(4)]
      assms(2) [rule_format, OF that, of 0] assms(2) [rule_format, OF that, of 1]
      assms(2) [rule_format, OF that, of 2] assms(2) [rule_format, OF that, of 3] by simp
  from this [of 0] this [of 1] this [of 2] this [of 3] show ?thesis by (simp add: ld32_def)
qed

lemma st32_mapped:
  assumes "\<forall>i<4. tr (a + i) \<noteq> None"
  shows "\<exists>m'. st32 tr a w m = Some m'"
  using assms [rule_format, of 0] assms [rule_format, of 1] assms [rule_format, of 2] assms [rule_format, of 3]
  by (auto simp: st32_def st8_def)

text \<open>A store of a word, by the places of its bytes.\<close>

lemma st32_places:
  assumes "\<forall>j < 4. tr (a + j) = Some (P j)" and "inj_on P {..<4}"
  shows "\<exists>m'. st32 tr a w m = Some m' \<and> (\<forall>j < 4. m' (P j) = byte_of j w) \<and> (\<forall>x. x \<notin> P ` {..<4} \<longrightarrow> m' x = m x)"
proof -
  have t: "tr a = Some (P 0)" "tr (a + 1) = Some (P 1)" "tr (a + 2) = Some (P 2)" "tr (a + 3) = Some (P 3)"
    using assms(1) [rule_format, of 0] assms(1) [rule_format, of 1] assms(1) [rule_format, of 2] assms(1) [rule_format, of 3]
    by simp_all
  have d: "P i \<noteq> P j" if "i < j" "j < 4" for i j using inj_onD [OF assms(2), of i j] that by auto
  let ?m = "m(P 0 := byte_of 0 w, P 1 := byte_of 1 w, P 2 := byte_of 2 w, P 3 := byte_of 3 w)"
  have "st32 tr a w m = Some ?m" using t by (simp add: st32_def st8_def del: One_nat_def)
  moreover have "?m (P j) = byte_of j w" if "j < 4" for j
  proof -
    have "j = 0 \<or> j = 1 \<or> j = 2 \<or> j = 3" using that by linarith
    then show ?thesis using d [of 0 1] d [of 0 2] d [of 0 3] d [of 1 2] d [of 1 3] d [of 2 3] by (auto simp del: One_nat_def)
  qed
  moreover have "?m x = m x" if "x \<notin> P ` {..<4}" for x using that by (auto simp del: One_nat_def)
  ultimately show ?thesis by blast
qed

text \<open>Moving a word is moving its four bytes one by one, when no byte written is read later.\<close>

definition apart :: "translation \<Rightarrow> nat \<Rightarrow> nat \<Rightarrow> nat \<Rightarrow> bool" where
  "apart tr p q n \<longleftrightarrow> (\<forall>i<n. \<forall>j<n. tr (p + i) \<noteq> None \<longrightarrow> tr (p + i) \<noteq> tr (q + j))"

lemma apart_shift: "apart tr p q n \<Longrightarrow> k + i \<le> n \<Longrightarrow> apart tr (p + k) (q + k) i"
  unfolding apart_def by (simp add: add.assoc)

lemma copy_bytes_fun:
  "copy_bytes tr p q 0 = Some"
  "copy_bytes tr p q (Suc n) = (\<lambda>m. Option.bind (ld8 tr p m) (\<lambda>b. Option.bind (st8 tr q b m)
     (copy_bytes tr (Suc p) (Suc q) n)))"
  by (simp_all add: fun_eq_iff)

lemma copy_bytes_add:
  "copy_bytes tr p q (a + b) m = Option.bind (copy_bytes tr p q a m) (copy_bytes tr (p + a) (q + a) b)"
proof (induction a arbitrary: p q m)
  case (Suc a)
  then have "copy_bytes tr (Suc p) (Suc q) (a + b) =
    (\<lambda>m. Option.bind (copy_bytes tr (Suc p) (Suc q) a m) (copy_bytes tr (p + Suc a) (q + Suc a) b))"
    by (simp add: fun_eq_iff)
  then show ?case by (simp add: Option.bind_assoc)
qed simp

lemma copy_bytes_4:
  "copy_bytes tr p q 4 m = do {
     b0 \<leftarrow> ld8 tr p m; m0 \<leftarrow> st8 tr q b0 m;
     b1 \<leftarrow> ld8 tr (p + 1) m0; m1 \<leftarrow> st8 tr (q + 1) b1 m0;
     b2 \<leftarrow> ld8 tr (p + 2) m1; m2 \<leftarrow> st8 tr (q + 2) b2 m1;
     b3 \<leftarrow> ld8 tr (p + 3) m2; st8 tr (q + 3) b3 m2 }"
  by (simp add: numeral_eq_Suc copy_bytes_fun cong: option.case_cong)

lemma copy_bytes_fault:
  "i < n \<Longrightarrow> tr (p + i) = None \<or> tr (q + i) = None \<Longrightarrow> copy_bytes tr p q n m = None"
proof (induction n arbitrary: p q i m)
  case (Suc n)
  show ?case
  proof (cases i)
    case 0
    then show ?thesis using Suc.prems by (cases "tr p") (auto simp: ld8_def st8_def)
  next
    case (Suc k)
    then have "copy_bytes tr (Suc p) (Suc q) n = (\<lambda>_. None)"
      using Suc.IH [of k "Suc p" "Suc q"] Suc.prems by (auto simp: fun_eq_iff)
    then show ?thesis by (simp add: copy_bytes_fun)
  qed
qed simp

lemma word_step:
  assumes "apart tr p q 4"
  shows "Option.bind (ld32 tr p m) (\<lambda>w. st32 tr q w m) = copy_bytes tr p q 4 m"
proof -
  have a: "x \<noteq> y" if "tr (p + i) = Some x" "tr (q + j) = Some y" "i < 4" "j < 4" for i j x y
    using assms that unfolding apart_def by (metis option.distinct(1) option.sel)
  show ?thesis
  proof (cases "tr p = None \<or> tr (p + 1) = None \<or> tr (p + 2) = None \<or> tr (p + 3) = None \<or>
       tr q = None \<or> tr (q + 1) = None \<or> tr (q + 2) = None \<or> tr (q + 3) = None")
    case True
    then have "copy_bytes tr p q 4 m = None"
      by (elim disjE) (simp_all add: copy_bytes_fault [of 0] copy_bytes_fault [of 1]
          copy_bytes_fault [of 2] copy_bytes_fault [of 3])
    moreover from True have "ld32 tr p m = None \<or> (\<forall>w. st32 tr q w m = None)"
      by (elim disjE) (simp_all add: ld32_def st32_def ld8_def st8_def)
    ultimately show ?thesis by (auto split: bind_split)
  next
    case False
    then obtain x0 x1 x2 x3 y0 y1 y2 y3 where t:
      "tr p = Some x0" "tr (p + 1) = Some x1" "tr (p + 2) = Some x2" "tr (p + 3) = Some x3"
      "tr q = Some y0" "tr (q + 1) = Some y1" "tr (q + 2) = Some y2" "tr (q + 3) = Some y3"
      by (auto simp del: One_nat_def)
    have "x1 \<noteq> y0" "x2 \<noteq> y0" "x3 \<noteq> y0" "x2 \<noteq> y1" "x3 \<noteq> y1" "x3 \<noteq> y2"
      using a [of 1 x1 0 y0] a [of 2 x2 0 y0] a [of 3 x3 0 y0] a [of 2 x2 1 y1] a [of 3 x3 1 y1]
        a [of 3 x3 2 y2] t by (simp_all del: One_nat_def)
    then show ?thesis unfolding copy_bytes_4 ld32_def st32_def ld8_def st8_def t by simp
  qed
qed

lemma copy_words_then_bytes:
  assumes "apart tr p q (nat sz)"
  shows "Option.bind (copy_words tr p q sz m) (\<lambda>(p', q', left, m1). copy_bytes tr p' q' (nat left) m1) =
     copy_bytes tr p q (nat sz) m"
  using assms
proof (induction "nat sz" arbitrary: p q sz m rule: less_induct)
  case less
  show ?case
  proof (cases "sz > 4")
    case True
    let ?tail = "\<lambda>m'. Option.bind (copy_words tr (p + 4) (q + 4) (sz - 4) m')
      (\<lambda>(p', q', left, m1). copy_bytes tr p' q' (nat left) m1)"
    have n: "nat sz = 4 + nat (sz - 4)" using True by simp
    have ap: "apart tr p q 4" "apart tr (p + 4) (q + 4) (nat (sz - 4))"
      using apart_shift [OF less.prems, of 0 4] apart_shift [OF less.prems, of 4 "nat (sz - 4)"] n
      by simp_all
    have "?tail = copy_bytes tr (p + 4) (q + 4) (nat (sz - 4))"
      using less.hyps [of "sz - 4" "p + 4" "q + 4"] True ap by (simp add: fun_eq_iff)
    then have "Option.bind (Option.bind (ld32 tr p m) (\<lambda>w. st32 tr q w m)) ?tail = copy_bytes tr p q (nat sz) m"
      by (simp only: word_step [OF ap(1)] n copy_bytes_add)
    then show ?thesis using True by (simp add: copy_words.simps [of tr p q sz] Option.bind_assoc)
  qed (simp add: copy_words.simps [of tr p q sz])
qed

lemma copy_bytes_blit:
  assumes "\<And>i. i < n \<Longrightarrow> tr (p + i) = Some (P i) \<and> tr (q + i) = Some (Q i)"
    and "\<And>i j. i < n \<Longrightarrow> j < n \<Longrightarrow> P i \<noteq> Q j" and "inj_on Q {..<n}"
  shows "\<exists>m'. copy_bytes tr p q n m = Some m' \<and> (\<forall>i<n. m' (Q i) = m (P i)) \<and>
     (\<forall>x. x \<notin> Q ` {..<n} \<longrightarrow> m' x = m x)"
  using assms
proof (induction n)
  case (Suc n)
  obtain m1 where m1: "copy_bytes tr p q n m = Some m1" "\<forall>i<n. m1 (Q i) = m (P i)"
    "\<forall>x. x \<notin> Q ` {..<n} \<longrightarrow> m1 x = m x"
    using Suc.IH Suc.prems by (auto simp: inj_on_def less_Suc_eq)
  let ?m' = "m1(Q n := m1 (P n))"
  have "copy_bytes tr p q (Suc n) m = Some ?m'"
    using copy_bytes_add [of tr p q n 1 m] m1 Suc.prems(1) [of n] by (simp add: ld8_def st8_def)
  moreover have "Q i \<noteq> Q n" if "i < n" for i using Suc.prems(3) that by (auto simp: inj_on_def)
  moreover have "P n \<notin> Q ` {..<n}" using Suc.prems(2) by (auto simp: less_Suc_eq)
  ultimately show ?case using m1 by (auto simp: less_Suc_eq lessThan_Suc)
qed simp

text \<open>C31. When no byte written by the copy is read by it later, the copy loops of \<open>copy_data\<close>,
  four bytes at a time and then one at a time, do exactly what copying byte by byte does,
  faults included.\<close>
theorem copy_data_eq_bytes:
  assumes "apart tr start dest (nat sz)"
  shows "copy_data tr start dest sz m = copy_bytes tr start dest (nat sz) m"
  using copy_words_then_bytes [OF assms, of m] by (simp add: copy_data_def)

lemma copy_data_eq_bytes_witness:
  "copy_data Some 0 100 8 (\<lambda>_. 7) = copy_bytes Some 0 100 8 (\<lambda>_. 7)"
  using copy_data_eq_bytes [of Some 0 100 8 "\<lambda>_. 7"] by (simp add: apart_def)

lemma copy_user_eq:
  "copy_from_user tr p q sz m = map_option (Pair 0) (copy_data tr p q sz m)"
  "copy_to_user tr p q sz m = map_option (Pair 0) (copy_data tr p q sz m)"
  by (cases "copy_words tr p q sz m";
      auto simp: copy_from_user_def copy_to_user_def copy_data_def map_conv_bind_option comp_def)+

lemma copy_data_blit:
  assumes "\<And>i. i < nat sz \<Longrightarrow> tr (p + i) = Some (P i) \<and> tr (q + i) = Some (Q i)"
    and "\<And>i j. i < nat sz \<Longrightarrow> j < nat sz \<Longrightarrow> P i \<noteq> Q j" and "inj_on Q {..<nat sz}"
  shows "\<exists>m'. copy_data tr p q sz m = Some m' \<and> (\<forall>i<nat sz. m' (Q i) = m (P i)) \<and>
     (\<forall>x. x \<notin> Q ` {..<nat sz} \<longrightarrow> m' x = m x)"
proof -
  have "apart tr p q (nat sz)" using assms(1,2) by (auto simp: apart_def)
  with copy_bytes_blit [of "nat sz" tr p P q Q m] assms show ?thesis
    by (simp add: copy_words_then_bytes copy_data_def)
qed

section \<open>Access checks\<close>

text \<open>The two kinds of check are the same function: the write case of the switch falls
  through into the read case, so \<open>VERIFY_WRITE\<close> accepts the (read-only) code pages too.\<close>
theorem access_ok_write_is_read: "access_ok VERIFY_WRITE addr sz = access_ok VERIFY_READ addr sz"
proof -
  have "x \<le> USER_FIRST_PAGE + 20 \<Longrightarrow> x \<le> USER_FIRST_PAGE + 8 + 20" for x :: u32
    by (simp add: word_le_nat_alt)
  then show ?thesis by (auto simp: access_ok_def Let_def)
qed

text \<open>C33. For a size that fits in a non-negative \<open>int\<close>, \<open>access_ok\<close> accepts exactly the blocks
  that start at or above the first user page and end below page 285: the data and code pages,
  and also page 284, the first page of the heap, which need not be mapped.\<close>
theorem access_ok_range:
  assumes "unat sz < 2 ^ 31"
  shows "access_ok type addr sz = (if 256 * 4096 \<le> unat addr \<and> unat addr + unat sz < 285 * 4096 then 1 else 0)"
proof -
  have p: "unat (drop_bit 12 x) = unat x div 4096" for x :: u32
    by (simp add: unsigned_drop_bit_eq drop_bit_eq_div unat_div)
  have s: "unat (addr + sz) = (if unat addr + unat sz < 2^32 then unat addr + unat sz else unat addr + unat sz - 2^32)"
    using unat_u32 [of addr] assms by (simp add: unat_word_ariths mod_if)
  have r: "access_ok type addr sz = (if unat (addr + sz) div 4096 < unat addr div 4096 then 0
     else if 256 \<le> unat addr div 4096 \<and> unat (addr+sz) div 4096 \<le> 284 then 1 else 0)"
    by (auto simp: access_ok_def Let_def word_le_nat_alt word_less_nat_alt p)
  show ?thesis unfolding r using s unat_u32 [of addr] assms by auto
qed

lemma access_ok_range_witness:
  "access_ok 0 0x100000 8 = 1 \<and> access_ok 1 0x11C000 16 = 1 \<and> access_ok 0 0xFFFFF 1 = 0"
  using access_ok_range [of 8 0 "0x100000"] access_ok_range [of 16 1 "0x11C000"]
    access_ok_range [of 1 0 "0xFFFFF"] by simp

section \<open>Division\<close>

lemma div_split: 
  assumes "0 < (b::nat)"
  shows "(h * K + l) div b = (h div b) * K + ((h mod b) * K + l) div b"
   "(h * K + l) mod b = ((h mod b) * K + l) mod b"
proof -
  have e: "h * K + l = (h mod b * K + l) + (h div b * K) * b"
    by (metis (no_types, opaque_lifting) add.assoc add.commute distrib_right div_mult_mod_eq mult.assoc mult.commute)
  show "(h * K + l) div b = (h div b) * K + ((h mod b) * K + l) div b"
    unfolding e using assms by simp
  show "(h * K + l) mod b = ((h mod b) * K + l) mod b" unfolding e by simp
qed

lemma unat_halves: "unat (n :: 64 word) = unat (ucast (drop_bit 32 n) :: u32) * 2^32 + unat (ucast n :: u32)"
proof -
  have "unat n div 4294967296 < 4294967296" using unat_u64 [of n] by simp
  then show ?thesis by (simp add: unsigned_ucast_eq unsigned_drop_bit_eq take_bit_eq_mod drop_bit_eq_div unat_div)
qed
   

lemma unat_shift32: "unat (push_bit 32 (ucast (x :: u32)) :: 64 word) = unat x * 4294967296"
  using unat_u32 [of x]
  by (subst unsigned_push_bit_eq) (simp add: unsigned_ucast_eq take_bit_nat_eq_self push_bit_eq_mult)

lemma do_div_correct:
  assumes "base \<noteq> 0"
  shows "\<exists>q r. do_div n base = Some (q, r) \<and> unat q = unat n div unat base \<and> unat r = unat n mod unat base"
proof -
  let ?h = "unat (ucast (drop_bit 32 n) :: u32)" and ?l = "unat (ucast n :: u32)" and ?b = "unat base"
  have b: "0 < ?b" using assms by (simp add: word_greater_zero_iff unat_gt_0)
  let ?q = "(?h mod ?b * 2^32 + ?l) div ?b" and ?r = "(?h mod ?b * 2^32 + ?l) mod ?b"
  have l: "?l < 2^32" using unat_u32 [of "ucast n :: u32"] by simp
  have bb: "?b < 2^32" using unat_u32 [of base] by simp
  have "?h mod ?b + 1 \<le> ?b" using b by (simp add: Suc_leI)
  then have "(?h mod ?b + 1) * 2^32 \<le> ?b * 2^32" by (rule mult_le_mono1)
  then have q: "?q < 2^32" using l by (simp add: less_mult_imp_div_less algebra_simps)
  have r: "?r < 2^32" using b bb by (meson mod_less_divisor order.strict_trans)
  let ?H = "ucast (drop_bit 32 n) :: u32" and ?L = "ucast n :: u32"
  have div: "divl (?H mod base) ?L base = Some (of_nat ?q, of_nat ?r)"
    using q assms by (simp add: divl_def Let_def unat_mod)
  have m0: "(if ?H \<noteq> 0 then ?H mod base else ?H) = ?H mod base"
    "(if ?H \<noteq> 0 then ?H div base else ?H) = ?H div base" by simp_all
  have eq: "do_div n base = Some (push_bit 32 (ucast (?H div base)) + ucast (of_nat ?q :: u32), of_nat ?r)"
    unfolding do_div_def Let_def m0 div by simp
  have hb: "?h div ?b < 2^32" by (rule le_less_trans [OF div_le_dividend]) (use unat_u32 [of ?H] in simp)
  have total: "unat n div ?b = ?h div ?b * 2^32 + ?q" "unat n mod ?b = ?r"
    using div_split [OF b, of ?h "2^32" ?l] unat_halves [of n] by simp_all
  have u1: "unat (push_bit 32 (ucast (?H div base) :: 64 word)) = ?h div ?b * 2^32"
    by (simp only: unat_shift32 unat_div) simp
  have u2: "unat (ucast (of_nat ?q :: u32) :: 64 word) = ?q"
    using q by (simp add: unsigned_ucast_eq unat_of_nat take_bit_nat_eq_self)
  have "?h div ?b * 2^32 + ?q < 2^64" using hb q by simp
  then have "unat (push_bit 32 (ucast (?H div base)) + ucast (of_nat ?q :: u32) :: 64 word) = ?h div ?b * 2^32 + ?q"
    using u1 u2 by (simp add: unat_word_ariths)
  moreover have "unat (of_nat ?r :: u32) = ?r" using r by (simp add: unat_of_nat take_bit_nat_eq_self)
  ultimately show ?thesis using eq total by simp
qed
lemma unat_join: "unat (push_bit 32 (ucast (h :: u32)) + ucast (l :: u32) :: 64 word) = unat h * 2 ^ 32 + unat l"
  using unat_u32 [of h] unat_u32 [of l] unat_shift32 [of h]
  by (subst unat_word_ariths) (simp add: unsigned_ucast_eq take_bit_nat_eq_self)

text \<open>\<open>get_ticks\<close> never traps and returns the time stamp counter divided by the cycles of a
  tick, modulo \<open>2^32\<close>: the two-step division of the \<open>do_div\<close> macro is the 64-bit division.\<close>
lemma get_ticks_correct:
  "\<exists>t. get_ticks edx eax = Some t \<and>
       unat t = (unat edx * 2 ^ 32 + unat eax) div 109000 mod 2 ^ 32"
proof -
  obtain q r where q: "do_div (push_bit 32 (ucast edx) + ucast eax) CYCLESPERTICK = Some (q, r)"
    "unat q = (unat edx * 2 ^ 32 + unat eax) div 109000"
    using do_div_correct [of CYCLESPERTICK "push_bit 32 (ucast edx) + ucast eax"] unat_join [of edx eax]
    by auto
  then show ?thesis by (simp add: get_ticks_def unsigned_ucast_eq take_bit_eq_mod)
qed

end
