(* ===== verification/Tables.thy ===== *)
theory Tables
  imports Paging
begin

unbundle bit_operations_syntax

text \<open>
  The tables of the processor, which \<open>main\<close> of \<^verbatim>\<open>system.c\<close> fills first: the gates and descriptors of
  \<^verbatim>\<open>include/types.h\<close>, \<open>setInterruptHandler\<close>, \<open>setTrapHandler\<close> and \<open>setIdt\<close> of \<^verbatim>\<open>interrupt.c\<close>, and
  \<open>setGdt\<close> and \<open>setTSS\<close> of \<^verbatim>\<open>mm.c\<close>. The addresses the linker gives to functions and variables are the
  record \<open>symbols\<close>; \<open>set_handlers\<close>, which fills the gates of the exceptions, is in the archive
  \<^verbatim>\<open>libzeos.a\<close> and is a parameter. What the archive's machine code does is the predicate
  \<open>sets_exceptions\<close>: one call of \<open>setInterruptHandler\<close> for each of the vectors 0 to 17, whose routines
  \<^verbatim>\<open>include/zeos_interrupt.h\<close> declares, and none for another. The fields of the task state segment carry the prefix
  \<open>t_\<close>, those of the tables' state the prefix \<open>hw_\<close> where they are registers of the processor.
\<close>

section \<open>Data\<close>

definition highWord :: "u32 \<Rightarrow> u16" where "highWord address = ucast (drop_bit 16 address AND 0xFFFF)"
definition lowWord :: "u32 \<Rightarrow> u16" where "lowWord address = ucast (address AND 0xFFFF)"
definition midByte :: "u32 \<Rightarrow> u8" where "midByte address = ucast (drop_bit 16 address AND 0xFF)"
definition highByte :: "u32 \<Rightarrow> u8" where "highByte address = ucast (drop_bit (16 + 8) address AND 0xFF)"

record Descriptor =
  limit :: u16
  lowBase :: u16
  midBase :: u8
  flags1 :: u8
  flags2 :: u8
  highBase :: u8

record Gate =
  lowOffset :: u16
  segmentSelector :: u16
  gate_flags :: u16
  highOffset :: u16

record TSS =
  t_PreviousTaskLink :: u16
  t_esp0 :: u32
  t_ss0 :: u16
  t_esp1 :: u32
  t_ss1 :: u16
  t_esp2 :: u32
  t_ss2 :: u16
  t_cr3 :: u32
  t_eip :: u32
  t_eFlags :: u32
  t_eax :: u32
  t_ecx :: u32
  t_edx :: u32
  t_ebx :: u32
  t_esp :: u32
  t_ebp :: u32
  t_esi :: u32
  t_edi :: u32
  t_es :: u16
  t_cs :: u16
  t_ss :: u16
  t_ds :: u16
  t_fs :: u16
  t_gs :: u16
  t_LDTSegmentSelector :: u16
  t_debugTrap :: u16
  t_IOMapBaseAddress :: u16

record Register =
  reg_limit :: u16
  reg_base :: u32

record symbols =
  a_idt :: u32
  a_tss :: u32
  a_initial_esp :: u32
  a_keyboard_handler :: u32
  a_clock_handler :: u32
  a_page_fault_handler_2 :: u32
  a_system_call_handler :: u32
  a_syscall_handler_sysenter :: u32

record tables =
  idt :: "nat \<Rightarrow> Gate"
  gdt :: "nat \<Rightarrow> Descriptor"
  tss :: TSS
  hw_idt :: Register
  hw_gdt :: Register
  hw_task :: u16
  hw_msr :: "u32 \<Rightarrow> u32"

abbreviation (input) KERNEL_CS :: u16 where "KERNEL_CS \<equiv> 0x10"
abbreviation (input) KERNEL_DS :: u16 where "KERNEL_DS \<equiv> 0x18"
abbreviation (input) USER_CS :: u16 where "USER_CS \<equiv> 0x23"
abbreviation (input) USER_DS :: u16 where "USER_DS \<equiv> 0x2B"
abbreviation (input) KERNEL_TSS :: u16 where "KERNEL_TSS \<equiv> 0x30"
abbreviation (input) GDT_START :: u32 where "GDT_START \<equiv> 0x901b3"
abbreviation (input) INITIAL_EFLAGS :: u32 where "INITIAL_EFLAGS \<equiv> 0x200"
abbreviation (input) IDT_ENTRIES :: nat where "IDT_ENTRIES \<equiv> 256"

definition USER_ESP :: u32 where
  "USER_ESP = 0x100000 + of_nat NUM_PAG_DATA * 0x1000 - 16"

section \<open>Code\<close>

definition setInterruptHandler :: "nat \<Rightarrow> u32 \<Rightarrow> int \<Rightarrow> tables \<Rightarrow> tables" where
  "setInterruptHandler vector handler maxAccessibleFromPL t =
     (let flags = word_of_int (push_bit 13 maxAccessibleFromPL) OR 0x8E00
      in t\<lparr>idt := (idt t)(vector := \<lparr>lowOffset = lowWord handler, segmentSelector = KERNEL_CS,
             gate_flags = flags, highOffset = highWord handler\<rparr>)\<rparr>)"

definition setTrapHandler :: "nat \<Rightarrow> u32 \<Rightarrow> int \<Rightarrow> tables \<Rightarrow> tables" where
  "setTrapHandler vector handler maxAccessibleFromPL t =
     (let flags = word_of_int (push_bit 13 maxAccessibleFromPL) OR 0x8E00
      in t\<lparr>idt := (idt t)(vector := \<lparr>lowOffset = lowWord handler, segmentSelector = KERNEL_CS,
             gate_flags = flags, highOffset = highWord handler\<rparr>)\<rparr>)"

definition writeMSR :: "u32 \<Rightarrow> u32 \<Rightarrow> tables \<Rightarrow> tables" where
  "writeMSR m v t = t\<lparr>hw_msr := (hw_msr t)(m := v)\<rparr>"

text \<open>A \<open>Gate\<close> and a \<open>Descriptor\<close> have eight bytes.\<close>

definition setIdt :: "((nat \<Rightarrow> Gate) \<Rightarrow> nat \<Rightarrow> Gate) \<Rightarrow> symbols \<Rightarrow> tables \<Rightarrow> tables" where
  "setIdt set_handlers y t =
     (let t1 = t\<lparr>idt := set_handlers (idt t)\<rparr>;
          t2 = setInterruptHandler 33 (a_keyboard_handler y) 0 t1;
          t3 = setInterruptHandler 32 (a_clock_handler y) 0 t2;
          t4 = setInterruptHandler 14 (a_page_fault_handler_2 y) 0 t3;
          t5 = setTrapHandler 0x80 (a_system_call_handler y) 3 t4;
          t6 = writeMSR 0x174 (ucast KERNEL_CS) t5;
          t7 = writeMSR 0x175 (a_initial_esp y) t6;
          t8 = writeMSR 0x176 (a_syscall_handler_sysenter y) t7
      in t8\<lparr>hw_idt := \<lparr>reg_limit = of_nat (IDT_ENTRIES * 8 - 1), reg_base = a_idt y\<rparr>\<rparr>)"

definition setGdt :: "symbols \<Rightarrow> tables \<Rightarrow> tables" where
  "setGdt y t =
     (let i = unat (drop_bit 3 KERNEL_TSS);
          d = (gdt t i)\<lparr>lowBase := lowWord (a_tss y), midBase := midByte (a_tss y), highBase := highByte (a_tss y)\<rparr>
      in t\<lparr>gdt := (gdt t)(i := d), hw_gdt := \<lparr>reg_limit = of_nat (256 * 8), reg_base = GDT_START\<rparr>\<rparr>)"

definition setTSS :: "symbols \<Rightarrow> tables \<Rightarrow> tables" where
  "setTSS y t =
     t\<lparr>tss := \<lparr>t_PreviousTaskLink = 0, t_esp0 = a_initial_esp y, t_ss0 = KERNEL_DS, t_esp1 = 0, t_ss1 = 0,
         t_esp2 = 0, t_ss2 = 0, t_cr3 = 0, t_eip = 0, t_eFlags = INITIAL_EFLAGS, t_eax = 0, t_ecx = 0,
         t_edx = 0, t_ebx = t_ebx (tss t), t_esp = USER_ESP, t_ebp = USER_ESP, t_esi = 0, t_edi = 0,
         t_es = USER_DS, t_cs = USER_CS, t_ss = USER_DS, t_ds = USER_DS, t_fs = 0, t_gs = 0,
         t_LDTSegmentSelector = KERNEL_TSS, t_debugTrap = 0, t_IOMapBaseAddress = 0\<rparr>,
       hw_task := KERNEL_TSS\<rparr>"

text \<open>The three calls of \<open>main\<close>.\<close>

definition init_tables :: "((nat \<Rightarrow> Gate) \<Rightarrow> nat \<Rightarrow> Gate) \<Rightarrow> symbols \<Rightarrow> tables \<Rightarrow> tables" where
  "init_tables set_handlers y t = setTSS y (setIdt set_handlers y (setGdt y t))"

section \<open>How the processor reads the tables\<close>

definition gate_offset :: "Gate \<Rightarrow> u32" where
  "gate_offset g = push_bit 16 (ucast (highOffset g)) OR ucast (lowOffset g)"

definition gate_dpl :: "Gate \<Rightarrow> nat" where
  "gate_dpl g = unat (drop_bit 13 (gate_flags g) AND 3)"

text \<open>Present, a system descriptor, a 32-bit interrupt gate, into the code segment of the kernel.\<close>

definition interrupt_gate :: "Gate \<Rightarrow> bool" where
  "interrupt_gate g \<longleftrightarrow> gate_flags g AND 0x9F00 = 0x8E00 \<and> segmentSelector g = KERNEL_CS"

definition gate_present :: "Gate \<Rightarrow> bool" where
  "gate_present g \<longleftrightarrow> bit (gate_flags g) 15"

definition segment_base :: "Descriptor \<Rightarrow> u32" where
  "segment_base d = push_bit 24 (ucast (highBase d)) OR push_bit 16 (ucast (midBase d)) OR ucast (lowBase d)"

lemma low_masks: "(0xFFFF :: u32) = mask 16" "(0xFF :: u32) = mask 8"
  by (simp_all add: mask_eq_exp_minus_1)

lemma gate_words: "push_bit 16 (ucast (highWord a)) OR ucast (lowWord a) = a"
proof (rule bit_word_eqI)
  fix n :: nat
  assume "n < LENGTH(32)"
  moreover from this have "n - 16 < 16" by simp
  ultimately show "bit (push_bit 16 (ucast (highWord a)) OR ucast (lowWord a) :: u32) n \<longleftrightarrow> bit a n"
    by (cases "n < 16") (simp_all add: highWord_def lowWord_def low_masks bit_simps)
qed

lemma segment_bytes:
  "push_bit 24 (ucast (highByte a)) OR push_bit 16 (ucast (midByte a)) OR ucast (lowWord a) = a"
proof (rule bit_word_eqI)
  fix n :: nat
  assume "n < LENGTH(32)"
  then show "bit (push_bit 24 (ucast (highByte a)) OR push_bit 16 (ucast (midByte a)) OR ucast (lowWord a) :: u32) n \<longleftrightarrow> bit a n"
    by (cases "n < 16"; cases "n < 24") (simp_all add: highByte_def midByte_def lowWord_def low_masks bit_simps less_diff_conv2)
qed

lemma gate_flags_ok:
  assumes "pl \<in> {0..3}"
  shows "(word_of_int (push_bit 13 pl) OR 0x8E00) AND (0x9F00 :: u16) = 0x8E00"
    "unat (drop_bit 13 (word_of_int (push_bit 13 pl) OR (0x8E00 :: u16)) AND 3) = nat pl"
proof -
  have "pl \<in> {0, 1, 2, 3}" using assms by auto
  then show "(word_of_int (push_bit 13 pl) OR 0x8E00) AND (0x9F00 :: u16) = 0x8E00"
    "unat (drop_bit 13 (word_of_int (push_bit 13 pl) OR (0x8E00 :: u16)) AND 3) = nat pl"
    by (auto simp: push_bit_eq_mult drop_bit_eq_div)
qed

text \<open>A handler that is set is the one the processor calls, at the privilege level that was given.\<close>

definition gate_for :: "u32 \<Rightarrow> int \<Rightarrow> Gate" where
  "gate_for h pl = \<lparr>lowOffset = lowWord h, segmentSelector = KERNEL_CS,
     gate_flags = word_of_int (push_bit 13 pl) OR 0x8E00, highOffset = highWord h\<rparr>"

lemma gate_for_ok:
  assumes "pl \<in> {0..3}"
  shows "interrupt_gate (gate_for h pl)" "gate_offset (gate_for h pl) = h" "gate_dpl (gate_for h pl) = nat pl"
    "gate_present (gate_for h pl)"
proof -
  show "interrupt_gate (gate_for h pl)" "gate_offset (gate_for h pl) = h" "gate_dpl (gate_for h pl) = nat pl"
    using gate_flags_ok [OF assms]
    by (simp_all add: gate_for_def setInterruptHandler_def Let_def interrupt_gate_def gate_offset_def gate_dpl_def gate_words)
  show "gate_present (gate_for h pl)" by (simp add: gate_present_def gate_for_def bit_or_iff)
qed

lemma setInterruptHandler_eq:
  "setInterruptHandler v h pl t = t\<lparr>idt := (idt t)(v := gate_for h pl)\<rparr>"
  "setTrapHandler v h pl t = t\<lparr>idt := (idt t)(v := gate_for h pl)\<rparr>"
  by (simp_all add: gate_for_def setInterruptHandler_def setTrapHandler_def Let_def)

text \<open>The contract of \<open>set_handlers\<close> of the archive: \<open>setInterruptHandler(v, hs v, 0)\<close> for the 18 exceptions.\<close>

abbreviation (input) NUM_EXCEPTIONS :: nat where "NUM_EXCEPTIONS \<equiv> 18"

definition sets_exceptions :: "((nat \<Rightarrow> Gate) \<Rightarrow> nat \<Rightarrow> Gate) \<Rightarrow> (nat \<Rightarrow> u32) \<Rightarrow> bool" where
  "sets_exceptions set_handlers hs \<longleftrightarrow> (\<forall>t. t\<lparr>idt := set_handlers (idt t)\<rparr> =
     fold (\<lambda>v. setInterruptHandler v (hs v) 0) [0..<NUM_EXCEPTIONS] t)"

lemma fold_handlers:
  "fold (\<lambda>v. setInterruptHandler v (hs v) 0) [0..<n] t = t\<lparr>idt := (\<lambda>v. if v < n then gate_for (hs v) 0 else idt t v)\<rparr>"
  by (induction n) (auto simp: setInterruptHandler_eq fun_eq_iff intro!: tables.equality)

lemma sets_exceptions_gates:
  fixes t :: tables
  assumes "sets_exceptions set_handlers hs"
  shows "set_handlers (idt t) v = (if v < NUM_EXCEPTIONS then gate_for (hs v) 0 else idt t v)"
proof -
  have "idt (t\<lparr>idt := set_handlers (idt t)\<rparr>) v = idt (fold (\<lambda>v. setInterruptHandler v (hs v) 0) [0..<NUM_EXCEPTIONS] t) v"
    using assms by (simp only: sets_exceptions_def)
  then show ?thesis unfolding fold_handlers by simp
qed

lemma init_tables_eq:
  "idt (init_tables set_handlers y t) = (set_handlers (idt t))(33 := gate_for (a_keyboard_handler y) 0,
     32 := gate_for (a_clock_handler y) 0, 14 := gate_for (a_page_fault_handler_2 y) 0, 0x80 := gate_for (a_system_call_handler y) 3)"
  "gdt (init_tables set_handlers y t) = (gdt t)(6 := (gdt t 6)\<lparr>lowBase := lowWord (a_tss y), midBase := midByte (a_tss y),
     highBase := highByte (a_tss y)\<rparr>)"
  "hw_idt (init_tables set_handlers y t) = \<lparr>reg_limit = 2047, reg_base = a_idt y\<rparr>"
  "hw_gdt (init_tables set_handlers y t) = \<lparr>reg_limit = 2048, reg_base = GDT_START\<rparr>"
  "hw_task (init_tables set_handlers y t) = 0x30" "t_esp0 (tss (init_tables set_handlers y t)) = a_initial_esp y"
  "hw_msr (init_tables set_handlers y t) 0x175 = a_initial_esp y"
  by (simp_all add: init_tables_def setTSS_def setIdt_def setGdt_def writeMSR_def setInterruptHandler_eq Let_def drop_bit_eq_div)

section \<open>The tables after the start\<close>


text \<open>Handlers of the archive 64 bytes apart, on a memory of zeros.\<close>

definition blank_tables :: tables where
  "blank_tables = \<lparr>idt = (\<lambda>_. \<lparr>lowOffset = 0, segmentSelector = 0, gate_flags = 0, highOffset = 0\<rparr>),
     gdt = (\<lambda>_. \<lparr>limit = 0, lowBase = 0, midBase = 0, flags1 = 0, flags2 = 0, highBase = 0\<rparr>),
     tss = \<lparr>t_PreviousTaskLink = 0, t_esp0 = 0, t_ss0 = 0, t_esp1 = 0, t_ss1 = 0, t_esp2 = 0, t_ss2 = 0, t_cr3 = 0,
       t_eip = 0, t_eFlags = 0, t_eax = 0, t_ecx = 0, t_edx = 0, t_ebx = 0, t_esp = 0, t_ebp = 0, t_esi = 0, t_edi = 0,
       t_es = 0, t_cs = 0, t_ss = 0, t_ds = 0, t_fs = 0, t_gs = 0, t_LDTSegmentSelector = 0, t_debugTrap = 0,
       t_IOMapBaseAddress = 0\<rparr>,
     hw_idt = \<lparr>reg_limit = 0, reg_base = 0\<rparr>, hw_gdt = \<lparr>reg_limit = 0, reg_base = 0\<rparr>, hw_task = 0, hw_msr = (\<lambda>_. 0)\<rparr>"

definition sample_symbols :: symbols where
  "sample_symbols = \<lparr>a_idt = 0x20000, a_tss = 0x30000, a_initial_esp = 0x18000, a_keyboard_handler = 0x11001,
     a_clock_handler = 0x11002, a_page_fault_handler_2 = 0x11003, a_system_call_handler = 0x11004,
     a_syscall_handler_sysenter = 0x11005\<rparr>"

definition sample_handler :: "nat \<Rightarrow> u32" where
  "sample_handler v = 0x12000 + 64 * of_nat v"

definition sample_set_handlers :: "(nat \<Rightarrow> Gate) \<Rightarrow> nat \<Rightarrow> Gate" where
  "sample_set_handlers I = (\<lambda>v. if v < NUM_EXCEPTIONS then gate_for (sample_handler v) 0 else I v)"

lemma sample_sets: "sets_exceptions sample_set_handlers sample_handler"
  unfolding sets_exceptions_def fold_handlers by (simp add: sample_set_handlers_def)


end
