(* ===== verification/Console.thy ===== *)
theory Console
  imports Prelude
begin

text \<open>
  The text console: \<^verbatim>\<open>io.c\<close>, \<^verbatim>\<open>devices.c\<close> and the two system calls of \<^verbatim>\<open>sys.c\<close>
  that set its cursor and colours. The screen memory at 0xb8000 is a function from cell
  indices to 16-bit cells; \<open>port_e9\<close> collects the bytes written to the emulator's debug
  port, which is the stream of characters the kernel has printed.
\<close>

abbreviation (input) NUM_COLUMNS :: nat where "NUM_COLUMNS \<equiv> 80"
abbreviation (input) NUM_ROWS :: nat where "NUM_ROWS \<equiv> 25"
abbreviation (input) EINVAL :: int where "EINVAL \<equiv> 22"

section \<open>The code\<close>

record console =
  con_x :: u8
  con_y :: u8
  foreground :: u8
  background :: u8
  screen :: "nat \<Rightarrow> u16"
  port_e9 :: "u8 list"

definition init_console :: console where
  "init_console = \<lparr>con_x = 0, con_y = 19, foreground = 2, background = 0,
     screen = (\<lambda>_. 0), port_e9 = []\<rparr>"

definition new_line :: "console \<Rightarrow> console" where
  "new_line con = con\<lparr>con_x := 0, con_y := of_nat ((unat (con_y con) + 1) mod NUM_ROWS)\<rparr>"

definition cell :: "console \<Rightarrow> u8 \<Rightarrow> u16" where
  "cell con c = ucast c OR push_bit 8 (ucast (foreground con)) OR push_bit 12 (ucast (background con))"

definition printc :: "u8 \<Rightarrow> console \<Rightarrow> console" where
  "printc c con0 =
     (let con = con0\<lparr>port_e9 := port_e9 con0 @ [c]\<rparr> in
      if c = 10 then new_line con
      else
        let con1 = con\<lparr>screen := (screen con)(unat (con_y con) * NUM_COLUMNS + unat (con_x con) := cell con c)\<rparr>;
            con2 = con1\<lparr>con_x := con_x con1 + 1\<rparr>
        in if NUM_COLUMNS \<le> unat (con_x con2) then new_line con2 else con2)"

definition printc_xy :: "u8 \<Rightarrow> u8 \<Rightarrow> u8 \<Rightarrow> console \<Rightarrow> console" where
  "printc_xy mx my c con =
     (let cx = con_x con; cy = con_y con;
          con1 = printc c (con\<lparr>con_x := mx, con_y := my\<rparr>)
      in con1\<lparr>con_x := cx, con_y := cy\<rparr>)"

text \<open>A C string is the list of its bytes, read up to the first NUL.\<close>

fun printk :: "u8 list \<Rightarrow> console \<Rightarrow> console" where
  "printk [] con = con"
| "printk (c # cs) con = (if c = 0 then con else printk cs (printc c con))"

fun print_loop :: "(nat \<Rightarrow> u8) \<Rightarrow> nat \<Rightarrow> nat \<Rightarrow> console \<Rightarrow> console" where
  "print_loop buffer i 0 con = con"
| "print_loop buffer i (Suc n) con = print_loop buffer (Suc i) n (printc (buffer i) con)"

definition sys_write_console :: "(nat \<Rightarrow> u8) \<Rightarrow> int \<Rightarrow> console \<Rightarrow> int \<times> console" where
  "sys_write_console buffer n con = (n, print_loop buffer 0 (nat n) con)"

definition sys_gotoxy :: "int \<Rightarrow> int \<Rightarrow> console \<Rightarrow> int \<times> console" where
  "sys_gotoxy novaX novaY con =
     (if novaY < 0 \<or> novaY \<ge> 25 \<or> novaX < 0 \<or> novaX \<ge> 80 then (- EINVAL, con)
      else (novaX + novaY, con\<lparr>con_x := word_of_int novaX, con_y := word_of_int novaY\<rparr>))"

definition sys_set_color :: "int \<Rightarrow> int \<Rightarrow> console \<Rightarrow> int \<times> console" where
  "sys_set_color fg bg con =
     (if fg < 0 \<or> bg < 0 \<or> fg > 16 \<or> bg > 16 then (- EINVAL, con)
      else (0, con\<lparr>foreground := word_of_int fg, background := word_of_int bg\<rparr>))"

section \<open>The cursor\<close>

definition cursor_ok :: "console \<Rightarrow> bool" where
  "cursor_ok con \<longleftrightarrow> unat (con_x con) < NUM_COLUMNS \<and> unat (con_y con) < NUM_ROWS"

definition cursor :: "console \<Rightarrow> nat" where
  "cursor con = unat (con_y con) * NUM_COLUMNS + unat (con_x con)"

lemma unat_u8_of_nat [simp]: "n < 256 \<Longrightarrow> unat (of_nat n :: u8) = n"
  by (simp add: unat_of_nat take_bit_nat_eq_self)

lemma unat_u8_Suc: "unat (b :: u8) < 255 \<Longrightarrow> unat (b + 1) = unat b + 1"
  by (simp add: unat_word_ariths)

lemma unat_row [simp]: "unat (word_of_nat ((n + 1) mod 25) :: u8) = (n + 1) mod 25"
  by (rule unat_u8_of_nat) (use mod_less_divisor [of 25 "n + 1"] in linarith)

lemma unat_row' [simp]: "unat (word_of_nat (Suc n mod 25) :: u8) = Suc n mod 25"
  using unat_row [of n] by simp

lemma new_line_cursor_ok [wf_intros]: "cursor_ok (new_line con)"
  by (simp add: cursor_ok_def new_line_def)

lemma printc_cursor_ok [wf_intros]: "cursor_ok con \<Longrightarrow> cursor_ok (printc c con)"
  by (auto simp: printc_def Let_def new_line_cursor_ok)
    (auto simp: cursor_ok_def)

lemma cursor_ok_bound: "cursor_ok con \<Longrightarrow> cursor con < 2000"
  by (auto simp: cursor_ok_def cursor_def)

lemma printc_cursor:
  assumes "cursor_ok con" "c \<noteq> 10"
  shows "cursor (printc c con) = (cursor con + 1) mod 2000"
proof -
  have y: "unat (con_y con) < 25" and x: "unat (con_x con) < 80" using assms by (auto simp: cursor_ok_def)
  have x1: "unat (con_x con + 1) = unat (con_x con) + 1" using x by (intro unat_u8_Suc) simp
  show ?thesis
  proof (cases "unat (con_x con) = 79")
    case True
    have "(unat (con_y con) * 80 + 79 + 1) mod 2000 = ((unat (con_y con) + 1) mod 25) * 80"
      using mult_mod_left [of "unat (con_y con) + 1" 25 80] by (simp add: algebra_simps)
    with True x1 assms show ?thesis by (simp add: printc_def cursor_def new_line_def Let_def)
  next
    case False
    with x y x1 assms show ?thesis by (simp add: printc_def cursor_def Let_def)
  qed
qed

lemma printc_screen:
  "screen (printc c con) = (if c = 10 then screen con else (screen con)(cursor con := cell con c))"
  by (simp add: printc_def Let_def new_line_def cursor_def cell_def)

lemma printc_frame [simp]:
  "foreground (printc c con) = foreground con" "background (printc c con) = background con"
  "port_e9 (printc c con) = port_e9 con @ [c]"
  by (simp_all add: printc_def Let_def new_line_def)

lemma cell_printc [simp]: "cell (printc d con) c = cell con c"
  by (simp add: cell_def)

lemma print_loop_fold:
  "print_loop buffer i n con = fold printc (map buffer [i..<i + n]) con"
  by (induction n arbitrary: i con) (simp_all add: upt_conv_Cons del: upt_Suc)

lemma fold_printc_cursor_ok [wf_intros]: "cursor_ok con \<Longrightarrow> cursor_ok (fold printc cs con)"
  by (induction cs arbitrary: con) (auto intro: wf_intros)

lemma fold_printc_frame [simp]:
  "foreground (fold printc cs con) = foreground con" "background (fold printc cs con) = background con"
  "port_e9 (fold printc cs con) = port_e9 con @ cs"
  by (induction cs arbitrary: con) auto

lemma fold_printc_screen_outside:
  assumes "cursor_ok con" "2000 \<le> k"
  shows "screen (fold printc cs con) k = screen con k"
  using assms(1)
proof (induction cs arbitrary: con)
  case (Cons c cs)
  have "screen (printc c con) k = screen con k"
    using cursor_ok_bound [OF Cons.prems] assms(2) by (simp add: printc_screen)
  with Cons.IH [OF printc_cursor_ok [OF Cons.prems]] show ?case by simp
qed simp

lemma fold_printc_cursor:
  "cursor_ok con \<Longrightarrow> 10 \<notin> set cs \<Longrightarrow> cursor (fold printc cs con) = (cursor con + length cs) mod 2000"
proof (induction cs rule: rev_induct)
  case (snoc c cs)
  then show ?case
    by (simp add: printc_cursor fold_printc_cursor_ok mod_Suc_eq)
qed (simp add: cursor_ok_bound)

text \<open>Writing \<open>n\<close> bytes to the console sends exactly those bytes to the output in order,
  returns \<open>n\<close>, keeps the cursor on the screen and writes no memory outside the 80 by 25
  cells of the screen.\<close>
lemma sys_write_console_ok:
  assumes "cursor_ok con" and "0 \<le> n"
  shows "\<exists>con'. sys_write_console buffer n con = (n, con') \<and>
     port_e9 con' = port_e9 con @ map buffer [0..<nat n] \<and> cursor_ok con' \<and>
     (\<forall>k \<ge> 2000. screen con' k = screen con k)"
  using assms by (simp add: sys_write_console_def print_loop_fold fold_printc_cursor_ok
      fold_printc_screen_outside)

lemma sys_write_console_ok_witness:
  "cursor_ok init_console \<and>
   port_e9 (snd (sys_write_console (\<lambda>i. of_nat i) 3 init_console)) = [0, 1, 2]"
proof -
  have ok: "cursor_ok init_console" by (simp add: cursor_ok_def init_console_def)
  show ?thesis using sys_write_console_ok [OF ok, of 3 "\<lambda>i. of_nat i"] ok
    by (auto simp: numeral_eq_Suc init_console_def)
qed

lemma mod_2000_distinct: "i < n \<Longrightarrow> n < 2000 \<Longrightarrow> (p + i) mod 2000 \<noteq> (p + n) mod (2000::nat)"
  using mod_eq_dvd_iff_nat [of "p + i" "p + n" 2000] nat_dvd_not_less [of "n - i" 2000] by auto

text \<open>C36. Text of up to a screenful without line feeds fills consecutive cells from the cursor
  on, in the current colours, wrapping from the last cell of the screen to the first, and
  leaves the cursor after its last character.\<close>
theorem print_text_cells:
  assumes "cursor_ok con" and "10 \<notin> set cs" and "length cs \<le> 2000"
  shows "cursor (fold printc cs con) = (cursor con + length cs) mod 2000 \<and>
     (\<forall>i < length cs. screen (fold printc cs con) ((cursor con + i) mod 2000) = cell con (cs ! i))"
  using assms
proof (induction cs rule: rev_induct)
  case (snoc c cs)
  let ?con = "fold printc cs con"
  have pos: "cursor ?con = (cursor con + length cs) mod 2000"
    and old: "\<forall>i < length cs. screen ?con ((cursor con + i) mod 2000) = cell con (cs ! i)"
    using snoc by auto
  have "screen (printc c ?con) ((cursor con + i) mod 2000) = cell con ((cs @ [c]) ! i)"
    if "i < length (cs @ [c])" for i
  proof (cases "i = length cs")
    case False
    then have "i < length cs" using that by simp
    moreover have "(cursor con + i) mod 2000 \<noteq> cursor ?con"
      unfolding pos using calculation snoc.prems by (intro mod_2000_distinct) auto
    ultimately show ?thesis using old by (simp add: printc_screen nth_append)
  qed (use snoc.prems pos in \<open>simp add: printc_screen cell_def\<close>)
  moreover have "cursor (fold printc (cs @ [c]) con) = (cursor con + length (cs @ [c])) mod 2000"
    using snoc.prems by (intro fold_printc_cursor) auto
  ultimately show ?case by simp
qed (simp add: cursor_ok_bound)

lemma print_text_cells_witness:
  "screen (fold printc [72, 105] init_console) 1521 = cell init_console 105"
proof -
  have ok: "cursor_ok init_console" by (simp add: cursor_ok_def init_console_def)
  show ?thesis using print_text_cells [OF ok, of "[72, 105]"]
    by (simp add: cursor_def init_console_def less_Suc_eq all_conj_distrib)
qed

text \<open>\<open>printc_xy\<close> prints one character at a position and puts the cursor back.\<close>
theorem printc_xy_restores:
  "con_x (printc_xy mx my c con) = con_x con \<and> con_y (printc_xy mx my c con) = con_y con \<and>
   (c \<noteq> 10 \<longrightarrow> screen (printc_xy mx my c con) (unat my * 80 + unat mx) = cell con c)"
  by (simp add: printc_xy_def Let_def printc_screen cursor_def cell_def)

lemma printc_xy_restores_witness:
  "screen (printc_xy 3 2 65 init_console) 163 = cell init_console 65"
  using printc_xy_restores [of 3 2 65 init_console] by simp

text \<open>\<open>gotoxy\<close> moves the cursor exactly when both coordinates are on the screen and keeps the
  cursor well-formed in every case; otherwise it fails with EINVAL and changes nothing.\<close>
theorem sys_gotoxy_ok:
  assumes "cursor_ok con"
  shows "cursor_ok (snd (sys_gotoxy nx ny con)) \<and>
    (if 0 \<le> nx \<and> nx < 80 \<and> 0 \<le> ny \<and> ny < 25
     then fst (sys_gotoxy nx ny con) = nx + ny \<and>
          cursor (snd (sys_gotoxy nx ny con)) = nat ny * 80 + nat nx
     else sys_gotoxy nx ny con = (- 22, con))"
proof (cases "0 \<le> nx \<and> nx < 80 \<and> 0 \<le> ny \<and> ny < 25")
  case True
  then have "unat (word_of_int nx :: u8) = nat nx" "unat (word_of_int ny :: u8) = nat ny"
    using unat_u8_of_nat [of "nat nx"] unat_u8_of_nat [of "nat ny"] by (simp_all add: nat_less_iff)
  with True show ?thesis by (simp add: sys_gotoxy_def cursor_ok_def cursor_def nat_less_iff)
qed (use assms in \<open>auto simp: sys_gotoxy_def\<close>)

lemma sys_gotoxy_ok_witness:
  "cursor (snd (sys_gotoxy 10 5 init_console)) = 410 \<and> fst (sys_gotoxy 80 5 init_console) = - 22"
proof -
  have ok: "cursor_ok init_console" by (simp add: cursor_ok_def init_console_def)
  show ?thesis using sys_gotoxy_ok [OF ok, of 10 5] sys_gotoxy_ok [OF ok, of 80 5] by simp
qed

end
