(* ===== verification/Keyboard.thy ===== *)
theory Keyboard
  imports Prelude
begin

text \<open>
  The keyboard buffer and the decoding of scan codes of \<^verbatim>\<open>interrupt.c\<close>. The buffer is
  the ring of \<^verbatim>\<open>struct Key_buffer\<close>; the locale \<open>bounded_queue\<close> is what its client, the
  \<^verbatim>\<open>read\<close> system call, relies on, and the ring discharges it.
\<close>

abbreviation (input) KB_BUFFER_SIZE :: nat where "KB_BUFFER_SIZE \<equiv> 255"

section \<open>The code\<close>

record key_buffer =
  kb_chars :: "nat \<Rightarrow> u8"
  kb_head :: nat
  kb_tail :: nat

definition init_kb :: key_buffer where
  "init_kb = \<lparr>kb_chars = (\<lambda>_. 0), kb_head = 0, kb_tail = 0\<rparr>"

definition kb_buffer_push :: "u8 \<Rightarrow> key_buffer \<Rightarrow> key_buffer" where
  "kb_buffer_push c kb =
     (let next_head = (kb_head kb + 1) mod KB_BUFFER_SIZE in
      kb\<lparr>kb_chars := (kb_chars kb)(kb_head kb := c), kb_head := next_head\<rparr>)"

definition kb_buffer_pop :: "key_buffer \<Rightarrow> u8 \<times> key_buffer" where
  "kb_buffer_pop kb =
     (let c = kb_chars kb (kb_tail kb) in
      (c, kb\<lparr>kb_tail := (kb_tail kb + 1) mod KB_BUFFER_SIZE\<rparr>))"

definition kb_buffer_size :: "key_buffer \<Rightarrow> nat" where
  "kb_buffer_size kb =
     (if kb_tail kb \<le> kb_head kb then kb_head kb - kb_tail kb
      else KB_BUFFER_SIZE - kb_tail kb + kb_head kb)"

definition char_map :: "u8 list" where
  "char_map =
    [0, 0, 49, 50, 51, 52, 53, 54, 55, 56,
     57, 48, 39, 161, 0, 0, 113, 119, 101, 114,
     116, 121, 117, 105, 111, 112, 96, 43, 0, 0,
     97, 115, 100, 102, 103, 104, 106, 107, 108, 241,
     0, 186, 0, 231, 122, 120, 99, 118, 98, 110,
     109, 44, 46, 45, 0, 42, 0, 0, 0, 0,
     0, 0, 0, 0, 0, 0, 0, 0, 0, 0,
     0, 55, 56, 57, 45, 52, 53, 54, 43, 49,
     50, 51, 48, 0, 0, 0, 60, 0, 0, 0,
     0, 0, 0, 0, 0, 0, 0, 0]"

text \<open>
  The part of \<open>keyboard_routine\<close> that decodes the byte read from port 0x60: \<open>None\<close> when
  the routine ignores it. \<open>is_break\<close> is what is left of the byte after a shift by six.
\<close>

definition decode_key :: "u8 \<Rightarrow> u8 option" where
  "decode_key read_inp =
     (let is_break = drop_bit 6 read_inp; p_ch = sint (read_inp AND 0x7F) in
      if p_ch < 0 \<and> p_ch > 98 then None
      else if is_break = 0 then
        let char_print = char_map ! nat p_ch in Some (if char_print = 0 then 67 else char_print)
      else None)"

text \<open>The read loop of \<^verbatim>\<open>sys_read\<close>: \<open>for (i = 0; i < maxchars; ++i) tmpbuff[i] = kb_buffer_pop();\<close>\<close>

fun pop_loop :: "('q \<Rightarrow> 'c \<times> 'q) \<Rightarrow> nat \<Rightarrow> 'q \<Rightarrow> 'c list \<times> 'q" where
  "pop_loop pop 0 q = ([], q)"
| "pop_loop pop (Suc n) q =
     (let (c, q1) = pop q; (cs, q2) = pop_loop pop n q1 in (c # cs, q2))"

section \<open>The contract of a bounded queue\<close>

locale bounded_queue =
  fixes inv :: "'q \<Rightarrow> bool"
    and abs :: "'q \<Rightarrow> 'c list"
    and capacity :: nat
    and push :: "'c \<Rightarrow> 'q \<Rightarrow> 'q"
    and pop :: "'q \<Rightarrow> 'c \<times> 'q"
    and count :: "'q \<Rightarrow> nat"
  assumes count: "inv q \<Longrightarrow> count q = length (abs q)"
    and bound: "inv q \<Longrightarrow> length (abs q) \<le> capacity"
    and push: "inv q \<Longrightarrow> length (abs q) < capacity \<Longrightarrow> abs (push c q) = abs q @ [c] \<and> inv (push c q)"
    and pop: "inv q \<Longrightarrow> abs q \<noteq> [] \<Longrightarrow>
          fst (pop q) = hd (abs q) \<and> abs (snd (pop q)) = tl (abs q) \<and> inv (snd (pop q))"
begin

lemma pop_loop_spec:
  "inv q \<Longrightarrow> n \<le> length (abs q) \<Longrightarrow>
     fst (pop_loop pop n q) = take n (abs q) \<and> abs (snd (pop_loop pop n q)) = drop n (abs q) \<and>
     inv (snd (pop_loop pop n q))"
proof (induction n arbitrary: q)
  case (Suc n)
  then obtain c cs where cs: "abs q = c # cs" by (cases "abs q") auto
  obtain c' q1 where p: "pop q = (c', q1)" by force
  with pop [OF Suc.prems(1)] cs have "c' = c" "abs q1 = cs" "inv q1" by auto
  with Suc.IH [of q1] Suc.prems cs p show ?case by (simp add: case_prod_beta)
qed simp

lemma push_pop_order:
  "inv q \<Longrightarrow> length (abs q) + length cs \<le> capacity \<Longrightarrow>
     abs (fold push cs q) = abs q @ cs \<and> inv (fold push cs q)"
  by (induction cs arbitrary: q) (auto simp: push)

end

section \<open>The ring implements it\<close>

definition kb_inv :: "key_buffer \<Rightarrow> bool" where
  "kb_inv kb \<longleftrightarrow> kb_head kb < KB_BUFFER_SIZE \<and> kb_tail kb < KB_BUFFER_SIZE"

definition kb_list :: "key_buffer \<Rightarrow> u8 list" where
  "kb_list kb = map (\<lambda>i. kb_chars kb ((kb_tail kb + i) mod KB_BUFFER_SIZE)) [0..<kb_buffer_size kb]"

lemma kb_size_bound: "kb_inv kb \<Longrightarrow> kb_buffer_size kb \<le> 254"
  by (auto simp: kb_inv_def kb_buffer_size_def)

lemma kb_inv_ops [wf_intros]:
  "kb_inv init_kb" "kb_inv kb \<Longrightarrow> kb_inv (kb_buffer_push c kb)"
  "kb_inv kb \<Longrightarrow> kb_inv (snd (kb_buffer_pop kb))"
  by (auto simp: kb_inv_def kb_buffer_push_def kb_buffer_pop_def init_kb_def Let_def)

lemma wrap_255: "n < 510 \<Longrightarrow> n mod 255 = (if n < 255 then n else n - (255::nat))"
  by (simp add: mod_if)

lemma kb_size_push:
  "kb_inv kb \<Longrightarrow> kb_buffer_size (kb_buffer_push c kb) =
     (if kb_buffer_size kb = 254 then 0 else kb_buffer_size kb + 1)"
  by (auto simp: kb_inv_def kb_buffer_size_def kb_buffer_push_def Let_def wrap_255)

lemma kb_size_pop:
  "kb_inv kb \<Longrightarrow> 0 < kb_buffer_size kb \<Longrightarrow>
     kb_buffer_size (snd (kb_buffer_pop kb)) = kb_buffer_size kb - 1"
  by (auto simp: kb_inv_def kb_buffer_size_def kb_buffer_pop_def Let_def wrap_255)

lemma kb_list_push:
  assumes inv: "kb_inv kb" and room: "kb_buffer_size kb < 254"
  shows "kb_list (kb_buffer_push c kb) = kb_list kb @ [c]"
proof -
  let ?n = "kb_buffer_size kb"
  have h: "(kb_tail kb + ?n) mod 255 = kb_head kb"
    using inv by (auto simp: kb_inv_def kb_buffer_size_def wrap_255)
  have old: "(kb_tail kb + i) mod 255 \<noteq> kb_head kb" if "i < ?n" for i
    using inv that room by (auto simp: kb_inv_def kb_buffer_size_def wrap_255 split: if_splits)
  have size': "kb_buffer_size (kb_buffer_push c kb) = Suc ?n"
    using kb_size_push [OF inv] room by simp
  have tail': "kb_tail (kb_buffer_push c kb) = kb_tail kb"
    and chars': "kb_chars (kb_buffer_push c kb) = (kb_chars kb)(kb_head kb := c)"
    by (simp_all add: kb_buffer_push_def Let_def)
  show ?thesis unfolding kb_list_def size' tail' chars' using h old by auto
qed

lemma kb_list_pop:
  assumes inv: "kb_inv kb" and some: "kb_list kb \<noteq> []"
  shows "fst (kb_buffer_pop kb) = hd (kb_list kb) \<and> kb_list (snd (kb_buffer_pop kb)) = tl (kb_list kb)"
proof -
  let ?n = "kb_buffer_size kb"
  have pos: "0 < ?n" using some by (auto simp: kb_list_def)
  then have l: "[0..<?n] = 0 # [Suc 0..<?n]" by (simp add: upt_conv_Cons)
  have s: "[Suc 0..<?n] = map Suc [0..<?n - 1]" using pos by (simp add: map_Suc_upt)
  have t: "(Suc (kb_tail kb) mod 255 + i) mod 255 = Suc (kb_tail kb + i) mod 255" for i
    by (metis add_Suc mod_add_left_eq)
  show ?thesis using inv kb_size_pop [OF inv pos]
    by (simp add: kb_list_def l s kb_buffer_pop_def Let_def kb_inv_def t del: upt_Suc)
qed

interpretation kbq: bounded_queue kb_inv kb_list 254 kb_buffer_push kb_buffer_pop kb_buffer_size
proof unfold_locales
  fix kb :: key_buffer assume inv: "kb_inv kb"
  show "kb_buffer_size kb = length (kb_list kb)" by (simp add: kb_list_def)
  then show "length (kb_list kb) \<le> 254" using kb_size_bound [OF inv] by simp
  show "kb_list (kb_buffer_push c kb) = kb_list kb @ [c] \<and> kb_inv (kb_buffer_push c kb)"
    if "length (kb_list kb) < 254" for c
    using that kb_list_push [OF inv] kb_inv_ops inv by (simp add: kb_list_def)
  show "fst (kb_buffer_pop kb) = hd (kb_list kb) \<and> kb_list (snd (kb_buffer_pop kb)) = tl (kb_list kb) \<and>
      kb_inv (snd (kb_buffer_pop kb))" if "kb_list kb \<noteq> []"
    using that kb_list_pop [OF inv] kb_inv_ops inv by simp
qed

section \<open>Properties\<close>

text \<open>The key buffer is a first-in first-out queue of up to 254 characters: pushing
  characters and then taking \<open>n\<close> of them gives the oldest \<open>n\<close> in the order they were
  typed and leaves the rest, however the ring has wrapped around.\<close>
lemma kb_fifo:
  assumes "kb_inv kb" and "length (kb_list kb) + length cs \<le> 254"
    and "n \<le> length (kb_list kb) + length cs"
  shows "fst (pop_loop kb_buffer_pop n (fold kb_buffer_push cs kb)) = take n (kb_list kb @ cs) \<and>
    kb_list (snd (pop_loop kb_buffer_pop n (fold kb_buffer_push cs kb))) = drop n (kb_list kb @ cs)"
proof -
  note push = kbq.push_pop_order [OF assms(1,2)]
  show ?thesis using kbq.pop_loop_spec [of "fold kb_buffer_push cs kb" n] push assms(3) by auto
qed

definition worn_kb :: key_buffer where
  "worn_kb = \<lparr>kb_chars = (\<lambda>_. 0), kb_head = 253, kb_tail = 253\<rparr>"

lemma kb_fifo_witness:
  "kb_inv worn_kb \<and> fst (pop_loop kb_buffer_pop 2 (fold kb_buffer_push [97, 98, 99] worn_kb)) = [97, 98]"
proof -
  have ok: "kb_inv worn_kb" "kb_list worn_kb = []"
    by (simp_all add: worn_kb_def kb_inv_def kb_list_def kb_buffer_size_def)
  show ?thesis using kb_fifo [OF ok(1), of "[97, 98, 99]" 2] ok by simp
qed

text \<open>The test \<open>kb_buffer_size() < KB_BUFFER_SIZE\<close> that guards the push never fails, and a
  push into a buffer of 254 characters makes the buffer look empty: all of them are lost.\<close>
lemma kb_overflow:
  assumes "kb_inv kb"
  shows "kb_buffer_size kb < KB_BUFFER_SIZE \<and>
    (kb_buffer_size kb = 254 \<longrightarrow> kb_list (kb_buffer_push c kb) = [])"
  using kb_size_bound [OF assms] kb_size_push [OF assms, of c] by (simp add: kb_list_def)

definition full_kb :: key_buffer where
  "full_kb = \<lparr>kb_chars = (\<lambda>_. 120), kb_head = 254, kb_tail = 0\<rparr>"

lemma kb_overflow_witness:
  "length (kb_list full_kb) = 254 \<and> kb_list (kb_buffer_push 97 full_kb) = []"
proof -
  have ok: "kb_inv full_kb" "kb_buffer_size full_kb = 254"
    by (simp_all add: full_kb_def kb_inv_def kb_buffer_size_def)
  show ?thesis using kb_overflow [OF ok(1), of 97] ok(2) by (simp add: kb_list_def)
qed

lemma length_char_map [simp]: "length char_map = 98"
  by (simp add: char_map_def)

lemma key_index: "sint (b AND 0x7F) = int (unat b mod 128)" for b :: u8
proof -
  have "b AND 0x7F = take_bit 7 b"
    by (simp add: take_bit_eq_mask mask_eq_exp_minus_1)
  then have u: "unat (b AND 0x7F) = unat b mod 128"
    by (simp add: unsigned_take_bit_eq take_bit_eq_mod unat_mod)
  then have "unat (b AND 0x7F) < 128" by simp
  then have "uint (b AND 0x7F) < 128" by (simp only: uint_nat)
  moreover have "- 128 \<le> uint (b AND 0x7F)"
    using uint_ge_0 [of "b AND 0x7F"] by linarith
  ultimately have "signed_take_bit 7 (uint (b AND 0x7F)) = uint (b AND 0x7F)"
    by (intro signed_take_bit_int_eq_self) simp_all
  moreover have "sint (b AND 0x7F) = signed_take_bit 7 (uint (b AND 0x7F))"
    by (subst sint_uint) simp
  ultimately show ?thesis using u by (simp only: uint_nat)
qed

lemma break_zero: "drop_bit 6 b = 0 \<longleftrightarrow> unat b < 64" for b :: u8
proof -
  have "drop_bit 6 b = 0 \<longleftrightarrow> unat (drop_bit 6 b) = 0" by (simp only: unat_eq_0)
  also have "unat (drop_bit 6 b) = unat b div 64"
    by (simp add: drop_bit_eq_div unat_div)
  finally show ?thesis by auto
qed

text \<open>A byte from the keyboard is a character exactly when it is below 64, and then the
  table is read inside its bounds; every other byte is ignored: the release codes (128 and
  above), but also all key presses from 64 to 127, because the release bit is taken with a
  shift by six instead of seven.\<close>
lemma decode_key_spec:
  "decode_key b =
     (if unat b < 64 then
        (let c = char_map ! unat b in Some (if c = 0 then 67 else c))
      else None) \<and> (unat b < 64 \<longrightarrow> unat b < length char_map)"
  using break_zero [of b] by (auto simp: decode_key_def Let_def key_index)

lemma decode_key_spec_witness: "decode_key 0x10 = Some 113 \<and> decode_key 0x41 = None"
proof -
  have "char_map ! 16 = 113" by (simp add: char_map_def)
  then show ?thesis using decode_key_spec [of "0x10"] decode_key_spec [of "0x41"] by simp
qed

end
