(* ===== verification/Sched.thy ===== *)
theory Sched
  imports Lists Paging Memory Console Keyboard
begin

text \<open>
  The process table and the round robin scheduler: \<^verbatim>\<open>sched.c\<close>, \<^verbatim>\<open>include/sched.h\<close>,
  and the state of the whole kernel, the record \<open>kstate\<close>.

  A task is named by its index in \<open>task[]\<close>. Every \<open>struct list_head\<close> of the kernel has an
  address of type \<open>lnode\<close>: the four scheduling queues, the queue of each semaphore, and the
  six nodes embedded in each \<open>task_struct\<close>. \<open>list_head_to_task_struct\<close> masks an address
  down to its page, so it finds the task of an embedded node; on the address of a queue it
  gives a page that is no task, here \<open>None\<close>.

  What a thread that is not running will do when it gets the CPU back is on its kernel stack,
  below \<open>k_esp\<close>. Here it is the field \<open>k_ctx\<close> of type \<open>kcont\<close>: the point of the kernel
  code behind the \<open>task_switch\<close> at which the thread was suspended, with the local variables
  this point still needs. The user registers at the top of the stack that the kernel reads or
  writes are \<open>u_eip\<close>, \<open>u_esp\<close> and \<open>u_eax\<close>.

  A function that may fault returns an \<open>option\<close>: \<open>None\<close> is a NULL or wild pointer
  dereferenced in the kernel. Process and semaphore identifiers and tick counts are integers
  without wrap-around.
\<close>

section \<open>State\<close>

datatype lnode = Freequeue | Readyqueue | Blocked | ReadBlocked | SemBlocked nat
  | TList nat | TFills nat | TParentAnchor nat | TWaitList nat | TWaitAnchor nat | TSemList nat

fun list_head_to_task_struct :: "lnode \<Rightarrow> nat option" where
  "list_head_to_task_struct (TList i) = Some i"
| "list_head_to_task_struct (TFills i) = Some i"
| "list_head_to_task_struct (TParentAnchor i) = Some i"
| "list_head_to_task_struct (TWaitList i) = Some i"
| "list_head_to_task_struct (TWaitAnchor i) = Some i"
| "list_head_to_task_struct (TSemList i) = Some i"
| "list_head_to_task_struct _ = None"

datatype state_t = ST_RUN | ST_FREE | ST_READY | ST_BLOCKED | ST_READBLOCKED

text \<open>
  The points at which a thread can be suspended: not at all, the entry of \<open>cpu_idle\<close>,
  \<open>ret_from_fork\<close>, \<open>ret_from_new_thread\<close>, the interrupt routines, and behind the
  \<open>sched_next_rr\<close> of each system call.
\<close>

datatype kcont = KNone | KIdle | KRetFromFork | KRetFromNewThread | KInterrupt
  | KBlock | KUnblock int | KWaitThread nat | KRead nat int | KSemWait nat | KSemSignal nat
  | KSemDestroy nat int "nat option" | KExited

record task_struct =
  PID :: int
  dir_pages_baseAddr :: "nat option"
  quantum :: int
  pending_unblocks :: int
  my_heap :: "nat option"
  pare :: "nat option"
  current_state :: state_t
  k_ctx :: kcont
  u_eip :: u32
  u_esp :: u32
  u_eax :: u32

record semaphore =
  sem_id :: int
  sem_value :: int
  sem_free :: bool
  creatorPID :: int

record kstate =
  task :: "nat \<Rightarrow> task_struct"
  links :: "lnode links"
  cur :: nat
  esp0 :: nat
  idle_task :: nat
  task1 :: nat
  tick_counter :: int
  pidGlobal :: int
  semIDglobal :: int
  semIDsystem :: int
  semaphores :: "nat \<Rightarrow> semaphore"
  mm :: mm_state
  ram :: ram
  kb :: key_buffer
  con :: console
  zeos_tick :: int
  bufferAux :: nat
  tmpbuff :: nat

abbreviation (input) DEFAULT_QUANTUM_TICKS :: int where "DEFAULT_QUANTUM_TICKS \<equiv> 10"
abbreviation (input) NUM_SEMS :: nat where "NUM_SEMS \<equiv> 100"
abbreviation (input) ENOMEM :: int where "ENOMEM \<equiv> 12"

definition upd_task :: "nat \<Rightarrow> (task_struct \<Rightarrow> task_struct) \<Rightarrow> kstate \<Rightarrow> kstate" where
  "upd_task t f s = s\<lparr>task := (task s)(t := f (task s t))\<rparr>"

definition upd_mm :: "(mm_state \<Rightarrow> mm_state) \<Rightarrow> kstate \<Rightarrow> kstate" where
  "upd_mm f s = s\<lparr>mm := f (mm s)\<rparr>"

definition on_links :: "(lnode links \<Rightarrow> lnode links option) \<Rightarrow> kstate \<Rightarrow> kstate option" where
  "on_links f s = Option.bind (f (links s)) (\<lambda>h. Some (s\<lparr>links := h\<rparr>))"

definition init_head :: "lnode \<Rightarrow> kstate \<Rightarrow> kstate" where
  "init_head a s = s\<lparr>links := INIT_LIST_HEAD a (links s)\<rparr>"

definition list_owner :: "lnode option \<Rightarrow> nat option" where
  "list_owner e = Option.bind e list_head_to_task_struct"

text \<open>
  How a system call ends: it returns a value to its caller, it returns nothing (the register is
  whatever the compiler left in it, the model keeps it), or it gave the CPU away.
\<close>

datatype outcome = Ret int | RetVoid | Switched

type_synonym call = "kstate \<Rightarrow> (outcome \<times> kstate) option"

section \<open>Directories and heaps\<close>

definition get_DIR :: "nat \<Rightarrow> kstate \<Rightarrow> nat option" where
  "get_DIR t s = dir_pages_baseAddr (task s t)"

definition get_PT :: "nat \<Rightarrow> kstate \<Rightarrow> nat option" where
  "get_PT t s = map_option (dir_PT (mm s)) (dir_pages_baseAddr (task s t))"

definition set_cr3 :: "nat option \<Rightarrow> kstate \<Rightarrow> kstate" where
  "set_cr3 d = upd_mm (\<lambda>m. m\<lparr>cr3 := d\<rparr>)"

definition sub_DIR_ref :: "nat \<Rightarrow> kstate \<Rightarrow> (int \<times> kstate) option" where
  "sub_DIR_ref t s = do {
     pos \<leftarrow> dir_pages_baseAddr (task s t);
     let n = dir_pages_num_references (mm s) pos - 1;
     Some (n, upd_mm (\<lambda>m. m\<lparr>dir_pages_num_references := (dir_pages_num_references m)(pos := n)\<rparr>) s) }"

definition add_DIR_ref :: "nat \<Rightarrow> kstate \<Rightarrow> (int \<times> kstate) option" where
  "add_DIR_ref t s = do {
     pos \<leftarrow> dir_pages_baseAddr (task s t);
     let n = dir_pages_num_references (mm s) pos + 1;
     Some (1, upd_mm (\<lambda>m. m\<lparr>dir_pages_num_references := (dir_pages_num_references m)(pos := n)\<rparr>) s) }"

definition allocate_DIR :: "nat \<Rightarrow> kstate \<Rightarrow> int \<times> kstate" where
  "allocate_DIR t s =
     (case find_from 0 (\<lambda>i. dir_pages_num_references (mm s) i \<le> 0) 0 NR_TASKS of
        None \<Rightarrow> (- ENOMEM, s)
      | Some pos \<Rightarrow>
          (1, upd_task t (\<lambda>ts. ts\<lparr>dir_pages_baseAddr := Some pos\<rparr>)
               (upd_mm (\<lambda>m. m\<lparr>dir_pages_num_references :=
                  (dir_pages_num_references m)(pos := dir_pages_num_references m pos + 1)\<rparr>) s)))"

definition allocate_heap :: "nat \<Rightarrow> kstate \<Rightarrow> int \<times> kstate" where
  "allocate_heap t s =
     (case dir_pages_baseAddr (task s t) of
        None \<Rightarrow> (- ENOMEM, s)
      | Some pos \<Rightarrow>
          (1, upd_task t (\<lambda>ts. ts\<lparr>my_heap := Some pos\<rparr>)
               (upd_mm (\<lambda>m. m\<lparr>heap_zones := (heap_zones m)(pos := 0)\<rparr>) s)))"

definition init_heap :: "kstate \<Rightarrow> kstate" where
  "init_heap = upd_mm (\<lambda>m. m\<lparr>heap_zones := fold (\<lambda>i H. H(i := 0)) [0..<NR_TASKS] (heap_zones m)\<rparr>)"

section \<open>The policy\<close>

definition get_quantum :: "nat \<Rightarrow> kstate \<Rightarrow> int" where
  "get_quantum t s = quantum (task s t)"

definition set_quantum :: "nat \<Rightarrow> int \<Rightarrow> kstate \<Rightarrow> kstate" where
  "set_quantum t new_quantum = upd_task t (\<lambda>ts. ts\<lparr>quantum := new_quantum\<rparr>)"

definition set_state :: "nat \<Rightarrow> state_t \<Rightarrow> kstate \<Rightarrow> kstate" where
  "set_state t st = upd_task t (\<lambda>ts. ts\<lparr>current_state := st\<rparr>)"

fun dest_state :: "lnode \<Rightarrow> state_t option" where
  "dest_state Readyqueue = Some ST_READY"
| "dest_state Blocked = Some ST_BLOCKED"
| "dest_state ReadBlocked = Some ST_READBLOCKED"
| "dest_state Freequeue = Some ST_FREE"
| "dest_state _ = None"

definition update_process_state_rr :: "nat \<Rightarrow> lnode option \<Rightarrow> kstate \<Rightarrow> kstate option" where
  "update_process_state_rr t dest s =
     (if PID (task s t) < 0
      then on_links (list_add_tail (TList t) Freequeue) (set_state t ST_FREE s)
      else do {
        s1 \<leftarrow> (if PID (task s t) > 0 \<and> current_state (task s t) \<noteq> ST_RUN
               then on_links (list_del (TList t)) s else Some s);
        case dest of
          None \<Rightarrow> Some (set_state t ST_RUN s1)
        | Some d \<Rightarrow>
            let s2 = (case dest_state d of Some st \<Rightarrow> set_state t st s1 | None \<Rightarrow> s1) in
            if PID (task s t) \<noteq> 0 then on_links (list_add_tail (TList t) d) s2 else Some s2 })"

definition inner_task_switch :: "nat \<Rightarrow> kcont \<Rightarrow> kstate \<Rightarrow> kstate" where
  "inner_task_switch new kc s =
     (let s1 = s\<lparr>esp0 := new\<rparr>;
          s2 = (if dir_pages_baseAddr (task s1 new) \<noteq> dir_pages_baseAddr (task s1 (cur s1))
                then set_cr3 (get_DIR new s1) s1 else s1);
          s3 = upd_task (cur s2) (\<lambda>ts. ts\<lparr>k_ctx := kc\<rparr>) s2
      in s3\<lparr>cur := new\<rparr>)"

text \<open>
  \<open>sched_next_rr kc\<close> is the call of \<open>sched_next_rr\<close> at the point \<open>kc\<close>. Its result tells
  whether the CPU went to another thread; then the caller is suspended at \<open>kc\<close>.
\<close>

definition sched_next_rr :: "kcont \<Rightarrow> kstate \<Rightarrow> (bool \<times> kstate) option" where
  "sched_next_rr kc s = do {
     nt \<leftarrow> (if list_empty Readyqueue (links s) then Some (idle_task s)
           else list_owner (list_first Readyqueue (links s)));
     s1 \<leftarrow> (if current_state (task s (cur s)) = ST_RUN
           then update_process_state_rr (cur s) (Some Readyqueue) s else Some s);
     s2 \<leftarrow> update_process_state_rr nt None s1;
     let s3 = s2\<lparr>tick_counter := get_quantum nt s2\<rparr>;
     Some (if PID (task s3 (cur s3)) \<noteq> PID (task s3 nt)
           then (True, inner_task_switch nt kc s3) else (False, s3)) }"

text \<open>The call of \<open>sched_next_rr\<close> and what the caller does when it has the CPU again.\<close>

definition sched_then :: "kcont \<Rightarrow> call \<Rightarrow> call" where
  "sched_then kc rest s = do {
     (switched, s1) \<leftarrow> sched_next_rr kc s;
     if switched then Some (Switched, s1) else rest s1 }"

definition needs_sched_rr :: "kstate \<Rightarrow> bool" where
  "needs_sched_rr s \<longleftrightarrow> tick_counter s \<le> 0"

definition update_sched_data_rr :: "kstate \<Rightarrow> kstate" where
  "update_sched_data_rr s =
     (if tick_counter s > 0 then s\<lparr>tick_counter := tick_counter s - 1\<rparr> else s)"

section \<open>Initialisation\<close>

definition init_sched :: "kstate \<Rightarrow> kstate option" where
  "init_sched s = do {
     let s1 = init_head Readyqueue (init_head Freequeue (init_head ReadBlocked (init_head Blocked s)));
     let s2 = init_heap s1;
     let s3 = s2\<lparr>semaphores := fold (\<lambda>i S. S(i := (S i)\<lparr>sem_free := True\<rparr>)) [0..<NUM_SEMS] (semaphores s2)\<rparr>;
     foldo (\<lambda>i s. update_process_state_rr i (Some Freequeue) (upd_task i (\<lambda>ts. ts\<lparr>PID := -1\<rparr>) s))
       [0..<NR_TASKS] s3 }"

definition init_idle :: "kstate \<Rightarrow> kstate option" where
  "init_idle s = do {
     e \<leftarrow> list_first Freequeue (links s);
     ct \<leftarrow> list_head_to_task_struct e;
     s1 \<leftarrow> on_links (list_del e) s;
     let s2 = upd_task ct (\<lambda>ts. ts\<lparr>PID := 0, pending_unblocks := 0, current_state := ST_READY\<rparr>) s1;
     let s3 = set_quantum ct 0 (init_head (TWaitList ct) (init_head (TFills ct) s2));
     let s4 = snd (allocate_DIR ct s3);
     let s5 = upd_task ct (\<lambda>ts. ts\<lparr>k_ctx := KIdle\<rparr>) s4;
     Some (s5\<lparr>idle_task := ct\<rparr>) }"

definition init_task1 :: "kstate \<Rightarrow> kstate option" where
  "init_task1 s = do {
     e \<leftarrow> list_first Freequeue (links s);
     ct \<leftarrow> list_head_to_task_struct e;
     let s1 = upd_task ct (\<lambda>ts. ts\<lparr>PID := 1, pending_unblocks := 0\<rparr>) s;
     s2 \<leftarrow> update_process_state_rr ct None s1;
     let s3 = set_quantum ct DEFAULT_QUANTUM_TICKS (init_head (TWaitList ct) (init_head (TFills ct) s2));
     let s4 = s3\<lparr>tick_counter := get_quantum ct s3\<rparr>;
     let s5 = snd (allocate_heap ct (snd (allocate_DIR ct s4)));
     p \<leftarrow> get_PT ct s5;
     let s6 = (upd_mm (set_user_pages p) s5)\<lparr>esp0 := ct\<rparr>;
     Some ((set_cr3 (get_DIR ct s6) s6)\<lparr>task1 := ct\<rparr>) }"

text \<open>\<open>init_mm\<close> of \<^verbatim>\<open>mm.c\<close>: it takes a directory for \<open>task[0]\<close>, which \<open>init_idle\<close> replaces.\<close>

definition init_mm :: "kstate \<Rightarrow> kstate" where
  "init_mm s =
     (let s1 = upd_mm (\<lambda>m. init_dir_pages (init_frames (init_table_pages m))) s;
          s2 = snd (allocate_DIR 0 s1)
      in set_cr3 (get_DIR 0 s2) s2)"

end
