(* ===== verification/Semaphores.thy ===== *)
theory Semaphores
  imports Sched
begin

text \<open>
  The semaphores of \<^verbatim>\<open>sys.c\<close>. A thread that waits is linked twice: its \<open>list\<close> node in the
  queue of blocked threads and its \<open>semList\<close> node in the queue of the semaphore. Counters are
  32-bit integers with wrap-around.
\<close>

section \<open>The code\<close>

definition wrap32 :: "int \<Rightarrow> int" where
  "wrap32 v = signed_take_bit 31 v"

definition upd_sem :: "nat \<Rightarrow> (semaphore \<Rightarrow> semaphore) \<Rightarrow> kstate \<Rightarrow> kstate" where
  "upd_sem i f s = s\<lparr>semaphores := (semaphores s)(i := f (semaphores s i))\<rparr>"

definition sys_getpid :: "kstate \<Rightarrow> int" where
  "sys_getpid s = PID (task s (cur s))"

definition sem_find :: "int \<Rightarrow> kstate \<Rightarrow> nat option" where
  "sem_find semid s = find_from 0 (\<lambda>i. sem_id (semaphores s i) = semid) 0 NUM_SEMS"

definition sys_semCreate_extended :: "int \<Rightarrow> bool \<Rightarrow> call" where
  "sys_semCreate_extended initial_value userMode s =
     (case find_from 0 (\<lambda>i. sem_free (semaphores s i)) 0 NUM_SEMS of
        None \<Rightarrow> Some (Ret (- 1), s)
      | Some i \<Rightarrow>
          let s1 = init_head (SemBlocked i) (upd_sem i (\<lambda>sm. sm\<lparr>sem_free := False,
                     sem_value := initial_value, creatorPID := sys_getpid s\<rparr>) s)
          in if userMode
             then Some (Ret (semIDglobal s),
                    (upd_sem i (\<lambda>sm. sm\<lparr>sem_id := semIDglobal s\<rparr>) s1)\<lparr>semIDglobal := semIDglobal s + 1\<rparr>)
             else Some (Ret (semIDsystem s),
                    (upd_sem i (\<lambda>sm. sm\<lparr>sem_id := semIDsystem s\<rparr>) s1)\<lparr>semIDsystem := semIDsystem s + 1\<rparr>))"

definition sys_semCreate :: "int \<Rightarrow> call" where
  "sys_semCreate initial_value = sys_semCreate_extended initial_value True"

definition sem_wait_end :: "nat \<Rightarrow> call" where
  "sem_wait_end i s = Some (Ret (creatorPID (semaphores s i)), s)"

definition sys_semWait_extended :: "int \<Rightarrow> bool \<Rightarrow> call" where
  "sys_semWait_extended semid userMode s =
     (if userMode \<and> semid < 100000 then Some (Ret (- EINVAL), s)
      else if \<not> userMode \<and> semid \<ge> 100000 then Some (Ret (- EINVAL), s)
      else case sem_find semid s of
        None \<Rightarrow> Some (Ret (- 1), s)
      | Some i \<Rightarrow>
          if sem_free (semaphores s i) then Some (Ret (- EINVAL), s)
          else let v = wrap32 (sem_value (semaphores s i) - 1);
                   s1 = upd_sem i (\<lambda>sm. sm\<lparr>sem_value := v\<rparr>) s
            in if v < 0 then do {
                 s2 \<leftarrow> on_links (list_add_tail (TSemList (cur s1)) (SemBlocked i)) s1;
                 s3 \<leftarrow> update_process_state_rr (cur s2) (Some Blocked) s2;
                 sched_then (KSemWait i) (sem_wait_end i) s3 }
               else sem_wait_end i s1)"

definition sys_semWait :: "int \<Rightarrow> call" where
  "sys_semWait semid = sys_semWait_extended semid True"

text \<open>
  Taking the first thread off the queue of a semaphore and making it ready: the lines that
  \<open>semSignal\<close> and \<open>semDestroy\<close> share.
\<close>

definition sem_wake :: "nat \<Rightarrow> kstate \<Rightarrow> kstate option" where
  "sem_wake i s = do {
     e \<leftarrow> list_first (SemBlocked i) (links s);
     s1 \<leftarrow> on_links (list_del e) s;
     firstBlocked \<leftarrow> list_head_to_task_struct e;
     update_process_state_rr firstBlocked (Some Readyqueue) s1 }"

definition sem_signal_end :: "nat \<Rightarrow> call" where
  "sem_signal_end i s = Some (Ret (sem_value (semaphores s i)), s)"

definition sys_semSignal_extended :: "int \<Rightarrow> bool \<Rightarrow> call" where
  "sys_semSignal_extended semid userMode s =
     (if userMode \<and> semid < 100000 then Some (Ret (- 1), s)
      else if \<not> userMode \<and> semid \<ge> 100000 then Some (Ret (- 1), s)
      else case sem_find semid s of
        None \<Rightarrow> Some (Ret (- 1), s)
      | Some i \<Rightarrow>
          if sem_free (semaphores s i) then Some (Ret (- EINVAL), s)
          else let v = wrap32 (sem_value (semaphores s i) + 1);
                   s1 = upd_sem i (\<lambda>sm. sm\<lparr>sem_value := v\<rparr>) s
            in if v \<le> 0 then do {
                 s2 \<leftarrow> sem_wake i s1;
                 sched_then (KSemSignal i) (sem_signal_end i) s2 }
               else sem_signal_end i s1)"

definition sys_semSignal :: "int \<Rightarrow> call" where
  "sys_semSignal semid = sys_semSignal_extended semid True"

text \<open>
  \<open>sem_wake_all\<close> is the inner loop of \<open>semDestroy\<close>, which gives the CPU away after every
  thread it wakes; \<open>ex\<close> is the position of \<open>sys_exit\<close>'s loop when that is the caller.
  \<open>sem_destroy_from\<close> is the rest of the loop over the table from slot \<open>i\<close>.
\<close>

partial_function (option) sem_wake_all ::
  "nat \<Rightarrow> int \<Rightarrow> nat option \<Rightarrow> kstate \<Rightarrow> (bool \<times> kstate) option" where
  "sem_wake_all i semid ex s =
     (if list_empty (SemBlocked i) (links s) then Some (False, s)
      else Option.bind (sem_wake i (upd_sem i (\<lambda>sm. sm\<lparr>creatorPID := -1\<rparr>) s)) (\<lambda>s1.
        Option.bind (sched_next_rr (KSemDestroy i semid ex) s1) (\<lambda>(switched, s2).
          if switched then Some (True, s2) else sem_wake_all i semid ex s2)))"

function sem_destroy_from :: "nat \<Rightarrow> int \<Rightarrow> nat option \<Rightarrow> call" where
  "sem_destroy_from i semid ex s =
     (if NUM_SEMS \<le> i then Some (Ret (- 1), s)
      else if sem_id (semaphores s i) = semid then
        if sem_free (semaphores s i) then Some (Ret (- EINVAL), s)
        else if sys_getpid s \<noteq> creatorPID (semaphores s i) then Some (Ret (- EINVAL), s)
        else Option.bind (sem_wake_all i semid ex s) (\<lambda>(switched, s1).
          if switched then Some (Switched, s1)
          else sem_destroy_from (Suc i) semid ex (upd_sem i (\<lambda>sm. sm\<lparr>sem_free := True\<rparr>) s1))
      else sem_destroy_from (Suc i) semid ex s)"
  by pat_completeness auto
termination
  by (relation "measure (\<lambda>(i, semid, ex, s). NUM_SEMS - i)") auto

declare sem_destroy_from.simps [simp del]

definition sys_semDestroy_extended :: "int \<Rightarrow> bool \<Rightarrow> nat option \<Rightarrow> call" where
  "sys_semDestroy_extended semid userMode ex s =
     (if userMode \<and> semid < 100000 then Some (Ret (- EINVAL), s)
      else sem_destroy_from 0 semid ex s)"

definition sys_semDestroy :: "int \<Rightarrow> call" where
  "sys_semDestroy semid = sys_semDestroy_extended semid True None"

text \<open>The caller of \<open>semDestroy\<close> has the CPU again: it goes on with the inner loop.\<close>

definition sem_destroy_resume :: "nat \<Rightarrow> int \<Rightarrow> nat option \<Rightarrow> call" where
  "sem_destroy_resume i semid ex s = do {
     (switched, s1) \<leftarrow> sem_wake_all i semid ex s;
     if switched then Some (Switched, s1)
     else sem_destroy_from (Suc i) semid ex (upd_sem i (\<lambda>sm. sm\<lparr>sem_free := True\<rparr>) s1) }"

end
