(* ===== verification/Process.thy ===== *)
theory Process
  imports Semaphores Frames
begin

text \<open>
  The system calls of \<^verbatim>\<open>sys.c\<close> on threads and address spaces: \<open>fork\<close>,
  \<open>create_thread\<close>, \<open>exit\<close>, \<open>block\<close>, \<open>unblock\<close>, \<open>wait_thread\<close> and \<open>dyn_mem\<close>.

  \<open>copy_data(current(), fill, sizeof(union task_union))\<close> copies the whole page of a task: its
  fields, the pointers of its six list nodes and its kernel stack. The size of the heap lives
  in the counter \<open>my_heap\<close> points to, shared by the threads of a process.
\<close>

abbreviation (input) EFAULT :: int where "EFAULT \<equiv> 14"

section \<open>Helpers for the shared code\<close>

definition heap_pages :: "nat \<Rightarrow> kstate \<Rightarrow> int option" where
  "heap_pages t s = map_option (heap_zones (mm s)) (my_heap (task s t))"

definition copy_task_union :: "nat \<Rightarrow> nat \<Rightarrow> kstate \<Rightarrow> kstate" where
  "copy_task_union src dst s =
     s\<lparr>task := (task s)(dst := task s src),
       links := (links s)(TList dst := links s (TList src), TFills dst := links s (TFills src),
         TParentAnchor dst := links s (TParentAnchor src), TWaitList dst := links s (TWaitList src),
         TWaitAnchor dst := links s (TWaitAnchor src), TSemList dst := links s (TSemList src))\<rparr>"

text \<open>The family of a new thread, the lines that \<open>fork\<close> and \<open>create_thread\<close> share.\<close>

definition adopt :: "nat \<Rightarrow> kstate \<Rightarrow> kstate option" where
  "adopt fill s = do {
     let s1 = (upd_task fill (\<lambda>ts. ts\<lparr>PID := pidGlobal s, pare := Some (cur s)\<rparr>) s)
                \<lparr>pidGlobal := pidGlobal s + 1\<rparr>;
     s2 \<leftarrow> on_links (list_add_tail (TParentAnchor fill) (TFills (cur s1))) s1;
     let s3 = init_head (TWaitList fill) (init_head (TFills fill) s2);
     Some (upd_task fill (\<lambda>ts. ts\<lparr>pending_unblocks := 0\<rparr>) s3) }"

definition start_thread :: "nat \<Rightarrow> kcont \<Rightarrow> kstate \<Rightarrow> kstate option" where
  "start_thread fill kc s =
     update_process_state_rr fill (Some Readyqueue)
       (set_quantum fill DEFAULT_QUANTUM_TICKS (upd_task fill (\<lambda>ts. ts\<lparr>k_ctx := kc\<rparr>) s))"

section \<open>fork\<close>

text \<open>The user pages of the child: shared code, new frames for data and heap.\<close>

definition map_child :: "nat \<Rightarrow> nat \<Rightarrow> int list \<Rightarrow> nat \<Rightarrow> mm_state \<Rightarrow> mm_state" where
  "map_child fillTP pareTP frames h m =
     (let m1 = fold (\<lambda>i m. upd_PT fillTP (\<lambda>PT. set_ss_pag PT i (get_frame (pagusr_table m pareTP) i)) m)
                 [0..<NUM_PAG_KERNEL] m;
          m2 = fold (\<lambda>i m. upd_PT fillTP (\<lambda>PT. set_ss_pag PT (PAG_LOG_INIT_CODE + i)
                        (get_frame (pagusr_table m pareTP) (PAG_LOG_INIT_CODE + i))) m)
                 [0..<NUM_PAG_CODE] m1;
          m3 = fold (\<lambda>i m. upd_PT fillTP (\<lambda>PT. set_ss_pag PT (PAG_LOG_INIT_DATA + i)
                        (word_of_int (frames ! i))) m)
                 [0..<NUM_PAG_DATA] m2
      in fold (\<lambda>i m. upd_PT fillTP (\<lambda>PT. set_ss_pag PT (PAG_LOG_INIT_HEAP + i)
                        (word_of_int (frames ! (NUM_PAG_DATA + i)))) m)
           [0..<h] m3)"

text \<open>
  A table has \<open>TOTAL_PAGES\<close> entries and the code does not check its indices: a write behind the
  last entry goes into the table of the next directory. There the model has no value.
\<close>

definition in_table :: "nat \<Rightarrow> unit option" where
  "in_table n = (if n \<le> TOTAL_PAGES then Some () else None)"

text \<open>One page of the copy through a temporary mapping in the parent's table.\<close>

definition copy_page :: "nat \<Rightarrow> nat \<Rightarrow> nat \<Rightarrow> nat \<Rightarrow> mm_state \<times> ram \<Rightarrow> (mm_state \<times> ram) option" where
  "copy_page pareTP fillTP offset i = (\<lambda>(m, r). do {
     _ \<leftarrow> in_table (Suc (i + offset));
     let m1 = upd_PT pareTP (\<lambda>PT. set_ss_pag PT (i + offset) (get_frame (pagusr_table m fillTP) i)) m;
     r1 \<leftarrow> copy_data (translate m1) (i * PAGE_SIZE) ((i + offset) * PAGE_SIZE) (int PAGE_SIZE) r;
     Some (upd_PT pareTP (\<lambda>PT. del_ss_pag PT (i + offset)) m1, r1) })"

definition copy_space :: "nat \<Rightarrow> nat \<Rightarrow> nat \<Rightarrow> kstate \<Rightarrow> kstate option" where
  "copy_space fillTP pareTP h s = do {
     mr \<leftarrow> foldo (copy_page pareTP fillTP (NUM_PAG_DATA + NUM_PAG_CODE + h))
            [PAG_LOG_INIT_DATA..<PAG_LOG_INIT_DATA + NUM_PAG_DATA] (mm s, ram s);
     (m, r) \<leftarrow> foldo (copy_page pareTP fillTP (NUM_PAG_DATA + h))
            [PAG_LOG_INIT_HEAP..<PAG_LOG_INIT_HEAP + h] mr;
     Some (s\<lparr>mm := m, ram := r\<rparr>) }"

definition sys_fork :: call where
  "sys_fork s =
     (if list_empty Freequeue (links s) then Some (Ret (- ENOMEM), s)
      else do {
        e \<leftarrow> list_first Freequeue (links s);
        fill \<leftarrow> list_head_to_task_struct e;
        s1 \<leftarrow> on_links (list_del e) s;
        let s2 = copy_task_union (cur s1) fill s1;
        let s3 = snd (allocate_heap fill (snd (allocate_DIR fill s2)));
        let s4 = upd_task fill (\<lambda>ts. ts\<lparr>my_heap := my_heap (task s3 (cur s3))\<rparr>) s3;
        h \<leftarrow> heap_pages (cur s4) s4;
        let (frames, m) = alloc_loop (\<lambda>_. alloc_frame) (\<lambda>_ f. free_frame (word_of_int f))
                            (nat (int NUM_PAG_DATA + h)) [] (mm s4);
        let s5 = s4\<lparr>mm := m\<rparr>;
        case frames of
          None \<Rightarrow> do {
            s6 \<leftarrow> on_links (list_add_tail (TList fill) Freequeue) s5;
            Some (Ret (- ENOMEM), s6) }
        | Some fs \<Rightarrow> do {
            fillTP \<leftarrow> get_PT fill s5;
            pareTP \<leftarrow> get_PT (cur s5) s5;
            s6 \<leftarrow> copy_space fillTP pareTP (nat h) (upd_mm (map_child fillTP pareTP fs (nat h)) s5);
            s7 \<leftarrow> adopt fill (set_cr3 (get_DIR (cur s6) s6) s6);
            s8 \<leftarrow> start_thread fill KRetFromFork s7;
            Some (Ret (PID (task s8 fill)), s8) } })"

section \<open>create_thread\<close>

definition sys_create_thread :: "u32 \<Rightarrow> u32 \<Rightarrow> u32 \<Rightarrow> call" where
  "sys_create_thread func stack parameter s =
     (if list_empty Freequeue (links s) then Some (Ret (- ENOMEM), s)
      else if access_ok VERIFY_READ func 4 = 0 then Some (Ret (- EFAULT), s)
      else if access_ok VERIFY_WRITE stack 4 = 0 then Some (Ret (- EFAULT), s)
      else do {
        e \<leftarrow> list_first Freequeue (links s);
        fill \<leftarrow> list_head_to_task_struct e;
        s1 \<leftarrow> on_links (list_del e) s;
        (_, s2) \<leftarrow> add_DIR_ref fill (copy_task_union (cur s1) fill s1);
        s3 \<leftarrow> adopt fill s2;
        let s4 = upd_task fill (\<lambda>ts. ts\<lparr>u_eip := func\<rparr>) s3;
        r1 \<leftarrow> st32 (translate (mm s4)) (unat (stack - 4)) parameter (ram s4);
        r2 \<leftarrow> st32 (translate (mm s4)) (unat (stack - 8)) 0 r1;
        let s5 = upd_task fill (\<lambda>ts. ts\<lparr>u_esp := stack - 8\<rparr>) (s4\<lparr>ram := r2\<rparr>);
        s6 \<leftarrow> start_thread fill KRetFromNewThread s5;
        Some (Ret (PID (task s6 fill)), s6) })"

section \<open>exit\<close>

definition release_pages :: "nat \<Rightarrow> nat \<Rightarrow> nat \<Rightarrow> mm_state \<Rightarrow> mm_state" where
  "release_pages p lo n m =
     fold (\<lambda>i m. upd_PT p (\<lambda>PT. del_ss_pag PT i) (free_frame (get_frame (pagusr_table m p) i) m))
       [lo..<lo + n] m"

text \<open>
  The end of \<open>sys_exit\<close>, behind the loop that destroys the semaphores. The children are
  appended to the idle task's list without being taken off the list that is traversed.
\<close>

definition exit_family :: "kstate \<Rightarrow> kstate option" where
  "exit_family s = do {
     s1 \<leftarrow> on_links (list_del (TParentAnchor (cur s))) s;
     s2 \<leftarrow> list_for_each_safe links
       (\<lambda>pos s. do {
          t \<leftarrow> list_head_to_task_struct pos;
          on_links (list_add_tail pos (TFills (idle_task s)))
            (upd_task t (\<lambda>ts. ts\<lparr>pare := Some (idle_task s)\<rparr>) s) }) (TFills (cur s1)) s1;
     list_for_each_safe links
       (\<lambda>pos s. do {
          t \<leftarrow> list_head_to_task_struct pos;
          s' \<leftarrow> update_process_state_rr t (Some Readyqueue) s;
          on_links (list_del pos) s' }) (TWaitList (cur s2)) s2 }"

definition exit_rest :: call where
  "exit_rest s = do {
     let ct = cur s;
     ctTP \<leftarrow> get_PT ct s;
     (n, s1) \<leftarrow> sub_DIR_ref ct s;
     s2 \<leftarrow> (if n \<le> 0 then do {
               h \<leftarrow> heap_pages ct s1;
               Some (upd_mm (\<lambda>m. release_pages ctTP PAG_LOG_INIT_HEAP (nat h)
                                    (release_pages ctTP PAG_LOG_INIT_DATA NUM_PAG_DATA m)) s1) }
             else Some s1);
     s3 \<leftarrow> exit_family (upd_task ct (\<lambda>ts. ts\<lparr>PID := -1, dir_pages_baseAddr := None, pare := None\<rparr>) s2);
     s4 \<leftarrow> update_process_state_rr ct (Some Freequeue) s3;
     sched_then KExited (\<lambda>s. Some (RetVoid, s)) s4 }"

function exit_sems :: "nat \<Rightarrow> kstate \<Rightarrow> (bool \<times> kstate) option" where
  "exit_sems i s =
     (if NUM_SEMS \<le> i then Some (False, s)
      else if creatorPID (semaphores s i) = sys_getpid s then
        Option.bind (sys_semDestroy_extended (sem_id (semaphores s i)) False (Some i) s) (\<lambda>(r, s1).
          if r = Switched then Some (True, s1) else exit_sems (Suc i) s1)
      else exit_sems (Suc i) s)"
  by pat_completeness auto
termination
  by (relation "measure (\<lambda>(i, s). NUM_SEMS - i)") auto

declare exit_sems.simps [simp del]

definition exit_from :: "nat \<Rightarrow> call" where
  "exit_from i s = do {
     (switched, s1) \<leftarrow> exit_sems i s;
     if switched then Some (Switched, s1) else exit_rest s1 }"

definition sys_exit :: call where
  "sys_exit s = (case get_PT (cur s) s of None \<Rightarrow> None | Some _ \<Rightarrow> exit_from 0 s)"

section \<open>block, unblock, wait\<close>

definition sys_block :: call where
  "sys_block s =
     (if pending_unblocks (task s (cur s)) \<le> 0 then do {
        s1 \<leftarrow> update_process_state_rr (cur s) (Some Blocked) s;
        sched_then KBlock (\<lambda>s. Some (RetVoid, s)) s1 }
      else Some (RetVoid, upd_task (cur s) (\<lambda>ts. ts\<lparr>pending_unblocks := pending_unblocks ts - 1\<rparr>) s))"

definition unblock_body :: "int \<Rightarrow> lnode \<Rightarrow> int \<times> kstate \<Rightarrow> (int \<times> kstate) option" where
  "unblock_body pid e = (\<lambda>(ret, s). do {
     fill \<leftarrow> list_head_to_task_struct e;
     if PID (task s fill) = pid then do {
       s1 \<leftarrow> (if current_state (task s fill) = ST_BLOCKED
              then update_process_state_rr fill (Some Readyqueue) s
              else Some (upd_task fill (\<lambda>ts. ts\<lparr>pending_unblocks := pending_unblocks ts + 1\<rparr>) s));
       Some (0, s1) }
     else Some (ret, s) })"

definition sys_unblock :: "int \<Rightarrow> call" where
  "sys_unblock pid s = do {
     (ret, s1) \<leftarrow> list_for_each (links \<circ> snd) (unblock_body pid) (TFills (cur s)) (-1, s);
     sched_then (KUnblock ret) (\<lambda>s. Some (Ret ret, s)) s1 }"

definition wait_thread_end :: "nat \<Rightarrow> call" where
  "wait_thread_end bt s = Some (Ret (PID (task s bt)), s)"

definition sys_wait_thread :: "int \<Rightarrow> call" where
  "sys_wait_thread pid s =
     (case find_from 0 (\<lambda>i. PID (task s i) = pid) 0 NR_TASKS of
        None \<Rightarrow> Some (Ret (- EINVAL), s)
      | Some bt \<Rightarrow> do {
          s1 \<leftarrow> on_links (list_add_tail (TWaitAnchor (cur s)) (TWaitList bt)) s;
          s2 \<leftarrow> update_process_state_rr (cur s1) (Some Blocked) s1;
          sched_then (KWaitThread bt) (wait_thread_end bt) s2 })"

section \<open>dyn_mem\<close>

text \<open>
  The result is the address of the first new page, or of the end of the heap, or an error code
  in the same register. Negating the smallest \<open>int\<close> is undefined in C: that argument is
  outside of the model.
\<close>

definition heap_addr :: "int \<Rightarrow> int" where
  "heap_addr h = (int PAG_LOG_INIT_HEAP + h) * int PAGE_SIZE"

text \<open>The two bodies of the loop that takes frames: one more page, and one page less.\<close>

definition map_frame :: "nat \<Rightarrow> nat \<Rightarrow> mm_state option \<Rightarrow> int \<times> mm_state option" where
  "map_frame p page m =
     (case m of None \<Rightarrow> (0, None)
      | Some m \<Rightarrow> let (f, m1) = alloc_frame m in
          (f, if f < 0 then Some m1
              else do {
                _ \<leftarrow> in_table (Suc page);
                Some (upd_PT p (\<lambda>PT. set_ss_pag PT page (word_of_int f)) m1) }))"

definition unmap_frame :: "nat \<Rightarrow> nat \<Rightarrow> int \<Rightarrow> mm_state option \<Rightarrow> mm_state option" where
  "unmap_frame p page f = map_option (\<lambda>m. upd_PT p (\<lambda>PT. del_ss_pag PT page) (free_frame (word_of_int f) m))"

definition dyn_mem_grow :: "nat \<Rightarrow> nat \<Rightarrow> int \<Rightarrow> mm_state \<Rightarrow> int list option \<times> mm_state option" where
  "dyn_mem_grow p base_page n m =
     alloc_loop (\<lambda>i. map_frame p (base_page + i)) (\<lambda>j. unmap_frame p (base_page + j)) (nat n) [] (Some m)"

definition sys_dyn_mem :: "int \<Rightarrow> call" where
  "sys_dyn_mem num_pags s = do {
     hz \<leftarrow> my_heap (task s (cur s));
     let h = heap_zones (mm s) hz;
     if num_pags = 0 then Some (Ret (heap_addr h), s)
     else if num_pags > 0 then do {
       p \<leftarrow> get_PT (cur s) s;
       case dyn_mem_grow p (PAG_LOG_INIT_HEAP + nat h) num_pags (mm s) of
         (_, None) \<Rightarrow> None
       | (None, Some m) \<Rightarrow> Some (Ret (- ENOMEM), s\<lparr>mm := m\<rparr>)
       | (Some _, Some m) \<Rightarrow> Some (Ret (heap_addr h),
             s\<lparr>mm := m\<lparr>heap_zones := (heap_zones m)(hz := h + num_pags)\<rparr>\<rparr>) }
     else if num_pags = - (2 ^ 31) then None
     else let n = - num_pags in
       if h < n then Some (Ret (- EINVAL), s)
       else do {
         p \<leftarrow> get_PT (cur s) s;
         _ \<leftarrow> in_table (PAG_LOG_INIT_HEAP + nat h);
         let s1 = upd_mm (\<lambda>m. release_pages p (PAG_LOG_INIT_HEAP + nat (h - n)) (nat n) m) s;
         let s2 = upd_mm (\<lambda>m. m\<lparr>heap_zones := (heap_zones m)(hz := h - n)\<rparr>) s1;
         Some (Ret (heap_addr (h - n)), set_cr3 (get_DIR (cur s2) s2) s2) } }"

end
