(* ===== verification/FileIO.thy ===== *)
theory FileIO
  imports Sched
begin

text \<open>
  The system calls \<open>write\<close>, \<open>read\<close> and \<open>gettime\<close> of \<^verbatim>\<open>sys.c\<close>. User data
  moves through the kernel buffers \<open>bufferAux\<close> and \<open>tmpbuff\<close>, whose addresses are the
  fields of the same names. Kernel memory is mapped to itself, so the console driver reads
  \<open>bufferAux\<close>, and the loop of \<open>sys_read\<close> fills \<open>tmpbuff\<close>, by physical address; the copy
  routines go through the page tables.
\<close>

abbreviation (input) EFAULT :: int where "EFAULT \<equiv> 14"
abbreviation (input) AUX_BUFF_MAX_SIZE :: int where "AUX_BUFF_MAX_SIZE \<equiv> 1024"
abbreviation (input) LECTURA :: int where "LECTURA \<equiv> 0"
abbreviation (input) ESCRIPTURA :: int where "ESCRIPTURA \<equiv> 1"

definition check_fd :: "int \<Rightarrow> int \<Rightarrow> int" where
  "check_fd fd permissions = (if fd \<noteq> 1 then -9 else if permissions \<noteq> ESCRIPTURA then -13 else 0)"

section \<open>write\<close>

definition write_chunk :: "nat \<Rightarrow> int \<Rightarrow> kstate \<Rightarrow> (int \<times> kstate) option" where
  "write_chunk buffer n s = do {
     (_, r) \<leftarrow> copy_from_user (translate (mm s)) buffer (bufferAux s) n (ram s);
     let (ret, c) = sys_write_console (\<lambda>i. r (bufferAux s + i)) n (con s);
     Some (ret, s\<lparr>ram := r, con := c\<rparr>) }"

function write_loop :: "nat \<Rightarrow> int \<Rightarrow> int \<Rightarrow> kstate \<Rightarrow> (int \<times> kstate) option" where
  "write_loop buffer sz ret s =
     (if sz > AUX_BUFF_MAX_SIZE
      then Option.bind (write_chunk buffer AUX_BUFF_MAX_SIZE s) (\<lambda>(n, s1).
             write_loop (buffer + 1024) (sz - AUX_BUFF_MAX_SIZE) (ret + n) s1)
      else Option.bind (write_chunk buffer sz s) (\<lambda>(n, s1). Some (ret + n, s1)))"
  by pat_completeness auto
termination
  by (relation "measure (\<lambda>(buffer, sz, ret, s). nat sz)") auto

declare write_loop.simps [simp del]

definition sys_write :: "int \<Rightarrow> u32 \<Rightarrow> int \<Rightarrow> call" where
  "sys_write fd buffer sz s =
     (if check_fd fd ESCRIPTURA \<noteq> 0 then Some (Ret (check_fd fd ESCRIPTURA), s)
      else if buffer = 0 then Some (Ret (- EFAULT), s)
      else if sz \<le> 0 then Some (Ret (- EINVAL), s)
      else if access_ok VERIFY_READ buffer (word_of_int sz) = 0 then Some (Ret (- EFAULT), s)
      else do {
        (ret, s1) \<leftarrow> write_loop (unat buffer) sz 0 s;
        Some (Ret ret, s1) })"

section \<open>read\<close>

definition store_bytes :: "nat \<Rightarrow> u8 list \<Rightarrow> ram \<Rightarrow> ram" where
  "store_bytes a bs r = (\<lambda>x. if a \<le> x \<and> x < a + length bs then bs ! (x - a) else r x)"

definition read_finish :: "nat \<Rightarrow> int \<Rightarrow> call" where
  "read_finish b maxchars s = do {
     let (cs, k) = pop_loop kb_buffer_pop (nat maxchars) (kb s);
     (_, r) \<leftarrow> copy_to_user (translate (mm s)) (tmpbuff s) b maxchars (store_bytes (tmpbuff s) cs (ram s));
     s1 \<leftarrow> update_process_state_rr (cur s) None (s\<lparr>kb := k, ram := r\<rparr>);
     Some (Ret maxchars, s1) }"

partial_function (option) read_loop :: "nat \<Rightarrow> int \<Rightarrow> kstate \<Rightarrow> (outcome \<times> kstate) option" where
  "read_loop b maxchars s =
     (if int (kb_buffer_size (kb s)) < maxchars
      then Option.bind (sched_next_rr (KRead b maxchars) s) (\<lambda>(switched, s1).
             if switched then Some (Switched, s1) else read_loop b maxchars s1)
      else read_finish b maxchars s)"

definition sys_read :: "u32 \<Rightarrow> int \<Rightarrow> call" where
  "sys_read b maxchars s =
     (if b = 0 then Some (Ret (- EFAULT), s)
      else if maxchars < 0 then Some (Ret (- EINVAL), s)
      else if access_ok VERIFY_WRITE b (word_of_int maxchars) = 0 then Some (Ret (- EFAULT), s)
      else do {
        s1 \<leftarrow> update_process_state_rr (cur s) (Some ReadBlocked) s;
        other \<leftarrow> (if list_empty ReadBlocked (links s1) then Some False
                 else do {
                   t \<leftarrow> list_owner (list_first ReadBlocked (links s1));
                   Some (PID (task s1 t) \<noteq> PID (task s1 (cur s1))) });
        if other then sched_then (KRead (unat b) maxchars) (read_loop (unat b) maxchars) s1
        else read_loop (unat b) maxchars s1 })"

definition sys_gettime :: "kstate \<Rightarrow> int" where
  "sys_gettime s = zeos_tick s"

end
