(* ===== verification/Machine.thy ===== *)
theory Machine
  imports Process FileIO Tables
begin

text \<open>
  The kernel as a whole: the interrupt routines of \<^verbatim>\<open>interrupt.c\<close>, the dispatch of system
  calls (\<^verbatim>\<open>entry.S\<close>, \<^verbatim>\<open>sys_call_table.S\<close>), the start of the system in \<^verbatim>\<open>system.c\<close>,
  what a suspended thread does when it gets the CPU back, and the step relation of the machine.

  Interrupts are disabled while the kernel runs, so a step is one entry into the kernel, up to
  the point where it returns to user mode or gives the CPU to another thread, or the
  resumption of the thread that got the CPU.
\<close>

section \<open>Interrupts\<close>

definition keyboard_routine :: "u8 \<Rightarrow> call" where
  "keyboard_routine read_inp s =
     (case decode_key read_inp of
        None \<Rightarrow> Some (RetVoid, s)
      | Some char_print \<Rightarrow>
          let s1 = (if kb_buffer_size (kb s) < KB_BUFFER_SIZE
                    then s\<lparr>kb := kb_buffer_push char_print (kb s)\<rparr> else s)
          in if list_empty ReadBlocked (links s1) then Some (RetVoid, s1)
             else do {
               e \<leftarrow> list_first ReadBlocked (links s1);
               s2 \<leftarrow> (if current_state (task s1 (cur s1)) = ST_RUN
                      then update_process_state_rr (cur s1) (Some Readyqueue) s1 else Some s1);
               nt \<leftarrow> list_head_to_task_struct e;
               Some (Switched, inner_task_switch nt KInterrupt s2) })"

text \<open>\<open>zeos_show_clock\<close> is in the library that comes as an archive; it draws the clock on the
  screen, so it is a function of the tick count on the console.\<close>

definition clock_routine :: "(int \<Rightarrow> console \<Rightarrow> console) \<Rightarrow> call" where
  "clock_routine zeos_show_clock s =
     (let s1 = s\<lparr>con := zeos_show_clock (zeos_tick s) (con s)\<rparr>;
          s2 = s1\<lparr>zeos_tick := zeos_tick s1 + 10\<rparr>;
          s3 = update_sched_data_rr s2
      in if needs_sched_rr s3 then sched_then KInterrupt (\<lambda>s. Some (RetVoid, s)) s3
         else Some (RetVoid, s3))"

definition mapaHex :: "u8 list" where
  "mapaHex = [48, 49, 50, 51, 52, 53, 54, 55, 56, 57, 65, 66, 67, 68, 69, 70]"

text \<open>The loop from \<open>i = 7\<close> down to 0; the list is the part of \<open>res\<close> already written.\<close>

fun hex_loop :: "nat \<Rightarrow> u32 \<Rightarrow> u8 list \<Rightarrow> u8 list" where
  "hex_loop 0 num res = res"
| "hex_loop (Suc i) num res = hex_loop i (num div 16) (mapaHex ! unat (num mod 16) # res)"

definition stringNumHex :: "u32 \<Rightarrow> u8 list" where
  "stringNumHex num = hex_loop 8 num [0]"

text \<open>Strings of the program text are given by their characters.\<close>

definition bytes :: "string \<Rightarrow> u8 list" where
  "bytes cs = map of_char cs"

text \<open>The routine ends in an empty loop: the machine stops with this console.\<close>

definition page_fault_routine_2 :: "u32 \<Rightarrow> console \<Rightarrow> console" where
  "page_fault_routine_2 eip c =
     printk (bytes [CHR 0x0A])
       (printk (stringNumHex eip)
         (printk (bytes (CHR 0x0A # ''Process generates a PAGE FAULT exception at EIP: 0x'')) c))"

section \<open>System calls\<close>

datatype handler = H_ni | H_exit | H_fork | H_write | H_block | H_unblock | H_read | H_gotoxy
  | H_set_color | H_gettime | H_create_thread | H_wait_thread | H_dyn_mem | H_semCreate
  | H_semWait | H_semSignal | H_semDestroy | H_getpid

definition sys_call_table :: "handler list" where
  "sys_call_table = [H_ni, H_exit, H_fork, H_ni, H_write, H_block, H_unblock, H_read, H_gotoxy,
     H_set_color, H_gettime, H_create_thread, H_wait_thread, H_dyn_mem, H_semCreate, H_semWait,
     H_semSignal, H_semDestroy, H_ni, H_ni, H_getpid]"

definition MAX_SYSCALL :: int where
  "MAX_SYSCALL = int (length sys_call_table)"

definition sys_ni_syscall :: int where
  "sys_ni_syscall = -38"

definition on_console :: "(console \<Rightarrow> int \<times> console) \<Rightarrow> call" where
  "on_console f s = (let (r, c) = f (con s) in Some (Ret r, s\<lparr>con := c\<rparr>))"

fun run_handler :: "handler \<Rightarrow> u32 \<Rightarrow> u32 \<Rightarrow> u32 \<Rightarrow> call" where
  "run_handler H_ni a b c s = Some (Ret sys_ni_syscall, s)"
| "run_handler H_exit a b c s = sys_exit s"
| "run_handler H_fork a b c s = sys_fork s"
| "run_handler H_write a b c s = sys_write (sint a) b (sint c) s"
| "run_handler H_block a b c s = sys_block s"
| "run_handler H_unblock a b c s = sys_unblock (sint a) s"
| "run_handler H_read a b c s = sys_read a (sint b) s"
| "run_handler H_gotoxy a b c s = on_console (sys_gotoxy (sint a) (sint b)) s"
| "run_handler H_set_color a b c s = on_console (sys_set_color (sint a) (sint b)) s"
| "run_handler H_gettime a b c s = Some (Ret (sys_gettime s), s)"
| "run_handler H_create_thread a b c s = sys_create_thread a b c s"
| "run_handler H_wait_thread a b c s = sys_wait_thread (sint a) s"
| "run_handler H_dyn_mem a b c s = sys_dyn_mem (sint a) s"
| "run_handler H_semCreate a b c s = sys_semCreate (sint a) s"
| "run_handler H_semWait a b c s = sys_semWait (sint a) s"
| "run_handler H_semSignal a b c s = sys_semSignal (sint a) s"
| "run_handler H_semDestroy a b c s = sys_semDestroy (sint a) s"
| "run_handler H_getpid a b c s = Some (Ret (sys_getpid s), s)"

text \<open>\<open>SAVE_ALL\<close> pushes \<open>edx\<close> last, so the three registers are the arguments of the handler in the order
  \<open>edx\<close>, \<open>ecx\<close>, \<open>ebx\<close>, which is where the wrappers of the user library put them. The comparison lets the number
  \<open>MAX_SYSCALL\<close> through: the call goes through the word behind the table.\<close>

definition system_call_handler :: "int \<Rightarrow> u32 \<Rightarrow> u32 \<Rightarrow> u32 \<Rightarrow> call" where
  "system_call_handler eax ebx ecx edx s =
     (if eax < 0 \<or> eax > MAX_SYSCALL then Some (Ret (-38), s)
      else if nat eax < length sys_call_table
        then run_handler (sys_call_table ! nat eax) edx ecx ebx s
      else None)"

section \<open>Suspended threads\<close>

definition resume :: call where
  "resume s =
     (case k_ctx (task s (cur s)) of
        KNone \<Rightarrow> None
      | KIdle \<Rightarrow> Some (RetVoid, s)
      | KRetFromFork \<Rightarrow> Some (Ret 0, s)
      | KRetFromNewThread \<Rightarrow> Some (Ret 0, s)
      | KInterrupt \<Rightarrow> Some (RetVoid, s)
      | KBlock \<Rightarrow> Some (RetVoid, s)
      | KUnblock ret \<Rightarrow> Some (Ret ret, s)
      | KWaitThread bt \<Rightarrow> wait_thread_end bt s
      | KRead b maxchars \<Rightarrow> read_loop b maxchars s
      | KSemWait i \<Rightarrow> sem_wait_end i s
      | KSemSignal i \<Rightarrow> sem_signal_end i s
      | KSemDestroy i semid ex \<Rightarrow> do {
          (r, s1) \<leftarrow> sem_destroy_resume i semid ex s;
          case ex of None \<Rightarrow> Some (r, s1)
          | Some j \<Rightarrow> if r = Switched then Some (r, s1) else exit_from (Suc j) s1 }
      | KExited \<Rightarrow> Some (RetVoid, s))"

section \<open>The machine\<close>

datatype mode = User | Resuming | Halted

datatype event = Syscall u32 u32 u32 u32 u32 u32 | Clock | Key u8 | PageFault u32 | Resume
  | UserStore nat u8

definition leave_kernel :: "outcome \<times> kstate \<Rightarrow> mode \<times> kstate" where
  "leave_kernel = (\<lambda>(r, s). case r of
      Ret v \<Rightarrow> (User, upd_task (cur s) (\<lambda>ts. ts\<lparr>u_eax := word_of_int v\<rparr>) s)
    | RetVoid \<Rightarrow> (User, s)
    | Switched \<Rightarrow> (Resuming, s))"

text \<open>What a user program can write: pages mapped present, writable and for user mode.\<close>

definition user_writable :: "mm_state \<Rightarrow> nat \<Rightarrow> bool" where
  "user_writable m a =
     (case cr3 m of None \<Rightarrow> False
      | Some d \<Rightarrow>
          let pde = dir_pages m d (a div (PAGE_SIZE * TOTAL_PAGES));
              pte = pagusr_table m (unat (pbase_addr pde) - pagusr_page m) (a div PAGE_SIZE mod TOTAL_PAGES)
          in present pde \<and> rw pde \<and> user pde \<and> present pte \<and> rw pte \<and> user pte)"

text \<open>The bytes below \<open>L_USER_START\<close> are the kernel's. Its structures are fields of \<open>kstate\<close> and not bytes of \<open>ram\<close>,
  so a store of a user program there, which a child of \<open>fork\<close> can make, has no value in the model.\<close>

abbreviation (input) KERNEL_START :: nat where "KERNEL_START \<equiv> 65536"
abbreviation (input) L_USER_START :: nat where "L_USER_START \<equiv> 1048576"

fun kstep :: "(int \<Rightarrow> console \<Rightarrow> console) \<Rightarrow> event \<Rightarrow> mode \<times> kstate \<Rightarrow> (mode \<times> kstate) option" where
  "kstep show (Syscall eax ebx ecx edx eip esp) (User, s) =
     (if cur s = idle_task s then None
      else map_option leave_kernel (system_call_handler (sint eax) ebx ecx edx
             (upd_task (cur s) (\<lambda>ts. ts\<lparr>u_eip := eip, u_esp := esp, u_eax := eax\<rparr>) s)))"
| "kstep show Clock (User, s) = map_option leave_kernel (clock_routine show s)"
| "kstep show (Key b) (User, s) = map_option leave_kernel (keyboard_routine b s)"
| "kstep show (PageFault eip) (User, s) = Some (Halted, s\<lparr>con := page_fault_routine_2 eip (con s)\<rparr>)"
| "kstep show (UserStore a v) (User, s) =
     (if cur s \<noteq> idle_task s \<and> user_writable (mm s) a
      then do {
        p \<leftarrow> translate (mm s) a;
        if p < L_USER_START then None else Some (User, s\<lparr>ram := (ram s)(p := v)\<rparr>) }
      else None)"
| "kstep show Resume (Resuming, s) = map_option leave_kernel (resume s)"
| "kstep show _ _ = None"

section \<open>The start of the system\<close>

definition banner :: string where
  "banner = ''Systema operatiu de SO2 per Joan i Erik '' @ [CHR 0x0A]"

text \<open>\<open>return_gate\<close> stores the third word of the kernel's image, \<open>*p_rdtr\<close>, twelve bytes above the stack pointer it
  gives to the user, and leaves the kernel.\<close>

definition return_gate :: "translation \<Rightarrow> nat \<Rightarrow> u32 \<Rightarrow> ram \<Rightarrow> ram option" where
  "return_gate tr esp rdtr r = st32 tr (esp + 12) rdtr r"

definition boot :: "kstate \<Rightarrow> kstate option" where
  "boot s = do {
     let s1 = s\<lparr>con := printk (bytes (''Kernel Loaded!    '' @ [CHR 0x0A])) (printk (bytes banner) (con s)),
                zeos_tick := 0\<rparr>;
     s2 \<leftarrow> init_sched (init_mm s1);
     s3 \<leftarrow> init_idle s2;
     s4 \<leftarrow> init_task1 s3;
     let tr = translate (mm s4);
     sys_size \<leftarrow> ld32 tr KERNEL_START (ram s4);
     usr_size \<leftarrow> ld32 tr (KERNEL_START + 4) (ram s4);
     r \<leftarrow> copy_data tr (KERNEL_START + unat sys_size) L_USER_START (sint usr_size) (ram s4);
     rdtr \<leftarrow> ld32 tr (KERNEL_START + 8) r;
     r2 \<leftarrow> return_gate tr (unat USER_ESP) rdtr r;
     Some (s4\<lparr>ram := r2, con := printk (bytes ''Entering user mode...'') (con s4), cur := task1 s4\<rparr>) }"

end
