(* ===== verification/Round_Robin.thy ===== *)
theory Round_Robin
  imports Sched
begin

text \<open>
  What the scheduler of \<^verbatim>\<open>sched.c\<close> promises. \<open>Q\<close> is the abstract content of every list of
  the kernel (\<^verbatim>\<open>Lists\<close>). \<open>sched_inv\<close> says that the scheduling queues agree with the states
  of the tasks, \<open>cpu_inv\<close> what holds while a thread runs in user mode, and \<open>rr_next\<close> is the
  round robin policy on lists of task numbers, which \<open>sched_next_rr\<close> implements.
\<close>

section \<open>The queues\<close>

abbreviation (input) sched_queues :: "lnode set" where
  "sched_queues \<equiv> {Freequeue, Readyqueue, Blocked, ReadBlocked}"

text \<open>Which nodes may be on which list, and which addresses are list heads.\<close>

fun fits :: "lnode \<Rightarrow> lnode \<Rightarrow> bool" where
  "fits a (TList t) = (a \<in> sched_queues)"
| "fits a (TParentAnchor t) = (\<exists>p. a = TFills p)"
| "fits a (TWaitAnchor t) = (\<exists>p. a = TWaitList p)"
| "fits a (TSemList t) = (\<exists>i. a = SemBlocked i)"
| "fits a _ = False"

fun is_head :: "lnode \<Rightarrow> bool" where
  "is_head (TList t) = False"
| "is_head (TParentAnchor t) = False"
| "is_head (TWaitAnchor t) = False"
| "is_head (TSemList t) = False"
| "is_head _ = True"

definition typed :: "lnode lists \<Rightarrow> bool" where
  "typed Q \<longleftrightarrow> (\<forall>a. Q a \<noteq> None \<longrightarrow> is_head a) \<and> (\<forall>d \<in> sched_queues. Q d \<noteq> None) \<and>
     (\<forall>a n. on_list Q a n \<longrightarrow> fits a n)"

lemma typed_sched: "typed Q \<Longrightarrow> on_list Q a n \<Longrightarrow> a \<in> sched_queues \<longleftrightarrow> (\<exists>t. n = TList t)"
proof -
  assume "typed Q" "on_list Q a n"
  then have "fits a n" by (simp add: typed_def)
  then show ?thesis by (cases n) auto
qed

definition requeue :: "nat \<Rightarrow> lnode option \<Rightarrow> lnode lists \<Rightarrow> lnode lists" where
  "requeue t dest Q =
     (case dest of None \<Rightarrow> unlink (TList t) Q | Some d \<Rightarrow> enqueue (TList t) d (unlink (TList t) Q))"

lemma typed_unlink [wf_intros]:
  "reps h Q \<Longrightarrow> typed Q \<Longrightarrow> typed (unlink n Q)"
  unfolding typed_def by (simp add: dl.on_list_unlink)

lemma typed_enqueue [wf_intros]: "typed Q \<Longrightarrow> d \<in> sched_queues \<Longrightarrow> typed (enqueue (TList t) d Q)"
  unfolding typed_def by (auto simp only: enqueue_None on_list_enqueue fits.simps)

lemma typed_requeue [wf_intros]:
  "reps h Q \<Longrightarrow> typed Q \<Longrightarrow> (\<And>d. dest = Some d \<Longrightarrow> d \<in> sched_queues) \<Longrightarrow> typed (requeue t dest Q)"
  by (auto simp: requeue_def intro: wf_intros split: option.split)

lemma typed_head: "typed Q \<Longrightarrow> Q (TList t) = None"
  unfolding typed_def by (metis is_head.simps(1))

lemma typed_queue: "typed Q \<Longrightarrow> d \<in> sched_queues \<Longrightarrow> Q d \<noteq> None"
  unfolding typed_def by blast

lemma on_list_requeue:
  "reps h Q \<Longrightarrow> on_list (requeue t dest Q) a m \<longleftrightarrow>
     on_list Q a m \<and> m \<noteq> TList t \<or> m = TList t \<and> dest = Some a \<and> Q a \<noteq> None"
  by (auto simp: requeue_def dl.on_list_unlink split: option.split)

section \<open>Changing the state of a task\<close>

fun new_state :: "lnode option \<Rightarrow> state_t \<Rightarrow> state_t" where
  "new_state None st = ST_RUN"
| "new_state (Some d) st = (case dest_state d of None \<Rightarrow> st | Some st' \<Rightarrow> st')"

definition moved :: "nat \<Rightarrow> lnode option \<Rightarrow> lnode links \<Rightarrow> kstate \<Rightarrow> kstate" where
  "moved t dest h s = (set_state t (new_state dest (current_state (task s t))) s)\<lparr>links := h\<rparr>"

lemma on_links_simp [fault_simps]:
  "on_links f s = (case f (links s) of None \<Rightarrow> None | Some h \<Rightarrow> Some (s\<lparr>links := h\<rparr>))"
  by (cases "f (links s)") (simp_all add: on_links_def)

lemma set_state_links [simp]:
  "links (set_state t st s) = links s"
  "(set_state t st s)\<lparr>links := h\<rparr> = set_state t st (s\<lparr>links := h\<rparr>)"
  by (simp_all add: set_state_def upd_task_def)

lemma update_state:
  assumes Q: "reps (links s) Q" "typed Q" and d: "\<And>d. dest = Some d \<Longrightarrow> d \<in> sched_queues"
    and pid: "PID (task s t) > 0"
    and linked: "(\<exists>a. on_list Q a (TList t)) \<longleftrightarrow> current_state (task s t) \<noteq> ST_RUN"
  shows "\<exists>h. update_process_state_rr t dest s = Some (moved t dest h s) \<and> reps h (requeue t dest Q)"
proof (cases "current_state (task s t) = ST_RUN")
  case True
  then have n: "\<forall>a. \<not> on_list Q a (TList t)" using linked by blast
  then have u: "unlink (TList t) Q = Q" and v: "unlinked Q (TList t)"
    using unlink_id typed_head [OF Q(2)] by (auto simp: unlinked_conv)
  show ?thesis
  proof (cases dest)
    case None
    then show ?thesis using True Q(1) pid u
      by (intro exI [of _ "links s"]) (simp add: update_process_state_rr_def moved_def requeue_def)
  next
    case (Some d)
    with d have "d \<in> sched_queues" by simp
    moreover from this obtain st where st: "dest_state d = Some st" by auto
    ultimately obtain h where h:
      "list_add_tail (TList t) d (links s) = Some h" "reps h (enqueue (TList t) d Q)"
      using dl.add_tail_enqueue [OF Q(1) _ v] typed_queue [OF Q(2)] by blast
    with True Some pid u st show ?thesis
      by (intro exI [of _ h])
        (auto simp: update_process_state_rr_def moved_def requeue_def fault_simps)
  qed
next
  case False
  then obtain a where a: "on_list Q a (TList t)" using linked by blast
  show ?thesis
  proof (cases dest)
    case None
    with dl.del_unlink [OF Q(1) a] pid False show ?thesis
      by (auto simp: update_process_state_rr_def moved_def requeue_def fault_simps)
  next
    case (Some d)
    with d have m: "d \<in> sched_queues" by simp
    then obtain st where st: "dest_state d = Some st" by auto
    obtain h1 h2 where h: "list_del (TList t) (links s) = Some h1" "list_add_tail (TList t) d h1 = Some h2"
      "reps h2 (enqueue (TList t) d (unlink (TList t) Q))"
      using dl.del_add_tail [OF Q(1) a] typed_queue [OF Q(2) m] by blast
    show ?thesis
      by (rule exI [of _ h2])
        (use h pid False Some st in \<open>simp add: update_process_state_rr_def moved_def requeue_def fault_simps\<close>)
  qed
qed

text \<open>The idle task is on no queue; its state alone changes.\<close>

lemma update_idle:
  "PID (task s t) = 0 \<Longrightarrow> update_process_state_rr t dest s = Some (moved t dest (links s) s)"
  by (auto simp: update_process_state_rr_def moved_def upd_task_def set_state_def split: option.split)

text \<open>A task whose identifier is gone goes to the free list.\<close>

lemma update_freed:
  assumes "reps (links s) Q" "typed Q" "PID (task s t) < 0" "\<forall>a. \<not> on_list Q a (TList t)"
  shows "\<exists>h. update_process_state_rr t dest s = Some (moved t (Some Freequeue) h s) \<and>
     reps h (enqueue (TList t) Freequeue Q)"
proof -
  have "unlinked Q (TList t)" using assms(4) typed_head [OF assms(2)] by (simp add: unlinked_conv)
  with dl.add_tail_enqueue [OF assms(1), of Freequeue] typed_queue [OF assms(2)] obtain h where
    "list_add_tail (TList t) Freequeue (links s) = Some h" "reps h (enqueue (TList t) Freequeue Q)"
    by blast
  with assms(3) show ?thesis
    by (auto simp: update_process_state_rr_def moved_def fault_simps)
qed

section \<open>The invariant of the scheduler\<close>

definition live :: "lnode lists \<Rightarrow> nat \<Rightarrow> bool" where
  "live Q t \<longleftrightarrow> \<not> on_list Q Freequeue (TList t)"

text \<open>
  \<open>state_ok\<close>: a task is on the queue its state names; on the free list it is free, or it keeps
  the state a failed \<open>fork\<close> copied into it.
\<close>

definition state_ok :: "lnode lists \<Rightarrow> nat \<Rightarrow> task_struct \<Rightarrow> bool" where
  "state_ok Q t ts \<longleftrightarrow>
     (\<forall>d \<in> {Readyqueue, Blocked, ReadBlocked}.
        on_list Q d (TList t) \<longleftrightarrow> dest_state d = Some (current_state ts)) \<and>
     (if live Q t then PID ts > 0 \<and> current_state ts \<noteq> ST_FREE
      else current_state ts = ST_FREE \<or> current_state ts = ST_RUN)"

definition sched_inv :: "kstate \<Rightarrow> lnode lists \<Rightarrow> bool" where
  "sched_inv s Q \<longleftrightarrow>
     reps (links s) Q \<and> typed Q \<and>
     idle_task s < NR_TASKS \<and> PID (task s (idle_task s)) = 0 \<and>
     (current_state (task s (idle_task s)) = ST_RUN \<or> current_state (task s (idle_task s)) = ST_READY) \<and>
     (\<forall>a t. on_list Q a (TList t) \<longrightarrow> t < NR_TASKS \<and> t \<noteq> idle_task s) \<and>
     (\<forall>t < NR_TASKS. t \<noteq> idle_task s \<longrightarrow> state_ok Q t (task s t)) \<and>
     (\<forall>t < NR_TASKS. \<forall>u < NR_TASKS. t \<noteq> u \<longrightarrow> live Q t \<longrightarrow> live Q u \<longrightarrow> PID (task s t) \<noteq> PID (task s u)) \<and>
     (\<forall>t < NR_TASKS. live Q t \<longrightarrow> dir_pages_baseAddr (task s t) \<noteq> None)"

definition cpu_inv :: "kstate \<Rightarrow> lnode lists \<Rightarrow> bool" where
  "cpu_inv s Q \<longleftrightarrow> cur s < NR_TASKS \<and> live Q (cur s) \<and>
     (\<forall>t < NR_TASKS. live Q t \<longrightarrow> (current_state (task s t) = ST_RUN \<longleftrightarrow> t = cur s)) \<and>
     esp0 s = cur s \<and> cr3 (mm s) = dir_pages_baseAddr (task s (cur s))"

text \<open>What must hold where \<open>sched_next_rr\<close> is called: the current thread may already have left
  the running state, or be an exited thread.\<close>

definition yieldable :: "kstate \<Rightarrow> lnode lists \<Rightarrow> bool" where
  "yieldable s Q \<longleftrightarrow> cur s < NR_TASKS \<and> esp0 s = cur s \<and>
     (\<forall>t < NR_TASKS. live Q t \<longrightarrow> current_state (task s t) = ST_RUN \<longrightarrow> t = cur s) \<and>
     (if live Q (cur s) then cr3 (mm s) = dir_pages_baseAddr (task s (cur s))
      else PID (task s (cur s)) < 0 \<and> current_state (task s (cur s)) = ST_FREE \<and>
        dir_pages_baseAddr (task s (cur s)) = None)"

lemma moved_simps [simp]:
  "links (moved t dest h s) = h" "cur (moved t dest h s) = cur s"
  "idle_task (moved t dest h s) = idle_task s" "mm (moved t dest h s) = mm s"
  "esp0 (moved t dest h s) = esp0 s"
  "PID (task (moved t dest h s) u) = PID (task s u)"
  "quantum (task (moved t dest h s) u) = quantum (task s u)"
  "k_ctx (task (moved t dest h s) u) = k_ctx (task s u)"
  "pending_unblocks (task (moved t dest h s) u) = pending_unblocks (task s u)"
  "semaphores (moved t dest h s) = semaphores s" "kb (moved t dest h s) = kb s"
  "ram (moved t dest h s) = ram s" "con (moved t dest h s) = con s"
  "dir_pages_baseAddr (task (moved t dest h s) u) = dir_pages_baseAddr (task s u)"
  "current_state (task (moved t dest h s) u) =
     (if u = t then new_state dest (current_state (task s t)) else current_state (task s u))"
  "u \<noteq> t \<Longrightarrow> task (moved t dest h s) u = task s u"
  by (simp_all add: moved_def set_state_def upd_task_def)

lemma cpu_inv_yieldable: "cpu_inv s Q \<Longrightarrow> yieldable s Q"
  by (simp add: cpu_inv_def yieldable_def)

lemma sched_inv_state: "sched_inv s Q \<Longrightarrow> t < NR_TASKS \<Longrightarrow> t \<noteq> idle_task s \<Longrightarrow> state_ok Q t (task s t)"
  by (simp add: sched_inv_def)

lemma idle_live: "sched_inv s Q \<Longrightarrow> live Q (idle_task s) \<and> (\<forall>a. \<not> on_list Q a (TList (idle_task s)))"
  unfolding sched_inv_def live_def by blast

lemma live_linked:
  assumes "sched_inv s Q" "t < NR_TASKS" "t \<noteq> idle_task s" "live Q t"
  shows "(\<exists>a. on_list Q a (TList t)) \<longleftrightarrow> current_state (task s t) \<noteq> ST_RUN"
proof -
  have q: "a \<in> sched_queues" if "on_list Q a (TList t)" for a
    using assms(1) that typed_sched unfolding sched_inv_def by blast
  have st: "state_ok Q t (task s t)" using sched_inv_state assms by blast
  show ?thesis
  proof
    assume "\<exists>a. on_list Q a (TList t)"
    then obtain a where a: "on_list Q a (TList t)" by blast
    moreover have "a \<noteq> Freequeue" using a assms(4) by (auto simp: live_def)
    ultimately have "a \<in> {Readyqueue, Blocked, ReadBlocked}" using q by blast
    then show "current_state (task s t) \<noteq> ST_RUN" using st a by (auto simp: state_ok_def)
  next
    assume "current_state (task s t) \<noteq> ST_RUN"
    then show "\<exists>a. on_list Q a (TList t)"
      using st assms(4) by (cases "current_state (task s t)") (auto simp: state_ok_def)
  qed
qed

lemma live_pid: "sched_inv s Q \<Longrightarrow> t < NR_TASKS \<Longrightarrow> t \<noteq> idle_task s \<Longrightarrow> live Q t \<Longrightarrow> PID (task s t) > 0"
  using sched_inv_state [of s Q t] by (simp add: state_ok_def)

abbreviation (input) dests :: "lnode option set" where
  "dests \<equiv> {None, Some Readyqueue, Some Blocked, Some ReadBlocked}"

lemma live_requeue:
  "reps h Q \<Longrightarrow> dest \<in> dests \<Longrightarrow> live Q t \<Longrightarrow> live (requeue t dest Q) u \<longleftrightarrow> live Q u"
  by (auto simp: live_def on_list_requeue)

lemma state_ok_requeue_other:
  assumes "reps h Q" "dest \<in> dests" "live Q t" "u \<noteq> t" "state_ok Q u ts"
  shows "state_ok (requeue t dest Q) u ts"
proof -
  have "on_list (requeue t dest Q) a (TList u) \<longleftrightarrow> on_list Q a (TList u)" for a
    using assms(1,4) by (simp add: on_list_requeue)
  then show ?thesis using assms(5) by (simp add: state_ok_def live_def)
qed

lemma state_ok_requeue_same:
  assumes "reps h Q" "typed Q" "dest \<in> dests" "live Q t" "PID ts > 0" "current_state ts = new_state dest st"
  shows "state_ok (requeue t dest Q) t ts"
proof -
  have q: "Q Readyqueue \<noteq> None" "Q Blocked \<noteq> None" "Q ReadBlocked \<noteq> None"
    using assms(2) by (simp_all add: typed_def)
  have o: "on_list (requeue t dest Q) a (TList t) \<longleftrightarrow> dest = Some a \<and> Q a \<noteq> None" for a
    by (simp only: on_list_requeue [OF assms(1)]) simp
  have l: "live (requeue t dest Q) t" using live_requeue [OF assms(1,3,4)] assms(4) by simp
  consider "dest = None" | "dest = Some Readyqueue" | "dest = Some Blocked" | "dest = Some ReadBlocked"
    using assms(3) by blast
  then show ?thesis
    by cases (use q o l assms(5,6) in \<open>simp_all add: state_ok_def\<close>)
qed

lemma sched_inv_moved:
  assumes inv: "sched_inv s Q" and t: "t < NR_TASKS" "t \<noteq> idle_task s" "live Q t" and dest: "dest \<in> dests"
  shows "\<exists>h. update_process_state_rr t dest s = Some (moved t dest h s) \<and>
     sched_inv (moved t dest h s) (requeue t dest Q)"
proof -
  have r: "reps (links s) Q" and ty: "typed Q" using inv by (simp_all add: sched_inv_def)
  have d: "\<And>d. dest = Some d \<Longrightarrow> d \<in> sched_queues" using dest by auto
  obtain h where h: "update_process_state_rr t dest s = Some (moved t dest h s)" "reps h (requeue t dest Q)"
    using update_state [OF r ty d live_pid [OF inv t] live_linked [OF inv t]] by blast
  have ok: "state_ok (requeue t dest Q) u (task (moved t dest h s) u)"
    if "u < NR_TASKS" "u \<noteq> idle_task s" for u
  proof (cases "u = t")
    case True
    show ?thesis unfolding True
      by (rule state_ok_requeue_same [OF r ty dest t(3), of _ "current_state (task s t)"])
        (use live_pid [OF inv t] in simp_all)
  next
    case False
    then show ?thesis
      using state_ok_requeue_other [OF r dest t(3) False] sched_inv_state [OF inv that] by simp
  qed
  have "u < NR_TASKS \<and> u \<noteq> idle_task s" if "on_list (requeue t dest Q) a (TList u)" for a u
    using that inv t by (auto simp: on_list_requeue [OF r] sched_inv_def)
  moreover have "typed (requeue t dest Q)" using typed_requeue [OF r ty d] .
  ultimately have "sched_inv (moved t dest h s) (requeue t dest Q)"
    using inv ok h(2) t(2) unfolding sched_inv_def by (simp add: live_requeue [OF r dest t(3)])
  with h(1) show ?thesis by blast
qed

lemma sched_inv_idle:
  assumes "sched_inv s Q" "dest = None \<or> dest = Some Readyqueue"
  shows "update_process_state_rr (idle_task s) dest s = Some (moved (idle_task s) dest (links s) s) \<and>
     sched_inv (moved (idle_task s) dest (links s) s) Q"
proof -
  have "PID (task s (idle_task s)) = 0" using assms(1) by (simp add: sched_inv_def)
  moreover have "new_state dest st \<in> {ST_RUN, ST_READY}" for st using assms(2) by auto
  ultimately show ?thesis using assms(1) update_idle [of s "idle_task s" dest]
    unfolding sched_inv_def by simp
qed

section \<open>The policy\<close>

text \<open>
  The abstract scheduler: the first ready thread runs next, the idle task if there is none; the
  thread that gives up the CPU goes to the end if it is still runnable. The choice is made
  before the current thread is queued, so a thread is never its own successor.
\<close>

fun rr_next :: "nat \<Rightarrow> bool \<Rightarrow> nat \<times> nat list \<Rightarrow> nat \<times> nat list" where
  "rr_next idle runnable (running, []) = (idle, if runnable then [running] else [])"
| "rr_next idle runnable (running, t # ts) = (t, ts @ (if runnable then [running] else []))"

definition tasks_on :: "lnode lists \<Rightarrow> lnode \<Rightarrow> nat list" where
  "tasks_on Q d = (case Q d of None \<Rightarrow> [] | Some xs \<Rightarrow> map (the \<circ> list_head_to_task_struct) xs)"

text \<open>What a scheduling step leaves alone.\<close>

definition sched_frame :: "kstate \<Rightarrow> kstate \<Rightarrow> bool" where
  "sched_frame s s' \<longleftrightarrow>
     idle_task s' = idle_task s \<and> task1 s' = task1 s \<and> pidGlobal s' = pidGlobal s \<and>
     semIDglobal s' = semIDglobal s \<and> semIDsystem s' = semIDsystem s \<and> semaphores s' = semaphores s \<and>
     ram s' = ram s \<and> kb s' = kb s \<and> con s' = con s \<and> zeos_tick s' = zeos_tick s \<and>
     bufferAux s' = bufferAux s \<and> tmpbuff s' = tmpbuff s \<and> (mm s')\<lparr>cr3 := cr3 (mm s)\<rparr> = mm s \<and>
     (\<forall>t. (task s' t)\<lparr>current_state := current_state (task s t), k_ctx := k_ctx (task s t)\<rparr> = task s t)"

lemma tasks_on_queue:
  assumes "typed Q" "d \<in> sched_queues"
  shows "Q d = Some (map TList (tasks_on Q d))"
proof -
  obtain xs where xs: "Q d = Some xs" using typed_queue [OF assms] by blast
  have "TList (the (list_head_to_task_struct n)) = n" if "n \<in> set xs" for n
  proof -
    have "\<exists>t. n = TList t" using assms xs that typed_sched [OF assms(1), of d n] unfolding on_list_def by blast
    then show ?thesis by auto
  qed
  then show ?thesis by (simp add: xs tasks_on_def map_idI)
qed

lemma on_queue_iff: "typed Q \<Longrightarrow> d \<in> sched_queues \<Longrightarrow> on_list Q d (TList t) \<longleftrightarrow> t \<in> set (tasks_on Q d)"
  by (simp add: on_list_def tasks_on_queue inj_image_mem_iff inj_def)

lemma remove1_map_TList: "remove1 (TList t) (map TList ts) = map TList (remove1 t ts)"
  by (induction ts) auto

lemma tasks_on_map: "Q d = Some (map TList ts) \<Longrightarrow> tasks_on Q d = ts"
  by (simp add: tasks_on_def comp_def)

lemma tasks_on_requeue:
  assumes "typed Q" "d \<in> sched_queues"
  shows "tasks_on (requeue t dest Q) d = remove1 t (tasks_on Q d) @ (if dest = Some d then [t] else [])"
proof -
  have q: "unlink (TList t) Q d = Some (map TList (remove1 t (tasks_on Q d)))"
    using tasks_on_queue [OF assms] by (simp add: unlink_def remove1_map_TList)
  show ?thesis
    by (rule tasks_on_map) (use q in \<open>auto simp: requeue_def enqueue_def split: option.split\<close>)
qed

lemma distinct_tasks_on: "reps h Q \<Longrightarrow> typed Q \<Longrightarrow> d \<in> sched_queues \<Longrightarrow> distinct (tasks_on Q d)"
  using dl.rep_distinct [of h Q d] tasks_on_queue [of Q d] by (simp add: distinct_map inj_on_def)

lemma ready_live:
  assumes "sched_inv s Q" "t \<in> set (tasks_on Q Readyqueue)"
  shows "t < NR_TASKS \<and> t \<noteq> idle_task s \<and> live Q t \<and> current_state (task s t) = ST_READY"
proof -
  have r: "reps (links s) Q" and ty: "typed Q" using assms(1) by (simp_all add: sched_inv_def)
  have l: "on_list Q Readyqueue (TList t)" using assms(2) on_queue_iff [OF ty, of Readyqueue] by simp
  then have t: "t < NR_TASKS" "t \<noteq> idle_task s" using assms(1) unfolding sched_inv_def by blast+
  have "live Q t" using dl.on_list_unique [OF r l, of Freequeue] by (auto simp: live_def)
  moreover have "current_state (task s t) = ST_READY"
    using sched_inv_state [OF assms(1) t] l
    by (cases "current_state (task s t)") (auto simp: state_ok_def)
  ultimately show ?thesis using t by blast
qed

text \<open>The choice of the next thread reads the head of the ready queue.\<close>

lemma choose_next:
  assumes "sched_inv s Q"
  shows "(if list_empty Readyqueue (links s) then Some (idle_task s)
          else list_owner (list_first Readyqueue (links s))) =
     Some (case tasks_on Q Readyqueue of [] \<Rightarrow> idle_task s | t # ts \<Rightarrow> t)"
proof -
  have r: "reps (links s) Q" and ty: "typed Q" using assms by (simp_all add: sched_inv_def)
  have q: "Q Readyqueue = Some (map TList (tasks_on Q Readyqueue))" using tasks_on_queue [OF ty] by simp
  show ?thesis using dl.rep_empty [OF r q] dl.rep_first [OF r q]
    by (cases "tasks_on Q Readyqueue") (simp_all add: list_owner_def)
qed

lemma sched_frame_moved [wf_intros]: "sched_frame s (moved t dest h s)"
  by (simp add: sched_frame_def moved_def set_state_def upd_task_def)

lemma sched_frame_refl [wf_intros]: "sched_frame s s"
  by (simp add: sched_frame_def)

lemma task_frame_trans:
  "a\<lparr>current_state := current_state b, k_ctx := k_ctx b\<rparr> = b \<Longrightarrow>
   b\<lparr>current_state := current_state c, k_ctx := k_ctx c\<rparr> = c \<Longrightarrow>
   a\<lparr>current_state := current_state c, k_ctx := k_ctx c\<rparr> = (c :: task_struct)"
  by (cases a, cases b, cases c) simp

lemma mm_frame_trans:
  "a\<lparr>cr3 := cr3 b\<rparr> = b \<Longrightarrow> b\<lparr>cr3 := cr3 c\<rparr> = c \<Longrightarrow> a\<lparr>cr3 := cr3 c\<rparr> = (c :: mm_state)"
  by (cases a, cases b, cases c) simp

lemma sched_frame_trans: "sched_frame a b \<Longrightarrow> sched_frame b c \<Longrightarrow> sched_frame a c"
  unfolding sched_frame_def using task_frame_trans mm_frame_trans by metis

text \<open>First half: the current thread goes back to the ready queue if it is still running.\<close>

lemma preempt:
  assumes inv: "sched_inv s Q" and y: "yieldable s Q"
  shows "\<exists>s1 Q1. (if current_state (task s (cur s)) = ST_RUN
                  then update_process_state_rr (cur s) (Some Readyqueue) s else Some s) = Some s1 \<and>
     sched_inv s1 Q1 \<and> (\<forall>t < NR_TASKS. live Q1 t \<longrightarrow> current_state (task s1 t) \<noteq> ST_RUN) \<and>
     tasks_on Q1 Readyqueue = tasks_on Q Readyqueue @
       (if current_state (task s (cur s)) = ST_RUN \<and> cur s \<noteq> idle_task s then [cur s] else []) \<and>
     (\<forall>d. d \<noteq> Readyqueue \<longrightarrow> Q1 d = Q d) \<and> (\<forall>t. k_ctx (task s1 t) = k_ctx (task s t)) \<and>
     (\<forall>t. current_state (task s1 t) = (if t = cur s \<and> current_state (task s t) = ST_RUN then ST_READY else current_state (task s t))) \<and>
     sched_frame s s1 \<and> cur s1 = cur s \<and> mm s1 = mm s \<and> esp0 s1 = esp0 s"
proof -
  have r: "reps (links s) Q" and ty: "typed Q" using inv by (simp_all add: sched_inv_def)
  have c: "cur s < NR_TASKS" using y by (simp add: yieldable_def)
  consider (off) "current_state (task s (cur s)) \<noteq> ST_RUN"
    | (idle) "current_state (task s (cur s)) = ST_RUN" "cur s = idle_task s"
    | (run) "current_state (task s (cur s)) = ST_RUN" "cur s \<noteq> idle_task s" by blast
  then show ?thesis
  proof cases
    case off
    then show ?thesis using inv y
      by (intro exI [of _ s] exI [of _ Q]) (auto simp: yieldable_def intro: wf_intros)
  next
    case idle
    then show ?thesis using sched_inv_idle [OF inv, of "Some Readyqueue"] y
      by (intro exI [of _ "moved (idle_task s) (Some Readyqueue) (links s) s"] exI [of _ Q])
        (auto simp: yieldable_def intro: sched_frame_moved)
  next
    case run
    have l: "live Q (cur s)" using y run by (auto simp: yieldable_def split: if_splits)
    obtain h where h: "update_process_state_rr (cur s) (Some Readyqueue) s = Some (moved (cur s) (Some Readyqueue) h s)"
      "sched_inv (moved (cur s) (Some Readyqueue) h s) (requeue (cur s) (Some Readyqueue) Q)"
      using sched_inv_moved [OF inv c run(2) l, of "Some Readyqueue"] by auto
    have n: "\<forall>a. \<not> on_list Q a (TList (cur s))" using live_linked [OF inv c run(2) l] run(1) by blast
    then have id: "unlink (TList (cur s)) Q = Q" by (rule unlink_id)
    have "cur s \<notin> set (tasks_on Q Readyqueue)" using n on_queue_iff [OF ty, of Readyqueue "cur s"] by simp
    moreover have "requeue (cur s) (Some Readyqueue) Q d = Q d" if "d \<noteq> Readyqueue" for d
      using that by (simp add: requeue_def id enqueue_def)
    ultimately show ?thesis using h run y
      by (intro exI [of _ "moved (cur s) (Some Readyqueue) h s"] exI [of _ "requeue (cur s) (Some Readyqueue) Q"])
        (auto simp: tasks_on_requeue [OF ty] remove1_absent live_requeue [OF r _ l] yieldable_def
          intro: sched_frame_moved)
  qed
qed

text \<open>Second half: the chosen thread becomes the running one.\<close>

lemma dispatch:
  assumes inv: "sched_inv s Q" and none: "\<forall>t < NR_TASKS. live Q t \<longrightarrow> current_state (task s t) \<noteq> ST_RUN"
    and nt: "nt = idle_task s \<or> nt \<in> set (tasks_on Q Readyqueue)"
  shows "\<exists>s1 Q1. update_process_state_rr nt None s = Some s1 \<and> sched_inv s1 Q1 \<and>
     (\<forall>t < NR_TASKS. live Q1 t \<longrightarrow> (current_state (task s1 t) = ST_RUN \<longleftrightarrow> t = nt)) \<and>
     nt < NR_TASKS \<and> live Q1 nt \<and>
     tasks_on Q1 Readyqueue = remove1 nt (tasks_on Q Readyqueue) \<and>
     (\<forall>d. d \<noteq> Readyqueue \<longrightarrow> Q1 d = Q d) \<and> (\<forall>t. k_ctx (task s1 t) = k_ctx (task s t)) \<and>
     (\<forall>t. t \<noteq> nt \<longrightarrow> current_state (task s1 t) = current_state (task s t)) \<and>
     sched_frame s s1 \<and> cur s1 = cur s \<and> mm s1 = mm s \<and> esp0 s1 = esp0 s"
proof -
  have r: "reps (links s) Q" and ty: "typed Q" and i: "idle_task s < NR_TASKS"
    using inv by (simp_all add: sched_inv_def)
  show ?thesis
  proof (cases "nt = idle_task s")
    case True
    have "idle_task s \<notin> set (tasks_on Q Readyqueue)" using ready_live [OF inv] by blast
    then show ?thesis using sched_inv_idle [OF inv, of None] True none i idle_live [OF inv]
      by (intro exI [of _ "moved nt None (links s) s"] exI [of _ Q])
        (auto simp: remove1_absent intro: sched_frame_moved)
  next
    case False
    with nt have m: "nt \<in> set (tasks_on Q Readyqueue)" by simp
    note l = ready_live [OF inv m]
    then obtain h where h: "update_process_state_rr nt None s = Some (moved nt None h s)"
      "sched_inv (moved nt None h s) (requeue nt None Q)"
      using sched_inv_moved [OF inv, of nt None] by auto
    have "on_list Q Readyqueue (TList nt)" using m on_queue_iff [OF ty, of Readyqueue] by simp
    then have "requeue nt None Q d = Q d" if "d \<noteq> Readyqueue" for d
      using that dl.unlink_upd [OF r] by (auto simp: requeue_def on_list_def)
    then show ?thesis using h none l
      by (intro exI [of _ "moved nt None h s"] exI [of _ "requeue nt None Q"])
        (auto simp: tasks_on_requeue [OF ty] live_requeue [OF r] intro: sched_frame_moved)
  qed
qed

lemma rr_next_split:
  "rr_next idle runnable (c, ts) =
     (case ts of [] \<Rightarrow> idle | t # _ \<Rightarrow> t,
      remove1 (case ts of [] \<Rightarrow> idle | t # _ \<Rightarrow> t) ts @ (if runnable then [c] else []))"
  by (cases ts) simp_all

lemma sched_inv_cong:
  assumes "sched_inv s Q" "links s' = links s" "idle_task s' = idle_task s"
    and "\<And>t. PID (task s' t) = PID (task s t)" "\<And>t. current_state (task s' t) = current_state (task s t)"
    and "\<And>t. dir_pages_baseAddr (task s' t) = dir_pages_baseAddr (task s t)"
  shows "sched_inv s' Q"
  using assms(1) unfolding sched_inv_def state_ok_def assms(2-6) .

lemma sched_frame_fields:
  assumes "sched_frame s s'"
  shows "PID (task s' t) = PID (task s t)" "quantum (task s' t) = quantum (task s t)"
    "dir_pages_baseAddr (task s' t) = dir_pages_baseAddr (task s t)"
    "pending_unblocks (task s' t) = pending_unblocks (task s t)"
    "my_heap (task s' t) = my_heap (task s t)" "idle_task s' = idle_task s"
proof -
  have e: "(task s' t)\<lparr>current_state := current_state (task s t), k_ctx := k_ctx (task s t)\<rparr> = task s t"
    using assms by (simp add: sched_frame_def)
  show "PID (task s' t) = PID (task s t)" by (subst e [symmetric]) simp
  show "quantum (task s' t) = quantum (task s t)" by (subst e [symmetric]) simp
  show "dir_pages_baseAddr (task s' t) = dir_pages_baseAddr (task s t)" by (subst e [symmetric]) simp
  show "pending_unblocks (task s' t) = pending_unblocks (task s t)" by (subst e [symmetric]) simp
  show "my_heap (task s' t) = my_heap (task s t)" by (subst e [symmetric]) simp
  show "idle_task s' = idle_task s" using assms by (simp add: sched_frame_def)
qed

lemma inner_task_switch_simps [simp]:
  "links (inner_task_switch new kc s) = links s" "cur (inner_task_switch new kc s) = new"
  "esp0 (inner_task_switch new kc s) = new" "idle_task (inner_task_switch new kc s) = idle_task s"
  "tick_counter (inner_task_switch new kc s) = tick_counter s"
  "PID (task (inner_task_switch new kc s) t) = PID (task s t)"
  "quantum (task (inner_task_switch new kc s) t) = quantum (task s t)"
  "dir_pages_baseAddr (task (inner_task_switch new kc s) t) = dir_pages_baseAddr (task s t)"
  "current_state (task (inner_task_switch new kc s) t) = current_state (task s t)"
  "k_ctx (task (inner_task_switch new kc s) t) = (if t = cur s then kc else k_ctx (task s t))"
  "sched_frame s (inner_task_switch new kc s)"
  by (auto simp: inner_task_switch_def Let_def set_cr3_def upd_mm_def upd_task_def sched_frame_def)

lemma inner_task_switch_cr3:
  "cr3 (mm s) = dir_pages_baseAddr (task s (cur s)) \<or>
     dir_pages_baseAddr (task s (cur s)) = None \<and> dir_pages_baseAddr (task s new) \<noteq> None \<Longrightarrow>
   cr3 (mm (inner_task_switch new kc s)) = dir_pages_baseAddr (task s new)"
  by (auto simp: inner_task_switch_def Let_def set_cr3_def upd_mm_def upd_task_def get_DIR_def)

text \<open>The state after a scheduling step that gives the CPU to \<open>nt\<close>, with the links \<open>h\<close>: nothing but the fields
  named here differs from \<open>s\<close>.\<close>

definition scheduled :: "kcont \<Rightarrow> nat \<Rightarrow> lnode links \<Rightarrow> kstate \<Rightarrow> kstate" where
  "scheduled kc nt h s = s\<lparr>
     task := (\<lambda>t. (task s t)\<lparr>
       current_state := (if t = nt then ST_RUN
         else if t = cur s \<and> current_state (task s t) = ST_RUN then ST_READY else current_state (task s t)),
       k_ctx := (if t = cur s \<and> nt \<noteq> cur s then kc else k_ctx (task s t))\<rparr>),
     links := h, cur := nt, esp0 := nt, tick_counter := quantum (task s nt),
     mm := (mm s)\<lparr>cr3 := dir_pages_baseAddr (task s nt)\<rparr>\<rparr>"

lemma scheduledI:
  assumes f: "sched_frame s s'" and cpu: "cpu_inv s' Q"
    and st: "\<And>t. current_state (task s' t) = (if t = cur s' then ST_RUN
      else if t = cur s \<and> current_state (task s t) = ST_RUN then ST_READY else current_state (task s t))"
    and k: "\<And>t. k_ctx (task s' t) = (if t = cur s \<and> cur s' \<noteq> cur s then kc else k_ctx (task s t))"
    and tc: "tick_counter s' = quantum (task s (cur s'))"
  shows "s' = scheduled kc (cur s') (links s') s"
proof -
  note f' = f [unfolded sched_frame_def]
  have "task s' t = (task s t)\<lparr>current_state := current_state (task s' t), k_ctx := k_ctx (task s' t)\<rparr>" for t
  proof -
    have "task s t = (task s' t)\<lparr>current_state := current_state (task s t), k_ctx := k_ctx (task s t)\<rparr>" using f' by simp
    then show ?thesis by (metis (no_types, lifting) task_struct.surjective task_struct.update_convs(7,8))
  qed
  then have "task s' = task (scheduled kc (cur s') (links s') s)" unfolding st k by (simp add: scheduled_def fun_eq_iff)
  moreover have "mm s' = (mm s)\<lparr>cr3 := dir_pages_baseAddr (task s (cur s'))\<rparr>"
  proof -
    have "mm s = (mm s')\<lparr>cr3 := cr3 (mm s)\<rparr>" using f' by simp
    moreover have "cr3 (mm s') = dir_pages_baseAddr (task s (cur s'))"
      using cpu sched_frame_fields(3) [OF f, of "cur s'"] by (simp add: cpu_inv_def)
    ultimately show ?thesis by (metis mm_state.surjective mm_state.update_convs(7))
  qed
  moreover have "esp0 s' = cur s'" using cpu by (simp add: cpu_inv_def)
  ultimately show ?thesis using f' tc by (intro kstate.equality) (simp_all add: scheduled_def)
qed

text \<open>The two halves and the switch together.\<close>

lemma sched_next_rr_spec:
  assumes inv: "sched_inv s Q" and y: "yieldable s Q"
  shows "\<exists>switched s' Q'. sched_next_rr kc s = Some (switched, s') \<and> sched_inv s' Q' \<and> cpu_inv s' Q' \<and>
     (cur s', tasks_on Q' Readyqueue) =
        rr_next (idle_task s) (current_state (task s (cur s)) = ST_RUN \<and> cur s \<noteq> idle_task s)
          (cur s, tasks_on Q Readyqueue) \<and>
     (\<forall>d. d \<noteq> Readyqueue \<longrightarrow> Q' d = Q d) \<and> switched = (cur s' \<noteq> cur s) \<and>
     tick_counter s' = quantum (task s (cur s')) \<and> (switched \<longrightarrow> k_ctx (task s' (cur s)) = kc) \<and>
     sched_frame s s' \<and> (\<forall>t. t \<noteq> cur s \<longrightarrow> k_ctx (task s' t) = k_ctx (task s t)) \<and>
     s' = scheduled kc (cur s') (links s') s"
proof -
  define nt where "nt = (case tasks_on Q Readyqueue of [] \<Rightarrow> idle_task s | t # _ \<Rightarrow> t)"
  let ?keep = "current_state (task s (cur s)) = ST_RUN \<and> cur s \<noteq> idle_task s"
  obtain s1 Q1 where p: "(if current_state (task s (cur s)) = ST_RUN
      then update_process_state_rr (cur s) (Some Readyqueue) s else Some s) = Some s1"
    and inv1: "sched_inv s1 Q1" and none: "\<forall>t < NR_TASKS. live Q1 t \<longrightarrow> current_state (task s1 t) \<noteq> ST_RUN"
    and rdy1: "tasks_on Q1 Readyqueue = tasks_on Q Readyqueue @ (if ?keep then [cur s] else [])"
    and o1: "\<forall>d. d \<noteq> Readyqueue \<longrightarrow> Q1 d = Q d" and k1: "\<forall>t. k_ctx (task s1 t) = k_ctx (task s t)"
    and st1: "\<forall>t. current_state (task s1 t) = (if t = cur s \<and> current_state (task s t) = ST_RUN then ST_READY else current_state (task s t))"
    and f1: "sched_frame s s1" and c1: "cur s1 = cur s" "mm s1 = mm s" "esp0 s1 = esp0 s"
    using preempt [OF inv y] by blast
  have nt: "nt = idle_task s1 \<or> nt \<in> set (tasks_on Q1 Readyqueue)"
    using sched_frame_fields(6) [OF f1] rdy1 by (cases "tasks_on Q Readyqueue") (auto simp: nt_def)
  obtain s2 Q2 where d: "update_process_state_rr nt None s1 = Some s2"
    and inv2: "sched_inv s2 Q2"
    and run: "\<forall>t < NR_TASKS. live Q2 t \<longrightarrow> (current_state (task s2 t) = ST_RUN \<longleftrightarrow> t = nt)"
    and ntl: "nt < NR_TASKS" "live Q2 nt"
    and rdy2: "tasks_on Q2 Readyqueue = remove1 nt (tasks_on Q1 Readyqueue)"
    and o2: "\<forall>d. d \<noteq> Readyqueue \<longrightarrow> Q2 d = Q1 d" and k2: "\<forall>t. k_ctx (task s2 t) = k_ctx (task s1 t)"
    and st2: "\<forall>t. t \<noteq> nt \<longrightarrow> current_state (task s2 t) = current_state (task s1 t)"
    and f2: "sched_frame s1 s2" and c2: "cur s2 = cur s1" "mm s2 = mm s1" "esp0 s2 = esp0 s1"
    using dispatch [OF inv1 none nt] by blast
  let ?s3 = "s2\<lparr>tick_counter := quantum (task s2 nt)\<rparr>"
  let ?s' = "if nt \<noteq> cur s then inner_task_switch nt kc ?s3 else ?s3"
  have f: "sched_frame s s2" using sched_frame_trans f1 f2 by blast
  note ff = sched_frame_fields [OF f]
  have rdy: "tasks_on Q2 Readyqueue =
      remove1 nt (tasks_on Q Readyqueue) @ (if ?keep then [cur s] else [])"
    using rdy1 rdy2 by (cases "tasks_on Q Readyqueue") (auto simp: nt_def)
  have o: "Q2 d = Q d" if "d \<noteq> Readyqueue" for d using that o1 o2 by simp
  have lv: "live Q2 t = live Q t" for t using o [of Freequeue] by (simp add: live_def on_list_def)
  have c: "cur s < NR_TASKS" "esp0 s = cur s" using y by (simp_all add: yieldable_def)
  have i2: "idle_task s2 = idle_task s" using ff by simp
  have pnt: "PID (task s2 nt) \<ge> 0"
    using live_pid [OF inv2 ntl(1) _ ntl(2)] inv2 by (cases "nt = idle_task s2") (auto simp: sched_inv_def)
  have sw: "PID (task s2 (cur s)) \<noteq> PID (task s2 nt) \<longleftrightarrow> nt \<noteq> cur s"
  proof (cases "live Q (cur s)")
    case True
    then show ?thesis using inv2 ntl c lv unfolding sched_inv_def by metis
  next
    case False
    then have "PID (task s2 (cur s)) < 0" using y ff(1) [of "cur s"] by (simp add: yieldable_def)
    then show ?thesis using pnt by force
  qed
  have eq: "sched_next_rr kc s = Some (nt \<noteq> cur s, ?s')"
    unfolding sched_next_rr_def choose_next [OF inv, folded nt_def] using p d sw c1(1) c2(1)
    by (simp only: option.case Option.bind.simps Let_def get_quantum_def) simp
  have cur': "cur ?s' = nt" using c1 c2 by simp
  have "sched_inv ?s' Q2" by (rule sched_inv_cong [OF inv2]) simp_all
  moreover have cpu': "cpu_inv ?s' Q2"
  proof -
    have yc: "if live Q (cur s) then cr3 (mm s) = dir_pages_baseAddr (task s (cur s))
        else dir_pages_baseAddr (task s (cur s)) = None" using y by (simp add: yieldable_def)
    have dnt: "dir_pages_baseAddr (task s2 nt) \<noteq> None" using inv2 ntl unfolding sched_inv_def by blast
    have "cr3 (mm s2) = dir_pages_baseAddr (task s2 (cur s)) \<or> dir_pages_baseAddr (task s2 (cur s)) = None"
      using yc c1(2) c2(2) ff(3) [of "cur s"] by (cases "live Q (cur s)") simp_all
    moreover have "cr3 (mm s2) = dir_pages_baseAddr (task s2 (cur s))" if "nt = cur s"
      using yc that ntl(2) lv [of "cur s"] c1(2) c2(2) ff(3) [of "cur s"] by simp
    ultimately have "cr3 (mm ?s') = dir_pages_baseAddr (task s2 nt)"
      using inner_task_switch_cr3 [of ?s3 nt kc] dnt c1 c2 by auto
    moreover have "esp0 ?s' = nt" using c c1 c2 by auto
    ultimately show ?thesis using run ntl cur' by (simp add: cpu_inv_def)
  qed
  moreover have fr': "sched_frame s ?s'"
  proof -
    have "sched_frame s2 ?s3" by (simp add: sched_frame_def)
    then have "sched_frame s2 ?s'"
      using sched_frame_trans inner_task_switch_simps(11) [of ?s3 nt kc] by auto
    then show ?thesis using sched_frame_trans f by blast
  qed
  moreover have "(cur ?s', tasks_on Q2 Readyqueue) = rr_next (idle_task s) ?keep (cur s, tasks_on Q Readyqueue)"
    using rdy cur' by (simp only: rr_next_split nt_def)
  moreover have "tick_counter ?s' = quantum (task s (cur ?s'))" using cur' ff(2) by simp
  moreover have "nt \<noteq> cur s \<longrightarrow> k_ctx (task ?s' (cur s)) = kc" using c1(1) c2(1) by simp
  moreover have "(nt \<noteq> cur s) = (cur ?s' \<noteq> cur s)" by (simp only: cur')
  moreover have "\<forall>t. t \<noteq> cur s \<longrightarrow> k_ctx (task ?s' t) = k_ctx (task s t)" using k1 k2 c1(1) c2(1) by simp
  moreover have "\<forall>d. d \<noteq> Readyqueue \<longrightarrow> Q2 d = Q d" using o by blast
  moreover have "?s' = scheduled kc (cur ?s') (links ?s') s"
  proof (rule scheduledI [OF fr' cpu'])
    show "current_state (task ?s' t) = (if t = cur ?s' then ST_RUN
        else if t = cur s \<and> current_state (task s t) = ST_RUN then ST_READY else current_state (task s t))" for t
    proof -
      have "current_state (task s2 nt) = ST_RUN" using run ntl by blast
      then have "current_state (task s2 t) = (if t = nt then ST_RUN
        else if t = cur s \<and> current_state (task s t) = ST_RUN then ST_READY else current_state (task s t))"
        using st1 st2 by (simp split del: if_split cong: if_cong) (metis (full_types))
      moreover have "current_state (task ?s' t) = current_state (task s2 t)" by (cases "nt = cur s") simp_all
      ultimately show ?thesis unfolding cur' by simp
    qed
    show "k_ctx (task ?s' t) = (if t = cur s \<and> cur ?s' \<noteq> cur s then kc else k_ctx (task s t))" for t
      using cur' k1 k2 c1(1) c2(1) by simp
    show "tick_counter ?s' = quantum (task s (cur ?s'))" using cur' ff(2) by simp
  qed
  ultimately show ?thesis using eq
    by (intro exI [of _ "nt \<noteq> cur s"] exI [of _ ?s'] exI [of _ Q2] conjI)
qed

lemma cpu_inv_cong:
  assumes "cpu_inv s Q" "cur s' = cur s" "esp0 s' = esp0 s" "cr3 (mm s') = cr3 (mm s)"
    and "\<And>t. current_state (task s' t) = current_state (task s t)"
    and "\<And>t. dir_pages_baseAddr (task s' t) = dir_pages_baseAddr (task s t)"
  shows "cpu_inv s' Q"
  using assms(1) unfolding cpu_inv_def assms(2-6) .

text \<open>A scheduling step from a thread that runs, and what follows for the caller.\<close>

lemma cpu_running: "cpu_inv s Q \<Longrightarrow> current_state (task s (cur s)) = ST_RUN"
  by (simp add: cpu_inv_def)

lemma sched_from_user:
  assumes "sched_inv s Q" "cpu_inv s Q"
  shows "\<exists>switched s' Q'. sched_next_rr kc s = Some (switched, s') \<and> sched_inv s' Q' \<and> cpu_inv s' Q' \<and>
     (cur s', tasks_on Q' Readyqueue) = rr_next (idle_task s) (cur s \<noteq> idle_task s) (cur s, tasks_on Q Readyqueue) \<and>
     (\<forall>d. d \<noteq> Readyqueue \<longrightarrow> Q' d = Q d) \<and> switched = (cur s' \<noteq> cur s) \<and>
     tick_counter s' = quantum (task s (cur s')) \<and> sched_frame s s'"
  using sched_next_rr_spec [OF assms(1) cpu_inv_yieldable [OF assms(2)], of kc]
  unfolding cpu_running [OF assms(2)] by (simp only: simp_thms) blast

lemma sched_then_spec:
  assumes "sched_inv s Q" "yieldable s Q"
  shows "\<exists>r s' Q'. sched_then kc rest s = r \<and> sched_inv s' Q' \<and> cpu_inv s' Q' \<and>
     (cur s', tasks_on Q' Readyqueue) =
        rr_next (idle_task s) (current_state (task s (cur s)) = ST_RUN \<and> cur s \<noteq> idle_task s)
          (cur s, tasks_on Q Readyqueue) \<and>
     (\<forall>d. d \<noteq> Readyqueue \<longrightarrow> Q' d = Q d) \<and>
     tick_counter s' = quantum (task s (cur s')) \<and> sched_frame s s' \<and>
     r = (if cur s' \<noteq> cur s then Some (Switched, s') else rest s') \<and>
     (cur s' \<noteq> cur s \<longrightarrow> k_ctx (task s' (cur s)) = kc) \<and>
     (\<forall>t. t \<noteq> cur s \<longrightarrow> k_ctx (task s' t) = k_ctx (task s t))"
proof -
  obtain switched s' Q' where *: "sched_next_rr kc s = Some (switched, s')" "sched_inv s' Q'" "cpu_inv s' Q'"
     "(cur s', tasks_on Q' Readyqueue) =
        rr_next (idle_task s) (current_state (task s (cur s)) = ST_RUN \<and> cur s \<noteq> idle_task s)
          (cur s, tasks_on Q Readyqueue)"
     "\<forall>d. d \<noteq> Readyqueue \<longrightarrow> Q' d = Q d" "switched = (cur s' \<noteq> cur s)"
     "tick_counter s' = quantum (task s (cur s'))" "switched \<longrightarrow> k_ctx (task s' (cur s)) = kc" "sched_frame s s'"
     "\<forall>t. t \<noteq> cur s \<longrightarrow> k_ctx (task s' t) = k_ctx (task s t)"
    using sched_next_rr_spec [OF assms, of kc] by blast
  then have "sched_then kc rest s = (if cur s' \<noteq> cur s then Some (Switched, s') else rest s')"
    by (simp add: sched_then_def)
  with * show ?thesis by blast
qed

end
