(* ===== verification/Boot.thy ===== *)
theory Boot
  imports Round_Robin Frames
begin

text \<open>
  The start of the process table: after \<open>init_mm\<close>, \<open>init_sched\<close>, \<open>init_idle\<close> and
  \<open>init_task1\<close> the invariant of the scheduler holds, whatever the memory contained before.
\<close>

definition start_tasks :: "kstate \<Rightarrow> kstate option" where
  "start_tasks s = do {
     s1 \<leftarrow> init_sched (init_mm s);
     s2 \<leftarrow> init_idle s1;
     s3 \<leftarrow> init_task1 s2;
     Some (s3\<lparr>cur := task1 s3\<rparr>) }"

definition queues0 :: "lnode lists" where
  "queues0 = [Freequeue \<mapsto> [], Readyqueue \<mapsto> [], Blocked \<mapsto> [], ReadBlocked \<mapsto> []]"

definition boot_queues :: "lnode lists" where
  "boot_queues = queues0(Freequeue \<mapsto> map TList [2..<NR_TASKS],
     TFills 0 \<mapsto> [], TWaitList 0 \<mapsto> [], TFills 1 \<mapsto> [], TWaitList 1 \<mapsto> [])"

lemma reps_empty_map: "reps h Map.empty"
  by (simp add: reps_def)

lemma reps_init_new:
  "reps h Q \<Longrightarrow> Q a = None \<Longrightarrow> \<forall>b. \<not> on_list Q b a \<Longrightarrow> reps (INIT_LIST_HEAD a h) (Q(a \<mapsto> []))"
  by (rule dl.rep_init) (auto simp: unlinked_conv on_list_def)

lemma on_list_upd: "on_list (Q(a \<mapsto> xs)) b n \<longleftrightarrow> (if b = a then n \<in> set xs else on_list Q b n)"
  by (simp add: on_list_def)

lemma on_list_empty [simp]: "\<not> on_list Map.empty a n"
  by (simp add: on_list_def)

lemma heads_reps:
  "reps (links (init_head Readyqueue (init_head Freequeue (init_head ReadBlocked (init_head Blocked s))))) queues0"
proof -
  have "reps (links (init_head Readyqueue (init_head Freequeue (init_head ReadBlocked (init_head Blocked s)))))
     (Map.empty(Blocked \<mapsto> [], ReadBlocked \<mapsto> [], Freequeue \<mapsto> [], Readyqueue \<mapsto> []))"
    unfolding init_head_def by (simp, intro reps_init_new reps_empty_map) (simp_all add: on_list_upd)
  moreover have "Map.empty(Blocked \<mapsto> [], ReadBlocked \<mapsto> [], Freequeue \<mapsto> [], Readyqueue \<mapsto> []) = queues0"
    by (auto simp: queues0_def fun_eq_iff)
  ultimately show ?thesis by simp
qed

text \<open>The counters of identifiers, the semaphores and the memory are not touched when tasks are set up.\<close>

definition same_globals :: "kstate \<Rightarrow> kstate \<Rightarrow> bool" where
  "same_globals s s' \<longleftrightarrow> pidGlobal s' = pidGlobal s \<and> semIDglobal s' = semIDglobal s \<and> semaphores s' = semaphores s \<and>
     ram s' = ram s \<and> kb s' = kb s"

text \<open>Neither are the page tables and the table of frames, until \<open>init_task1\<close> maps the pages of the user.\<close>

definition same_tables :: "mm_state \<Rightarrow> mm_state \<Rightarrow> bool" where
  "same_tables m m' \<longleftrightarrow> dir_pages m' = dir_pages m \<and> pagusr_table m' = pagusr_table m \<and> phys_mem m' = phys_mem m \<and>
     pagusr_page m' = pagusr_page m"

lemma same_tables_trans: "same_tables a b \<Longrightarrow> same_tables b c \<Longrightarrow> same_tables a c"
  by (simp add: same_tables_def)

lemma free_all:
  assumes "reps (links s) queues0"
  shows "\<exists>s'. foldo (\<lambda>i s. update_process_state_rr i (Some Freequeue) (upd_task i (\<lambda>ts. ts\<lparr>PID := -1\<rparr>) s))
           [0..<n] s = Some s' \<and>
     reps (links s') (queues0(Freequeue \<mapsto> map TList [0..<n])) \<and>
     (\<forall>t < n. PID (task s' t) = -1 \<and> current_state (task s' t) = ST_FREE) \<and> mm s' = mm s \<and> same_globals s s'"
proof (induction n)
  case 0
  have "queues0(Freequeue \<mapsto> []) = queues0" by (auto simp: queues0_def)
  then show ?case using assms by (simp add: same_globals_def)
next
  case (Suc n)
  then obtain s1 where s1: "foldo (\<lambda>i s. update_process_state_rr i (Some Freequeue) (upd_task i (\<lambda>ts. ts\<lparr>PID := -1\<rparr>) s))
      [0..<n] s = Some s1"
    "reps (links s1) (queues0(Freequeue \<mapsto> map TList [0..<n]))"
    "\<forall>t < n. PID (task s1 t) = -1 \<and> current_state (task s1 t) = ST_FREE" "mm s1 = mm s" "same_globals s s1" by blast
  let ?s2 = "upd_task n (\<lambda>ts. ts\<lparr>PID := -1\<rparr>) s1"
  have "unlinked (queues0(Freequeue \<mapsto> map TList [0..<n])) (TList n)"
    by (auto simp: unlinked_def queues0_def)
  from dl.rep_add_tail [OF s1(2) _ this, of Freequeue "map TList [0..<n]"] obtain h where
    h: "list_add_tail (TList n) Freequeue (links s1) = Some h"
    "reps h (queues0(Freequeue \<mapsto> map TList [0..<Suc n]))" by auto
  have "update_process_state_rr n (Some Freequeue) ?s2 = Some ((set_state n ST_FREE ?s2)\<lparr>links := h\<rparr>)"
    using h(1) by (simp add: update_process_state_rr_def upd_task_def fault_simps)
  then have "foldo (\<lambda>i s. update_process_state_rr i (Some Freequeue) (upd_task i (\<lambda>ts. ts\<lparr>PID := -1\<rparr>) s))
      [0..<Suc n] s = Some ((set_state n ST_FREE ?s2)\<lparr>links := h\<rparr>)"
    using s1(1) by (simp add: foldo_append)
  moreover have "\<forall>t < Suc n. PID (task ((set_state n ST_FREE ?s2)\<lparr>links := h\<rparr>) t) = -1 \<and>
      current_state (task ((set_state n ST_FREE ?s2)\<lparr>links := h\<rparr>) t) = ST_FREE"
    using s1(3) by (simp add: set_state_def upd_task_def less_Suc_eq)
  moreover have "mm ((set_state n ST_FREE ?s2)\<lparr>links := h\<rparr>) = mm s" "same_globals s ((set_state n ST_FREE ?s2)\<lparr>links := h\<rparr>)"
    using s1(4,5) by (simp_all add: set_state_def upd_task_def same_globals_def)
  moreover have "reps (links ((set_state n ST_FREE ?s2)\<lparr>links := h\<rparr>)) (queues0(Freequeue \<mapsto> map TList [0..<Suc n]))"
    using h(2) by simp
  ultimately show ?case by blast
qed

definition refs_upto :: "nat \<Rightarrow> kstate \<Rightarrow> bool" where
  "refs_upto n s \<longleftrightarrow> (\<forall>d < NR_TASKS. dir_pages_num_references (mm s) d = (if d < n then 1 else 0))"

text \<open>Directories are handed out in order as long as nobody gives one back.\<close>

lemma find_first_zero:
  assumes "n < hi" "\<forall>d < hi. R d = (if d < n then 1 else (0::int))"
  shows "find_from 0 (\<lambda>i. R i \<le> 0) 0 hi = Some n"
proof -
  obtain j where j: "find_from 0 (\<lambda>i. R i \<le> 0) 0 hi = Some j"
    using find_from_exists [of "\<lambda>i. R i \<le> 0" n 0 hi] assms by auto
  have "j < hi" "R j \<le> 0" "\<forall>k. 0 \<le> k \<and> k < j \<longrightarrow> \<not> R k \<le> 0"
    using find_from_unit_Some [OF j] by auto
  then have "\<not> j < n" "\<not> n < j" using assms by auto
  then have "j = n" by simp
  with j show ?thesis by simp
qed

lemma allocate_DIR_next:
  assumes "refs_upto n s" "n < NR_TASKS"
  shows "fst (allocate_DIR t s) = 1 \<and> refs_upto (Suc n) (snd (allocate_DIR t s)) \<and>
     snd (allocate_DIR t s) = s\<lparr>task := (task s)(t := (task s t)\<lparr>dir_pages_baseAddr := Some n\<rparr>),
       mm := (mm s)\<lparr>dir_pages_num_references := (dir_pages_num_references (mm s))(n := 1)\<rparr>\<rparr>"
  using find_first_zero [OF assms(2), of "dir_pages_num_references (mm s)"] assms
  by (auto simp: refs_upto_def allocate_DIR_def upd_task_def upd_mm_def less_Suc_eq)

lemma allocate_DIR_refs: "refs_upto n s \<Longrightarrow> n < NR_TASKS \<Longrightarrow> refs_upto (Suc n) (snd (allocate_DIR t s))"
  using allocate_DIR_next by blast

lemma allocate_DIR_eq:
  "refs_upto n s \<Longrightarrow> n < NR_TASKS \<Longrightarrow>
     snd (allocate_DIR t s) = s\<lparr>task := (task s)(t := (task s t)\<lparr>dir_pages_baseAddr := Some n\<rparr>),
       mm := (mm s)\<lparr>dir_pages_num_references := (dir_pages_num_references (mm s))(n := 1)\<rparr>\<rparr>"
  using allocate_DIR_next by blast

lemma init_mm_refs: "refs_upto 1 (init_mm s)"
proof -
  let ?s1 = "upd_mm (\<lambda>m. init_dir_pages (init_frames (init_table_pages m))) s"
  have "refs_upto 0 ?s1"
    by (simp add: refs_upto_def upd_mm_def init_dir_pages_def init_dir_pages_upto)
  then have "refs_upto (Suc 0) (snd (allocate_DIR 0 ?s1))" by (rule allocate_DIR_refs) simp
  moreover have "mm (init_mm s) = (mm (snd (allocate_DIR 0 ?s1)))\<lparr>cr3 := get_DIR 0 (snd (allocate_DIR 0 ?s1))\<rparr>"
    by (simp add: init_mm_def Let_def set_cr3_def upd_mm_def)
  ultimately show ?thesis by (simp add: refs_upto_def)
qed

lemma init_mm_globals: "same_globals s (init_mm s)"
  by (simp add: same_globals_def init_mm_def Let_def set_cr3_def upd_mm_def allocate_DIR_def upd_task_def
      split: option.split)

lemma init_mm_tables: "same_tables (init_dir_pages (init_frames (init_table_pages (mm s)))) (mm (init_mm s))"
  by (simp add: same_tables_def init_mm_def Let_def set_cr3_def upd_mm_def allocate_DIR_def upd_task_def
      split: option.split)

lemma sems_freed:
  "fold (\<lambda>i S. S(i := (S i)\<lparr>sem_free := True\<rparr>)) [0..<n] S = (\<lambda>i. if i < n then (S i)\<lparr>sem_free := True\<rparr> else S i)"
  by (induction n) (auto simp: fun_eq_iff less_Suc_eq)

lemma update_dirs:
  "update_process_state_rr t d s = Some s' \<Longrightarrow> dir_pages_baseAddr (task s' u) = dir_pages_baseAddr (task s u)"
  by (auto simp: update_process_state_rr_def on_links_def set_state_def upd_task_def Let_def
      split: if_splits option.splits bind_split_asm)

lemma init_sched_dirs:
  assumes "init_sched s = Some s'"
  shows "dir_pages_baseAddr (task s' u) = dir_pages_baseAddr (task s u)"
proof -
  define s1 where "s1 = (init_heap (init_head Readyqueue (init_head Freequeue (init_head ReadBlocked (init_head Blocked s)))))\<lparr>semaphores :=
     fold (\<lambda>i S. S(i := (S i)\<lparr>sem_free := True\<rparr>)) [0..<NUM_SEMS]
       (semaphores (init_heap (init_head Readyqueue (init_head Freequeue (init_head ReadBlocked (init_head Blocked s))))))\<rparr>"
  have "foldo (\<lambda>i s. update_process_state_rr i (Some Freequeue) (upd_task i (\<lambda>ts. ts\<lparr>PID := -1\<rparr>) s)) [0..<NR_TASKS] s1 = Some s'"
    using assms unfolding init_sched_def Let_def s1_def .
  then have "dir_pages_baseAddr (task s' u) = dir_pages_baseAddr (task s1 u)"
    by (rule foldo_run [where I = "\<lambda>s. dir_pages_baseAddr (task s u) = dir_pages_baseAddr (task s1 u)"])
      (auto dest!: update_dirs [where u = u] simp: upd_task_def)
  then show ?thesis by (simp add: s1_def init_heap_def upd_mm_def init_head_def)
qed

lemma init_sched_spec:
  "\<exists>s'. init_sched s = Some s' \<and> reps (links s') (queues0(Freequeue \<mapsto> map TList [0..<NR_TASKS])) \<and>
     (\<forall>t < NR_TASKS. PID (task s' t) = -1 \<and> current_state (task s' t) = ST_FREE) \<and>
     (refs_upto n s \<longrightarrow> refs_upto n s') \<and> pidGlobal s' = pidGlobal s \<and> semIDglobal s' = semIDglobal s \<and>
     ram s' = ram s \<and> kb s' = kb s \<and> same_tables (mm s) (mm s') \<and>
     (\<forall>i. semaphores s' i = (if i < NUM_SEMS then (semaphores s i)\<lparr>sem_free := True\<rparr> else semaphores s i))"
proof -
  let ?h = "init_head Readyqueue (init_head Freequeue (init_head ReadBlocked (init_head Blocked s)))"
  let ?s2 = "(init_heap ?h)\<lparr>semaphores := fold (\<lambda>i S. S(i := (S i)\<lparr>sem_free := True\<rparr>)) [0..<NUM_SEMS]
    (semaphores (init_heap ?h))\<rparr>"
  have "links ?s2 = links ?h" by (simp add: init_heap_def upd_mm_def)
  then have "reps (links ?s2) queues0" using heads_reps by simp
  from free_all [OF this, of NR_TASKS] obtain s' where
    s': "foldo (\<lambda>i s. update_process_state_rr i (Some Freequeue) (upd_task i (\<lambda>ts. ts\<lparr>PID := -1\<rparr>) s))
        [0..<NR_TASKS] ?s2 = Some s'"
    "reps (links s') (queues0(Freequeue \<mapsto> map TList [0..<NR_TASKS]))"
    "\<forall>t < NR_TASKS. PID (task s' t) = -1 \<and> current_state (task s' t) = ST_FREE" "mm s' = mm ?s2" "same_globals ?s2 s'" by blast
  have "pidGlobal s' = pidGlobal s" "semIDglobal s' = semIDglobal s" "ram s' = ram s" "kb s' = kb s"
    "\<forall>i. semaphores s' i = (if i < NUM_SEMS then (semaphores s i)\<lparr>sem_free := True\<rparr> else semaphores s i)"
    using s'(5) unfolding same_globals_def by (simp_all add: sems_freed init_heap_def upd_mm_def init_head_def)
  moreover have "init_sched s = Some s'" using s'(1) unfolding init_sched_def Let_def by simp
  moreover have "refs_upto n s \<longrightarrow> refs_upto n s'" "same_tables (mm s) (mm s')"
    using s'(4) by (simp_all add: refs_upto_def same_tables_def init_heap_def upd_mm_def init_head_def)
  ultimately show ?thesis using s' by blast
qed

lemma init_idle_spec:
  assumes r: "reps (links s) (queues0(Freequeue \<mapsto> map TList [0..<NR_TASKS]))" and d: "refs_upto 1 s"
  shows "\<exists>s'. init_idle s = Some s' \<and> idle_task s' = 0 \<and> refs_upto 2 s' \<and>
     reps (links s') (queues0(Freequeue \<mapsto> map TList [1..<NR_TASKS], TFills 0 \<mapsto> [], TWaitList 0 \<mapsto> [])) \<and>
     PID (task s' 0) = 0 \<and> current_state (task s' 0) = ST_READY \<and> quantum (task s' 0) = 0 \<and>
     dir_pages_baseAddr (task s' 0) = Some 1 \<and> k_ctx (task s' 0) = KIdle \<and>
     (\<forall>t. t \<noteq> 0 \<longrightarrow> task s' t = task s t) \<and> same_globals s s' \<and> same_tables (mm s) (mm s')"
proof -
  have u: "map TList [0..<NR_TASKS] = TList 0 # map TList [1..<NR_TASKS]" by (simp add: upt_conv_Cons)
  let ?Q = "queues0(Freequeue \<mapsto> map TList [1..<NR_TASKS])"
  obtain h where h: "list_first Freequeue (links s) = Some (TList 0)" "list_del (TList 0) (links s) = Some h"
    "reps h ?Q" using dl.pop [OF r, of Freequeue "TList 0" "map TList [1..<NR_TASKS]"] u by auto
  let ?h = "INIT_LIST_HEAD (TWaitList 0) (INIT_LIST_HEAD (TFills 0) h)"
  have q: "\<not> on_list ?Q b n" if "n = TFills 0 \<or> n = TWaitList 0" for b n
    using that by (auto simp: on_list_def queues0_def)
  have "reps ?h (?Q(TFills 0 \<mapsto> [], TWaitList 0 \<mapsto> []))"
    by (intro reps_init_new h(3)) (use q in \<open>auto simp: on_list_upd queues0_def\<close>)
  moreover obtain s3 where s3: "s3 = set_quantum 0 0 (init_head (TWaitList 0) (init_head (TFills 0)
      (upd_task 0 (\<lambda>ts. ts\<lparr>PID := 0, pending_unblocks := 0, current_state := ST_READY\<rparr>) (s\<lparr>links := h\<rparr>))))"
    by simp
  then have f: "refs_upto 1 s3" "links s3 = ?h" "PID (task s3 0) = 0" "current_state (task s3 0) = ST_READY"
    "quantum (task s3 0) = 0" "\<forall>t. t \<noteq> 0 \<longrightarrow> task s3 t = task s t" "same_globals s s3"
    "mm s3 = mm s"
    using d by (simp_all add: refs_upto_def set_quantum_def upd_task_def init_head_def same_globals_def)
  have "init_idle s = Some ((upd_task 0 (\<lambda>ts. ts\<lparr>k_ctx := KIdle\<rparr>) (snd (allocate_DIR 0 s3)))\<lparr>idle_task := 0\<rparr>)"
    using h s3 by (simp add: init_idle_def on_links_simp Let_def)
  moreover note a = allocate_DIR_next [OF f(1), of 0]
  have "refs_upto 2 ((upd_task 0 (\<lambda>ts. ts\<lparr>k_ctx := KIdle\<rparr>) (snd (allocate_DIR 0 s3)))\<lparr>idle_task := 0\<rparr>)"
    using a [THEN conjunct2, THEN conjunct1] by (simp only: refs_upto_def upd_task_def kstate.simps numeral_2_eq_2 One_nat_def) simp
  ultimately show ?thesis using a f by (auto simp: upd_task_def same_globals_def same_tables_def)
qed

text \<open>What \<open>alloc_frame\<close> and the mappings do not touch.\<close>

definition refs_frame :: "mm_state \<Rightarrow> mm_state \<Rightarrow> bool" where
  "refs_frame m m' \<longleftrightarrow> cr3 m' = cr3 m \<and> heap_zones m' = heap_zones m \<and>
     dir_pages_num_references m' = dir_pages_num_references m"

lemma refs_frame_fold:
  "(\<And>i m. refs_frame m (f i m)) \<Longrightarrow> refs_frame m (fold f is m)"
proof (induction "is" arbitrary: m)
  case (Cons i "is")
  from Cons.IH [OF Cons.prems, of "f i m"] Cons.prems [of m i] show ?case by (simp add: refs_frame_def)
qed (simp add: refs_frame_def)

lemma refs_frame_alloc: "refs_frame m (snd (alloc_frame m))"
  by (cases rule: alloc_frame_cases [of m]; simp add: refs_frame_def)

lemma refs_frame_user_page:
  "refs_frame m (set_user_data_page p i m)" "refs_frame m (set_user_code_page p i m)"
  using refs_frame_alloc [of m]
  by (simp_all add: set_user_data_page_def set_user_code_page_def upd_PT_def refs_frame_def case_prod_beta)

lemma set_user_pages_frame: "refs_frame m (set_user_pages p m)"
proof -
  let ?m = "fold (set_user_code_page p) [0..<NUM_PAG_CODE] m"
  have "refs_frame m ?m" "refs_frame ?m (set_user_pages p m)"
    unfolding set_user_pages_def by (intro refs_frame_fold refs_frame_user_page)+
  then show ?thesis by (simp add: refs_frame_def)
qed

lemma init_task1_spec:
  assumes r: "reps (links s) (queues0(Freequeue \<mapsto> map TList [1..<NR_TASKS], TFills 0 \<mapsto> [], TWaitList 0 \<mapsto> []))"
    and d: "refs_upto 2 s" and st: "current_state (task s 1) = ST_FREE"
  shows "\<exists>s'. init_task1 s = Some s' \<and> task1 s' = 1 \<and> esp0 s' = 1 \<and> idle_task s' = idle_task s \<and>
     refs_upto 3 s' \<and> reps (links s') boot_queues \<and>
     PID (task s' 1) = 1 \<and> current_state (task s' 1) = ST_RUN \<and> quantum (task s' 1) = 10 \<and>
     tick_counter s' = 10 \<and> dir_pages_baseAddr (task s' 1) = Some 2 \<and> my_heap (task s' 1) = Some 2 \<and>
     cr3 (mm s') = Some 2 \<and> heap_zones (mm s') 2 = 0 \<and>
     (\<forall>t. t \<noteq> 1 \<longrightarrow> task s' t = task s t) \<and> same_globals s s' \<and>
     (\<exists>m. same_tables (mm s) m \<and> same_tables (set_user_pages (dir_PT m 2) m) (mm s'))"
proof -
  let ?Q = "queues0(Freequeue \<mapsto> map TList [1..<NR_TASKS], TFills 0 \<mapsto> [], TWaitList 0 \<mapsto> [])"
  let ?Q1 = "?Q(Freequeue \<mapsto> map TList [2..<NR_TASKS])"
  have u: "map TList [1..<NR_TASKS] = TList 1 # map TList [2..<NR_TASKS]"
    by (simp add: upt_conv_Cons numeral_2_eq_2)
  then have "?Q Freequeue = Some (TList 1 # map TList [2..<NR_TASKS])" by simp
  from dl.pop [OF r this] obtain h where h: "list_first Freequeue (links s) = Some (TList 1)"
    "list_del (TList 1) (links s) = Some h" "reps h ?Q1" by blast
  let ?h = "INIT_LIST_HEAD (TWaitList 1) (INIT_LIST_HEAD (TFills 1) h)"
  have q: "\<not> on_list ?Q1 b n" if "n = TFills 1 \<or> n = TWaitList 1" for b n
    using that by (auto simp: on_list_def queues0_def split: if_splits)
  have "reps ?h (?Q1(TFills 1 \<mapsto> [], TWaitList 1 \<mapsto> []))"
    by (intro reps_init_new h(3)) (use q in \<open>auto simp: on_list_upd queues0_def\<close>)
  moreover have "?Q1(TFills 1 \<mapsto> [], TWaitList 1 \<mapsto> []) = boot_queues"
    by (rule ext) (simp add: boot_queues_def)
  ultimately have rep: "reps ?h boot_queues" by simp
  let ?s1 = "upd_task 1 (\<lambda>ts. ts\<lparr>PID := 1, pending_unblocks := 0\<rparr>) s"
  let ?s2 = "(set_state 1 ST_RUN ?s1)\<lparr>links := h\<rparr>"
  let ?s3 = "set_quantum 1 DEFAULT_QUANTUM_TICKS (init_head (TWaitList 1) (init_head (TFills 1) ?s2))"
  have upd: "update_process_state_rr 1 None ?s1 = Some ?s2"
    using h(2) st by (simp add: update_process_state_rr_def upd_task_def fault_simps)
  obtain s4 where s4: "s4 = ?s3\<lparr>tick_counter := get_quantum 1 ?s3\<rparr>" by simp
  have eq: "init_task1 s = (let s5 = snd (allocate_heap 1 (snd (allocate_DIR 1 s4))) in
     Option.bind (get_PT 1 s5) (\<lambda>p. let s6 = (upd_mm (set_user_pages p) s5)\<lparr>esp0 := 1\<rparr> in
       Some ((set_cr3 (get_DIR 1 s6) s6)\<lparr>task1 := 1\<rparr>)))"
    unfolding init_task1_def h(1) s4 by (simp only: Option.bind.simps list_head_to_task_struct.simps Let_def upd)
  have f: "refs_upto 2 s4" "links s4 = ?h" "PID (task s4 1) = 1" "current_state (task s4 1) = ST_RUN"
    "quantum (task s4 1) = 10" "tick_counter s4 = 10" "idle_task s4 = idle_task s"
    "\<forall>t. t \<noteq> 1 \<longrightarrow> task s4 t = task s t" "same_globals s s4" "mm s4 = mm s"
    using d by (simp_all add: same_globals_def s4 get_quantum_def refs_upto_def set_quantum_def upd_task_def init_head_def set_state_def)
  have a: "snd (allocate_DIR 1 s4) = s4\<lparr>task := (task s4)(1 := (task s4 1)\<lparr>dir_pages_baseAddr := Some 2\<rparr>),
       mm := (mm s4)\<lparr>dir_pages_num_references := (dir_pages_num_references (mm s4))(2 := 1)\<rparr>\<rparr>"
    "refs_upto 3 (snd (allocate_DIR 1 s4))"
    using allocate_DIR_eq [OF f(1), of 1] allocate_DIR_refs [OF f(1), of 1] by simp_all
  obtain s5 where s5: "s5 = snd (allocate_heap 1 (snd (allocate_DIR 1 s4)))" by simp
  have g: "links s5 = ?h" "PID (task s5 1) = 1" "current_state (task s5 1) = ST_RUN"
    "quantum (task s5 1) = 10" "tick_counter s5 = 10" "idle_task s5 = idle_task s"
    "\<forall>t. t \<noteq> 1 \<longrightarrow> task s5 t = task s t" "dir_pages_baseAddr (task s5 1) = Some 2"
    "my_heap (task s5 1) = Some 2" "heap_zones (mm s5) 2 = 0" "refs_upto 3 s5"
    "same_globals s s5" "same_tables (mm s) (mm s5)"
    using f a by (simp_all add: same_globals_def same_tables_def s5 allocate_heap_def upd_task_def upd_mm_def refs_upto_def)
  have tab: "\<exists>m. same_tables (mm s) m \<and>
      same_tables (set_user_pages (dir_PT m 2) m) ((set_user_pages (dir_PT (mm s5) 2) (mm s5))\<lparr>cr3 := Some 2\<rparr>)"
    using g by (intro exI [of _ "mm s5"]) (simp add: same_tables_def)
  show ?thesis
    unfolding eq s5 [symmetric] Let_def get_PT_def
    using g rep tab set_user_pages_frame [of "mm s5"]
    by (simp add: refs_frame_def set_cr3_def upd_mm_def get_DIR_def refs_upto_def same_globals_def)
qed

section \<open>The start\<close>

lemma on_list_boot: "on_list boot_queues a n \<longleftrightarrow> a = Freequeue \<and> (\<exists>t. 2 \<le> t \<and> t < NR_TASKS \<and> n = TList t)"
  by (auto simp: on_list_def boot_queues_def queues0_def split: if_splits)

lemma live_boot: "live boot_queues t \<longleftrightarrow> t < 2 \<or> NR_TASKS \<le> t"
  by (auto simp: live_def on_list_boot)

lemma typed_boot: "typed boot_queues"
proof -
  have "is_head a" if "boot_queues a \<noteq> None" for a
    using that by (cases a) (auto simp: boot_queues_def queues0_def)
  then show ?thesis by (auto simp: typed_def on_list_boot) (auto simp: boot_queues_def queues0_def)
qed

lemma tasks_on_boot:
  "tasks_on boot_queues Freequeue = [2..<NR_TASKS]" "tasks_on boot_queues Readyqueue = []"
  "tasks_on boot_queues Blocked = []" "tasks_on boot_queues ReadBlocked = []"
  by (rule tasks_on_map; simp add: boot_queues_def queues0_def)+

lemma lt2: "(t::nat) < 2 \<longleftrightarrow> t = 0 \<or> t = 1" by auto

lemma start_tasks_spec:
  "\<exists>s'. start_tasks s = Some s' \<and> sched_inv s' boot_queues \<and> cpu_inv s' boot_queues \<and>
     idle_task s' = 0 \<and> cur s' = 1 \<and> PID (task s' 1) = 1 \<and> tick_counter s' = 10 \<and>
     quantum (task s' 0) = 0 \<and> quantum (task s' 1) = 10 \<and>
     tasks_on boot_queues Freequeue = [2..<NR_TASKS] \<and> tasks_on boot_queues Readyqueue = [] \<and>
     dir_pages_baseAddr (task s' 0) = Some 1 \<and> (\<forall>t \<ge> 2. dir_pages_baseAddr (task s' t) = dir_pages_baseAddr (task s t)) \<and>
     dir_pages_baseAddr (task s' 1) = Some 2 \<and> my_heap (task s' 1) = Some 2 \<and> task1 s' = 1 \<and>
     k_ctx (task s' 0) = KIdle \<and> heap_zones (mm s') 2 = 0 \<and> (\<forall>t. 2 \<le> t \<longrightarrow> t < NR_TASKS \<longrightarrow> PID (task s' t) = -1) \<and>
     pidGlobal s' = pidGlobal s \<and> semIDglobal s' = semIDglobal s \<and>
     (\<forall>i. semaphores s' i = (if i < NUM_SEMS then (semaphores s i)\<lparr>sem_free := True\<rparr> else semaphores s i)) \<and>
     ram s' = ram s \<and> kb s' = kb s \<and> cr3 (mm s') = Some 2 \<and> refs_upto 3 s' \<and>
     (\<exists>m. same_tables (init_dir_pages (init_frames (init_table_pages (mm s)))) m \<and>
       same_tables (set_user_pages (dir_PT m 2) m) (mm s'))"
proof -
  obtain s1 where s1: "init_sched (init_mm s) = Some s1"
    "reps (links s1) (queues0(Freequeue \<mapsto> map TList [0..<NR_TASKS]))"
    "\<forall>t < NR_TASKS. PID (task s1 t) = -1 \<and> current_state (task s1 t) = ST_FREE" "refs_upto 1 s1"
    "pidGlobal s1 = pidGlobal (init_mm s)" "semIDglobal s1 = semIDglobal (init_mm s)"
    "\<forall>i. semaphores s1 i = (if i < NUM_SEMS then (semaphores (init_mm s) i)\<lparr>sem_free := True\<rparr> else semaphores (init_mm s) i)"
    "ram s1 = ram (init_mm s)" "kb s1 = kb (init_mm s)" "same_tables (mm (init_mm s)) (mm s1)"
    using init_sched_spec [of "init_mm s" 1] init_mm_refs [of s] by blast
  obtain s2 where s2: "init_idle s1 = Some s2" "idle_task s2 = 0" "refs_upto 2 s2"
     "reps (links s2) (queues0(Freequeue \<mapsto> map TList [1..<NR_TASKS], TFills 0 \<mapsto> [], TWaitList 0 \<mapsto> []))"
     "PID (task s2 0) = 0" "current_state (task s2 0) = ST_READY" "quantum (task s2 0) = 0"
     "dir_pages_baseAddr (task s2 0) = Some 1" "\<forall>t. t \<noteq> 0 \<longrightarrow> task s2 t = task s1 t" "k_ctx (task s2 0) = KIdle" "same_globals s1 s2"
     "same_tables (mm s1) (mm s2)"
    using init_idle_spec [OF s1(2,4)] by blast
  have "current_state (task s2 1) = ST_FREE" using s1(3) s2(9) by simp
  from init_task1_spec [OF s2(4,3) this] obtain s3 where s3: "init_task1 s2 = Some s3" "task1 s3 = 1" "esp0 s3 = 1"
     "idle_task s3 = idle_task s2" "reps (links s3) boot_queues"
     "PID (task s3 1) = 1" "current_state (task s3 1) = ST_RUN" "quantum (task s3 1) = 10"
     "tick_counter s3 = 10" "dir_pages_baseAddr (task s3 1) = Some 2" "cr3 (mm s3) = Some 2"
     "\<forall>t. t \<noteq> 1 \<longrightarrow> task s3 t = task s2 t" "my_heap (task s3 1) = Some 2"
     "heap_zones (mm s3) 2 = 0" "same_globals s2 s3"
     "\<exists>m. same_tables (mm s2) m \<and> same_tables (set_user_pages (dir_PT m 2) m) (mm s3)" "refs_upto 3 s3" by blast
  let ?s = "s3\<lparr>cur := task1 s3\<rparr>"
  have t0: "task s3 0 = task s2 0" using s3(12) by simp
  have tf: "PID (task s3 t) = -1" "current_state (task s3 t) = ST_FREE" if "2 \<le> t" "t < NR_TASKS" for t
    using s1(3) s2(9) s3(12) that by auto
  have ok: "state_ok boot_queues t (task s3 t)" if "t < NR_TASKS" "t \<noteq> 0" for t
  proof (cases "t = 1")
    case True
    then show ?thesis using s3(6,7) by (simp add: state_ok_def on_list_boot live_boot)
  next
    case False
    then show ?thesis using tf [of t] that by (simp add: state_ok_def on_list_boot live_boot)
  qed
  have "sched_inv ?s boot_queues"
    unfolding sched_inv_def using s3 s2 t0 typed_boot ok
    by (simp add: on_list_boot live_boot lt2)
  moreover have "cpu_inv ?s boot_queues"
    unfolding cpu_inv_def using s3 s2 t0 by (simp add: live_boot lt2)
  moreover have "start_tasks s = Some ?s" by (simp add: start_tasks_def s1 s2 s3)
  moreover have "\<exists>m. same_tables (init_dir_pages (init_frames (init_table_pages (mm s)))) m \<and>
       same_tables (set_user_pages (dir_PT m 2) m) (mm s3)"
    using s3(16) same_tables_trans [OF same_tables_trans [OF init_mm_tables [of s] s1(10)] s2(12)] same_tables_trans by blast
  moreover have "pidGlobal s3 = pidGlobal s" "semIDglobal s3 = semIDglobal s" "ram s3 = ram s" "kb s3 = kb s"
    "\<forall>i. semaphores s3 i = (if i < NUM_SEMS then (semaphores s i)\<lparr>sem_free := True\<rparr> else semaphores s i)"
    using s1(5-9) s2(11) s3(15) init_mm_globals [of s] unfolding same_globals_def by simp_all
  moreover have "refs_upto 3 ?s" using s3(17) by (simp add: refs_upto_def)
  moreover have "dir_pages_baseAddr (task s3 t) = dir_pages_baseAddr (task s t)" if "2 \<le> t" for t
  proof -
    have "task (init_mm s) t = task s t"
      using that by (auto simp: init_mm_def allocate_DIR_def upd_task_def upd_mm_def set_cr3_def Let_def split: option.split)
    moreover have "dir_pages_baseAddr (task s1 t) = dir_pages_baseAddr (task (init_mm s) t)" by (rule init_sched_dirs [OF s1(1)])
    moreover have "task s3 t = task s1 t" using s3(12) s2(9) that by simp
    ultimately show ?thesis by simp
  qed
  moreover have "dir_pages_baseAddr (task s3 0) = Some 1" using t0 s2(8) by simp
  ultimately show ?thesis using s3 s2 t0 tf tasks_on_boot by simp
qed

end
