(* ===== verification/Scheduling.thy ===== *)
theory Scheduling
  imports Boot Machine
begin

text \<open>
  The properties of the scheduler of \<^verbatim>\<open>sched.c\<close> and of the clock interrupt of
  \<^verbatim>\<open>interrupt.c\<close>: the invariant after the start, the refinement of round robin, the length
  of a time slice, and the absence of starvation.
\<close>

section \<open>A concrete kernel\<close>

definition sample_task :: task_struct where
  "sample_task = \<lparr>PID = 0, dir_pages_baseAddr = None, quantum = 0, pending_unblocks = 0, my_heap = None,
     pare = None, current_state = ST_RUN, k_ctx = KNone, u_eip = 0, u_esp = 0, u_eax = 0\<rparr>"

definition sample_kernel :: kstate where
  "sample_kernel = \<lparr>task = (\<lambda>_. sample_task), links = (\<lambda>_. \<lparr>nxt = None, prv = None\<rparr>), cur = 4, esp0 = 1,
     idle_task = 0, task1 = 0, tick_counter = 0, pidGlobal = 1000, semIDglobal = 100000, semIDsystem = 0,
     semaphores = (\<lambda>_. \<lparr>sem_id = 0, sem_value = 0, sem_free = False, creatorPID = 0\<rparr>), mm = sample_mm,
     ram = (\<lambda>_. 0), kb = init_kb, con = init_console, zeos_tick = 0, bufferAux = 0x20000, tmpbuff = 0x21000\<rparr>"

definition booted :: kstate where
  "booted = the (start_tasks sample_kernel)"

lemma booted_inv:
  "sched_inv booted boot_queues" "cpu_inv booted boot_queues" "idle_task booted = 0" "cur booted = 1"
  "PID (task booted 1) = 1" "tick_counter booted = 10" "quantum (task booted 0) = 0" "quantum (task booted 1) = 10"
  "dir_pages_baseAddr (task booted 1) = Some 2" "my_heap (task booted 1) = Some 2"
  using start_tasks_spec [of sample_kernel] by (auto simp: booted_def)

lemma booted_run: "current_state (task booted 1) = ST_RUN"
proof -
  have "\<forall>t<NR_TASKS. live boot_queues t \<longrightarrow> (current_state (task booted t) = ST_RUN \<longleftrightarrow> t = 1)"
    using booted_inv(2,4) by (simp add: cpu_inv_def)
  then show ?thesis by (simp add: live_boot)
qed

section \<open>Start and refinement\<close>

text \<open>The start of the system always succeeds and establishes the invariant of the scheduler,
  whatever was in memory: the idle task is task 0 and waits outside of every queue, task 1 is
  the only running thread, with its directory loaded and a full quantum, and the other tasks
  are on the free list in order.\<close>
lemma start_tasks_ok:
  "\<exists>s'. start_tasks s = Some s' \<and> sched_inv s' boot_queues \<and> cpu_inv s' boot_queues \<and>
     idle_task s' = 0 \<and> cur s' = 1 \<and> PID (task s' 1) = 1 \<and> tick_counter s' = 10 \<and>
     quantum (task s' 0) = 0 \<and> quantum (task s' 1) = 10 \<and>
     tasks_on boot_queues Freequeue = [2..<NR_TASKS] \<and> tasks_on boot_queues Readyqueue = []"
  using start_tasks_spec [of s] by blast

text \<open>C2. \<open>sched_next_rr\<close> implements round robin: whenever the queues agree with the states, it
  gives the CPU to the first ready thread (to the idle task if there is none) and puts the
  current thread, if it is still running, at the end of the ready queue. Apart from the links of the
  queues, of which only the ready queue changes, the new state is the old one with these
  fields written: the next thread is running, the old one is ready if it was running; the old one
  is suspended at \<open>kc\<close> if it lost the CPU; the current thread, the kernel stack, the page directory and
  the tick counter are those of the next thread. Every other thread keeps its state and its suspension point.
  Afterwards the invariant holds.\<close>
theorem sched_next_rr_refines:
  assumes "sched_inv s Q" and "yieldable s Q"
  shows "\<exists>switched s' Q'. sched_next_rr kc s = Some (switched, s') \<and> sched_inv s' Q' \<and> cpu_inv s' Q' \<and>
     (cur s', tasks_on Q' Readyqueue) =
        rr_next (idle_task s) (current_state (task s (cur s)) = ST_RUN \<and> cur s \<noteq> idle_task s)
          (cur s, tasks_on Q Readyqueue) \<and>
     (\<forall>d. d \<noteq> Readyqueue \<longrightarrow> Q' d = Q d) \<and> switched = (cur s' \<noteq> cur s) \<and>
     s' = s\<lparr>
       task := (\<lambda>t. (task s t)\<lparr>
         current_state := (if t = cur s' then ST_RUN
           else if t = cur s \<and> current_state (task s t) = ST_RUN then ST_READY else current_state (task s t)),
         k_ctx := (if t = cur s \<and> switched then kc else k_ctx (task s t))\<rparr>),
       links := links s', cur := cur s', esp0 := cur s', tick_counter := quantum (task s (cur s')),
       mm := (mm s)\<lparr>cr3 := dir_pages_baseAddr (task s (cur s'))\<rparr>\<rparr>"
proof -
  obtain switched s' Q' where "sched_next_rr kc s = Some (switched, s')" "sched_inv s' Q'" "cpu_inv s' Q'"
     "(cur s', tasks_on Q' Readyqueue) =
        rr_next (idle_task s) (current_state (task s (cur s)) = ST_RUN \<and> cur s \<noteq> idle_task s) (cur s, tasks_on Q Readyqueue)"
     "\<forall>d. d \<noteq> Readyqueue \<longrightarrow> Q' d = Q d" "switched = (cur s' \<noteq> cur s)" "s' = scheduled kc (cur s') (links s') s"
    using sched_next_rr_spec [OF assms, of kc] by blast
  then show ?thesis by (intro exI [of _ switched] exI [of _ s'] exI [of _ Q'] conjI) (simp_all only: scheduled_def)
qed

text \<open>On a system with one user thread, a scheduling step runs the idle task.\<close>

lemma sched_next_rr_refines_witness:
  "\<exists>s' Q'. sched_next_rr KInterrupt booted = Some (True, s') \<and> cur s' = 0 \<and> tick_counter s' = 0 \<and>
     tasks_on Q' Readyqueue = [1] \<and> sched_inv s' Q' \<and> k_ctx (task s' 1) = KInterrupt"
proof -
  obtain sw s' Q' where r: "sched_next_rr KInterrupt booted = Some (sw, s')" "sched_inv s' Q'"
     "(cur s', tasks_on Q' Readyqueue) = (0, [1])" "sw = (cur s' \<noteq> cur booted)"
     "s' = booted\<lparr>
       task := (\<lambda>t. (task booted t)\<lparr>
         current_state := (if t = cur s' then ST_RUN
           else if t = cur booted \<and> current_state (task booted t) = ST_RUN then ST_READY else current_state (task booted t)),
         k_ctx := (if t = cur booted \<and> sw then KInterrupt else k_ctx (task booted t))\<rparr>),
       links := links s', cur := cur s', esp0 := cur s', tick_counter := quantum (task booted (cur s')),
       mm := (mm booted)\<lparr>cr3 := dir_pages_baseAddr (task booted (cur s'))\<rparr>\<rparr>"
    using sched_next_rr_refines [OF booted_inv(1) cpu_inv_yieldable [OF booted_inv(2)], of KInterrupt]
    by (auto simp: booted_inv booted_run tasks_on_boot simp del: One_nat_def)
  have c: "cur s' = 0" "sw" using r(3,4) booted_inv(4) by simp_all
  have "tick_counter s' = quantum (task booted (cur s'))" by (subst r(5)) simp
  moreover have "k_ctx (task s' 1) = KInterrupt" using c(2) booted_inv(4) by (subst r(5)) simp
  ultimately show ?thesis using r(1-3) c booted_inv(7) by auto
qed

section \<open>Time slices\<close>

text \<open>C29. The clock interrupt counts time and charges the tick to the running thread. While the
  thread has more than one tick left, nothing else changes; when its last tick is gone, one
  round robin step is made and the next thread starts with its full quantum.\<close>
theorem clock_routine_ok:
  assumes "sched_inv s Q" and "cpu_inv s Q"
  shows "if tick_counter s > 1
     then clock_routine show_clk s = Some (RetVoid, s\<lparr>con := show_clk (zeos_tick s) (con s),
            zeos_tick := zeos_tick s + 10, tick_counter := tick_counter s - 1\<rparr>)
     else \<exists>s' Q'. clock_routine show_clk s = Some (if cur s' \<noteq> cur s then Switched else RetVoid, s') \<and>
            sched_inv s' Q' \<and> cpu_inv s' Q' \<and>
            (cur s', tasks_on Q' Readyqueue) = rr_next (idle_task s) (cur s \<noteq> idle_task s) (cur s, tasks_on Q Readyqueue) \<and>
            tick_counter s' = quantum (task s (cur s')) \<and> zeos_tick s' = zeos_tick s + 10"
proof (cases "tick_counter s > 1")
  case True
  then show ?thesis
    by (simp add: clock_routine_def Let_def update_sched_data_rr_def needs_sched_rr_def)
next
  case False
  let ?s = "update_sched_data_rr (s\<lparr>con := show_clk (zeos_tick s) (con s), zeos_tick := zeos_tick s + 10\<rparr>)"
  have f: "links ?s = links s" "idle_task ?s = idle_task s" "task ?s = task s" "cur ?s = cur s" "mm ?s = mm s"
    "esp0 ?s = esp0 s" "zeos_tick ?s = zeos_tick s + 10"
    by (simp_all add: update_sched_data_rr_def)
  have inv: "sched_inv ?s Q" "cpu_inv ?s Q"
    by (rule sched_inv_cong [OF assms(1)] cpu_inv_cong [OF assms(2)]; simp only: f)+
  have "needs_sched_rr ?s" using False by (simp add: needs_sched_rr_def update_sched_data_rr_def)
  then have "clock_routine show_clk s = sched_then KInterrupt (\<lambda>s. Some (RetVoid, s)) ?s"
    by (simp add: clock_routine_def Let_def)
  moreover obtain s' Q' where "sched_then KInterrupt (\<lambda>s. Some (RetVoid, s)) ?s =
      (if cur s' \<noteq> cur ?s then Some (Switched, s') else Some (RetVoid, s'))" "sched_inv s' Q'" "cpu_inv s' Q'"
     "(cur s', tasks_on Q' Readyqueue) = rr_next (idle_task ?s)
        (current_state (task ?s (cur ?s)) = ST_RUN \<and> cur ?s \<noteq> idle_task ?s) (cur ?s, tasks_on Q Readyqueue)"
     "tick_counter s' = quantum (task ?s (cur s'))" "sched_frame ?s s'"
    using sched_then_spec [OF inv(1) cpu_inv_yieldable [OF inv(2)], of KInterrupt "\<lambda>s. Some (RetVoid, s)"] by blast
  moreover from this have "zeos_tick s' = zeos_tick s + 10" by (simp add: sched_frame_def f)
  ultimately show ?thesis using False cpu_running [OF inv(2)] f
    by (intro if_not_P [THEN iffD2] exI [of _ s'] exI [of _ Q']) auto
qed

lemma clock_routine_ok_witness:
  "\<exists>s'. clock_routine (\<lambda>_ c. c) booted = Some (RetVoid, s') \<and> tick_counter s' = 9"
  using clock_routine_ok [OF booted_inv(1,2), of "\<lambda>_ c. c"] by (simp add: booted_inv)

section \<open>No starvation\<close>

fun yields :: "nat \<Rightarrow> kstate \<Rightarrow> kstate option" where
  "yields 0 s = Some s"
| "yields (Suc n) s = Option.bind (sched_next_rr KInterrupt s) (\<lambda>(_, s1). yields n s1)"

text \<open>C28. A ready thread with \<open>k\<close> threads before it gets the CPU at the scheduling step
  number \<open>k + 1\<close>, whatever the other threads and the idle task do with theirs, as long as
  they stay runnable; and no step faults on the way.\<close>
theorem ready_thread_runs:
  assumes "sched_inv s Q" and "cpu_inv s Q" and "k < length (tasks_on Q Readyqueue)"
  shows "\<exists>s' Q'. yields (Suc k) s = Some s' \<and> cur s' = tasks_on Q Readyqueue ! k \<and>
     sched_inv s' Q' \<and> cpu_inv s' Q'"
  using assms
proof (induction k arbitrary: s Q)
  case 0
  then obtain t ts where t: "tasks_on Q Readyqueue = t # ts" by (cases "tasks_on Q Readyqueue") auto
  with sched_from_user [OF "0.prems"(1,2), of KInterrupt] show ?case by auto
next
  case (Suc k)
  then obtain t ts where t: "tasks_on Q Readyqueue = t # ts" "k < length ts"
    by (cases "tasks_on Q Readyqueue") auto
  obtain sw s1 Q1 where s1: "sched_next_rr KInterrupt s = Some (sw, s1)" "sched_inv s1 Q1" "cpu_inv s1 Q1"
     "(cur s1, tasks_on Q1 Readyqueue) = rr_next (idle_task s) (cur s \<noteq> idle_task s) (cur s, tasks_on Q Readyqueue)"
    using sched_from_user [OF Suc.prems(1,2), of KInterrupt] by blast
  have "tasks_on Q1 Readyqueue ! k = ts ! k" "k < length (tasks_on Q1 Readyqueue)"
    using s1(4) t by (auto simp: nth_append split: if_splits)
  with Suc.IH [OF s1(2,3)] s1(1) t show ?case by simp
qed

text \<open>A kernel with a ready thread: after one step of the booted one.\<close>

definition preempted :: kstate where
  "preempted = the (yields 1 booted)"

lemma preempted_inv:
  "\<exists>Q. sched_inv preempted Q \<and> cpu_inv preempted Q \<and> tasks_on Q Readyqueue = [1] \<and> cur preempted = 0 \<and>
     idle_task preempted = 0"
proof -
  obtain sw s' Q' where "sched_next_rr KInterrupt booted = Some (sw, s')" "sched_inv s' Q'" "cpu_inv s' Q'"
     "(cur s', tasks_on Q' Readyqueue) = rr_next (idle_task booted) (cur booted \<noteq> idle_task booted)
        (cur booted, tasks_on boot_queues Readyqueue)" "sched_frame booted s'"
    using sched_from_user [OF booted_inv(1,2), of KInterrupt] by blast
  then show ?thesis
    by (intro exI [of _ Q']) (auto simp: preempted_def booted_inv tasks_on_boot sched_frame_fields)
qed

lemma ready_thread_runs_witness: "\<exists>s'. yields 1 preempted = Some s' \<and> cur s' = 1"
proof -
  obtain Q where "sched_inv preempted Q" "cpu_inv preempted Q" "tasks_on Q Readyqueue = [1]"
    using preempted_inv by blast
  from ready_thread_runs [OF this(1,2), of 0] this(3) show ?thesis by auto
qed

text \<open>C30. A thread that is alone pays for round robin: when its slice ends, the CPU goes to the
  idle task, because the next thread is chosen before the current one is queued, and the idle
  task, which has no quantum, gives the CPU back at the first tick.\<close>
theorem lone_thread_alternates:
  assumes "sched_inv s Q" and "cpu_inv s Q" and "tasks_on Q Readyqueue = []" and "cur s \<noteq> idle_task s"
    and "quantum (task s (idle_task s)) = 0"
  shows "\<exists>s1 s2. sched_next_rr KInterrupt s = Some (True, s1) \<and> cur s1 = idle_task s \<and> tick_counter s1 = 0 \<and>
     clock_routine show_clk s1 = Some (Switched, s2) \<and> cur s2 = cur s \<and> tick_counter s2 = quantum (task s (cur s))"
proof -
  obtain s1 Q1 where s1: "sched_next_rr KInterrupt s = Some (True, s1)" "sched_inv s1 Q1" "cpu_inv s1 Q1"
     "cur s1 = idle_task s" "tasks_on Q1 Readyqueue = [cur s]" "tick_counter s1 = 0" "sched_frame s s1"
    using sched_from_user [OF assms(1,2), of KInterrupt] assms(3-5) by auto
  note f = sched_frame_fields [OF s1(7)]
  let ?s = "update_sched_data_rr (s1\<lparr>con := show_clk (zeos_tick s1) (con s1), zeos_tick := zeos_tick s1 + 10\<rparr>)"
  have e: "links ?s = links s1" "idle_task ?s = idle_task s1" "task ?s = task s1" "cur ?s = cur s1" "mm ?s = mm s1"
    "esp0 ?s = esp0 s1" by (simp_all add: update_sched_data_rr_def)
  have inv: "sched_inv ?s Q1" "cpu_inv ?s Q1"
    by (rule sched_inv_cong [OF s1(2)] cpu_inv_cong [OF s1(3)]; simp only: e)+
  obtain sw s2 Q2 where s2: "sched_next_rr KInterrupt ?s = Some (sw, s2)" 
     "(cur s2, tasks_on Q2 Readyqueue) = rr_next (idle_task ?s) (cur ?s \<noteq> idle_task ?s) (cur ?s, tasks_on Q1 Readyqueue)"
     "sw = (cur s2 \<noteq> cur ?s)" "tick_counter s2 = quantum (task ?s (cur s2))"
    using sched_from_user [OF inv, of KInterrupt] by blast
  have "needs_sched_rr ?s" using s1(6) by (simp add: needs_sched_rr_def update_sched_data_rr_def)
  then have "clock_routine show_clk s1 = sched_then KInterrupt (\<lambda>s. Some (RetVoid, s)) ?s"
    by (simp add: clock_routine_def Let_def)
  moreover have "cur s2 = cur s" "sw" "tick_counter s2 = quantum (task s (cur s))"
    using s2 s1(4,5) e f assms(4) by auto
  ultimately show ?thesis using s1 s2(1) by (auto simp: sched_then_def)
qed

lemma lone_thread_alternates_witness:
  "\<exists>s1 s2. sched_next_rr KInterrupt booted = Some (True, s1) \<and> cur s1 = 0 \<and>
     clock_routine (\<lambda>_ c. c) s1 = Some (Switched, s2) \<and> cur s2 = 1 \<and> tick_counter s2 = 10"
  using lone_thread_alternates [OF booted_inv(1,2), of "\<lambda>_ c. c"] by (auto simp: booted_inv tasks_on_boot simp del: One_nat_def)

end
