(* ===== verification/Blocking.thy ===== *)
theory Blocking
  imports Scheduling
begin

text \<open>
  Blocking and waking threads: \<open>sys_block\<close> and \<open>sys_unblock\<close> of \<^verbatim>\<open>sys.c\<close>, and the two moves
  every blocking system call is made of, the current thread that suspends itself and a thread
  that is made ready.
\<close>

section \<open>The two moves\<close>

lemma sched_inv_dests: "sched_inv s Q \<Longrightarrow> reps (links s) Q \<and> typed Q"
  by (simp add: sched_inv_def)

lemma suspend:
  assumes inv: "sched_inv s Q" and cpu: "cpu_inv s Q" and ni: "cur s \<noteq> idle_task s"
    and d: "d = Blocked \<or> d = ReadBlocked"
  shows "\<exists>s1 s' Q'. update_process_state_rr (cur s) (Some d) s = Some s1 \<and>
     sched_then kc rest s1 = Some (Switched, s') \<and> sched_inv s' Q' \<and> cpu_inv s' Q' \<and>
     (cur s', tasks_on Q' Readyqueue) = rr_next (idle_task s) False (cur s, tasks_on Q Readyqueue) \<and>
     cur s' \<noteq> cur s \<and> tasks_on Q' d = tasks_on Q d @ [cur s] \<and>
     (\<forall>a. a \<noteq> Readyqueue \<longrightarrow> a \<noteq> d \<longrightarrow> Q' a = Q a) \<and> tick_counter s' = quantum (task s (cur s')) \<and>
     k_ctx (task s' (cur s)) = kc \<and> sched_frame s s' \<and>
     (\<forall>t. t \<noteq> cur s \<longrightarrow> k_ctx (task s' t) = k_ctx (task s t))"
proof -
  have r: "reps (links s) Q" and ty: "typed Q" using inv by (simp_all add: sched_inv_def)
  have c: "cur s < NR_TASKS" "live Q (cur s)" "esp0 s = cur s" "cr3 (mm s) = dir_pages_baseAddr (task s (cur s))"
    and run: "\<forall>t < NR_TASKS. live Q t \<longrightarrow> (current_state (task s t) = ST_RUN \<longleftrightarrow> t = cur s)"
    using cpu by (simp_all add: cpu_inv_def)
  have dd: "Some d \<in> dests" "d \<in> sched_queues" using d by auto
  have n: "\<forall>a. \<not> on_list Q a (TList (cur s))"
    using live_linked [OF inv c(1) ni c(2)] cpu_running [OF cpu] by blast
  obtain h where u: "update_process_state_rr (cur s) (Some d) s = Some (moved (cur s) (Some d) h s)"
    and inv1: "sched_inv (moved (cur s) (Some d) h s) (requeue (cur s) (Some d) Q)"
    using sched_inv_moved [OF inv c(1) ni c(2) dd(1)] by blast
  let ?s1 = "moved (cur s) (Some d) h s" and ?Q1 = "requeue (cur s) (Some d) Q"
  have ty1: "typed ?Q1" using inv1 by (simp add: sched_inv_def)
  have st: "current_state (task ?s1 (cur s)) \<noteq> ST_RUN" using d by auto
  have lv: "live ?Q1 t = live Q t" for t by (rule live_requeue [OF r dd(1) c(2)])
  have "yieldable ?s1 ?Q1"
    unfolding yieldable_def using c run st by (auto simp: lv)
  from sched_then_spec [OF inv1 this, of kc rest] obtain s' Q' where s':
    "sched_inv s' Q'" "cpu_inv s' Q'"
    "(cur s', tasks_on Q' Readyqueue) = rr_next (idle_task s) False (cur s, tasks_on ?Q1 Readyqueue)"
    "\<forall>a. a \<noteq> Readyqueue \<longrightarrow> Q' a = ?Q1 a" "tick_counter s' = quantum (task s (cur s'))" "sched_frame ?s1 s'"
    "sched_then kc rest ?s1 = (if cur s' \<noteq> cur s then Some (Switched, s') else rest s')"
    "cur s' \<noteq> cur s \<longrightarrow> k_ctx (task s' (cur s)) = kc"
    "\<forall>t. t \<noteq> cur s \<longrightarrow> k_ctx (task s' t) = k_ctx (task s t)"
    using st by auto
  have nq: "cur s \<notin> set (tasks_on Q a)" if "a \<in> sched_queues" for a
    using n on_queue_iff [OF ty that, of "cur s"] by simp
  have q: "tasks_on ?Q1 a = tasks_on Q a @ (if a = d then [cur s] else [])" if "a \<in> sched_queues" for a
    using tasks_on_requeue [OF ty that, of "cur s" "Some d"] nq [OF that] by (simp add: remove1_absent)
  have rdy: "tasks_on ?Q1 Readyqueue = tasks_on Q Readyqueue" using q [of Readyqueue] d by auto
  have ne: "cur s' \<noteq> cur s"
    using s'(3) ni nq [of Readyqueue] unfolding rdy by (cases "tasks_on Q Readyqueue") auto
  have "?Q1 a = Q a" if "a \<noteq> d" for a using that unlink_id [OF n] by (simp add: requeue_def enqueue_def)
  then have other: "\<forall>a. a \<noteq> Readyqueue \<longrightarrow> a \<noteq> d \<longrightarrow> Q' a = Q a" using s'(4) by simp
  have "d \<noteq> Readyqueue" using d by auto
  then have "tasks_on Q' d = tasks_on Q d @ [cur s]" using q [OF dd(2)] s'(4) by (simp add: tasks_on_def)
  moreover have "sched_frame s s'" using sched_frame_trans [OF sched_frame_moved s'(6)] .
  ultimately show ?thesis using u s' ne other rdy by (intro exI [of _ ?s1] exI [of _ s'] exI [of _ Q']) simp
qed

lemma wake:
  assumes inv: "sched_inv s Q" and cpu: "cpu_inv s Q" and t: "t \<in> set (tasks_on Q d)"
    and d: "d = Blocked \<or> d = ReadBlocked"
  shows "\<exists>s1 Q1. update_process_state_rr t (Some Readyqueue) s = Some s1 \<and> sched_inv s1 Q1 \<and> cpu_inv s1 Q1 \<and>
     tasks_on Q1 Readyqueue = tasks_on Q Readyqueue @ [t] \<and> tasks_on Q1 d = remove1 t (tasks_on Q d) \<and>
     (\<forall>a. a \<noteq> Readyqueue \<longrightarrow> a \<noteq> d \<longrightarrow> Q1 a = Q a) \<and> cur s1 = cur s \<and> t \<noteq> cur s \<and>
     tick_counter s1 = tick_counter s \<and> (\<forall>u. k_ctx (task s1 u) = k_ctx (task s u)) \<and> sched_frame s s1"
proof -
  have r: "reps (links s) Q" and ty: "typed Q" using inv by (simp_all add: sched_inv_def)
  have dd: "d \<in> sched_queues" using d by auto
  have l: "on_list Q d (TList t)" using t on_queue_iff [OF ty dd] by simp
  then have tn: "t < NR_TASKS" "t \<noteq> idle_task s" using inv unfolding sched_inv_def by blast+
  have lv: "live Q t" using dl.on_list_unique [OF r l, of Freequeue] d by (auto simp: live_def)
  have "current_state (task s t) \<noteq> ST_RUN"
    using live_linked [OF inv tn lv] l by blast
  then have ne: "t \<noteq> cur s" using cpu_running [OF cpu] by auto
  obtain h where u: "update_process_state_rr t (Some Readyqueue) s = Some (moved t (Some Readyqueue) h s)"
    "sched_inv (moved t (Some Readyqueue) h s) (requeue t (Some Readyqueue) Q)"
    using sched_inv_moved [OF inv tn lv, of "Some Readyqueue"] by blast
  let ?s1 = "moved t (Some Readyqueue) h s" and ?Q1 = "requeue t (Some Readyqueue) Q"
  have "cpu_inv ?s1 ?Q1"
    using cpu ne live_requeue [OF r _ lv, of "Some Readyqueue"] unfolding cpu_inv_def by auto
  moreover have "?Q1 a = Q a" if "a \<noteq> Readyqueue" "a \<noteq> d" for a
    using that dl.unlink_upd [OF r] l by (auto simp: requeue_def enqueue_def on_list_def)
  moreover have "t \<notin> set (tasks_on Q Readyqueue)"
    using dl.on_list_unique [OF r l, of Readyqueue] on_queue_iff [OF ty, of Readyqueue t] d by auto
  moreover have "tick_counter ?s1 = tick_counter s" by (simp add: moved_def set_state_def upd_task_def)
  ultimately show ?thesis using u ne d
    by (intro exI [of _ ?s1] exI [of _ ?Q1])
      (auto simp: tasks_on_requeue [OF ty] remove1_absent intro: sched_frame_moved)
qed

section \<open>block\<close>

text \<open>C12. \<open>block\<close> uses up an earlier \<open>unblock\<close> if there is one and returns at once; otherwise
  the calling thread joins the end of the queue of blocked threads, suspended inside \<open>block\<close>,
  and the next ready thread, or the idle task, runs.\<close>
theorem sys_block_ok:
  assumes "sched_inv s Q" and "cpu_inv s Q" and "cur s \<noteq> idle_task s"
  shows "if pending_unblocks (task s (cur s)) > 0
     then sys_block s = Some (RetVoid, upd_task (cur s) (\<lambda>ts. ts\<lparr>pending_unblocks := pending_unblocks ts - 1\<rparr>) s)
     else \<exists>s' Q'. sys_block s = Some (Switched, s') \<and> sched_inv s' Q' \<and> cpu_inv s' Q' \<and>
       (cur s', tasks_on Q' Readyqueue) = rr_next (idle_task s) False (cur s, tasks_on Q Readyqueue) \<and>
       cur s' \<noteq> cur s \<and> tasks_on Q' Blocked = tasks_on Q Blocked @ [cur s] \<and> k_ctx (task s' (cur s)) = KBlock"
proof (cases "pending_unblocks (task s (cur s)) > 0")
  case False
  obtain s1 s' Q' where "update_process_state_rr (cur s) (Some Blocked) s = Some s1"
     "sched_then KBlock (\<lambda>s. Some (RetVoid, s)) s1 = Some (Switched, s')" "sched_inv s' Q'" "cpu_inv s' Q'"
     "(cur s', tasks_on Q' Readyqueue) = rr_next (idle_task s) False (cur s, tasks_on Q Readyqueue)"
     "cur s' \<noteq> cur s" "tasks_on Q' Blocked = tasks_on Q Blocked @ [cur s]" "k_ctx (task s' (cur s)) = KBlock"
    using suspend [OF assms, of Blocked KBlock "\<lambda>s. Some (RetVoid, s)"] by blast
  then have "sys_block s = Some (Switched, s') \<and> sched_inv s' Q' \<and> cpu_inv s' Q' \<and>
       (cur s', tasks_on Q' Readyqueue) = rr_next (idle_task s) False (cur s, tasks_on Q Readyqueue) \<and>
       cur s' \<noteq> cur s \<and> tasks_on Q' Blocked = tasks_on Q Blocked @ [cur s] \<and> k_ctx (task s' (cur s)) = KBlock"
    using False by (simp add: sys_block_def)
  with False show ?thesis by (simp only: if_False) blast
qed (simp add: sys_block_def)

lemma booted_not_idle: "cur booted \<noteq> idle_task booted"
  by (simp add: booted_inv)

definition blockable :: kstate where
  "blockable = upd_task 1 (\<lambda>ts. ts\<lparr>pending_unblocks := 0\<rparr>) booted"

lemma blockable_inv:
  "sched_inv blockable boot_queues" "cpu_inv blockable boot_queues" "cur blockable \<noteq> idle_task blockable"
  "cur blockable = 1" "idle_task blockable = 0"
proof -
  show "sched_inv blockable boot_queues"
    by (rule sched_inv_cong [OF booted_inv(1)]) (simp_all add: blockable_def upd_task_def)
  show "cpu_inv blockable boot_queues"
    by (rule cpu_inv_cong [OF booted_inv(2)]) (simp_all add: blockable_def upd_task_def)
qed (simp_all add: blockable_def upd_task_def booted_inv)

lemma sys_block_ok_witness:
  "\<exists>s' Q'. sys_block blockable = Some (Switched, s') \<and> cur s' = 0 \<and> tasks_on Q' Blocked = [1] \<and>
     sched_inv s' Q' \<and> k_ctx (task s' 1) = KBlock"
proof -
  have "\<not> pending_unblocks (task blockable (cur blockable)) > 0"
    by (simp add: blockable_inv) (simp add: blockable_def upd_task_def)
  with sys_block_ok [OF blockable_inv(1-3)] show ?thesis
    by (auto simp: blockable_inv tasks_on_boot simp del: One_nat_def)
qed

section \<open>unblock\<close>

lemma blocked_on_queue:
  assumes "sched_inv s Q" "t < NR_TASKS" "current_state (task s t) = ST_BLOCKED"
  shows "t \<in> set (tasks_on Q Blocked)"
proof -
  have "t \<noteq> idle_task s" using assms by (auto simp: sched_inv_def)
  then have "on_list Q Blocked (TList t)"
    using sched_inv_state [OF assms(1,2)] assms(3) by (simp add: state_ok_def)
  then show ?thesis using on_queue_iff [of Q Blocked t] assms(1) by (simp add: sched_inv_def)
qed

text \<open>What the loop of \<open>unblock\<close> keeps true while it visits the children \<open>cs\<close> of the caller.\<close>

definition unblock_inv :: "kstate \<Rightarrow> nat list \<Rightarrow> kstate \<Rightarrow> lnode lists \<Rightarrow> bool" where
  "unblock_inv s cs s1 Q1 \<longleftrightarrow> sched_inv s1 Q1 \<and> cpu_inv s1 Q1 \<and> cur s1 = cur s \<and> idle_task s1 = idle_task s \<and>
     Q1 (TFills (cur s)) = Some (map TParentAnchor cs) \<and> (\<forall>t. PID (task s1 t) = PID (task s t))"

lemma unblock_body_spec:
  assumes "unblock_inv s cs s1 Q1" "c < NR_TASKS"
  shows "\<exists>s2 Q2. unblock_body pid (TParentAnchor c) (ret, s1) = Some (if PID (task s c) = pid then 0 else ret, s2) \<and>
     unblock_inv s cs s2 Q2 \<and>
     (if PID (task s c) \<noteq> pid then s2 = s1 \<and> Q2 = Q1
      else if current_state (task s1 c) = ST_BLOCKED
      then tasks_on Q2 Readyqueue = tasks_on Q1 Readyqueue @ [c] \<and> tasks_on Q2 Blocked = remove1 c (tasks_on Q1 Blocked) \<and>
        pending_unblocks (task s2 c) = pending_unblocks (task s1 c)
      else Q2 = Q1 \<and> s2 = upd_task c (\<lambda>ts. ts\<lparr>pending_unblocks := pending_unblocks ts + 1\<rparr>) s1)"
proof -
  have inv: "sched_inv s1 Q1" "cpu_inv s1 Q1" "PID (task s1 c) = PID (task s c)"
    using assms(1) by (simp_all add: unblock_inv_def)
  consider (other) "PID (task s c) \<noteq> pid"
    | (woken) "PID (task s c) = pid" "current_state (task s1 c) = ST_BLOCKED"
    | (permit) "PID (task s c) = pid" "current_state (task s1 c) \<noteq> ST_BLOCKED" by blast
  then show ?thesis
  proof cases
    case other
    then show ?thesis using inv(3) assms(1) by (simp add: unblock_body_def)
  next
    case woken
    obtain s2 Q2 where s2: "update_process_state_rr c (Some Readyqueue) s1 = Some s2" "sched_inv s2 Q2" "cpu_inv s2 Q2"
      "tasks_on Q2 Readyqueue = tasks_on Q1 Readyqueue @ [c]" "tasks_on Q2 Blocked = remove1 c (tasks_on Q1 Blocked)"
      "\<forall>a. a \<noteq> Readyqueue \<longrightarrow> a \<noteq> Blocked \<longrightarrow> Q2 a = Q1 a" "cur s2 = cur s1" "sched_frame s1 s2"
      using wake [OF inv(1,2) blocked_on_queue [OF inv(1) assms(2) woken(2)]] by blast
    have "unblock_inv s cs s2 Q2"
      using assms(1) s2(2,3,6,7) sched_frame_fields [OF s2(8)] by (simp add: unblock_inv_def)
    then show ?thesis using woken inv(3) s2(1,4,5) sched_frame_fields(4) [OF s2(8)]
      by (intro exI [of _ s2] exI [of _ Q2]) (simp add: unblock_body_def)
  next
    case permit
    let ?s2 = "upd_task c (\<lambda>ts. ts\<lparr>pending_unblocks := pending_unblocks ts + 1\<rparr>) s1"
    have "sched_inv ?s2 Q1" by (rule sched_inv_cong [OF inv(1)]) (simp_all add: upd_task_def)
    moreover have "cpu_inv ?s2 Q1" by (rule cpu_inv_cong [OF inv(2)]) (simp_all add: upd_task_def)
    ultimately have "unblock_inv s cs ?s2 Q1" using assms(1) by (simp add: unblock_inv_def upd_task_def)
    then show ?thesis using permit inv(3) by (simp add: unblock_body_def)
  qed
qed

lemma unblock_loop:
  assumes "unblock_inv s cs s1 Q1" and "set xs \<subseteq> {..<NR_TASKS}" and "\<forall>x \<in> set xs. PID (task s x) \<noteq> pid"
  shows "foldo (unblock_body pid) (map TParentAnchor xs) (ret, s1) = Some (ret, s1)"
  using assms(2,3)
proof (induction xs)
  case (Cons x xs)
  then have "unblock_body pid (TParentAnchor x) (ret, s1) = Some (ret, s1)"
    using unblock_body_spec [OF assms(1), of x pid ret] by auto
  with Cons show ?case by simp
qed simp

lemma unblock_traversal:
  assumes "unblock_inv s cs s Q" and "set cs \<subseteq> {..<NR_TASKS}"
  shows "list_for_each (links \<circ> snd) (unblock_body pid) (TFills (cur s)) (-1, s) =
     foldo (unblock_body pid) (map TParentAnchor cs) (-1, s)"
proof -
  let ?I = "\<lambda>(ret, s1). \<exists>Q1. unblock_inv s cs s1 Q1"
  have "list_for_each (links \<circ> snd) (unblock_body pid) (TFills (cur s)) (-1, s) =
     foldo (unblock_body pid) (map TParentAnchor cs) (-1, s) \<and>
     (\<exists>s'. foldo (unblock_body pid) (map TParentAnchor cs) (-1, s) = Some s' \<and> ?I s')"
  proof (rule list_for_each_fold [of ?I])
    show "?I (-1, s)" using assms(1) by auto
    show "\<exists>Q1. reps ((links \<circ> snd) s1) Q1 \<and> Q1 (TFills (cur s)) = Some (map TParentAnchor cs)"
      if "?I s1" for s1 using that by (auto simp: unblock_inv_def sched_inv_def)
    show "\<exists>s'. unblock_body pid n s1 = Some s' \<and> ?I s'"
      if n: "n \<in> set (map TParentAnchor cs)" and i: "?I s1" for n s1
    proof -
      obtain ret t Q1 c where e: "s1 = (ret, t)" "unblock_inv s cs t Q1" "n = TParentAnchor c" "c < NR_TASKS"
        using n i assms(2) by (cases s1) auto
      obtain s2 Q2 where "unblock_body pid (TParentAnchor c) (ret, t) = Some (if PID (task s c) = pid then 0 else ret, s2)"
        "unblock_inv s cs s2 Q2" using unblock_body_spec [OF e(2,4), of pid ret] by blast
      then show ?thesis unfolding e(1,3) by auto
    qed
  qed
  then show ?thesis by blast
qed

end
