(* ===== verification/Threads.thy ===== *)
theory Threads
  imports Blocking
begin

text \<open>
  Creating threads. \<open>fork\<close> and \<open>create_thread\<close> of \<^verbatim>\<open>sys.c\<close> take a task from the free list,
  copy the whole page of the caller over it, stale list pointers included, and repair the
  copy. \<open>links_spawn\<close> follows the pointers through these steps.
\<close>

section \<open>The list nodes of a new thread\<close>

definition copy_nodes :: "nat \<Rightarrow> nat \<Rightarrow> lnode links \<Rightarrow> lnode links" where
  "copy_nodes p c h = h(TList c := h (TList p), TFills c := h (TFills p),
     TParentAnchor c := h (TParentAnchor p), TWaitList c := h (TWaitList p),
     TWaitAnchor c := h (TWaitAnchor p), TSemList c := h (TSemList p))"

text \<open>The anchors of a free task are on no list.\<close>

definition detached :: "lnode lists \<Rightarrow> nat \<Rightarrow> bool" where
  "detached Q c \<longleftrightarrow> (\<forall>a. \<not> on_list Q a (TParentAnchor c) \<and> \<not> on_list Q a (TWaitAnchor c) \<and> \<not> on_list Q a (TSemList c))"

lemma typed_unlinked_head: "typed Q \<Longrightarrow> is_head n \<Longrightarrow> \<not> on_list Q a n"
proof -
  assume "typed Q" "is_head n"
  then have "on_list Q a n \<Longrightarrow> fits a n" by (simp add: typed_def)
  then show ?thesis using \<open>is_head n\<close> by (cases n) auto
qed

lemma typed_anchor: "typed Q \<Longrightarrow> \<not> is_head n \<Longrightarrow> Q n = None"
  unfolding typed_def by blast

lemma reps_copy_nodes:
  assumes r: "reps h Q" and ty: "typed Q" and d: "detached Q c" and l: "\<forall>a. \<not> on_list Q a (TList c)"
  shows "reps (copy_nodes p c h) (Q(TFills c := None, TWaitList c := None))"
proof -
  let ?Q = "Q(TFills c := None, TWaitList c := None)"
  have r': "reps h ?Q" using r by (intro reps_drop)
  have sub: "\<not> on_list ?Q a n" if "\<not> on_list Q a n" for a n
    using that by (auto simp: on_list_def split: if_splits)
  have anchors: "unlinked ?Q n" if "n \<in> {TList c, TParentAnchor c, TWaitAnchor c, TSemList c}" for n
    using that d l sub typed_anchor [OF ty] by (intro unlinkedI) (auto simp: detached_def)
  have heads: "unlinked ?Q n" if "n \<in> {TFills c, TWaitList c}" for n
    using that sub typed_unlinked_head [OF ty] by (intro unlinkedI) auto
  show ?thesis
    unfolding copy_nodes_def
    by (intro reps_scribble r') (simp_all add: anchors heads)
qed

definition spawn_lists :: "nat \<Rightarrow> nat \<Rightarrow> lnode lists \<Rightarrow> lnode lists" where
  "spawn_lists p c Q = enqueue (TList c) Readyqueue
     ((enqueue (TParentAnchor c) (TFills p) ((unlink (TList c) Q)(TFills c := None, TWaitList c := None)))
        (TFills c \<mapsto> [], TWaitList c \<mapsto> []))"

lemma on_list_drop: "on_list (Q(a := None)) b n \<longleftrightarrow> b \<noteq> a \<and> on_list Q b n"
  by (simp add: on_list_def)

lemma on_list_spawn:
  assumes "reps h Q" "typed Q" "p \<noteq> c" "Q (TFills p) \<noteq> None"
  shows "on_list (spawn_lists p c Q) a n \<longleftrightarrow>
     n \<noteq> TList c \<and> on_list Q a n \<and> a \<noteq> TFills c \<and> a \<noteq> TWaitList c \<or>
     n = TList c \<and> a = Readyqueue \<or> n = TParentAnchor c \<and> a = TFills p"
  using assms(3,4) typed_queue [OF assms(2), of Readyqueue]
  by (auto simp: spawn_lists_def on_list_upd on_list_drop dl.on_list_unlink [OF assms(1)])

lemma spawn_lists_None: "spawn_lists p c Q a = None \<longleftrightarrow> Q a = None \<and> a \<noteq> TFills c \<and> a \<noteq> TWaitList c"
  by (simp add: spawn_lists_def)

lemma typed_spawn:
  assumes "reps h Q" "typed Q" "p \<noteq> c" "Q (TFills p) \<noteq> None"
  shows "typed (spawn_lists p c Q)"
proof -
  have "fits a n" if "on_list (spawn_lists p c Q) a n" for a n
    using that assms(2) unfolding on_list_spawn [OF assms] typed_def by auto
  moreover have "is_head a" if "spawn_lists p c Q a \<noteq> None" for a
    using that assms(2) unfolding spawn_lists_None typed_def by auto
  moreover have "spawn_lists p c Q d \<noteq> None" if "d \<in> sched_queues" for d
    using typed_queue [OF assms(2) that] by (simp add: spawn_lists_None)
  ultimately show ?thesis unfolding typed_def by blast
qed

lemma links_spawn:
  assumes r: "reps h Q" and ty: "typed Q" and f: "Q Freequeue = Some (TList c # fs)" and d: "detached Q c"
    and p: "Q (TFills p) \<noteq> None" "p \<noteq> c"
  shows "\<exists>h1 h2 h3. list_first Freequeue h = Some (TList c) \<and> list_empty Freequeue h = False \<and>
     list_del (TList c) h = Some h1 \<and>
     list_add_tail (TParentAnchor c) (TFills p) (copy_nodes p c h1) = Some h2 \<and>
     list_add_tail (TList c) Readyqueue (INIT_LIST_HEAD (TWaitList c) (INIT_LIST_HEAD (TFills c) h2)) = Some h3 \<and>
     reps h3 (spawn_lists p c Q)"
proof -
  let ?Q1 = "unlink (TList c) Q"
  let ?Q2 = "?Q1(TFills c := None, TWaitList c := None)"
  let ?Q3 = "enqueue (TParentAnchor c) (TFills p) ?Q2"
  let ?Q4 = "?Q3(TFills c \<mapsto> [], TWaitList c \<mapsto> [])"
  have fst: "list_first Freequeue h = Some (TList c)" "list_empty Freequeue h = False"
    using dl.rep_first [OF r f] dl.rep_empty [OF r f] by simp_all
  have "on_list Q Freequeue (TList c)" using f by (simp add: on_list_def)
  then obtain h1 where h1: "list_del (TList c) h = Some h1" "reps h1 ?Q1" using dl.del_unlink [OF r] by blast
  note o1 = dl.on_list_unlink [OF r, of "TList c"]
  have ty1: "typed ?Q1" by (rule typed_unlink [OF r ty])
  have d1: "detached ?Q1 c" using d by (simp add: detached_def o1)
  have r2: "reps (copy_nodes p c h1) ?Q2" by (rule reps_copy_nodes [OF h1(2) ty1 d1]) (simp add: o1)
  have "unlinked ?Q2 (TParentAnchor c)"
    using d1 typed_anchor [OF ty1, of "TParentAnchor c"] by (intro unlinkedI) (auto simp: detached_def on_list_drop)
  from dl.add_tail_enqueue [OF r2 _ this, of "TFills p"] p obtain h2 where
    h2: "list_add_tail (TParentAnchor c) (TFills p) (copy_nodes p c h1) = Some h2" "reps h2 ?Q3" by auto
  have nh: "\<not> on_list ?Q3 b n" if "n = TFills c \<or> n = TWaitList c" for b n
    using that typed_unlinked_head [OF ty1, of n] by (auto simp: on_list_drop)
  have r4: "reps (INIT_LIST_HEAD (TWaitList c) (INIT_LIST_HEAD (TFills c) h2)) ?Q4"
    by (intro reps_init_new h2(2)) (use nh p in \<open>simp_all add: on_list_upd\<close>)
  have "unlinked ?Q4 (TList c)"
    using typed_anchor [OF ty1, of "TList c"]
    by (intro unlinkedI) (auto simp: on_list_upd on_list_drop o1)
  from dl.add_tail_enqueue [OF r4 _ this, of Readyqueue] typed_queue [OF ty, of Readyqueue] obtain h3 where
    "list_add_tail (TList c) Readyqueue (INIT_LIST_HEAD (TWaitList c) (INIT_LIST_HEAD (TFills c) h2)) = Some h3"
    "reps h3 (enqueue (TList c) Readyqueue ?Q4)" by auto
  with fst h1(1) h2(1) show ?thesis by (simp add: spawn_lists_def)
qed

text \<open>A new thread keeps the invariant.\<close>

lemma sched_inv_spawn:
  assumes inv: "sched_inv s Q" and r: "reps (links s') (spawn_lists p c Q)" and pc: "p \<noteq> c" "Q (TFills p) \<noteq> None"
    and c: "on_list Q Freequeue (TList c)" and idle: "idle_task s' = idle_task s"
    and same: "\<And>t. t \<noteq> c \<Longrightarrow> PID (task s' t) = PID (task s t) \<and> current_state (task s' t) = current_state (task s t) \<and>
                dir_pages_baseAddr (task s' t) = dir_pages_baseAddr (task s t)"
    and new: "PID (task s' c) > 0" "current_state (task s' c) = ST_READY" "dir_pages_baseAddr (task s' c) \<noteq> None"
    and fresh: "\<And>t. t < NR_TASKS \<Longrightarrow> live Q t \<Longrightarrow> PID (task s t) \<noteq> PID (task s' c)"
  shows "sched_inv s' (spawn_lists p c Q)"
proof -
  have rQ: "reps (links s) Q" and ty: "typed Q" using inv by (simp_all add: sched_inv_def)
  note o = on_list_spawn [OF rQ ty pc]
  have oL: "on_list (spawn_lists p c Q) a (TList t) \<longleftrightarrow> (if t = c then a = Readyqueue else on_list Q a (TList t))" for a t
    using typed_sched [OF ty, of a "TList t"] by (auto simp: o)
  have lv: "live (spawn_lists p c Q) t \<longleftrightarrow> t = c \<or> live Q t" for t by (auto simp: live_def oL)
  have ok: "state_ok (spawn_lists p c Q) t (task s' t)" if "t < NR_TASKS" "t \<noteq> idle_task s" for t
  proof (cases "t = c")
    case True
    then show ?thesis using new by (simp add: state_ok_def oL lv)
  next
    case False
    then show ?thesis using sched_inv_state [OF inv that] same [OF False] by (simp add: state_ok_def oL lv)
  qed
  have ci: "c \<noteq> idle_task s" "c < NR_TASKS" using inv c unfolding sched_inv_def by blast+
  have pids: "PID (task s' t) \<noteq> PID (task s' u)" if "t < NR_TASKS" "u < NR_TASKS" "t \<noteq> u"
    "t = c \<or> live Q t" "u = c \<or> live Q u" for t u
    using that same [of t] same [of u] fresh [of t] fresh [of u] inv unfolding sched_inv_def
    by (cases "t = c"; cases "u = c") auto
  have "idle_task s \<noteq> c" using ci by simp
  note si = same [OF this]
  have dirs: "dir_pages_baseAddr (task s' t) \<noteq> None" if "t < NR_TASKS" "t = c \<or> live Q t" for t
    using that same [of t] new(3) inv unfolding sched_inv_def by (cases "t = c") auto
  show ?thesis
    unfolding sched_inv_def idle
    using r typed_spawn [OF rQ ty pc] ok pids dirs ci si inv
    by (simp add: lv oL sched_inv_def)
qed

section \<open>The shared steps\<close>

lemma copy_task_union_eq:
  "copy_task_union p c s = s\<lparr>task := (task s)(c := task s p), links := copy_nodes p c (links s)\<rparr>"
  by (simp add: copy_task_union_def copy_nodes_def)

lemma adopt_eq:
  "list_add_tail (TParentAnchor c) (TFills (cur s)) (links s) = Some h \<Longrightarrow>
   adopt c s = Some (s\<lparr>task := (task s)(c := (task s c)\<lparr>PID := pidGlobal s, pare := Some (cur s), pending_unblocks := 0\<rparr>),
     pidGlobal := pidGlobal s + 1, links := INIT_LIST_HEAD (TWaitList c) (INIT_LIST_HEAD (TFills c) h)\<rparr>)"
  by (simp add: adopt_def upd_task_def on_links_simp init_head_def)

lemma start_thread_eq:
  "PID (task s c) > 0 \<Longrightarrow> current_state (task s c) = ST_RUN \<Longrightarrow>
   list_add_tail (TList c) Readyqueue (links s) = Some h \<Longrightarrow>
   start_thread c kc s = Some (s\<lparr>task := (task s)(c := (task s c)\<lparr>k_ctx := kc, quantum := 10, current_state := ST_READY\<rparr>),
     links := h\<rparr>)"
  by (simp add: start_thread_def update_process_state_rr_def set_quantum_def upd_task_def set_state_def on_links_simp)

text \<open>What both calls need of the state: a free task at the head of the free list, whose anchors are
  on no list, a caller whose list of children is initialised, and a fresh identifier.\<close>

definition can_spawn :: "kstate \<Rightarrow> lnode lists \<Rightarrow> nat \<Rightarrow> bool" where
  "can_spawn s Q c \<longleftrightarrow> (\<exists>fs. Q Freequeue = Some (TList c # fs)) \<and> detached Q c \<and> Q (TFills (cur s)) \<noteq> None \<and>
     (\<forall>t < NR_TASKS. live Q t \<longrightarrow> PID (task s t) < pidGlobal s) \<and> 0 < pidGlobal s"

lemma can_spawn_free: "can_spawn s Q c \<Longrightarrow> on_list Q Freequeue (TList c)"
  by (auto simp: can_spawn_def on_list_def)

lemma can_spawn_other: "can_spawn s Q c \<Longrightarrow> cpu_inv s Q \<Longrightarrow> cur s \<noteq> c"
  using can_spawn_free by (auto simp: cpu_inv_def live_def)

lemma tasks_on_spawn:
  assumes "sched_inv s Q" "can_spawn s Q c" "cpu_inv s Q"
  shows "tasks_on (spawn_lists (cur s) c Q) Readyqueue = tasks_on Q Readyqueue @ [c] \<and>
    tasks_on (spawn_lists (cur s) c Q) Freequeue = tl (tasks_on Q Freequeue) \<and>
    tasks_on Q Freequeue \<noteq> [] \<and> hd (tasks_on Q Freequeue) = c \<and>
    (\<forall>d \<in> {Blocked, ReadBlocked}. tasks_on (spawn_lists (cur s) c Q) d = tasks_on Q d) \<and>
    spawn_lists (cur s) c Q (TFills c) = Some [] \<and> spawn_lists (cur s) c Q (TWaitList c) = Some [] \<and>
    spawn_lists (cur s) c Q (TFills (cur s)) = map_option (\<lambda>cs. cs @ [TParentAnchor c]) (Q (TFills (cur s)))"
proof -
  have r: "reps (links s) Q" and ty: "typed Q" using assms(1) by (simp_all add: sched_inv_def)
  obtain fs where f: "Q Freequeue = Some (TList c # fs)" using assms(2) by (auto simp: can_spawn_def)
  have ne: "cur s \<noteq> c" using can_spawn_other [OF assms(2,3)] .
  have u: "unlink (TList c) Q = Q(Freequeue \<mapsto> fs)" using dl.unlink_upd [OF r f, of "TList c"] by simp
  obtain rs where rs: "Q Readyqueue = Some rs" using typed_queue [OF ty, of Readyqueue] by auto
  show ?thesis using f ne rs by (simp add: spawn_lists_def u enqueue_def tasks_on_def)
qed

section \<open>create_thread\<close>

lemma cpu_inv_spawn:
  assumes "sched_inv s Q" "cpu_inv s Q" "can_spawn s Q c" "cur s' = cur s" "esp0 s' = esp0 s"
    and "cr3 (mm s') = cr3 (mm s)"
    and same: "\<And>t. t \<noteq> c \<Longrightarrow> current_state (task s' t) = current_state (task s t) \<and>
                dir_pages_baseAddr (task s' t) = dir_pages_baseAddr (task s t)"
    and "current_state (task s' c) = ST_READY"
  shows "cpu_inv s' (spawn_lists (cur s) c Q)"
proof -
  have r: "reps (links s) Q" and ty: "typed Q" using assms(1) by (simp_all add: sched_inv_def)
  have ne: "cur s \<noteq> c" using can_spawn_other [OF assms(3,2)] .
  have "on_list (spawn_lists (cur s) c Q) Freequeue (TList t) \<longleftrightarrow> t \<noteq> c \<and> on_list Q Freequeue (TList t)" for t
    using on_list_spawn [OF r ty ne] assms(3) by (auto simp: can_spawn_def)
  then have lv: "live (spawn_lists (cur s) c Q) t \<longleftrightarrow> t = c \<or> live Q t" for t by (auto simp: live_def)
  have "current_state (task s' t) = ST_RUN \<longleftrightarrow> t = cur s" if "t < NR_TASKS" "t = c \<or> live Q t" for t
    using that assms(2,8) same [of t] ne by (cases "t = c") (auto simp: cpu_inv_def)
  then show ?thesis
    using assms(2,4-6) same [OF ne] unfolding cpu_inv_def by (simp add: lv)
qed

definition thread_created ::
  "u32 \<Rightarrow> u32 \<Rightarrow> nat \<Rightarrow> ram \<Rightarrow> lnode links \<Rightarrow> nat \<Rightarrow> kstate \<Rightarrow> kstate" where
  "thread_created func stack d r2 h c s =
     s\<lparr>task := (task s)(c := (task s (cur s))\<lparr>PID := pidGlobal s, pare := Some (cur s), pending_unblocks := 0,
           u_eip := func, u_esp := stack - 8, k_ctx := KRetFromNewThread, quantum := 10, current_state := ST_READY\<rparr>),
       mm := (mm s)\<lparr>dir_pages_num_references := (dir_pages_num_references (mm s))
              (d := dir_pages_num_references (mm s) d + 1)\<rparr>,
       pidGlobal := pidGlobal s + 1, ram := r2, links := h\<rparr>"

lemma create_thread_eq:
  assumes inv: "sched_inv s Q" and cpu: "cpu_inv s Q" and sp: "can_spawn s Q c"
    and ok: "access_ok VERIFY_READ func 4 \<noteq> 0" "access_ok VERIFY_WRITE stack 4 \<noteq> 0"
    and w: "st32 (translate (mm s)) (unat (stack - 4)) parameter (ram s) = Some r1"
      "st32 (translate (mm s)) (unat (stack - 8)) 0 r1 = Some r2"
    and d: "dir_pages_baseAddr (task s (cur s)) = Some d"
  shows "\<exists>h. sys_create_thread func stack parameter s = Some (Ret (pidGlobal s),
     thread_created func stack d r2 h c s) \<and>
     sched_inv (thread_created func stack d r2 h c s) (spawn_lists (cur s) c Q) \<and>
     cpu_inv (thread_created func stack d r2 h c s) (spawn_lists (cur s) c Q)"
proof -
  let ?p = "cur s"
  have r: "reps (links s) Q" and ty: "typed Q" using inv by (simp_all add: sched_inv_def)
  have ne: "?p \<noteq> c" using can_spawn_other [OF sp cpu] .
  obtain fs where f: "Q Freequeue = Some (TList c # fs)" using sp by (auto simp: can_spawn_def)
  obtain h1 h2 h3 where h: "list_first Freequeue (links s) = Some (TList c)" "list_empty Freequeue (links s) = False"
     "list_del (TList c) (links s) = Some h1"
     "list_add_tail (TParentAnchor c) (TFills ?p) (copy_nodes ?p c h1) = Some h2"
     "list_add_tail (TList c) Readyqueue (INIT_LIST_HEAD (TWaitList c) (INIT_LIST_HEAD (TFills c) h2)) = Some h3"
     "reps h3 (spawn_lists ?p c Q)"
    using links_spawn [OF r ty f _ _ ne] sp by (auto simp: can_spawn_def)
  let ?m = "(mm s)\<lparr>dir_pages_num_references := (dir_pages_num_references (mm s))
              (d := dir_pages_num_references (mm s) d + 1)\<rparr>"
  let ?s2 = "s\<lparr>task := (task s)(c := task s ?p), links := copy_nodes ?p c h1, mm := ?m\<rparr>"
  have cp: "add_DIR_ref c (copy_task_union ?p c (s\<lparr>links := h1\<rparr>)) = Some (1, ?s2)"
    using d by (simp add: add_DIR_ref_def copy_task_union_eq upd_mm_def)
  let ?s3 = "?s2\<lparr>task := (task ?s2)(c := (task ?s2 c)\<lparr>PID := pidGlobal s, pare := Some ?p, pending_unblocks := 0\<rparr>),
     pidGlobal := pidGlobal s + 1, links := INIT_LIST_HEAD (TWaitList c) (INIT_LIST_HEAD (TFills c) h2)\<rparr>"
  have ad: "adopt c ?s2 = Some ?s3" using adopt_eq [of c ?s2 h2] h(4) by simp
  have tr: "translate ?m = translate (mm s)" by (rule translate_cong) simp_all
  let ?s5 = "upd_task c (\<lambda>ts. ts\<lparr>u_esp := stack - 8\<rparr>) ((upd_task c (\<lambda>ts. ts\<lparr>u_eip := func\<rparr>) ?s3)\<lparr>ram := r2\<rparr>)"
  have st: "start_thread c KRetFromNewThread ?s5 = Some (?s5\<lparr>task := (task ?s5)(c := (task ?s5 c)\<lparr>k_ctx := KRetFromNewThread,
       quantum := 10, current_state := ST_READY\<rparr>), links := h3\<rparr>)"
    by (rule start_thread_eq) (use sp h(5) cpu_running [OF cpu] in \<open>simp_all add: upd_task_def can_spawn_def\<close>)
  have "sys_create_thread func stack parameter s =
     Some (Ret (pidGlobal s), ?s5\<lparr>task := (task ?s5)(c := (task ?s5 c)\<lparr>k_ctx := KRetFromNewThread,
       quantum := 10, current_state := ST_READY\<rparr>), links := h3\<rparr>)"
    using ok h(1-3) cp ad st w unfolding sys_create_thread_def
    by (simp add: on_links_simp upd_task_def tr)
  also have "?s5\<lparr>task := (task ?s5)(c := (task ?s5 c)\<lparr>k_ctx := KRetFromNewThread,
       quantum := 10, current_state := ST_READY\<rparr>), links := h3\<rparr> = thread_created func stack d r2 h3 c s"
    by (simp add: upd_task_def thread_created_def)
  finally have e: "sys_create_thread func stack parameter s = Some (Ret (pidGlobal s), thread_created func stack d r2 h3 c s)" .
  have "sched_inv (thread_created func stack d r2 h3 c s) (spawn_lists ?p c Q)"
    by (rule sched_inv_spawn [OF inv _ ne _ can_spawn_free [OF sp]])
      (use h(6) sp d in \<open>auto simp: can_spawn_def thread_created_def\<close>)
  moreover have "cpu_inv (thread_created func stack d r2 h3 c s) (spawn_lists ?p c Q)"
    by (rule cpu_inv_spawn [OF inv cpu sp]) (simp_all add: thread_created_def)
  ultimately show ?thesis using e by blast
qed

text \<open>C8. With a free task and a mapped stack, \<open>create_thread\<close> returns a fresh identifier; the new
  thread is the last child of the caller and the last ready thread; it shares the caller's
  directory, which counts one more user, and heap; it starts in the given function with the
  argument on its stack above a zero return address, and with a full quantum. The caller goes
  on running.\<close>
theorem sys_create_thread_ok:
  assumes inv: "sched_inv s Q" and cpu: "cpu_inv s Q" and sp: "can_spawn s Q c"
    and ok: "access_ok VERIFY_READ func 4 \<noteq> 0" "access_ok VERIFY_WRITE stack 4 \<noteq> 0"
    and map: "\<forall>i<8. translate (mm s) (unat (stack - 8) + i) \<noteq> None" "8 \<le> unat stack"
      "inj_on (translate (mm s)) {unat (stack - 8)..<unat (stack - 8) + 8}"
    and d: "dir_pages_baseAddr (task s (cur s)) = Some d"
  shows "\<exists>s' Q'. sys_create_thread func stack parameter s = Some (Ret (pidGlobal s), s') \<and>
     sched_inv s' Q' \<and> cpu_inv s' Q' \<and> cur s' = cur s \<and>
     tasks_on Q' Readyqueue = tasks_on Q Readyqueue @ [c] \<and>
     tasks_on Q Freequeue = c # tasks_on Q' Freequeue \<and>
     Q' (TFills (cur s)) = map_option (\<lambda>cs. cs @ [TParentAnchor c]) (Q (TFills (cur s))) \<and>
     PID (task s' c) = pidGlobal s \<and> pidGlobal s' = pidGlobal s + 1 \<and> pare (task s' c) = Some (cur s) \<and>
     dir_pages_baseAddr (task s' c) = Some d \<and> my_heap (task s' c) = my_heap (task s (cur s)) \<and>
     dir_pages_num_references (mm s') d = dir_pages_num_references (mm s) d + 1 \<and>
     quantum (task s' c) = 10 \<and> k_ctx (task s' c) = KRetFromNewThread \<and>
     u_eip (task s' c) = func \<and> u_esp (task s' c) = stack - 8 \<and>
     ld32 (translate (mm s')) (unat (stack - 8)) (ram s') = Some 0 \<and>
     ld32 (translate (mm s')) (unat (stack - 4)) (ram s') = Some parameter"
proof -
  let ?tr = "translate (mm s)" and ?a = "unat (stack - 8)"
  have a4: "unat (stack - 4) = ?a + 4" and a8: "unat stack = ?a + 8"
    using map(2) by (simp_all add: unat_sub_if' word_le_nat_alt)
  have m: "\<forall>i<4. ?tr (?a + 4 + i) \<noteq> None" "\<forall>i<4. ?tr (?a + i) \<noteq> None"
    using map(1) [rule_format, of "4 + i" for i] map(1) by (simp_all add: add.assoc)
  obtain r1 where r1: "st32 ?tr (unat (stack - 4)) parameter (ram s) = Some r1"
    using st32_mapped [OF m(1)] unfolding a4 by blast
  obtain r2 where r2: "st32 ?tr ?a 0 r1 = Some r2" using st32_mapped [OF m(2)] by blast
  have j: "inj_on ?tr {?a..<?a + 4}" "inj_on ?tr {?a + 4..<?a + 4 + 4}"
    by (rule inj_on_subset [OF map(3)]; auto)+
  have "\<forall>i<4. \<forall>j<4. ?tr (?a + 4 + i) \<noteq> ?tr (?a + j)"
    using inj_onD [OF map(3)] by fastforce
  then have rd: "ld32 ?tr ?a r2 = Some 0" "ld32 ?tr (unat (stack - 4)) r2 = Some parameter"
    using ld32_st32 [OF r2 j(1)] ld32_st32_other [OF r2, of "?a + 4"] ld32_st32 [OF r1] j(2)
    unfolding a4 by simp_all
  obtain h where h: "sys_create_thread func stack parameter s = Some (Ret (pidGlobal s),
     thread_created func stack d r2 h c s)"
    "sched_inv (thread_created func stack d r2 h c s) (spawn_lists (cur s) c Q)"
    "cpu_inv (thread_created func stack d r2 h c s) (spawn_lists (cur s) c Q)"
    using create_thread_eq [OF inv cpu sp ok r1 r2 d] by blast
  have "translate (mm (thread_created func stack d r2 h c s)) = ?tr"
    by (rule translate_cong) (simp_all add: thread_created_def)
  with h rd d tasks_on_spawn [OF inv sp cpu] show ?thesis
    by (intro exI [of _ "thread_created func stack d r2 h c s"] exI [of _ "spawn_lists (cur s) c Q"])
      (auto simp: thread_created_def)
qed

section \<open>A concrete parent and child\<close>

text \<open>Tables that map every page below 4 MB to itself.\<close>

definition flat_mm :: "nat option \<Rightarrow> mm_state" where
  "flat_mm d = sample_mm\<lparr>dir_pages := (\<lambda>_ _. set_ss_pag (\<lambda>_. 0) 0 0 0), pagusr_page := 0,
     pagusr_table := (\<lambda>_ p. set_ss_pag (\<lambda>_. 0) p (of_nat p) p), cr3 := d\<rparr>"

lemma get_frame_pbase: "pbase_addr (set_ss_pag PT p f p) = f AND mask 20"
  using get_frame_set_ss_pag [of PT p f p] by (simp add: get_frame_def)

lemma translate_flat:
  assumes "a < 4194304"
  shows "translate (flat_mm (Some d)) a = Some a"
proof -
  have "a div 4096 < 1024" using assms by (simp add: less_mult_imp_div_less)
  then have "unat (word_of_nat (a div 4096) :: u32) = a div 4096"
    by (intro unat_frame)
  moreover have "a div 4096 < 2 ^ 20" using \<open>a div 4096 < 1024\<close> by simp
  ultimately show ?thesis using \<open>a div 4096 < 1024\<close>
    by (simp add: translate_def flat_mm_def get_frame_pbase)
qed

definition spawner :: kstate where
  "spawner = booted\<lparr>pidGlobal := 1000, mm := flat_mm (dir_pages_baseAddr (task booted 1))\<rparr>"

lemma spawner_fields: "cur spawner = 1" "idle_task spawner = 0" "PID (task spawner 1) = 1" "pidGlobal spawner = 1000"
  "task spawner = task booted" "mm spawner = flat_mm (dir_pages_baseAddr (task booted 1))"
  by (simp_all add: spawner_def booted_inv del: One_nat_def)

lemma spawner_inv:
  "sched_inv spawner boot_queues" "cpu_inv spawner boot_queues" "can_spawn spawner boot_queues 2"
  "\<exists>d. dir_pages_baseAddr (task spawner (cur spawner)) = Some d \<and> mm spawner = flat_mm (Some d)"
proof -
  have c: "cr3 (mm booted) = dir_pages_baseAddr (task booted 1)"
    using booted_inv(2,4) by (simp add: cpu_inv_def)
  show inv: "sched_inv spawner boot_queues"
    by (rule sched_inv_cong [OF booted_inv(1)]) (simp_all add: spawner_def)
  show "cpu_inv spawner boot_queues"
    by (rule cpu_inv_cong [OF booted_inv(2)]) (simp_all add: spawner_def c flat_mm_def)
  have "PID (task booted 0) = 0" using booted_inv(1,3) by (simp add: sched_inv_def)
  then have p: "\<forall>t < NR_TASKS. live boot_queues t \<longrightarrow> PID (task booted t) < 1000"
    using booted_inv(5) by (auto simp: live_boot lt2)
  have f: "boot_queues Freequeue = Some (TList 2 # map TList [3..<NR_TASKS])"
    by (simp add: boot_queues_def upt_conv_Cons)
  then show "can_spawn spawner boot_queues 2"
    unfolding can_spawn_def detached_def using p
    by (simp add: on_list_boot spawner_fields) (simp add: boot_queues_def)
  have "dir_pages_baseAddr (task spawner 1) \<noteq> None"
    using inv live_boot [of 1] by (simp add: sched_inv_def)
  then show "\<exists>d. dir_pages_baseAddr (task spawner (cur spawner)) = Some d \<and> mm spawner = flat_mm (Some d)"
    by (auto simp: spawner_fields)
qed

lemma spawner_args:
  "access_ok VERIFY_READ 0x114000 4 \<noteq> 0" "access_ok VERIFY_WRITE 0x103000 4 \<noteq> 0"
  by (simp_all add: access_ok_def Let_def)

lemma sys_create_thread_ok_witness:
  "\<exists>s' Q'. sys_create_thread 0x114000 0x103000 7 spawner = Some (Ret 1000, s') \<and> sched_inv s' Q' \<and>
     tasks_on Q' Readyqueue = [2] \<and> PID (task s' 2) = 1000"
proof -
  obtain d where d: "dir_pages_baseAddr (task spawner (cur spawner)) = Some d" "mm spawner = flat_mm (Some d)"
    using spawner_inv(4) by blast
  have t: "translate (mm spawner) a = Some a" if "a < 4194304" for a
    using translate_flat [OF that, of d] d(2) by simp
  have "\<forall>i<8. translate (mm spawner) (unat (0x103000 - 8 :: u32) + i) \<noteq> None" "8 \<le> unat (0x103000 :: u32)"
    by (simp_all add: t)
  moreover have "inj_on (translate (mm spawner)) {unat (0x103000 - 8 :: u32)..<unat (0x103000 - 8 :: u32) + 8}"
    by (auto simp: inj_on_def t)
  ultimately show ?thesis
    using sys_create_thread_ok [OF spawner_inv(1-3) spawner_args _ _ _ d(1), of 7]
    by (auto simp: spawner_fields tasks_on_boot)
qed

definition family :: kstate where
  "family = snd (the (sys_create_thread 0x114000 0x103000 7 spawner))"

lemma family_created:
  "\<exists>r2 h. family = thread_created 0x114000 0x103000 2 r2 h 2 spawner \<and>
     sched_inv family (spawn_lists 1 2 boot_queues) \<and> cpu_inv family (spawn_lists 1 2 boot_queues)"
proof -
  have d: "dir_pages_baseAddr (task spawner (cur spawner)) = Some 2" "mm spawner = flat_mm (Some 2)"
    using booted_inv(9) by (simp_all add: spawner_fields)
  have t: "translate (mm spawner) a = Some a" if "a < 4194304" for a
    using translate_flat [OF that, of 2] d(2) by simp
  obtain r1 where r1: "st32 (translate (mm spawner)) (unat (0x103000 - 4 :: u32)) 7 (ram spawner) = Some r1"
    using st32_mapped [of "translate (mm spawner)" "unat (0x103000 - 4 :: u32)"] t by fastforce
  obtain r2 where r2: "st32 (translate (mm spawner)) (unat (0x103000 - 8 :: u32)) 0 r1 = Some r2"
    using st32_mapped [of "translate (mm spawner)" "unat (0x103000 - 8 :: u32)"] t by fastforce
  obtain h where "family = thread_created 0x114000 0x103000 2 r2 h 2 spawner"
    "sched_inv family (spawn_lists 1 2 boot_queues)" "cpu_inv family (spawn_lists 1 2 boot_queues)"
    using create_thread_eq [OF spawner_inv(1-3) spawner_args r1 r2 d(1)] by (auto simp: family_def spawner_fields)
  then show ?thesis by blast
qed

lemma family_inv:
  "\<exists>Q. sched_inv family Q \<and> cpu_inv family Q \<and> cur family = 1 \<and> idle_task family = 0 \<and>
     Q (TFills 1) = Some [TParentAnchor 2] \<and> PID (task family 2) = 1000 \<and>
     current_state (task family 2) = ST_READY \<and> pending_unblocks (task family 2) = 0 \<and>
     tasks_on Q Readyqueue = [2] \<and> (\<forall>i. Q (SemBlocked i) = None)"
proof -
  obtain r2 h where h: "family = thread_created 0x114000 0x103000 2 r2 h 2 spawner"
    "sched_inv family (spawn_lists 1 2 boot_queues)" "cpu_inv family (spawn_lists 1 2 boot_queues)"
    using family_created by blast
  have sems: "spawn_lists 1 2 boot_queues (SemBlocked i) = None" for i
    by (simp add: spawn_lists_None boot_queues_def queues0_def)
  have "boot_queues (TFills 1) = Some []" by (simp add: boot_queues_def)
  then have "spawn_lists 1 2 boot_queues (TFills 1) = Some [TParentAnchor 2]"
    "tasks_on (spawn_lists 1 2 boot_queues) Readyqueue = [2]"
    using tasks_on_spawn [OF spawner_inv(1,3,2)] by (simp_all add: spawner_fields tasks_on_boot del: One_nat_def)
  with h(2,3) sems show ?thesis
    unfolding h(1) by (intro exI [of _ "spawn_lists 1 2 boot_queues"]) (simp add: thread_created_def spawner_fields)
qed

section \<open>unblock\<close>

text \<open>C11. \<open>unblock\<close> of a child that is in the blocked state puts it at the end of the ready queue,
  whatever it was blocked on; of a child in any other state it leaves a permit for its next
  \<open>block\<close>. In both cases the caller then goes to the end of the ready queue itself, and its
  call will return 0 when it runs again.\<close>
theorem sys_unblock_ok:
  assumes "sched_inv s Q" and "cpu_inv s Q" and "cur s \<noteq> idle_task s"
    and "Q (TFills (cur s)) = Some (map TParentAnchor (as @ c # bs))"
    and "set (as @ c # bs) \<subseteq> {..<NR_TASKS}" and "\<forall>x \<in> set (as @ bs). PID (task s x) \<noteq> PID (task s c)"
  shows "\<exists>s' Q'. sys_unblock (PID (task s c)) s = Some (Switched, s') \<and> sched_inv s' Q' \<and> cpu_inv s' Q' \<and>
     k_ctx (task s' (cur s)) = KUnblock 0 \<and>
     (if current_state (task s c) = ST_BLOCKED
      then (cur s', tasks_on Q' Readyqueue) = rr_next (idle_task s) True (cur s, tasks_on Q Readyqueue @ [c]) \<and>
           tasks_on Q' Blocked = remove1 c (tasks_on Q Blocked) \<and>
           pending_unblocks (task s' c) = pending_unblocks (task s c)
      else (cur s', tasks_on Q' Readyqueue) = rr_next (idle_task s) True (cur s, tasks_on Q Readyqueue) \<and>
           tasks_on Q' Blocked = tasks_on Q Blocked \<and>
           pending_unblocks (task s' c) = pending_unblocks (task s c) + 1)"
proof -
  let ?pid = "PID (task s c)"
  have i0: "unblock_inv s (as @ c # bs) s Q" using assms by (simp add: unblock_inv_def)
  have c: "c < NR_TASKS" using assms(5) by simp
  obtain s1 Q1 where b: "unblock_body ?pid (TParentAnchor c) (-1, s) = Some (0, s1)"
    "unblock_inv s (as @ c # bs) s1 Q1"
    "if current_state (task s c) = ST_BLOCKED
     then tasks_on Q1 Readyqueue = tasks_on Q Readyqueue @ [c] \<and> tasks_on Q1 Blocked = remove1 c (tasks_on Q Blocked) \<and>
        pending_unblocks (task s1 c) = pending_unblocks (task s c)
     else Q1 = Q \<and> s1 = upd_task c (\<lambda>ts. ts\<lparr>pending_unblocks := pending_unblocks ts + 1\<rparr>) s"
    using unblock_body_spec [OF i0 c, of ?pid "-1"] by auto
  let ?cs = "as @ c # bs"
  have l: "set as \<subseteq> {..<NR_TASKS}" "set bs \<subseteq> {..<NR_TASKS}" "\<forall>x \<in> set as. PID (task s x) \<noteq> ?pid"
    "\<forall>x \<in> set bs. PID (task s x) \<noteq> ?pid" using assms(5,6) by auto
  have "list_for_each (links \<circ> snd) (unblock_body ?pid) (TFills (cur s)) (-1, s) = Some (0, s1)"
    unfolding unblock_traversal [OF i0 assms(5)]
    using unblock_loop [OF i0 l(1,3), of "-1"] b(1) unblock_loop [OF b(2) l(2,4), of 0]
    by (simp add: foldo_append)
  then have u: "sys_unblock ?pid s = sched_then (KUnblock 0) (\<lambda>s. Some (Ret 0, s)) s1"
    by (simp add: sys_unblock_def)
  have i1: "sched_inv s1 Q1" "cpu_inv s1 Q1" "cur s1 = cur s" "idle_task s1 = idle_task s"
    using b(2) by (simp_all add: unblock_inv_def)
  obtain s' Q' where s': "sched_then (KUnblock 0) (\<lambda>s. Some (Ret 0, s)) s1 =
      (if cur s' \<noteq> cur s then Some (Switched, s') else Some (Ret 0, s'))" "sched_inv s' Q'" "cpu_inv s' Q'"
    "(cur s', tasks_on Q' Readyqueue) = rr_next (idle_task s) True (cur s, tasks_on Q1 Readyqueue)"
    "\<forall>d. d \<noteq> Readyqueue \<longrightarrow> Q' d = Q1 d" "sched_frame s1 s'"
    "cur s' \<noteq> cur s \<longrightarrow> k_ctx (task s' (cur s)) = KUnblock 0"
    using sched_then_spec [OF i1(1) cpu_inv_yieldable [OF i1(2)], of "KUnblock 0" "\<lambda>s. Some (Ret 0, s)"]
      cpu_running [OF i1(2)] assms(3) i1(3,4) by auto
  have "cur s \<notin> set (tasks_on Q1 Readyqueue)"
    using ready_live [OF i1(1)] cpu_running [OF i1(2)] i1(3) by fastforce
  then have ne: "cur s' \<noteq> cur s" using s'(4) assms(3) by (cases "tasks_on Q1 Readyqueue") auto
  have blk: "tasks_on Q' Blocked = tasks_on Q1 Blocked" using s'(5) by (simp add: tasks_on_def)
  have pend: "pending_unblocks (task s' c) = pending_unblocks (task s1 c)"
    using sched_frame_fields(4) [OF s'(6)] .
  show ?thesis
  proof (cases "current_state (task s c) = ST_BLOCKED")
    case True
    with b(3) have "tasks_on Q1 Readyqueue = tasks_on Q Readyqueue @ [c]"
      "tasks_on Q1 Blocked = remove1 c (tasks_on Q Blocked)"
      "pending_unblocks (task s1 c) = pending_unblocks (task s c)" by simp_all
    with True u s' ne blk pend show ?thesis by (intro exI [of _ s'] exI [of _ Q']) simp
  next
    case False
    with b(3) have "Q1 = Q" "pending_unblocks (task s1 c) = pending_unblocks (task s c) + 1"
      by (simp_all add: upd_task_def)
    with False u s' ne blk pend show ?thesis by (intro exI [of _ s'] exI [of _ Q']) simp
  qed
qed

lemma sys_unblock_ok_witness:
  "\<exists>s'. sys_unblock 1000 family = Some (Switched, s') \<and> cur s' = 2 \<and> pending_unblocks (task s' 2) = 1"
proof -
  obtain Q where Q: "sched_inv family Q" "cpu_inv family Q" "cur family = 1" "idle_task family = 0"
     "Q (TFills 1) = Some [TParentAnchor 2]" "PID (task family 2) = 1000"
     "current_state (task family 2) = ST_READY" "pending_unblocks (task family 2) = 0"
     "tasks_on Q Readyqueue = [2]"
    using family_inv by blast
  then show ?thesis using sys_unblock_ok [OF Q(1,2), of "[]" 2 "[]"] by auto
qed

end
