(* ===== verification/Sem_Queues.thy ===== *)
theory Sem_Queues
  imports Threads Semaphores
begin

text \<open>
  The semaphores as queues. \<open>sem_inv\<close> ties the counter of a semaphore in use to its queue: a
  value of \<open>-n\<close> means \<open>n\<close> waiting threads, each of them blocked. \<open>semWait\<close> and \<open>semSignal\<close> keep
  it and serve the threads first come, first served.
\<close>

section \<open>The invariant\<close>

definition waiters :: "lnode lists \<Rightarrow> nat \<Rightarrow> nat list" where
  "waiters Q i = tasks_on Q (SemBlocked i)"

definition sem_inv :: "kstate \<Rightarrow> lnode lists \<Rightarrow> bool" where
  "sem_inv s Q \<longleftrightarrow>
     (\<forall>i t. on_list Q (SemBlocked i) (TSemList t) \<longrightarrow> t \<in> set (tasks_on Q Blocked)) \<and>
     (\<forall>i < NUM_SEMS. \<not> sem_free (semaphores s i) \<longrightarrow> Q (SemBlocked i) \<noteq> None \<and>
        int (length (waiters Q i)) = max 0 (- sem_value (semaphores s i)) \<and> sem_value (semaphores s i) < 2 ^ 31) \<and>
     (\<forall>i < NUM_SEMS. sem_free (semaphores s i) \<longrightarrow> waiters Q i = [])"

lemma sem_queue:
  assumes "typed Q" "Q (SemBlocked i) \<noteq> None"
  shows "Q (SemBlocked i) = Some (map TSemList (waiters Q i))"
proof -
  obtain xs where xs: "Q (SemBlocked i) = Some xs" using assms(2) by blast
  have "TSemList (the (list_head_to_task_struct n)) = n" if "n \<in> set xs" for n
  proof -
    have "fits (SemBlocked i) n" using assms(1) xs that by (auto simp: typed_def on_list_def)
    then show ?thesis by (cases n) auto
  qed
  then show ?thesis by (simp add: xs waiters_def tasks_on_def map_idI)
qed

lemma on_sem_iff: "typed Q \<Longrightarrow> Q (SemBlocked i) \<noteq> None \<Longrightarrow> on_list Q (SemBlocked i) (TSemList t) \<longleftrightarrow> t \<in> set (waiters Q i)"
  by (simp add: on_list_def sem_queue inj_image_mem_iff inj_def)

text \<open>Linking and unlinking the nodes of a semaphore does not touch the scheduler.\<close>

lemma sched_inv_relist:
  assumes "sched_inv s Q" "reps h Q1" "typed Q1" "\<And>a t. on_list Q1 a (TList t) \<longleftrightarrow> on_list Q a (TList t)"
  shows "sched_inv (s\<lparr>links := h\<rparr>) Q1"
  using assms(1-3) unfolding sched_inv_def state_ok_def live_def by (simp add: assms(4))

lemma cpu_inv_relist:
  assumes "cpu_inv s Q" "\<And>a t. on_list Q1 a (TList t) \<longleftrightarrow> on_list Q a (TList t)"
  shows "cpu_inv (s\<lparr>links := h\<rparr>) Q1"
  using assms(1) unfolding cpu_inv_def live_def by (simp add: assms(2))

lemma upd_sem_inv:
  "sched_inv s Q \<Longrightarrow> sched_inv (upd_sem i f s) Q" "cpu_inv s Q \<Longrightarrow> cpu_inv (upd_sem i f s) Q"
  by (erule sched_inv_cong cpu_inv_cong; simp add: upd_sem_def)+

lemma upd_sem_simps [simp]:
  "links (upd_sem i f s) = links s" "cur (upd_sem i f s) = cur s" "task (upd_sem i f s) = task s"
  "idle_task (upd_sem i f s) = idle_task s"
  "semaphores (upd_sem i f s) j = (if j = i then f (semaphores s i) else semaphores s j)"
  by (simp_all add: upd_sem_def)

lemma wrap32_id: "- (2 ^ 31) \<le> v \<Longrightarrow> v < 2 ^ 31 \<Longrightarrow> wrap32 v = v"
  by (simp add: wrap32_def signed_take_bit_int_eq_self_iff)

lemma waiters_bound:
  assumes "sched_inv s Q" "sem_inv s Q" "i < NUM_SEMS" "\<not> sem_free (semaphores s i)"
  shows "length (waiters Q i) < NR_TASKS" "- int NR_TASKS < sem_value (semaphores s i)"
proof -
  have r: "reps (links s) Q" and ty: "typed Q" using assms(1) by (simp_all add: sched_inv_def)
  have q: "Q (SemBlocked i) \<noteq> None" and l: "int (length (waiters Q i)) = max 0 (- sem_value (semaphores s i))"
    using assms(2-4) by (simp_all add: sem_inv_def)
  have d: "distinct (waiters Q i)"
    using dl.rep_distinct [OF r sem_queue [OF ty q]] by (simp add: distinct_map)
  have "set (waiters Q i) \<subseteq> {..<NR_TASKS} - {idle_task s}"
  proof
    fix t assume "t \<in> set (waiters Q i)"
    then have "t \<in> set (tasks_on Q Blocked)" using assms(2) on_sem_iff [OF ty q] by (auto simp: sem_inv_def)
    then have "on_list Q Blocked (TList t)" using on_queue_iff [OF ty, of Blocked] by simp
    then show "t \<in> {..<NR_TASKS} - {idle_task s}" using assms(1) unfolding sched_inv_def by blast
  qed
  moreover have "idle_task s \<in> {..<NR_TASKS}" using assms(1) by (simp add: sched_inv_def)
  ultimately have "set (waiters Q i) \<subset> {..<NR_TASKS}" by blast
  then have "card (set (waiters Q i)) < card {..<NR_TASKS}" by (rule psubset_card_mono [OF finite_lessThan])
  then have "card (set (waiters Q i)) < NR_TASKS" by simp
  then show "length (waiters Q i) < NR_TASKS" using distinct_card [OF d] by simp
  then show "- int NR_TASKS < sem_value (semaphores s i)" using l by linarith
qed

section \<open>semWait\<close>

text \<open>A semaphore the caller can use: \<open>i\<close> is its slot in the table.\<close>

definition usable :: "kstate \<Rightarrow> int \<Rightarrow> nat \<Rightarrow> bool" where
  "usable s semid i \<longleftrightarrow> 100000 \<le> semid \<and> sem_find semid s = Some i \<and> \<not> sem_free (semaphores s i)"

lemma usable_slot: "usable s semid i \<Longrightarrow> i < NUM_SEMS"
  by (auto simp: usable_def sem_find_def dest: find_from_unit_Some)

lemma usable_cong:
  "(\<And>j. sem_id (semaphores s' j) = sem_id (semaphores s j)) \<Longrightarrow> (\<And>j. sem_free (semaphores s' j) = sem_free (semaphores s j)) \<Longrightarrow>
     usable s' k i \<longleftrightarrow> usable s k i"
  by (simp add: usable_def sem_find_def)

lemma sem_inv_upd:
  assumes "sem_inv s Q" "semaphores s' = semaphores (upd_sem i f s)"
    and "\<And>a. a \<noteq> SemBlocked i \<Longrightarrow> a \<notin> sched_queues \<Longrightarrow> Q' a = Q a"
    and "\<not> sem_free (f (semaphores s i)) \<Longrightarrow> i < NUM_SEMS \<Longrightarrow>
       Q' (SemBlocked i) \<noteq> None \<and> int (length (waiters Q' i)) = max 0 (- sem_value (f (semaphores s i))) \<and>
       sem_value (f (semaphores s i)) < 2 ^ 31"
    and "\<And>j t. on_list Q' (SemBlocked j) (TSemList t) \<Longrightarrow> t \<in> set (tasks_on Q' Blocked)"
    and "sem_free (f (semaphores s i)) \<Longrightarrow> i < NUM_SEMS \<Longrightarrow> waiters Q' i = []"
  shows "sem_inv s' Q'"
proof -
  have o: "Q' (SemBlocked j) = Q (SemBlocked j)" "waiters Q' j = waiters Q j" if "j \<noteq> i" for j
    using assms(3) [of "SemBlocked j"] that by (simp_all add: waiters_def tasks_on_def)
  have "Q' (SemBlocked j) \<noteq> None \<and> int (length (waiters Q' j)) = max 0 (- sem_value (semaphores s' j)) \<and>
      sem_value (semaphores s' j) < 2 ^ 31"
    if "j < NUM_SEMS" "\<not> sem_free (semaphores s' j)" for j
    using that assms(1,2,4) o [of j] by (cases "j = i") (auto simp: sem_inv_def)
  moreover have "waiters Q' j = []" if "j < NUM_SEMS" "sem_free (semaphores s' j)" for j
    using that assms(1,2,6) o [of j] by (cases "j = i") (auto simp: sem_inv_def)
  ultimately show ?thesis using assms(5) unfolding sem_inv_def by blast
qed

lemma sys_semWait_spec:
  assumes inv: "sched_inv s Q" and cpu: "cpu_inv s Q" and sem: "sem_inv s Q" and ni: "cur s \<noteq> idle_task s"
    and u: "usable s semid i"
  shows "if sem_value (semaphores s i) > 0
    then \<exists>s'. sys_semWait semid s = Some (Ret (creatorPID (semaphores s i)), s') \<and>
      s' = upd_sem i (\<lambda>sm. sm\<lparr>sem_value := sem_value sm - 1\<rparr>) s \<and> sched_inv s' Q \<and> cpu_inv s' Q \<and> sem_inv s' Q
    else \<exists>s' Q'. sys_semWait semid s = Some (Switched, s') \<and> sched_inv s' Q' \<and> cpu_inv s' Q' \<and> sem_inv s' Q' \<and>
      (cur s', tasks_on Q' Readyqueue) = rr_next (idle_task s) False (cur s, tasks_on Q Readyqueue) \<and>
      tasks_on Q' Blocked = tasks_on Q Blocked @ [cur s] \<and> waiters Q' i = waiters Q i @ [cur s] \<and>
      k_ctx (task s' (cur s)) = KSemWait i \<and> idle_task s' = idle_task s \<and>
      semaphores s' = (semaphores s)(i := (semaphores s i)\<lparr>sem_value := sem_value (semaphores s i) - 1\<rparr>) \<and>
      (\<forall>a. a \<notin> {Readyqueue, Blocked, SemBlocked i} \<longrightarrow> Q' a = Q a) \<and>
      sched_frame (upd_sem i (\<lambda>sm. sm\<lparr>sem_value := sem_value sm - 1\<rparr>) s) s' \<and>
      (\<forall>t. t \<noteq> cur s \<longrightarrow> k_ctx (task s' t) = k_ctx (task s t))"
proof -
  have r: "reps (links s) Q" and ty: "typed Q" using inv by (simp_all add: sched_inv_def)
  let ?v = "sem_value (semaphores s i)" and ?f = "\<lambda>sm. sm\<lparr>sem_value := sem_value sm - 1\<rparr>"
  have i: "i < NUM_SEMS" and uf: "100000 \<le> semid" "sem_find semid s = Some i" "\<not> sem_free (semaphores s i)"
    using u usable_slot by (auto simp: usable_def)
  have q: "Q (SemBlocked i) \<noteq> None" and len: "int (length (waiters Q i)) = max 0 (- ?v)" and max: "?v < 2 ^ 31"
    using sem i uf(3) by (simp_all add: sem_inv_def)
  have lo: "- int NR_TASKS < ?v" using waiters_bound(2) [OF inv sem i uf(3)] .
  then have w: "wrap32 (?v - 1) = ?v - 1" using max by (intro wrap32_id) simp_all
  let ?s1 = "upd_sem i (\<lambda>sm. sm\<lparr>sem_value := ?v - 1\<rparr>) s"
  have s1: "?s1 = upd_sem i ?f s" by (simp add: upd_sem_def)
  have i1: "sched_inv ?s1 Q" "cpu_inv ?s1 Q" using upd_sem_inv inv cpu by blast+
  show ?thesis
  proof (cases "?v > 0")
    case True
    have "sys_semWait semid s = Some (Ret (creatorPID (semaphores s i)), ?s1)"
      using True uf w by (simp add: sys_semWait_def sys_semWait_extended_def sem_wait_end_def Let_def)
    moreover have "sem_inv ?s1 Q"
      by (rule sem_inv_upd [OF sem, of _ i ?f]) (use True len max sem q uf(3) in \<open>auto simp: s1 sem_inv_def\<close>)
    ultimately show ?thesis using True i1 inv cpu s1 by auto
  next
    case False
    let ?n = "TSemList (cur s)" and ?Q1 = "enqueue (TSemList (cur s)) (SemBlocked i) Q"
    have nb: "cur s \<notin> set (tasks_on Q Blocked)"
    proof
      assume "cur s \<in> set (tasks_on Q Blocked)"
      then have l: "on_list Q Blocked (TList (cur s))" using on_queue_iff [OF ty, of Blocked] by simp
      have "cur s < NR_TASKS" "live Q (cur s)" using cpu by (simp_all add: cpu_inv_def)
      then show False using live_linked [OF inv _ ni] l cpu_running [OF cpu] by blast
    qed
    have "\<not> on_list Q a ?n" for a
    proof
      assume l: "on_list Q a ?n"
      then have "fits a ?n" using ty unfolding typed_def by blast
      then obtain j where "a = SemBlocked j" by auto
      with l nb sem show False by (auto simp: sem_inv_def)
    qed
    moreover have "Q ?n = None" using ty by (metis is_head.simps(4) typed_def)
    ultimately have "unlinked Q ?n" by (simp add: unlinked_conv)
    then obtain h where h: "list_add_tail ?n (SemBlocked i) (links s) = Some h" "reps h ?Q1"
      using dl.add_tail_enqueue [OF r q] by blast
    have ol: "on_list ?Q1 a m \<longleftrightarrow> on_list Q a m \<or> a = SemBlocked i \<and> m = ?n" for a m
      using q by (simp add: on_list_enqueue)
    have ty1: "typed ?Q1" using ty unfolding typed_def ol by (auto simp: enqueue_None)
    let ?s2 = "?s1\<lparr>links := h\<rparr>"
    have tl: "on_list ?Q1 a (TList t) \<longleftrightarrow> on_list Q a (TList t)" for a t by (simp add: ol)
    note i2 = sched_inv_relist [OF i1(1) h(2) ty1 tl] cpu_inv_relist [OF i1(2) tl, of h]
    obtain s3 s' Q' where s': "update_process_state_rr (cur ?s2) (Some Blocked) ?s2 = Some s3"
      "sched_then (KSemWait i) (sem_wait_end i) s3 = Some (Switched, s')" "sched_inv s' Q'" "cpu_inv s' Q'"
      "(cur s', tasks_on Q' Readyqueue) = rr_next (idle_task ?s2) False (cur ?s2, tasks_on ?Q1 Readyqueue)"
      "tasks_on Q' Blocked = tasks_on ?Q1 Blocked @ [cur ?s2]"
      "\<forall>a. a \<noteq> Readyqueue \<longrightarrow> a \<noteq> Blocked \<longrightarrow> Q' a = ?Q1 a" "k_ctx (task s' (cur ?s2)) = KSemWait i" "sched_frame ?s2 s'"
      "\<forall>t. t \<noteq> cur ?s2 \<longrightarrow> k_ctx (task s' t) = k_ctx (task ?s2 t)"
      using suspend [OF i2, of Blocked "KSemWait i" "sem_wait_end i"] ni by auto
    have same: "?Q1 a = Q a" if "a \<noteq> SemBlocked i" for a using that by (simp add: enqueue_def)
    have tq: "tasks_on ?Q1 Readyqueue = tasks_on Q Readyqueue" "tasks_on ?Q1 Blocked = tasks_on Q Blocked"
      by (simp_all add: tasks_on_def same)
    have wq: "waiters ?Q1 i = waiters Q i @ [cur s]"
      using q by (auto simp: waiters_def tasks_on_def enqueue_def)
    have w': "waiters Q' i = waiters Q i @ [cur s]" using s'(7) wq by (simp add: waiters_def tasks_on_def)
    have sems: "semaphores s' = semaphores ?s1" using s'(9) by (simp add: sched_frame_def)
    have "sem_inv s' Q'"
    proof (rule sem_inv_upd [OF sem, of _ i ?f])
      show "semaphores s' = semaphores (upd_sem i ?f s)" using sems s1 by simp
      show "Q' a = Q a" if "a \<noteq> SemBlocked i" "a \<notin> sched_queues" for a using that s'(7) same by auto
      show "Q' (SemBlocked i) \<noteq> None \<and> int (length (waiters Q' i)) = max 0 (- sem_value (?f (semaphores s i))) \<and>
         sem_value (?f (semaphores s i)) < 2 ^ 31"
        using w' len max False s'(7) q by (simp add: enqueue_def)
      show "t \<in> set (tasks_on Q' Blocked)" if "on_list Q' (SemBlocked j) (TSemList t)" for j t
      proof -
        have "on_list ?Q1 (SemBlocked j) (TSemList t)" using that s'(7) by (simp add: on_list_def)
        then show ?thesis using sem s'(6) tq(2) by (auto simp: ol sem_inv_def)
      qed
    qed (use uf(3) in simp)
    moreover have "sys_semWait semid s = Some (Switched, s')"
      using False uf w h(1) s'(1,2) by (simp add: sys_semWait_def sys_semWait_extended_def Let_def fault_simps)
    moreover have "semaphores s' = (semaphores s)(i := (semaphores s i)\<lparr>sem_value := ?v - 1\<rparr>)"
      using sems by (simp add: upd_sem_def)
    moreover have "sched_frame (upd_sem i ?f s) s'" using s'(9) unfolding s1 [symmetric] by (simp add: sched_frame_def)
    moreover have "\<forall>a. a \<notin> {Readyqueue, Blocked, SemBlocked i} \<longrightarrow> Q' a = Q a" using s'(7) same by simp
    moreover have "\<forall>t. t \<noteq> cur s \<longrightarrow> k_ctx (task s' t) = k_ctx (task s t)" using s'(10) by (simp add: upd_sem_def)
    ultimately show ?thesis using False s'(3-6,8) tq w' sched_frame_fields(6) [OF s'(9)]
      by (simp only: if_False) (intro exI [of _ s'] exI [of _ Q'], simp)
  qed
qed

section \<open>semSignal\<close>

lemma sem_wake_spec:
  assumes inv: "sched_inv s Q" and cpu: "cpu_inv s Q" and sem: "\<forall>j u. on_list Q (SemBlocked j) (TSemList u) \<longrightarrow> u \<in> set (tasks_on Q Blocked)"
    and q: "Q (SemBlocked i) \<noteq> None" and w: "waiters Q i = t # ts"
  shows "\<exists>s1 Q1. sem_wake i s = Some s1 \<and> sched_inv s1 Q1 \<and> cpu_inv s1 Q1 \<and> cur s1 = cur s \<and> t \<noteq> cur s \<and>
     tasks_on Q1 Readyqueue = tasks_on Q Readyqueue @ [t] \<and> tasks_on Q1 Blocked = remove1 t (tasks_on Q Blocked) \<and>
     waiters Q1 i = ts \<and> (\<forall>a. a \<noteq> SemBlocked i \<longrightarrow> a \<noteq> Readyqueue \<longrightarrow> a \<noteq> Blocked \<longrightarrow> Q1 a = Q a) \<and>
     Q1 (SemBlocked i) \<noteq> None \<and>
     (\<forall>j u. on_list Q1 (SemBlocked j) (TSemList u) \<longrightarrow> u \<in> set (tasks_on Q1 Blocked)) \<and> sched_frame s s1 \<and>
     (\<forall>u. k_ctx (task s1 u) = k_ctx (task s u))"
proof -
  have r: "reps (links s) Q" and ty: "typed Q" using inv by (simp_all add: sched_inv_def)
  let ?n = "TSemList t" and ?Q0 = "Q(SemBlocked i \<mapsto> map TSemList ts)"
  have qi: "Q (SemBlocked i) = Some (?n # map TSemList ts)" using sem_queue [OF ty q] w by simp
  obtain h where h: "list_first (SemBlocked i) (links s) = Some ?n" "list_del ?n (links s) = Some h" "reps h ?Q0"
    using dl.pop [OF r qi] by blast
  have d: "t \<notin> set ts" using dl.rep_distinct [OF r qi] by auto
  have ol: "on_list ?Q0 a m \<longleftrightarrow> on_list Q a m \<and> m \<noteq> ?n" for a m
  proof (cases "m = ?n")
    case True
    have "a = SemBlocked i" if "on_list Q a ?n" using dl.on_list_unique [OF r that, of "SemBlocked i"] qi by (simp add: on_list_def)
    then show ?thesis using True d by (auto simp: on_list_def split: if_splits)
  next
    case False
    then show ?thesis using qi by (auto simp: on_list_def)
  qed
  have ty0: "typed ?Q0" using ty q unfolding typed_def ol by auto
  have tl: "on_list ?Q0 a (TList u) \<longleftrightarrow> on_list Q a (TList u)" for a u by (simp add: ol)
  let ?s0 = "s\<lparr>links := h\<rparr>"
  note i0 = sched_inv_relist [OF inv h(3) ty0 tl] cpu_inv_relist [OF cpu tl, of h]
  have "on_list Q (SemBlocked i) ?n" using qi by (simp add: on_list_def)
  then have tb: "t \<in> set (tasks_on Q Blocked)" using sem by blast
  have same: "tasks_on ?Q0 Blocked = tasks_on Q Blocked" "tasks_on ?Q0 Readyqueue = tasks_on Q Readyqueue"
    by (simp_all add: tasks_on_def)
  obtain s1 Q1 where s1: "update_process_state_rr t (Some Readyqueue) ?s0 = Some s1" "sched_inv s1 Q1" "cpu_inv s1 Q1"
     "tasks_on Q1 Readyqueue = tasks_on Q Readyqueue @ [t]" "tasks_on Q1 Blocked = remove1 t (tasks_on Q Blocked)"
     "\<forall>a. a \<noteq> Readyqueue \<longrightarrow> a \<noteq> Blocked \<longrightarrow> Q1 a = ?Q0 a" "cur s1 = cur s" "t \<noteq> cur s" "sched_frame ?s0 s1"
     "\<forall>u. k_ctx (task s1 u) = k_ctx (task s u)"
    using wake [OF i0, of t Blocked] tb unfolding same by auto
  have "sem_wake i s = Some s1" using h(1,2) s1(1) by (simp add: sem_wake_def fault_simps)
  moreover have "waiters Q1 i = ts" "Q1 (SemBlocked i) \<noteq> None"
    using s1(6) by (simp_all add: waiters_def tasks_on_def comp_def)
  moreover have "u \<in> set (tasks_on Q1 Blocked)" if "on_list Q1 (SemBlocked j) (TSemList u)" for j u
  proof -
    have "on_list ?Q0 (SemBlocked j) (TSemList u)" using that s1(6) by (simp add: on_list_def)
    then have "u \<noteq> t" "u \<in> set (tasks_on Q Blocked)" using sem by (auto simp: ol)
    then show ?thesis using s1(5) by simp
  qed
  moreover have "sched_frame s s1" using s1(9) by (simp add: sched_frame_def)
  ultimately show ?thesis using s1 by (intro exI [of _ s1] exI [of _ Q1]) simp
qed

text \<open>Giving the CPU away from user code keeps the semaphores.\<close>

lemma yield_sem:
  assumes inv: "sched_inv s Q" and cpu: "cpu_inv s Q" and sem: "sem_inv s Q" and ni: "cur s \<noteq> idle_task s"
    and ne: "tasks_on Q Readyqueue \<noteq> []"
  shows "\<exists>s' Q'. sched_then kc rest s = Some (Switched, s') \<and> sched_inv s' Q' \<and> cpu_inv s' Q' \<and> sem_inv s' Q' \<and>
     (cur s', tasks_on Q' Readyqueue) = rr_next (idle_task s) True (cur s, tasks_on Q Readyqueue) \<and>
     (\<forall>a. a \<noteq> Readyqueue \<longrightarrow> Q' a = Q a) \<and> k_ctx (task s' (cur s)) = kc \<and> sched_frame s s' \<and>
     (\<forall>t. t \<noteq> cur s \<longrightarrow> k_ctx (task s' t) = k_ctx (task s t))"
proof -
  obtain s' Q' where s': "sched_then kc rest s = (if cur s' \<noteq> cur s then Some (Switched, s') else rest s')"
    "sched_inv s' Q'" "cpu_inv s' Q'"
    "(cur s', tasks_on Q' Readyqueue) = rr_next (idle_task s) True (cur s, tasks_on Q Readyqueue)"
    "\<forall>d. d \<noteq> Readyqueue \<longrightarrow> Q' d = Q d" "sched_frame s s'" "cur s' \<noteq> cur s \<longrightarrow> k_ctx (task s' (cur s)) = kc"
    "\<forall>t. t \<noteq> cur s \<longrightarrow> k_ctx (task s' t) = k_ctx (task s t)"
    using sched_then_spec [OF inv cpu_inv_yieldable [OF cpu], of kc rest] cpu_running [OF cpu] ni by auto
  have "cur s \<notin> set (tasks_on Q Readyqueue)" using ready_live [OF inv] cpu_running [OF cpu] by fastforce
  then have ne: "cur s' \<noteq> cur s" using s'(4) ne by (cases "tasks_on Q Readyqueue") auto
  have "semaphores s' = semaphores s" using s'(6) by (simp add: sched_frame_def)
  then have "sem_inv s' Q'" using sem s'(5) by (simp add: sem_inv_def on_list_def waiters_def tasks_on_def)
  with s' ne show ?thesis by (intro exI [of _ s'] exI [of _ Q']) simp
qed

lemma sys_semSignal_spec:
  assumes inv: "sched_inv s Q" and cpu: "cpu_inv s Q" and sem: "sem_inv s Q" and ni: "cur s \<noteq> idle_task s"
    and u: "usable s semid i" and max: "sem_value (semaphores s i) < 2 ^ 31 - 1"
  shows "case waiters Q i of
      [] \<Rightarrow> \<exists>s'. sys_semSignal semid s = Some (Ret (sem_value (semaphores s i) + 1), s') \<and>
        s' = upd_sem i (\<lambda>sm. sm\<lparr>sem_value := sem_value sm + 1\<rparr>) s \<and> sched_inv s' Q \<and> cpu_inv s' Q \<and> sem_inv s' Q
    | t # ts \<Rightarrow> \<exists>s' Q'. sys_semSignal semid s = Some (Switched, s') \<and> sched_inv s' Q' \<and> cpu_inv s' Q' \<and> sem_inv s' Q' \<and>
        (cur s', tasks_on Q' Readyqueue) = rr_next (idle_task s) True (cur s, tasks_on Q Readyqueue @ [t]) \<and>
        tasks_on Q' Blocked = remove1 t (tasks_on Q Blocked) \<and> waiters Q' i = ts \<and>
        k_ctx (task s' (cur s)) = KSemSignal i \<and>
        semaphores s' = (semaphores s)(i := (semaphores s i)\<lparr>sem_value := sem_value (semaphores s i) + 1\<rparr>) \<and>
        (\<forall>a. a \<notin> {Readyqueue, Blocked, SemBlocked i} \<longrightarrow> Q' a = Q a) \<and>
        sched_frame (upd_sem i (\<lambda>sm. sm\<lparr>sem_value := sem_value sm + 1\<rparr>) s) s' \<and>
        (\<forall>t. t \<noteq> cur s \<longrightarrow> k_ctx (task s' t) = k_ctx (task s t))"
proof -
  let ?v = "sem_value (semaphores s i)" and ?f = "\<lambda>sm. sm\<lparr>sem_value := sem_value sm + 1\<rparr>"
  have i: "i < NUM_SEMS" and uf: "100000 \<le> semid" "sem_find semid s = Some i" "\<not> sem_free (semaphores s i)"
    using u usable_slot by (auto simp: usable_def)
  have q: "Q (SemBlocked i) \<noteq> None" and len: "int (length (waiters Q i)) = max 0 (- ?v)"
    using sem i uf(3) by (simp_all add: sem_inv_def)
  have lo: "- int NR_TASKS < ?v" using waiters_bound(2) [OF inv sem i uf(3)] .
  then have w: "wrap32 (?v + 1) = ?v + 1" using max by (intro wrap32_id) simp_all
  let ?s1 = "upd_sem i (\<lambda>sm. sm\<lparr>sem_value := ?v + 1\<rparr>) s"
  have s1: "?s1 = upd_sem i ?f s" by (simp add: upd_sem_def)
  have i1: "sched_inv ?s1 Q" "cpu_inv ?s1 Q" using upd_sem_inv inv cpu by blast+
  show ?thesis
  proof (cases "waiters Q i")
    case Nil
    then have v: "?v \<ge> 0" using len by simp
    have "sys_semSignal semid s = Some (Ret (?v + 1), ?s1)"
      using v uf w by (simp add: sys_semSignal_def sys_semSignal_extended_def sem_signal_end_def Let_def)
    moreover have "sem_inv ?s1 Q"
      by (rule sem_inv_upd [OF sem, of _ i ?f]) (use v len max sem q uf(3) in \<open>auto simp: s1 sem_inv_def\<close>)
    ultimately show ?thesis using Nil i1 s1 by auto
  next
    case (Cons t ts)
    then have v: "?v = - int (Suc (length ts))" using len by (simp add: max_def split: if_splits)
    have sem0: "\<forall>j u. on_list Q (SemBlocked j) (TSemList u) \<longrightarrow> u \<in> set (tasks_on Q Blocked)"
      using sem by (simp add: sem_inv_def)
    obtain s2 Q2 where s2: "sem_wake i ?s1 = Some s2" "sched_inv s2 Q2" "cpu_inv s2 Q2" "cur s2 = cur s"
      "tasks_on Q2 Readyqueue = tasks_on Q Readyqueue @ [t]" "tasks_on Q2 Blocked = remove1 t (tasks_on Q Blocked)"
      "waiters Q2 i = ts" "\<forall>a. a \<noteq> SemBlocked i \<longrightarrow> a \<noteq> Readyqueue \<longrightarrow> a \<noteq> Blocked \<longrightarrow> Q2 a = Q a"
      "Q2 (SemBlocked i) \<noteq> None"
      "\<forall>j u. on_list Q2 (SemBlocked j) (TSemList u) \<longrightarrow> u \<in> set (tasks_on Q2 Blocked)" "sched_frame ?s1 s2"
      "\<forall>u. k_ctx (task s2 u) = k_ctx (task s u)"
      using sem_wake_spec [OF i1 sem0 q Cons] by auto
    have sems: "semaphores s2 = semaphores ?s1" using s2(11) by (simp add: sched_frame_def)
    have "sem_inv s2 Q2"
    proof (rule sem_inv_upd [OF sem, of _ i ?f])
      show "semaphores s2 = semaphores (upd_sem i ?f s)" using sems s1 by simp
      show "Q2 a = Q a" if "a \<noteq> SemBlocked i" "a \<notin> sched_queues" for a using that s2(8) by auto
      show "Q2 (SemBlocked i) \<noteq> None \<and> int (length (waiters Q2 i)) = max 0 (- sem_value (?f (semaphores s i))) \<and>
         sem_value (?f (semaphores s i)) < 2 ^ 31"
        using s2(7,9) v by simp
    qed (use s2(10) uf(3) in auto)
    moreover have "tasks_on Q2 Readyqueue \<noteq> []" "cur s2 \<noteq> idle_task s2"
      using s2(4,5) ni sched_frame_fields(6) [OF s2(11)] by simp_all
    ultimately obtain s' Q' where s': "sched_then (KSemSignal i) (sem_signal_end i) s2 = Some (Switched, s')"
      "sched_inv s' Q'" "cpu_inv s' Q'" "sem_inv s' Q'"
      "(cur s', tasks_on Q' Readyqueue) = rr_next (idle_task s2) True (cur s2, tasks_on Q2 Readyqueue)"
      "\<forall>a. a \<noteq> Readyqueue \<longrightarrow> Q' a = Q2 a" "k_ctx (task s' (cur s2)) = KSemSignal i" "sched_frame s2 s'"
      "\<forall>t. t \<noteq> cur s2 \<longrightarrow> k_ctx (task s' t) = k_ctx (task s2 t)"
      using yield_sem [OF s2(2,3), of "KSemSignal i" "sem_signal_end i"] by blast
    have "sys_semSignal semid s = Some (Switched, s')"
      using v uf w s2(1) s'(1) by (simp add: sys_semSignal_def sys_semSignal_extended_def Let_def)
    moreover have "waiters Q' i = ts" "tasks_on Q' Blocked = remove1 t (tasks_on Q Blocked)"
      using s'(6) s2(6,7) by (simp_all add: waiters_def tasks_on_def)
    moreover have "semaphores s' = (semaphores s)(i := (semaphores s i)\<lparr>sem_value := ?v + 1\<rparr>)"
      using sems s'(8) by (simp add: sched_frame_def upd_sem_def)
    moreover have "sched_frame (upd_sem i ?f s) s'" using sched_frame_trans [OF s2(11) s'(8)] unfolding s1 .
    moreover have "\<forall>a. a \<notin> {Readyqueue, Blocked, SemBlocked i} \<longrightarrow> Q' a = Q a" using s'(6) s2(8) by simp
    moreover have "\<forall>t. t \<noteq> cur s \<longrightarrow> k_ctx (task s' t) = k_ctx (task s t)" using s'(9) s2(4,12) by simp
    ultimately show ?thesis using Cons s'(2-5,7) s2(4,5) sched_frame_fields(6) [OF s2(11)]
      by (simp only: list.case) (intro exI [of _ s'] exI [of _ Q'], simp)
  qed
qed

section \<open>semCreate\<close>

definition sem_ids :: "kstate \<Rightarrow> bool" where
  "sem_ids s \<longleftrightarrow> 100000 \<le> semIDglobal s \<and> (\<forall>j < NUM_SEMS. sem_id (semaphores s j) < semIDglobal s)"

lemma sys_semCreate_spec:
  assumes inv: "sched_inv s Q" and cpu: "cpu_inv s Q" and sem: "sem_inv s Q" and ids: "sem_ids s"
    and v: "0 \<le> v" "v < 2 ^ 31" and free: "\<exists>j < NUM_SEMS. sem_free (semaphores s j)"
  shows "\<exists>i s' Q' h'. s' = (upd_sem i (\<lambda>sm. sm\<lparr>sem_free := False, sem_value := v, creatorPID := sys_getpid s,
       sem_id := semIDglobal s\<rparr>) s)\<lparr>links := h', semIDglobal := semIDglobal s + 1\<rparr> \<and>
     Q' = Q(SemBlocked i \<mapsto> []) \<and> (\<forall>a m. on_list Q' a m \<longleftrightarrow> on_list Q a m) \<and> i < NUM_SEMS \<and> sys_semCreate v s = Some (Ret (semIDglobal s), s') \<and> sem_free (semaphores s i) \<and>
     usable s' (semIDglobal s) i \<and> sem_value (semaphores s' i) = v \<and> creatorPID (semaphores s' i) = PID (task s (cur s)) \<and>
     waiters Q' i = [] \<and> sched_inv s' Q' \<and> cpu_inv s' Q' \<and> sem_inv s' Q' \<and> sem_ids s' \<and>
     cur s' = cur s \<and> idle_task s' = idle_task s \<and> tasks_on Q' Readyqueue = tasks_on Q Readyqueue \<and>
     tasks_on Q' Blocked = tasks_on Q Blocked \<and>
     (\<forall>k j. usable s k j \<longrightarrow> usable s' k j \<and> semaphores s' j = semaphores s j \<and> waiters Q' j = waiters Q j)"
proof -
  have r: "reps (links s) Q" and ty: "typed Q" using inv by (simp_all add: sched_inv_def)
  obtain i where f: "find_from 0 (\<lambda>i. sem_free (semaphores s i)) 0 NUM_SEMS = Some i"
    using free find_from_exists [of "\<lambda>i. sem_free (semaphores s i)" _ 0 NUM_SEMS] by blast
  then have i: "i < NUM_SEMS" "sem_free (semaphores s i)" using find_from_unit_Some by blast+
  let ?a = "SemBlocked i" and ?Q' = "Q(SemBlocked i \<mapsto> [])" and ?h = "INIT_LIST_HEAD (SemBlocked i) (links s)"
  have w: "waiters Q i = []" using sem i by (simp add: sem_inv_def)
  have ql: "Q ?a = None \<or> Q ?a = Some []" using sem_queue [OF ty, of i] w by (cases "Q ?a") auto
  have na: "\<not> on_list Q b ?a" for b
  proof
    assume "on_list Q b ?a"
    then have "fits b ?a" using ty unfolding typed_def by blast
    then show False by simp
  qed
  have r0: "reps (links s) (Q(?a := None))" using r by (rule dl.rep_drop)
  have "unlinked (Q(?a := None)) ?a" using na ql by (auto simp: unlinked_conv on_list_def split: if_splits)
  then have rep: "reps ?h ?Q'" using dl.rep_init [OF r] by simp
  have ol: "on_list ?Q' a m \<longleftrightarrow> on_list Q a m" for a m using ql by (auto simp: on_list_def)
  have ty': "typed ?Q'" using ty unfolding typed_def ol by simp
  let ?s0 = "upd_sem i (\<lambda>sm. sm\<lparr>sem_free := False, sem_value := v, creatorPID := sys_getpid s, sem_id := semIDglobal s\<rparr>) s"
  let ?s' = "(?s0\<lparr>links := ?h\<rparr>)\<lparr>semIDglobal := semIDglobal s + 1\<rparr>"
  have eq: "sys_semCreate v s = Some (Ret (semIDglobal s), ?s')"
    using f by (simp add: sys_semCreate_def sys_semCreate_extended_def Let_def init_head_def upd_sem_def)
  have s0: "sched_inv (?s0\<lparr>links := ?h\<rparr>) ?Q'"
    by (rule sched_inv_relist [OF upd_sem_inv(1) [OF inv] rep ty' ol])
  have c0: "cpu_inv (?s0\<lparr>links := ?h\<rparr>) ?Q'"
    by (rule cpu_inv_relist [OF upd_sem_inv(2) [OF cpu] ol])
  have i1: "sched_inv ?s' ?Q'" by (rule sched_inv_cong [OF s0]) simp_all
  have i2: "cpu_inv ?s' ?Q'" by (rule cpu_inv_cong [OF c0]) simp_all
  have tq: "tasks_on ?Q' Readyqueue = tasks_on Q Readyqueue" "tasks_on ?Q' Blocked = tasks_on Q Blocked"
    by (simp_all add: tasks_on_def)
  have w': "waiters ?Q' i = []" by (simp add: waiters_def tasks_on_def)
  have "sem_inv ?s' ?Q'"
    by (rule sem_inv_upd [OF sem, of _ i "\<lambda>sm. sm\<lparr>sem_free := False, sem_value := v, creatorPID := sys_getpid s, sem_id := semIDglobal s\<rparr>"])
      (use v w' tq(2) sem in \<open>auto simp: ol sem_inv_def upd_sem_def\<close>)
  moreover have "sem_ids ?s'" using ids by (auto simp: sem_ids_def upd_sem_def less_Suc_eq zless_add1_eq)
  moreover have "sem_find (semIDglobal s) ?s' = Some i"
  proof -
    let ?p = "\<lambda>j. sem_id (semaphores ?s' j) = semIDglobal s"
    have p: "?p j \<longleftrightarrow> j = i" if "j < NUM_SEMS" for j using ids that by (auto simp: sem_ids_def upd_sem_def)
    then obtain j where "find_from 0 ?p 0 NUM_SEMS = Some j" using find_from_exists [of ?p i 0 NUM_SEMS] i(1) by blast
    moreover from this have "j = i" using find_from_unit_Some p by blast
    ultimately show ?thesis by (simp add: sem_find_def)
  qed
  then have "usable ?s' (semIDglobal s) i" using ids by (simp add: usable_def sem_ids_def upd_sem_def)
  moreover have "usable ?s' k j \<and> semaphores ?s' j = semaphores s j \<and> waiters ?Q' j = waiters Q j" if u: "usable s k j" for k j
  proof -
    have j: "j < NUM_SEMS" "j \<noteq> i" "sem_id (semaphores s j) = k"
      "find_from 0 (\<lambda>i. sem_id (semaphores s i) = k) 0 NUM_SEMS = Some j"
      using u i(2) by (auto simp: usable_def sem_find_def dest: find_from_unit_Some)
    have k: "k < semIDglobal s" using ids j by (auto simp: sem_ids_def)
    let ?p = "\<lambda>j. sem_id (semaphores ?s' j) = k"
    obtain l where l: "find_from 0 ?p 0 NUM_SEMS = Some l"
      using find_from_exists [of ?p j 0 NUM_SEMS] j by (auto simp: upd_sem_def)
    have pl: "?p l" "\<forall>m<l. \<not> ?p m" using find_from_unit_Some [OF l] by auto
    have "l \<noteq> i" using pl(1) k by (auto simp: upd_sem_def)
    then have "sem_id (semaphores s l) = k" using pl(1) by (simp add: upd_sem_def)
    then have "\<not> l < j" using find_from_unit_Some [OF j(4)] by blast
    moreover have "?p j" using j(2,3) by (simp add: upd_sem_def)
    then have "\<not> j < l" using pl(2) by blast
    ultimately have "l = j" by simp
    then show ?thesis using l u j(2) by (auto simp: usable_def sem_find_def upd_sem_def waiters_def tasks_on_def)
  qed
  moreover have "\<forall>a m. on_list ?Q' a m \<longleftrightarrow> on_list Q a m" using ol by blast
  ultimately show ?thesis using eq i i1 i2 w' tq
    by (intro exI [of _ i] exI [of _ ?s'] exI [of _ ?Q'] exI [of _ ?h]) (simp add: upd_sem_def sys_getpid_def)
qed

section \<open>What the calls do\<close>

text \<open>C15. \<open>semCreate\<close> with a non-negative value, when a slot is free, returns a fresh identifier of a
  semaphore with this value and no waiting thread, owned by the caller; the other semaphores
  in use keep their identifiers, values and queues.\<close>
theorem sys_semCreate_ok:
  assumes "sched_inv s Q" and "cpu_inv s Q" and "sem_inv s Q" and "sem_ids s"
    and "0 \<le> v" and "v < 2 ^ 31" and "\<exists>j < NUM_SEMS. sem_free (semaphores s j)"
  shows "\<exists>i s' Q'. sys_semCreate v s = Some (Ret (semIDglobal s), s') \<and> sem_free (semaphores s i) \<and>
     usable s' (semIDglobal s) i \<and> sem_value (semaphores s' i) = v \<and> creatorPID (semaphores s' i) = PID (task s (cur s)) \<and>
     waiters Q' i = [] \<and> sched_inv s' Q' \<and> cpu_inv s' Q' \<and> sem_inv s' Q' \<and> sem_ids s' \<and>
     cur s' = cur s \<and> idle_task s' = idle_task s \<and> tasks_on Q' Readyqueue = tasks_on Q Readyqueue \<and>
     tasks_on Q' Blocked = tasks_on Q Blocked \<and>
     (\<forall>k j. usable s k j \<longrightarrow> usable s' k j \<and> semaphores s' j = semaphores s j \<and> waiters Q' j = waiters Q j)"
  using sys_semCreate_spec [OF assms] by blast

text \<open>C14. \<open>semWait\<close> on a semaphore with a positive value takes one and returns; otherwise the caller
  becomes the last thread of the queue of the semaphore, blocked inside \<open>semWait\<close>, and the
  next ready thread, or the idle task, runs.\<close>
theorem sys_semWait_ok:
  assumes "sched_inv s Q" and "cpu_inv s Q" and "sem_inv s Q" and "cur s \<noteq> idle_task s" and "usable s semid i"
  shows "if sem_value (semaphores s i) > 0
    then \<exists>s'. sys_semWait semid s = Some (Ret (creatorPID (semaphores s i)), s') \<and>
      s' = upd_sem i (\<lambda>sm. sm\<lparr>sem_value := sem_value sm - 1\<rparr>) s \<and> sched_inv s' Q \<and> cpu_inv s' Q \<and> sem_inv s' Q
    else \<exists>s' Q'. sys_semWait semid s = Some (Switched, s') \<and> sched_inv s' Q' \<and> cpu_inv s' Q' \<and> sem_inv s' Q' \<and>
      (cur s', tasks_on Q' Readyqueue) = rr_next (idle_task s) False (cur s, tasks_on Q Readyqueue) \<and>
      tasks_on Q' Blocked = tasks_on Q Blocked @ [cur s] \<and> waiters Q' i = waiters Q i @ [cur s] \<and>
      k_ctx (task s' (cur s)) = KSemWait i \<and> idle_task s' = idle_task s \<and>
      semaphores s' = (semaphores s)(i := (semaphores s i)\<lparr>sem_value := sem_value (semaphores s i) - 1\<rparr>)"
  using sys_semWait_spec [OF assms]
  by (cases "sem_value (semaphores s i) > 0") (simp only: if_True, simp only: if_False, blast)

text \<open>C13. \<open>semSignal\<close> on a semaphore nobody waits for adds one to its value and returns it; otherwise
  the thread that has waited longest leaves the queue and is made ready, before the caller,
  which goes to the end of the ready queue.\<close>
theorem sys_semSignal_ok:
  assumes "sched_inv s Q" and "cpu_inv s Q" and "sem_inv s Q" and "cur s \<noteq> idle_task s" and "usable s semid i"
    and "sem_value (semaphores s i) < 2 ^ 31 - 1"
  shows "case waiters Q i of
      [] \<Rightarrow> \<exists>s'. sys_semSignal semid s = Some (Ret (sem_value (semaphores s i) + 1), s') \<and>
        s' = upd_sem i (\<lambda>sm. sm\<lparr>sem_value := sem_value sm + 1\<rparr>) s \<and> sched_inv s' Q \<and> cpu_inv s' Q \<and> sem_inv s' Q
    | t # ts \<Rightarrow> \<exists>s' Q'. sys_semSignal semid s = Some (Switched, s') \<and> sched_inv s' Q' \<and> cpu_inv s' Q' \<and> sem_inv s' Q' \<and>
        (cur s', tasks_on Q' Readyqueue) = rr_next (idle_task s) True (cur s, tasks_on Q Readyqueue @ [t]) \<and>
        tasks_on Q' Blocked = remove1 t (tasks_on Q Blocked) \<and> waiters Q' i = ts \<and>
        k_ctx (task s' (cur s)) = KSemSignal i \<and>
        semaphores s' = (semaphores s)(i := (semaphores s i)\<lparr>sem_value := sem_value (semaphores s i) + 1\<rparr>)"
  using sys_semSignal_spec [OF assms]
  by (cases "waiters Q i") (simp only: list.case, simp only: list.case, blast)

text \<open>A sample: a parent and its child; the parent creates a semaphore and waits on it.\<close>

definition unsignalled :: kstate where
  "unsignalled = family\<lparr>semaphores := (\<lambda>_. \<lparr>sem_id = 0, sem_value = 0, sem_free = True, creatorPID = 0\<rparr>),
     semIDglobal := 100000\<rparr>"

definition created :: kstate where
  "created = snd (the (sys_semCreate 0 unsignalled))"

lemma unsignalled_inv:
  "\<exists>Q. sched_inv unsignalled Q \<and> cpu_inv unsignalled Q \<and> sem_inv unsignalled Q \<and> sem_ids unsignalled \<and>
     cur unsignalled = 1 \<and> idle_task unsignalled = 0 \<and> tasks_on Q Readyqueue = [2] \<and> semIDglobal unsignalled = 100000 \<and>
     (\<exists>j < NUM_SEMS. sem_free (semaphores unsignalled j))"
proof -
  obtain Q where f: "sched_inv family Q" "cpu_inv family Q"
    "cur family = 1" "idle_task family = 0" "tasks_on Q Readyqueue = [2]" and n: "\<forall>i. Q (SemBlocked i) = None"
    using family_inv by blast
  have "sched_inv unsignalled Q" by (rule sched_inv_cong [OF f(1)]) (simp_all add: unsignalled_def)
  moreover have "cpu_inv unsignalled Q" by (rule cpu_inv_cong [OF f(2)]) (simp_all add: unsignalled_def)
  moreover have "sem_inv unsignalled Q"
    using n by (simp add: sem_inv_def unsignalled_def on_list_def waiters_def tasks_on_def)
  moreover have "\<exists>j < NUM_SEMS. sem_free (semaphores unsignalled j)"
    by (rule exI [of _ 0]) (simp add: unsignalled_def)
  ultimately show ?thesis using f by (intro exI [of _ Q]) (simp add: unsignalled_def sem_ids_def)
qed

lemma created_inv:
  "\<exists>Q i. sched_inv created Q \<and> cpu_inv created Q \<and> sem_inv created Q \<and> usable created 100000 i \<and>
     sem_value (semaphores created i) = 0 \<and> waiters Q i = [] \<and> cur created = 1 \<and> idle_task created = 0 \<and>
     tasks_on Q Readyqueue = [2]"
proof -
  obtain Q where Q: "sched_inv unsignalled Q" "cpu_inv unsignalled Q" "sem_inv unsignalled Q" "sem_ids unsignalled"
    "cur unsignalled = 1" "idle_task unsignalled = 0" "tasks_on Q Readyqueue = [2]" "semIDglobal unsignalled = 100000"
    "\<exists>j < NUM_SEMS. sem_free (semaphores unsignalled j)"
    using unsignalled_inv by blast
  obtain i s' Q' where "sys_semCreate 0 unsignalled = Some (Ret 100000, s')" "usable s' 100000 i"
    "sem_value (semaphores s' i) = 0" "waiters Q' i = []" "sched_inv s' Q'" "cpu_inv s' Q'" "sem_inv s' Q'"
    "cur s' = 1" "idle_task s' = 0" "tasks_on Q' Readyqueue = [2]"
    using sys_semCreate_spec [OF Q(1-4), of 0] Q(5-9) by auto
  then show ?thesis by (intro exI [of _ Q'] exI [of _ i]) (simp add: created_def)
qed

lemma sys_semCreate_ok_witness:
  "\<exists>s' i. sys_semCreate 5 unsignalled = Some (Ret 100000, s') \<and> usable s' 100000 i \<and> sem_value (semaphores s' i) = 5"
proof -
  obtain Q where Q: "sched_inv unsignalled Q" "cpu_inv unsignalled Q" "sem_inv unsignalled Q" "sem_ids unsignalled"
    "semIDglobal unsignalled = 100000" "\<exists>j < NUM_SEMS. sem_free (semaphores unsignalled j)"
    using unsignalled_inv by blast
  show ?thesis using sys_semCreate_ok [OF Q(1-4), of 5] Q(5,6) by auto
qed

lemma sys_semWait_ok_witness:
  "\<exists>s'. sys_semWait 100000 created = Some (Switched, s') \<and> cur s' = 2"
proof -
  obtain Q i where Q: "sched_inv created Q" "cpu_inv created Q" "sem_inv created Q" "usable created 100000 i"
    "sem_value (semaphores created i) = 0" "cur created = 1" "idle_task created = 0" "tasks_on Q Readyqueue = [2]"
    using created_inv by blast
  show ?thesis using sys_semWait_ok [OF Q(1-3) _ Q(4)] Q(5-8) by auto
qed

lemma sys_semSignal_ok_witness:
  "\<exists>s1 s2. sys_semWait 100000 created = Some (Switched, s1) \<and> sys_semSignal 100000 s1 = Some (Switched, s2) \<and> cur s2 = 1"
proof -
  obtain Q i where Q: "sched_inv created Q" "cpu_inv created Q" "sem_inv created Q" "usable created 100000 i"
    "sem_value (semaphores created i) = 0" "waiters Q i = []" "cur created = 1" "idle_task created = 0"
    "tasks_on Q Readyqueue = [2]"
    using created_inv by blast
  obtain s1 Q1 where s1: "sys_semWait 100000 created = Some (Switched, s1)" "sched_inv s1 Q1" "cpu_inv s1 Q1" "sem_inv s1 Q1"
    "cur s1 = 2" "tasks_on Q1 Readyqueue = []" "waiters Q1 i = [1]"
    "semaphores s1 = (semaphores created)(i := (semaphores created i)\<lparr>sem_value := -1\<rparr>)" "idle_task s1 = 0"
    using sys_semWait_spec [OF Q(1-3) _ Q(4)] Q(5-9) by auto
  have "usable s1 100000 i" using Q(4) usable_cong [of s1 created] by (simp add: s1(8))
  then show ?thesis using sys_semSignal_ok [OF s1(2-4), of 100000 i] s1 by auto
qed

section \<open>semDestroy\<close>

lemma sem_destroy_skip:
  assumes "k \<le> i" "i \<le> NUM_SEMS" "\<forall>j. k \<le> j \<and> j < i \<longrightarrow> sem_id (semaphores s j) \<noteq> semid"
  shows "sem_destroy_from k semid ex s = sem_destroy_from i semid ex s"
  using assms
proof (induction "i - k" arbitrary: k)
  case (Suc n)
  then have k: "k < NUM_SEMS" "sem_id (semaphores s k) \<noteq> semid" by auto
  have "sem_destroy_from (Suc k) semid ex s = sem_destroy_from i semid ex s"
    by (rule Suc.hyps(1)) (use Suc.hyps(2) Suc.prems in auto)
  with k show ?case by (simp add: sem_destroy_from.simps [of k])
qed simp

lemma sem_destroy_end: "sem_destroy_from NUM_SEMS semid ex s = Some (Ret (-1), s)"
  by (simp add: sem_destroy_from.simps)

text \<open>C16. When its creator destroys a semaphore nobody waits for, the slot becomes free and nothing
  else changes; but the call returns -1, the value of a failure: the loop over the table has no
  other exit after the slot was found.\<close>
theorem sys_semDestroy_idle:
  assumes "sched_inv s Q" and "cpu_inv s Q" and "sem_inv s Q" and "usable s semid i" and "waiters Q i = []"
    and "creatorPID (semaphores s i) = PID (task s (cur s))"
    and "\<forall>j < NUM_SEMS. sem_id (semaphores s j) = semid \<longrightarrow> j = i"
  shows "\<exists>s'. sys_semDestroy semid s = Some (Ret (-1), s') \<and> s' = upd_sem i (\<lambda>sm. sm\<lparr>sem_free := True\<rparr>) s \<and>
     sched_inv s' Q \<and> cpu_inv s' Q \<and> sem_inv s' Q"
proof -
  have r: "reps (links s) Q" and ty: "typed Q" using assms(1) by (simp_all add: sched_inv_def)
  have u: "100000 \<le> semid" "sem_find semid s = Some i" "\<not> sem_free (semaphores s i)" "i < NUM_SEMS"
    using assms(4) usable_slot by (auto simp: usable_def)
  have id: "sem_id (semaphores s i) = semid" using u(2) find_from_unit_Some by (fastforce simp: sem_find_def)
  let ?s' = "upd_sem i (\<lambda>sm. sm\<lparr>sem_free := True\<rparr>) s"
  have "Q (SemBlocked i) \<noteq> None" using assms(3) u(3,4) by (simp add: sem_inv_def)
  from dl.rep_empty [OF r sem_queue [OF ty this]] have "list_empty (SemBlocked i) (links s)" using assms(5) by simp
  then have w: "sem_wake_all i semid None s = Some (False, s)" by (simp add: sem_wake_all.simps)
  have uniq: "sem_id (semaphores s j) \<noteq> semid" if "j < NUM_SEMS" "j \<noteq> i" for j
    using assms(7) that by blast
  have "sem_destroy_from 0 semid None s = sem_destroy_from i semid None s"
    by (rule sem_destroy_skip) (use u(4) in \<open>auto simp: uniq\<close>)
  also have "\<dots> = sem_destroy_from (Suc i) semid None ?s'"
    using u(3,4) id w assms(6) by (subst sem_destroy_from.simps) (simp add: sys_getpid_def)
  also have "\<dots> = sem_destroy_from NUM_SEMS semid None ?s'"
    by (rule sem_destroy_skip) (use u(4) in \<open>auto simp: uniq\<close>)
  finally have "sys_semDestroy semid s = Some (Ret (-1), ?s')"
    using u(1) by (simp add: sys_semDestroy_def sys_semDestroy_extended_def sem_destroy_end)
  moreover have "sem_inv ?s' Q"
    by (rule sem_inv_upd [OF assms(3), of _ i "\<lambda>sm. sm\<lparr>sem_free := True\<rparr>"]) (use assms(3,5) in \<open>auto simp: sem_inv_def\<close>)
  ultimately show ?thesis using upd_sem_inv(1) [OF assms(1)] upd_sem_inv(2) [OF assms(2)] by blast
qed

lemma sys_semDestroy_idle_witness:
  "\<exists>s'. sys_semDestroy 100000 created = Some (Ret (-1), s')"
proof -
  obtain Q where Q: "sched_inv unsignalled Q" "cpu_inv unsignalled Q" "sem_inv unsignalled Q" "sem_ids unsignalled"
    "cur unsignalled = 1" "semIDglobal unsignalled = 100000" "\<exists>j < NUM_SEMS. sem_free (semaphores unsignalled j)"
    using unsignalled_inv by blast
  have f: "find_from 0 (\<lambda>i. sem_free (semaphores unsignalled i)) 0 100 = Some 0"
    by (simp add: find_from.simps unsignalled_def)
  have sems: "semaphores created = (semaphores unsignalled)(0 := (semaphores unsignalled 0)\<lparr>sem_free := False,
      sem_value := 0, creatorPID := sys_getpid unsignalled, sem_id := 100000\<rparr>)" and c: "task created = task unsignalled" "cur created = cur unsignalled"
    using f Q(6) by (simp_all add: created_def sys_semCreate_def sys_semCreate_extended_def Let_def upd_sem_def init_head_def)
  obtain i s' Q' where s': "sys_semCreate 0 unsignalled = Some (Ret 100000, s')" "usable s' 100000 i"
    "waiters Q' i = []" "sched_inv s' Q'" "cpu_inv s' Q'" "sem_inv s' Q'"
    using sys_semCreate_spec [OF Q(1-4), of 0] Q(5-7) by auto
  have e: "s' = created" using s'(1) by (simp add: created_def)
  have i: "i = 0"
  proof -
    have "sem_id (semaphores created i) = 100000"
      using s'(2) find_from_unit_Some unfolding e by (fastforce simp: usable_def sem_find_def)
    then show ?thesis by (cases "i = 0") (simp_all add: sems, simp add: unsignalled_def)
  qed
  have "creatorPID (semaphores created i) = PID (task created (cur created))"
    by (simp add: i sems c sys_getpid_def)
  moreover have "\<forall>j < NUM_SEMS. sem_id (semaphores created j) = 100000 \<longrightarrow> j = i"
    by (simp add: i sems) (simp add: unsignalled_def)
  ultimately show ?thesis using sys_semDestroy_idle [OF s'(4,5,6,2,3)] unfolding e by blast
qed

end
