(* ===== verification/Fork.thy ===== *)
theory Fork
  imports Threads
begin

text \<open>
  \<open>sys_fork\<close> of \<^verbatim>\<open>sys.c\<close>: the address space of the child. The pages of data and heap get
  fresh frames, and the kernel copies them through temporary mappings above the heap of the
  parent; the code is shared.
\<close>

section \<open>One table, one directory\<close>

definition row_of :: "mm_state \<Rightarrow> nat \<Rightarrow> nat \<Rightarrow> bool" where
  "row_of m d p \<longleftrightarrow> present (dir_pages m d ENTRY_DIR_PAGES) \<and> dir_PT m d = p"

abbreviation frame_no :: "mm_state \<Rightarrow> nat \<Rightarrow> nat \<Rightarrow> nat" where
  "frame_no m p i \<equiv> unat (get_frame (pagusr_table m p) i)"

lemma get_frame_mask [simp]: "get_frame PT i AND mask 20 = get_frame PT i"
  by (rule bit_word_eqI) (auto simp: get_frame_def pbase_addr_def bit_get_bits bit_simps)

lemma translate_row:
  assumes "cr3 m = Some d" "row_of m d p" "i < TOTAL_PAGES" "k < PAGE_SIZE"
  shows "translate m (i * PAGE_SIZE + k) =
     (if present (pagusr_table m p i) then Some (frame_no m p i * PAGE_SIZE + k) else None)"
proof -
  have "i * PAGE_SIZE + k < PAGE_SIZE * TOTAL_PAGES" using assms(3,4) by simp
  then have a: "(i * PAGE_SIZE + k) div (PAGE_SIZE * TOTAL_PAGES) = 0" by (simp only: div_less)
  have b: "(i * PAGE_SIZE + k) div PAGE_SIZE = i" "(i * PAGE_SIZE + k) mod PAGE_SIZE = k" using assms(4) by simp_all
  show ?thesis
    using assms(1-3) unfolding translate_def row_of_def dir_PT_def a b get_frame_def
    by (simp add: Let_def)
qed

lemma upd_PT_simps [simp]:
  "cr3 (upd_PT p f m) = cr3 m" "dir_pages (upd_PT p f m) = dir_pages m" "pagusr_page (upd_PT p f m) = pagusr_page m"
  "phys_mem (upd_PT p f m) = phys_mem m" "heap_zones (upd_PT p f m) = heap_zones m"
  "dir_pages_num_references (upd_PT p f m) = dir_pages_num_references m"
  "pagusr_table (upd_PT p f m) q = (if q = p then f (pagusr_table m p) else pagusr_table m q)"
  "row_of (upd_PT p f m) d q = row_of m d q" "upd_PT p f (upd_PT p g m) = upd_PT p (\<lambda>PT. f (g PT)) m"
  by (simp_all add: upd_PT_def row_of_def dir_PT_def)

section \<open>Copying one page\<close>

lemma page_div: "k < PAGE_SIZE \<Longrightarrow> (f * PAGE_SIZE + k) div PAGE_SIZE = f"
  by simp

lemma copy_page_spec:
  assumes m: "cr3 m = Some d" "row_of m d p" and pq: "p \<noteq> q"
    and i: "i < TOTAL_PAGES" "i + off < TOTAL_PAGES" "0 < off"
    and pr: "present (pagusr_table m p i)" and ne: "frame_no m p i \<noteq> frame_no m q i"
  shows "\<exists>r'. copy_page p q off i (m, r) = Some (upd_PT p (\<lambda>PT. del_ss_pag PT (i + off)) m, r') \<and>
     (\<forall>k < PAGE_SIZE. r' (frame_no m q i * PAGE_SIZE + k) = r (frame_no m p i * PAGE_SIZE + k)) \<and>
     (\<forall>x. x div PAGE_SIZE \<noteq> frame_no m q i \<longrightarrow> r' x = r x)"
proof -
  let ?F = "get_frame (pagusr_table m q) i" and ?G = "frame_no m p i"
  let ?m1 = "upd_PT p (\<lambda>PT. set_ss_pag PT (i + off) ?F) m"
  have t: "translate ?m1 (i * PAGE_SIZE + k) = Some (?G * PAGE_SIZE + k)"
    "translate ?m1 ((i + off) * PAGE_SIZE + k) = Some (unat ?F * PAGE_SIZE + k)" if "k < PAGE_SIZE" for k
    using translate_row [of ?m1 d p, OF _ _ i(1) that] translate_row [of ?m1 d p, OF _ _ i(2) that] m pr i(3)
    by simp_all
  have "?G * PAGE_SIZE + a \<noteq> unat ?F * PAGE_SIZE + b" if "a < PAGE_SIZE" "b < PAGE_SIZE" for a b
    using page_div [OF that(1), of ?G] page_div [OF that(2), of "unat ?F"] ne by metis
  then obtain r' where r': "copy_data (translate ?m1) (i * PAGE_SIZE) ((i + off) * PAGE_SIZE) (int PAGE_SIZE) r = Some r'"
    "\<forall>k < PAGE_SIZE. r' (unat ?F * PAGE_SIZE + k) = r (?G * PAGE_SIZE + k)"
    "\<forall>x. x \<notin> (\<lambda>k. unat ?F * PAGE_SIZE + k) ` {..<PAGE_SIZE} \<longrightarrow> r' x = r x"
    using copy_data_blit [of "int PAGE_SIZE" "translate ?m1" "i * PAGE_SIZE" "\<lambda>k. ?G * PAGE_SIZE + k"
      "(i + off) * PAGE_SIZE" "\<lambda>k. unat ?F * PAGE_SIZE + k" r] t by (auto simp: inj_on_def)
  have "x \<notin> (\<lambda>k. unat ?F * PAGE_SIZE + k) ` {..<PAGE_SIZE}" if "x div PAGE_SIZE \<noteq> unat ?F" for x
    using that page_div [of _ "unat ?F"] by auto
  moreover have "copy_page p q off i (m, r) = Some (upd_PT p (\<lambda>PT. del_ss_pag PT (i + off)) m, r')"
    using r'(1) i(2) by (simp add: copy_page_def in_table_def)
  ultimately show ?thesis using r'(2,3) by blast
qed

text \<open>The loops clear the temporary mappings they make.\<close>

definition clear_pages :: "nat \<Rightarrow> nat \<Rightarrow> page_table \<Rightarrow> page_table" where
  "clear_pages lo n PT = (\<lambda>i. if lo \<le> i \<and> i < lo + n then 0 else PT i)"

lemma copy_pages_spec:
  assumes m: "cr3 m = Some d" "row_of m d p" and pq: "p \<noteq> q"
    and b: "lo + off + n \<le> TOTAL_PAGES" "n \<le> off" "0 < off"
    and pr: "\<forall>i. lo \<le> i \<and> i < lo + n \<longrightarrow> present (pagusr_table m p i)"
    and ne: "\<forall>i j. lo \<le> i \<and> i < lo + n \<and> lo \<le> j \<and> j < lo + n \<longrightarrow> frame_no m p i \<noteq> frame_no m q j"
    and inj: "inj_on (frame_no m q) {lo..<lo + n}"
  shows "\<exists>r'. foldo (copy_page p q off) [lo..<lo + n] (m, r) = Some (upd_PT p (clear_pages (lo + off) n) m, r') \<and>
     (\<forall>i k. lo \<le> i \<and> i < lo + n \<and> k < PAGE_SIZE \<longrightarrow>
        r' (frame_no m q i * PAGE_SIZE + k) = r (frame_no m p i * PAGE_SIZE + k)) \<and>
     (\<forall>x. x div PAGE_SIZE \<notin> frame_no m q ` {lo..<lo + n} \<longrightarrow> r' x = r x)"
  using b pr ne inj
proof (induction n)
  case 0
  have "clear_pages (lo + off) 0 = (\<lambda>PT. PT)" by (auto simp: fun_eq_iff clear_pages_def)
  then have "upd_PT p (clear_pages (lo + off) 0) m = m" by (simp add: upd_PT_def)
  then show ?case by auto
next
  case (Suc n)
  obtain r1 where r1: "foldo (copy_page p q off) [lo..<lo + n] (m, r) = Some (upd_PT p (clear_pages (lo + off) n) m, r1)"
    "\<forall>i k. lo \<le> i \<and> i < lo + n \<and> k < PAGE_SIZE \<longrightarrow> r1 (frame_no m q i * PAGE_SIZE + k) = r (frame_no m p i * PAGE_SIZE + k)"
    "\<forall>x. x div PAGE_SIZE \<notin> frame_no m q ` {lo..<lo + n} \<longrightarrow> r1 x = r x"
    using Suc.IH Suc.prems by (auto simp: inj_on_def)
  let ?m1 = "upd_PT p (clear_pages (lo + off) n) m"
  have row: "pagusr_table ?m1 p (lo + n) = pagusr_table m p (lo + n)" "pagusr_table ?m1 q = pagusr_table m q"
    using pq Suc.prems(2) by (simp_all add: clear_pages_def)
  have fr: "frame_no ?m1 p (lo + n) = frame_no m p (lo + n)" "frame_no ?m1 q (lo + n) = frame_no m q (lo + n)"
    using row by (simp_all add: get_frame_def)
  obtain r2 where r2: "copy_page p q off (lo + n) (?m1, r1) =
      Some (upd_PT p (\<lambda>PT. del_ss_pag PT (lo + n + off)) ?m1, r2)"
    "\<forall>k < PAGE_SIZE. r2 (frame_no m q (lo + n) * PAGE_SIZE + k) = r1 (frame_no m p (lo + n) * PAGE_SIZE + k)"
    "\<forall>x. x div PAGE_SIZE \<noteq> frame_no m q (lo + n) \<longrightarrow> r2 x = r1 x"
    using copy_page_spec [of ?m1 d p q "lo + n" off r1] m pq Suc.prems row fr by auto
  have "(\<lambda>PT. del_ss_pag (clear_pages (lo + off) n PT) (lo + n + off)) = clear_pages (lo + off) (Suc n)"
    by (auto simp: fun_eq_iff clear_pages_def del_ss_pag_def)
  then have eq: "foldo (copy_page p q off) [lo..<lo + Suc n] (m, r) = Some (upd_PT p (clear_pages (lo + off) (Suc n)) m, r2)"
    using r1(1) r2(1) by (simp add: foldo_append)
  have "r2 (frame_no m q i * PAGE_SIZE + k) = r (frame_no m p i * PAGE_SIZE + k)"
    if i: "lo \<le> i" "i < lo + Suc n" "k < PAGE_SIZE" for i k
  proof (cases "i = lo + n")
    case True
    have "frame_no m p (lo + n) \<notin> frame_no m q ` {lo..<lo + n}" using Suc.prems(5) by fastforce
    then show ?thesis using True i r1(3) r2(2) page_div [OF i(3)] by simp
  next
    case False
    then have "frame_no m q i \<noteq> frame_no m q (lo + n)" using inj_onD [OF Suc.prems(6), of i "lo + n"] i by auto
    then show ?thesis using False i r1(2) r2(3) page_div [OF i(3)] by simp
  qed
  moreover have "r2 x = r x" if "x div PAGE_SIZE \<notin> frame_no m q ` {lo..<lo + Suc n}" for x
  proof -
    have "{lo..<lo + Suc n} = insert (lo + n) {lo..<lo + n}" by auto
    then have "x div PAGE_SIZE \<notin> frame_no m q ` {lo..<lo + n}" "x div PAGE_SIZE \<noteq> frame_no m q (lo + n)"
      using that by auto
    then show ?thesis using r1(3) r2(3) by metis
  qed
  ultimately show ?case using eq by blast
qed

section \<open>The tables of the child\<close>

definition user_pte :: "u32 \<Rightarrow> page_table_entry" where
  "user_pte f = set_present 1 (set_rw 1 (set_user 1 (set_pbase_addr f 0)))"

lemma user_pte_fields [simp]:
  "present (user_pte f)" "rw (user_pte f)" "user (user_pte f)" "pbase_addr (user_pte f) = f AND mask 20"
  by (simp_all add: user_pte_def)

lemma set_ss_pag_pte: "set_ss_pag PT i f = PT(i := user_pte f)"
  by (simp add: set_ss_pag_def user_pte_def)

definition map_pages :: "nat \<Rightarrow> nat \<Rightarrow> (nat \<Rightarrow> u32) \<Rightarrow> page_table \<Rightarrow> page_table" where
  "map_pages lo n v PT = (\<lambda>i. if lo \<le> i \<and> i < lo + n then user_pte (v (i - lo)) else PT i)"

lemma fold_map_pages:
  assumes "\<And>i f. g i (upd_PT q f m) = g i m"
  shows "fold (\<lambda>i m. upd_PT q (\<lambda>PT. set_ss_pag PT (lo + i) (g i m)) m) [0..<n] m =
     upd_PT q (map_pages lo n (\<lambda>i. g i m)) m"
proof (induction n)
  case 0
  have "map_pages lo 0 (\<lambda>i. g i m) = (\<lambda>PT. PT)" by (auto simp: fun_eq_iff map_pages_def)
  then show ?case by (simp add: upd_PT_def)
next
  case (Suc n)
  have "(\<lambda>PT. set_ss_pag (map_pages lo n (\<lambda>i. g i m) PT) (lo + n) (g n m)) = map_pages lo (Suc n) (\<lambda>i. g i m)"
    by (auto simp: fun_eq_iff map_pages_def set_ss_pag_pte)
  then show ?case by (simp add: Suc.IH assms)
qed

definition child_table :: "page_table \<Rightarrow> int list \<Rightarrow> nat \<Rightarrow> page_table \<Rightarrow> page_table" where
  "child_table PTp frames h PT = (\<lambda>i.
     if i < PAG_LOG_INIT_DATA then user_pte (get_frame PTp i)
     else if i < PAG_LOG_INIT_CODE then user_pte (word_of_int (frames ! (i - PAG_LOG_INIT_DATA)))
     else if i < PAG_LOG_INIT_HEAP then user_pte (get_frame PTp i)
     else if i < PAG_LOG_INIT_HEAP + h then user_pte (word_of_int (frames ! (NUM_PAG_DATA + (i - PAG_LOG_INIT_HEAP))))
     else PT i)"

lemma map_child_eq:
  assumes "q \<noteq> p"
  shows "map_child q p frames h m = upd_PT q (child_table (pagusr_table m p) frames h) m"
proof -
  let ?T = "pagusr_table m p"
  have 1: "fold (\<lambda>i m. upd_PT q (\<lambda>PT. set_ss_pag PT i (get_frame (pagusr_table m p) i)) m) [0..<NUM_PAG_KERNEL] m =
      upd_PT q (map_pages 0 NUM_PAG_KERNEL (get_frame ?T)) m"
    using fold_map_pages [of "\<lambda>i m. get_frame (pagusr_table m p) i" q m 0 NUM_PAG_KERNEL] assms by simp
  have 2: "fold (\<lambda>i m. upd_PT q (\<lambda>PT. set_ss_pag PT (PAG_LOG_INIT_CODE + i)
        (get_frame (pagusr_table m p) (PAG_LOG_INIT_CODE + i))) m) [0..<NUM_PAG_CODE] m1 =
      upd_PT q (map_pages PAG_LOG_INIT_CODE NUM_PAG_CODE (\<lambda>i. get_frame (pagusr_table m1 p) (PAG_LOG_INIT_CODE + i))) m1"
    for m1
    using fold_map_pages [of "\<lambda>i m. get_frame (pagusr_table m p) (PAG_LOG_INIT_CODE + i)" q m1 PAG_LOG_INIT_CODE NUM_PAG_CODE]
      assms by simp
  have 3: "fold (\<lambda>i m. upd_PT q (\<lambda>PT. set_ss_pag PT (lo + i) (v i)) m) [0..<n] m1 = upd_PT q (map_pages lo n v) m1"
    for m1 lo n and v :: "nat \<Rightarrow> u32"
    using fold_map_pages [of "\<lambda>i m. v i" q m1 lo n] by simp
  have "map_child q p frames h m = upd_PT q (\<lambda>PT. map_pages PAG_LOG_INIT_HEAP h (\<lambda>i. word_of_int (frames ! (NUM_PAG_DATA + i)))
      (map_pages PAG_LOG_INIT_DATA NUM_PAG_DATA (\<lambda>i. word_of_int (frames ! i))
        (map_pages PAG_LOG_INIT_CODE NUM_PAG_CODE (\<lambda>i. get_frame ?T (PAG_LOG_INIT_CODE + i))
          (map_pages 0 NUM_PAG_KERNEL (get_frame ?T) PT)))) m"
    unfolding map_child_def 1 2 3 Let_def using assms by simp
  also have "\<dots> = upd_PT q (child_table ?T frames h) m"
    by (intro arg_cong [of _ _ "\<lambda>f. upd_PT q f m"]) (auto simp: fun_eq_iff map_pages_def child_table_def)
  finally show ?thesis .
qed

section \<open>The copy of the address space\<close>

text \<open>The address space of a process: code, data and \<open>h\<close> pages of heap mapped, in used frames, and
  nothing above the heap.\<close>

definition space_ok :: "mm_state \<Rightarrow> nat \<Rightarrow> nat \<Rightarrow> bool" where
  "space_ok m p h \<longleftrightarrow>
     (\<forall>i. PAG_LOG_INIT_DATA \<le> i \<and> i < PAG_LOG_INIT_HEAP + h \<longrightarrow>
        present (pagusr_table m p i) \<and> frame_no m p i \<notin> avail m) \<and>
     (\<forall>i. PAG_LOG_INIT_HEAP + h \<le> i \<and> i < TOTAL_PAGES \<longrightarrow> pagusr_table m p i = 0)"

text \<open>The pages that are copied, and the number of the frame of each in the array \<open>frames\<close>.\<close>

definition own_page :: "nat \<Rightarrow> nat \<Rightarrow> bool" where
  "own_page h i \<longleftrightarrow> PAG_LOG_INIT_DATA \<le> i \<and> i < PAG_LOG_INIT_CODE \<or> PAG_LOG_INIT_HEAP \<le> i \<and> i < PAG_LOG_INIT_HEAP + h"

definition frame_index :: "nat \<Rightarrow> nat" where
  "frame_index i = (if i < PAG_LOG_INIT_CODE then i - PAG_LOG_INIT_DATA else NUM_PAG_DATA + (i - PAG_LOG_INIT_HEAP))"

lemma frame_index_inj: "inj_on frame_index {i. own_page h i}"
  by (auto simp: inj_on_def frame_index_def own_page_def split: if_splits)

lemma frame_index_bound: "own_page h i \<Longrightarrow> frame_index i < NUM_PAG_DATA + h"
  by (auto simp: frame_index_def own_page_def)

lemma child_table_own:
  assumes "own_page h i" "length fs = NUM_PAG_DATA + h" "\<forall>f \<in> set fs. f < 1024"
  shows "get_frame (child_table PTp (map int fs) h PT) i = of_nat (fs ! frame_index i)"
    "unat (of_nat (fs ! frame_index i) :: u32) = fs ! frame_index i"
proof -
  have l: "frame_index i < length fs" using frame_index_bound [OF assms(1)] assms(2) by simp
  have b: "fs ! frame_index i < 1024" using nth_mem [OF l] assms(3) by blast
  show "unat (of_nat (fs ! frame_index i) :: u32) = fs ! frame_index i" using unat_frame [OF b] by simp
  have "fs ! frame_index i < 2 ^ 20" using b by simp
  then show "get_frame (child_table PTp (map int fs) h PT) i = of_nat (fs ! frame_index i)"
    using assms(1) l by (auto simp: get_frame_def child_table_def own_page_def frame_index_def)
qed

lemma clear_nothing:
  assumes "\<forall>i. lo \<le> i \<and> i < lo + n \<longrightarrow> pagusr_table m p i = 0"
  shows "upd_PT p (clear_pages lo n) m = m"
proof -
  have "clear_pages lo n (pagusr_table m p) = pagusr_table m p" using assms by (auto simp: clear_pages_def)
  then show ?thesis by (simp add: upd_PT_def)
qed

lemma copy_space_spec:
  assumes m: "cr3 (mm s) = Some d" "row_of (mm s) d p" and pq: "p \<noteq> q"
    and fs: "length fs = NUM_PAG_DATA + h" "distinct fs" "\<forall>f \<in> set fs. f < 1024" and h: "304 + 2 * h \<le> TOTAL_PAGES"
    and q: "pagusr_table (mm s) q = child_table (pagusr_table (mm s) p) (map int fs) h PT"
    and pr: "\<forall>i. own_page h i \<longrightarrow> present (pagusr_table (mm s) p i) \<and> frame_no (mm s) p i \<notin> set fs"
    and top: "\<forall>i. PAG_LOG_INIT_HEAP + h \<le> i \<and> i < TOTAL_PAGES \<longrightarrow> pagusr_table (mm s) p i = 0"
  shows "\<exists>r'. copy_space q p h s = Some (s\<lparr>ram := r'\<rparr>) \<and>
    (\<forall>i k. own_page h i \<and> k < PAGE_SIZE \<longrightarrow>
       r' ((fs ! frame_index i) * PAGE_SIZE + k) = ram s (frame_no (mm s) p i * PAGE_SIZE + k)) \<and>
    (\<forall>x. x div PAGE_SIZE \<notin> set fs \<longrightarrow> r' x = ram s x)"
proof -
  let ?m = "mm s"
  have fq: "frame_no ?m q i = fs ! frame_index i" if "own_page h i" for i
    using child_table_own [OF that fs(1,3)] unfolding q by simp
  have inF: "fs ! frame_index i \<in> set fs" if "own_page h i" for i
    using frame_index_bound [OF that] fs(1) by simp
  have ne: "frame_no ?m p i \<noteq> frame_no ?m q j" if "own_page h i" "own_page h j" for i j
    using pr that inF fq by metis
  have inj: "inj_on (frame_no ?m q) {i. own_page h i}"
  proof (rule inj_onI)
    fix i j assume ij: "i \<in> {i. own_page h i}" "j \<in> {i. own_page h i}" and "frame_no ?m q i = frame_no ?m q j"
    then have "fs ! frame_index i = fs ! frame_index j" using fq by simp
    then have "frame_index i = frame_index j"
      using nth_eq_iff_index_eq [OF fs(2)] frame_index_bound ij fs(1) by (metis mem_Collect_eq)
    then show "i = j" using inj_onD [OF frame_index_inj] ij by blast
  qed
  have own: "own_page h i" if "256 \<le> i \<and> i < 276 \<or> 284 \<le> i \<and> i < 284 + h" for i
    using that by (auto simp: own_page_def)
  have inj1: "inj_on (frame_no ?m q) {256..<256 + 20}" "inj_on (frame_no ?m q) {284..<284 + h}"
    by (rule inj_on_subset [OF inj]; use own in auto)+
  obtain r1 where r1: "foldo (copy_page p q (28 + h)) [256..<256 + 20] (?m, ram s) = Some (upd_PT p (clear_pages (256 + (28 + h)) 20) ?m, r1)"
    "\<forall>i k. 256 \<le> i \<and> i < 256 + 20 \<and> k < PAGE_SIZE \<longrightarrow> r1 (frame_no ?m q i * PAGE_SIZE + k) = ram s (frame_no ?m p i * PAGE_SIZE + k)"
    "\<forall>x. x div PAGE_SIZE \<notin> frame_no ?m q ` {256..<256 + 20} \<longrightarrow> r1 x = ram s x"
    using copy_pages_spec [OF m pq, of 256 "28 + h" 20 "ram s"] h pr ne own inj1(1) by auto
  have e1: "upd_PT p (clear_pages (256 + (28 + h)) 20) ?m = ?m" by (rule clear_nothing) (use top h in simp)
  obtain r2 where r2: "foldo (copy_page p q (20 + h)) [284..<284 + h] (?m, r1) = Some (upd_PT p (clear_pages (284 + (20 + h)) h) ?m, r2)"
    "\<forall>i k. 284 \<le> i \<and> i < 284 + h \<and> k < PAGE_SIZE \<longrightarrow> r2 (frame_no ?m q i * PAGE_SIZE + k) = r1 (frame_no ?m p i * PAGE_SIZE + k)"
    "\<forall>x. x div PAGE_SIZE \<notin> frame_no ?m q ` {284..<284 + h} \<longrightarrow> r2 x = r1 x"
    using copy_pages_spec [OF m pq, of 284 "20 + h" h r1] h pr ne own inj1(2) by auto
  have e2: "upd_PT p (clear_pages (284 + (20 + h)) h) ?m = ?m" by (rule clear_nothing) (use top h in simp)
  have "copy_space q p h s = Some (s\<lparr>ram := r2\<rparr>)"
    using r1(1) r2(1) e1 e2 by (simp add: copy_space_def add.commute)
  moreover have "r2 ((fs ! frame_index i) * PAGE_SIZE + k) = ram s (frame_no ?m p i * PAGE_SIZE + k)"
    if i: "own_page h i" and k: "k < PAGE_SIZE" for i k
  proof (cases "i < 276")
    case True
    then have d: "256 \<le> i" "i < 256 + 20" using i by (auto simp: own_page_def)
    have "frame_no ?m q i \<notin> frame_no ?m q ` {284..<284 + h}"
      using inj_onD [OF inj, of i] i own d by fastforce
    then have "r2 (frame_no ?m q i * PAGE_SIZE + k) = r1 (frame_no ?m q i * PAGE_SIZE + k)"
      using r2(3) page_div [OF k] by simp
    also have "\<dots> = ram s (frame_no ?m p i * PAGE_SIZE + k)" using r1(2) d k by blast
    finally show ?thesis by (simp only: fq [OF i])
  next
    case False
    then have d: "284 \<le> i" "i < 284 + h" using i by (auto simp: own_page_def)
    have "frame_no ?m p i \<notin> frame_no ?m q ` {256..<256 + 20}" using ne [OF i] own by fastforce
    then have "r1 (frame_no ?m p i * PAGE_SIZE + k) = ram s (frame_no ?m p i * PAGE_SIZE + k)"
      using r1(3) page_div [OF k] by simp
    moreover have "r2 (frame_no ?m q i * PAGE_SIZE + k) = r1 (frame_no ?m p i * PAGE_SIZE + k)"
      using r2(2) d k by blast
    ultimately show ?thesis by (simp only: fq [OF i])
  qed
  moreover have "r2 x = ram s x" if "x div PAGE_SIZE \<notin> set fs" for x
  proof -
    have "frame_no ?m q ` {256..<256 + 20} \<subseteq> set fs" "frame_no ?m q ` {284..<284 + h} \<subseteq> set fs"
      using fq inF own by auto
    then show ?thesis using that r1(3) r2(3) by (metis subsetD)
  qed
  ultimately show ?thesis by blast
qed

section \<open>fork\<close>

text \<open>Taking frames changes nothing but the table of frames.\<close>

lemma alloc_loop_phys:
  "alloc_loop (\<lambda>_. alloc_frame) (\<lambda>_ f. free_frame (word_of_int f)) n acc m = (r, m') \<Longrightarrow>
     m' = m\<lparr>phys_mem := phys_mem m'\<rparr>"
proof (induction n arbitrary: acc m)
  case (Suc n)
  have rel: "\<exists>pm. fold (\<lambda>(j, g). free_frame (word_of_int g)) xs k = k\<lparr>phys_mem := pm\<rparr>" for xs :: "(nat \<times> int) list" and k
  proof (induction xs arbitrary: k)
    case Nil
    have "k = k\<lparr>phys_mem := phys_mem k\<rparr>" by simp
    then show ?case by (metis fold_simps(1))
  next
    case (Cons x xs)
    have "\<exists>pm. free_frame f k = k\<lparr>phys_mem := pm\<rparr>" for f :: u32
      by (cases k) (auto simp: free_frame_def)
    then obtain pm where "free_frame (word_of_int (snd x)) k = k\<lparr>phys_mem := pm\<rparr>" by blast
    with Cons.IH [of "k\<lparr>phys_mem := pm\<rparr>"] show ?case by (auto simp: split_beta)
  qed
  obtain f m1 where a: "alloc_frame m = (f, m1)" by (cases "alloc_frame m")
  have m1: "\<exists>pm. m1 = m\<lparr>phys_mem := pm\<rparr>"
    using a by (cases rule: alloc_frame_cases [of m]; cases m) auto
  show ?case
  proof (cases "f < 0")
    case True
    then have "m' = fold (\<lambda>(j, g). free_frame (word_of_int g)) (enumerate 0 acc) m1" using Suc.prems a by simp
    then show ?thesis using m1 rel [of "enumerate 0 acc" m1] by auto
  next
    case False
    then show ?thesis using Suc.IH [of "acc @ [f]" m1] Suc.prems a m1 by auto
  qed
qed simp

text \<open>What \<open>fork\<close> needs beside a free task: a caller with an address space as described above, enough
  free frames for the copy, room above its heap for the temporary mappings, and a free directory
  with a table of its own.\<close>

definition can_fork :: "kstate \<Rightarrow> nat \<Rightarrow> nat \<Rightarrow> nat \<Rightarrow> nat \<Rightarrow> nat \<Rightarrow> nat \<Rightarrow> bool" where
  "can_fork s d p hz h d' q \<longleftrightarrow>
     dir_pages_baseAddr (task s (cur s)) = Some d \<and> row_of (mm s) d p \<and>
     my_heap (task s (cur s)) = Some hz \<and> heap_zones (mm s) hz = int h \<and>
     find_from 0 (\<lambda>i. dir_pages_num_references (mm s) i \<le> 0) 0 NR_TASKS = Some d' \<and>
     row_of (mm s) d' q \<and> q \<noteq> p \<and> hz \<noteq> d' \<and>
     space_ok (mm s) p h \<and> NUM_PAG_DATA + h \<le> card (avail (mm s)) \<and> 304 + 2 * h \<le> TOTAL_PAGES"

definition forked_mm :: "nat \<Rightarrow> nat \<Rightarrow> nat \<Rightarrow> nat \<Rightarrow> nat list \<Rightarrow> (nat \<Rightarrow> u8) \<Rightarrow> mm_state \<Rightarrow> mm_state" where
  "forked_mm p q d' h fs pm m = upd_PT q (child_table (pagusr_table m p) (map int fs) h)
     (m\<lparr>heap_zones := (heap_zones m)(d' := 0),
        dir_pages_num_references := (dir_pages_num_references m)(d' := dir_pages_num_references m d' + 1),
        phys_mem := pm\<rparr>)"

definition forked :: "nat \<Rightarrow> mm_state \<Rightarrow> ram \<Rightarrow> lnode links \<Rightarrow> nat \<Rightarrow> kstate \<Rightarrow> kstate" where
  "forked d' m r h c s =
     s\<lparr>task := (task s)(c := (task s (cur s))\<lparr>PID := pidGlobal s, pare := Some (cur s), pending_unblocks := 0,
           dir_pages_baseAddr := Some d', k_ctx := KRetFromFork, quantum := 10, current_state := ST_READY\<rparr>),
       mm := m, pidGlobal := pidGlobal s + 1, ram := r, links := h\<rparr>"

lemma fork_start:
  assumes "dir_pages_baseAddr (task s (cur s)) = Some d" "my_heap (task s (cur s)) = Some hz"
    and "find_from 0 (\<lambda>i. dir_pages_num_references (mm s) i \<le> 0) 0 NR_TASKS = Some d'"
    and "cur s \<noteq> c"
  shows "(let s3 = snd (allocate_heap c (snd (allocate_DIR c (copy_task_union (cur s) c s))))
     in upd_task c (\<lambda>ts. ts\<lparr>my_heap := my_heap (task s3 (cur s3))\<rparr>) s3) =
     s\<lparr>task := (task s)(c := (task s (cur s))\<lparr>dir_pages_baseAddr := Some d'\<rparr>),
       links := copy_nodes (cur s) c (links s),
       mm := (mm s)\<lparr>heap_zones := (heap_zones (mm s))(d' := 0),
         dir_pages_num_references := (dir_pages_num_references (mm s))(d' := dir_pages_num_references (mm s) d' + 1)\<rparr>\<rparr>"
  using assms by (cases "task s (cur s)")
    (simp add: allocate_DIR_def allocate_heap_def copy_task_union_eq upd_task_def upd_mm_def)

lemma fork_eq:
  assumes inv: "sched_inv s Q" and cpu: "cpu_inv s Q" and sp: "can_spawn s Q c"
    and cf: "can_fork s d p hz h d' q"
  shows "\<exists>hl fs pm r. sys_fork s = Some (Ret (pidGlobal s), forked d' (forked_mm p q d' h fs pm (mm s)) r hl c s) \<and>
     reps hl (spawn_lists (cur s) c Q) \<and>
     length fs = NUM_PAG_DATA + h \<and> distinct fs \<and> set fs \<subseteq> avail (mm s) \<and>
     avail (forked_mm p q d' h fs pm (mm s)) = avail (mm s) - set fs \<and>
     (\<forall>i k. own_page h i \<and> k < PAGE_SIZE \<longrightarrow>
        r (fs ! frame_index i * PAGE_SIZE + k) = ram s (frame_no (mm s) p i * PAGE_SIZE + k)) \<and>
     (\<forall>x. x div PAGE_SIZE \<notin> set fs \<longrightarrow> r x = ram s x)"
proof -
  let ?p = "cur s"
  have r: "reps (links s) Q" and ty: "typed Q" using inv by (simp_all add: sched_inv_def)
  have ne: "?p \<noteq> c" using can_spawn_other [OF sp cpu] .
  obtain ffs where f: "Q Freequeue = Some (TList c # ffs)" using sp by (auto simp: can_spawn_def)
  obtain h1 h2 h3 where h: "list_first Freequeue (links s) = Some (TList c)" "list_empty Freequeue (links s) = False"
     "list_del (TList c) (links s) = Some h1"
     "list_add_tail (TParentAnchor c) (TFills ?p) (copy_nodes ?p c h1) = Some h2"
     "list_add_tail (TList c) Readyqueue (INIT_LIST_HEAD (TWaitList c) (INIT_LIST_HEAD (TFills c) h2)) = Some h3"
     "reps h3 (spawn_lists ?p c Q)"
    using links_spawn [OF r ty f _ _ ne] sp by (auto simp: can_spawn_def)
  note cf' = cf [unfolded can_fork_def]
  let ?m1 = "(mm s)\<lparr>heap_zones := (heap_zones (mm s))(d' := 0),
     dir_pages_num_references := (dir_pages_num_references (mm s))(d' := dir_pages_num_references (mm s) d' + 1)\<rparr>"
  let ?base = "\<lambda>m. s\<lparr>task := (task s)(c := (task s ?p)\<lparr>dir_pages_baseAddr := Some d'\<rparr>),
       links := copy_nodes ?p c h1, mm := m\<rparr>"
  have st4: "(let s3 = snd (allocate_heap c (snd (allocate_DIR c (copy_task_union ?p c (s\<lparr>links := h1\<rparr>)))))
     in upd_task c (\<lambda>ts. ts\<lparr>my_heap := my_heap (task s3 (cur s3))\<rparr>) s3) = ?base ?m1"
    using fork_start [of "s\<lparr>links := h1\<rparr>" d hz d' c] cf' ne by simp
  have av1: "avail ?m1 = avail (mm s)" by (simp add: avail_def)
  obtain fs m2 where a: "alloc_loop (\<lambda>_. alloc_frame) (\<lambda>_ f. free_frame (word_of_int f)) (NUM_PAG_DATA + h) [] ?m1 =
      (Some (map int fs), m2)" "length fs = NUM_PAG_DATA + h" "distinct fs" "set fs \<subseteq> avail (mm s)"
      "avail m2 = avail (mm s) - set fs"
    using fr.alloc_loop_enough [of "NUM_PAG_DATA + h" ?m1 "[]"] cf' av1 by auto
  obtain pm where m2: "m2 = ?m1\<lparr>phys_mem := pm\<rparr>" using alloc_loop_phys [OF a(1)] by blast
  let ?m3 = "upd_PT q (child_table (pagusr_table (mm s) p) (map int fs) h) m2"
  have m3: "map_child q p (map int fs) h m2 = ?m3" using map_child_eq [of q p "map int fs" h m2] cf' m2 by simp
  have eqm: "?m3 = forked_mm p q d' h fs pm (mm s)" by (simp add: forked_mm_def m2)
  have cr3: "cr3 ?m3 = Some d" using cpu cf' m2 by (simp add: cpu_inv_def)
  have row: "row_of ?m3 d p" using cf' m2 by (simp add: row_of_def dir_PT_def)
  have b: "\<forall>f \<in> set fs. f < 1024" using a(4) availD by blast
  have tp: "pagusr_table ?m3 p = pagusr_table (mm s) p" using cf' m2 by simp
  let ?s5 = "?base ?m3"
  have own: "present (pagusr_table (mm s) p i) \<and> frame_no (mm s) p i \<notin> set fs" if "own_page h i" for i
    using cf' that a(4) unfolding space_ok_def own_page_def by (auto simp: subset_iff)
  obtain r' where r': "copy_space q p h ?s5 = Some (?s5\<lparr>ram := r'\<rparr>)"
     "\<forall>i k. own_page h i \<and> k < PAGE_SIZE \<longrightarrow>
       r' ((fs ! frame_index i) * PAGE_SIZE + k) = ram s (frame_no (mm s) p i * PAGE_SIZE + k)"
     "\<forall>x. x div PAGE_SIZE \<notin> set fs \<longrightarrow> r' x = ram s x"
    using copy_space_spec [of ?s5 d p q fs h "pagusr_table m2 q"] cr3 row cf' a(2,3) b own tp m2
    by (auto simp: space_ok_def)
  let ?s6 = "s\<lparr>task := (task s)(c := (task s ?p)\<lparr>dir_pages_baseAddr := Some d'\<rparr>),
       links := copy_nodes ?p c h1, mm := ?m3, ram := r'\<rparr>"
  have c6: "set_cr3 (get_DIR ?p ?s6) ?s6 = ?s6"
    using cr3 cf' ne by (simp add: set_cr3_def upd_mm_def get_DIR_def)
  let ?s7 = "s\<lparr>task := (task s)(c := (task s ?p)\<lparr>PID := pidGlobal s, pare := Some ?p, pending_unblocks := 0,
        dir_pages_baseAddr := Some d'\<rparr>),
      mm := ?m3, pidGlobal := pidGlobal s + 1, ram := r',
      links := INIT_LIST_HEAD (TWaitList c) (INIT_LIST_HEAD (TFills c) h2)\<rparr>"
  have ad: "adopt c ?s6 = Some ?s7"
    using adopt_eq [of c ?s6 h2] h(4) by (cases "task s ?p") simp
  let ?s8 = "forked d' ?m3 r' h3 c s"
  have st: "start_thread c KRetFromFork ?s7 = Some ?s8"
    using start_thread_eq [of ?s7 c h3 KRetFromFork] sp h(5) cpu_running [OF cpu]
    by (cases "task s ?p") (simp add: can_spawn_def forked_def)
  have pts: "get_PT c (?base m2) = Some q" "get_PT ?p (?base m2) = Some p"
    "heap_pages ?p (?base ?m1) = Some (int h)"
    using cf' ne m2 by (auto simp: get_PT_def heap_pages_def row_of_def dir_PT_def)
  have "sys_fork s = Some (Ret (pidGlobal s), ?s8)"
    unfolding sys_fork_def using h(1-3) st4
    by (simp add: on_links_simp Let_def pts a(1) m3 upd_mm_def r'(1) c6 ad st nat_add_distrib) (simp add: forked_def)
  moreover have "avail ?m3 = avail (mm s) - set fs" using a(5) by (simp add: avail_def)
  ultimately show ?thesis using h(6) a(2-4) r'(2,3) eqm by (intro exI [of _ h3] exI [of _ fs] exI [of _ pm] exI [of _ r']) simp
qed

text \<open>What a process with directory \<open>d\<close> reads at an address.\<close>

definition peek :: "mm_state \<Rightarrow> nat \<Rightarrow> ram \<Rightarrow> nat \<Rightarrow> u8 option" where
  "peek m d r a = map_option r (translate (m\<lparr>cr3 := Some d\<rparr>) a)"

lemma peek_row:
  "row_of m d p \<Longrightarrow> i < TOTAL_PAGES \<Longrightarrow> k < PAGE_SIZE \<Longrightarrow>
     peek m d r (i * PAGE_SIZE + k) = (if present (pagusr_table m p i) then Some (r (frame_no m p i * PAGE_SIZE + k)) else None)"
  using translate_row [of "m\<lparr>cr3 := Some d\<rparr>" d p i k] by (simp add: peek_def row_of_def dir_PT_def)

lemma forked_mm_simps:
  assumes "q \<noteq> p"
  shows "row_of (forked_mm p q d' h fs pm m) e w = row_of m e w"
    "pagusr_table (forked_mm p q d' h fs pm m) w =
       (if w = q then child_table (pagusr_table m p) (map int fs) h (pagusr_table m q) else pagusr_table m w)"
    "cr3 (forked_mm p q d' h fs pm m) = cr3 m"
  by (simp_all add: forked_mm_def row_of_def dir_PT_def)

lemma child_table_code:
  assumes "PAG_LOG_INIT_CODE \<le> i" "i < PAG_LOG_INIT_HEAP"
  shows "child_table PTp fs h PT i = user_pte (get_frame PTp i)"
  using assms by (simp add: child_table_def)

lemma fork_views:
  assumes cf: "can_fork s d p hz h d' q"
    and fs: "length fs = NUM_PAG_DATA + h" "set fs \<subseteq> avail (mm s)"
    and copy: "\<forall>i k. own_page h i \<and> k < PAGE_SIZE \<longrightarrow>
        r (fs ! frame_index i * PAGE_SIZE + k) = ram s (frame_no (mm s) p i * PAGE_SIZE + k)"
    and keep: "\<forall>x. x div PAGE_SIZE \<notin> set fs \<longrightarrow> r x = ram s x"
    and i: "PAG_LOG_INIT_DATA \<le> i" "i < PAG_LOG_INIT_HEAP + h" and k: "k < PAGE_SIZE"
  shows "peek (forked_mm p q d' h fs pm (mm s)) d' r (i * PAGE_SIZE + k) = peek (mm s) d (ram s) (i * PAGE_SIZE + k)"
    "peek (forked_mm p q d' h fs pm (mm s)) d r (i * PAGE_SIZE + k) = peek (mm s) d (ram s) (i * PAGE_SIZE + k)"
    "own_page h i \<Longrightarrow> frame_no (forked_mm p q d' h fs pm (mm s)) q i \<in> avail (mm s)"
proof -
  let ?m = "forked_mm p q d' h fs pm (mm s)"
  note cf' = cf [unfolded can_fork_def]
  have rows: "row_of (mm s) d p" "row_of (mm s) d' q" "q \<noteq> p" using cf' by simp_all
  note fm = forked_mm_simps [OF rows(3)]
  have b: "\<forall>f \<in> set fs. f < 1024" using fs(2) availD by blast
  have it: "i < TOTAL_PAGES" using i cf' by simp
  have pr: "present (pagusr_table (mm s) p i)" "frame_no (mm s) p i \<notin> set fs"
    using i cf' fs(2) unfolding space_ok_def by auto
  then have old: "r (frame_no (mm s) p i * PAGE_SIZE + k) = ram s (frame_no (mm s) p i * PAGE_SIZE + k)"
    using keep page_div [OF k] by simp
  have own: "frame_no ?m q i = fs ! frame_index i" "fs ! frame_index i \<in> set fs" if "own_page h i"
    using child_table_own [OF that fs(1) b] frame_index_bound [OF that] fs(1) by (simp_all add: fm(2))
  have qpr: "present (pagusr_table ?m q i)" using i by (simp add: fm(2) child_table_def)
  have code: "frame_no ?m q i = frame_no (mm s) p i" if "\<not> own_page h i"
    using that i get_frame_mask [of "pagusr_table (mm s) p" i]
    by (simp add: fm(2) own_page_def child_table_code get_frame_def)
  have "r (frame_no ?m q i * PAGE_SIZE + k) = ram s (frame_no (mm s) p i * PAGE_SIZE + k)"
    using own(1) code old copy k by (cases "own_page h i") simp_all
  then show "peek ?m d' r (i * PAGE_SIZE + k) = peek (mm s) d (ram s) (i * PAGE_SIZE + k)"
    using rows pr qpr by (simp add: peek_row it k fm(1) del: One_nat_def)
  show "peek ?m d r (i * PAGE_SIZE + k) = peek (mm s) d (ram s) (i * PAGE_SIZE + k)"
    using rows pr old by (simp add: peek_row it k fm)
  show "own_page h i \<Longrightarrow> frame_no ?m q i \<in> avail (mm s)" using own fs(2) by auto
qed

lemma forked_inv:
  assumes inv: "sched_inv s Q" and cpu: "cpu_inv s Q" and sp: "can_spawn s Q c"
    and hl: "reps hl (spawn_lists (cur s) c Q)" and qp: "q \<noteq> p"
  shows "sched_inv (forked d' (forked_mm p q d' h fs pm (mm s)) r hl c s) (spawn_lists (cur s) c Q)"
    "cpu_inv (forked d' (forked_mm p q d' h fs pm (mm s)) r hl c s) (spawn_lists (cur s) c Q)"
proof -
  let ?s = "forked d' (forked_mm p q d' h fs pm (mm s)) r hl c s"
  have ne: "cur s \<noteq> c" using can_spawn_other [OF sp cpu] .
  have "pidGlobal s > 0" "\<forall>t < NR_TASKS. live Q t \<longrightarrow> PID (task s t) \<noteq> pidGlobal s"
    using sp by (auto simp: can_spawn_def)
  then show "sched_inv ?s (spawn_lists (cur s) c Q)"
    by (intro sched_inv_spawn [OF inv _ ne _ can_spawn_free [OF sp]]) (use hl sp in \<open>auto simp: forked_def can_spawn_def\<close>)
  show "cpu_inv ?s (spawn_lists (cur s) c Q)"
    by (rule cpu_inv_spawn [OF inv cpu sp]) (simp_all add: forked_def forked_mm_simps [OF qp])
qed

lemma fork_spec:
  assumes inv: "sched_inv s Q" and cpu: "cpu_inv s Q" and sp: "can_spawn s Q c"
    and cf: "can_fork s d p hz h d' q"
  shows "\<exists>s' Q'. sys_fork s = Some (Ret (pidGlobal s), s') \<and> sched_inv s' Q' \<and> cpu_inv s' Q' \<and> cur s' = cur s \<and>
     tasks_on Q' Readyqueue = tasks_on Q Readyqueue @ [c] \<and>
     Q' (TFills (cur s)) = map_option (\<lambda>cs. cs @ [TParentAnchor c]) (Q (TFills (cur s))) \<and>
     PID (task s' c) = pidGlobal s \<and> pidGlobal s' = pidGlobal s + 1 \<and> pare (task s' c) = Some (cur s) \<and>
     k_ctx (task s' c) = KRetFromFork \<and> quantum (task s' c) = 10 \<and>
     u_eip (task s' c) = u_eip (task s (cur s)) \<and> u_esp (task s' c) = u_esp (task s (cur s)) \<and>
     dir_pages_baseAddr (task s' c) = Some d' \<and> my_heap (task s' c) = Some hz \<and>
     dir_pages_num_references (mm s') d' = dir_pages_num_references (mm s) d' + 1 \<and>
     card (avail (mm s')) = card (avail (mm s)) - (NUM_PAG_DATA + h) \<and>
     (\<forall>i k. PAG_LOG_INIT_DATA \<le> i \<and> i < PAG_LOG_INIT_HEAP + h \<and> k < PAGE_SIZE \<longrightarrow>
        peek (mm s') d' (ram s') (i * PAGE_SIZE + k) = peek (mm s) d (ram s) (i * PAGE_SIZE + k) \<and>
        peek (mm s') d (ram s') (i * PAGE_SIZE + k) = peek (mm s) d (ram s) (i * PAGE_SIZE + k)) \<and>
     (\<forall>i. own_page h i \<longrightarrow> frame_no (mm s') q i \<in> avail (mm s) - avail (mm s')) \<and>
     (\<forall>i < PAG_LOG_INIT_HEAP + h. present (pagusr_table (mm s') q i) \<and> user (pagusr_table (mm s') q i) \<and>
        rw (pagusr_table (mm s') q i)) \<and>
     (\<forall>i < NUM_PAG_KERNEL. frame_no (mm s') q i = frame_no (mm s) p i)"
proof -
  obtain hl fs pm r where f: "sys_fork s = Some (Ret (pidGlobal s), forked d' (forked_mm p q d' h fs pm (mm s)) r hl c s)"
     "reps hl (spawn_lists (cur s) c Q)" "length fs = NUM_PAG_DATA + h" "distinct fs" "set fs \<subseteq> avail (mm s)"
     "avail (forked_mm p q d' h fs pm (mm s)) = avail (mm s) - set fs"
     "\<forall>i k. own_page h i \<and> k < PAGE_SIZE \<longrightarrow>
        r (fs ! frame_index i * PAGE_SIZE + k) = ram s (frame_no (mm s) p i * PAGE_SIZE + k)"
     "\<forall>x. x div PAGE_SIZE \<notin> set fs \<longrightarrow> r x = ram s x"
    using fork_eq [OF assms] by blast
  let ?m = "forked_mm p q d' h fs pm (mm s)" and ?Q = "spawn_lists (cur s) c Q"
  let ?s = "forked d' ?m r hl c s"
  have qp: "q \<noteq> p" and rows: "row_of (mm s) d' q" and hz: "my_heap (task s (cur s)) = Some hz"
    using cf by (simp_all add: can_fork_def)
  have ne: "cur s \<noteq> c" using can_spawn_other [OF sp cpu] .
  note i' = forked_inv(1) [OF inv cpu sp f(2) qp] and c' = forked_inv(2) [OF inv cpu sp f(2) qp]
  have card: "card (avail ?m) = card (avail (mm s)) - (NUM_PAG_DATA + h)"
    using f(3-6) by (simp add: card_Diff_subset distinct_card)
  have own: "frame_no ?m q i \<in> avail (mm s) - avail ?m" if i: "own_page h i" for i
  proof -
    have b: "\<forall>f \<in> set fs. f < 1024" using f(5) availD by blast
    have "frame_no ?m q i = fs ! frame_index i"
      using child_table_own [OF i f(3) b] by (simp add: forked_mm_simps [OF qp])
    then show ?thesis using frame_index_bound [OF i] f(3,5,6) by auto
  qed
  have tab: "present (pagusr_table ?m q i) \<and> user (pagusr_table ?m q i) \<and> rw (pagusr_table ?m q i)"
    if "i < PAG_LOG_INIT_HEAP + h" for i
    using that by (simp add: forked_mm_simps [OF qp] child_table_def)
  have kern: "frame_no ?m q i = frame_no (mm s) p i" if "i < NUM_PAG_KERNEL" for i
    using that get_frame_mask [of "pagusr_table (mm s) p" i]
    by (simp add: forked_mm_simps [OF qp] child_table_def get_frame_def)
  have refs: "dir_pages_num_references ?m d' = dir_pages_num_references (mm s) d' + 1"
    by (simp add: forked_mm_def)
  note v = fork_views [OF cf f(3,5,7,8)]
  have fields: "cur ?s = cur s" "PID (task ?s c) = pidGlobal s" "pidGlobal ?s = pidGlobal s + 1" "pare (task ?s c) = Some (cur s)"
    "k_ctx (task ?s c) = KRetFromFork" "quantum (task ?s c) = 10" "u_eip (task ?s c) = u_eip (task s (cur s))"
    "u_esp (task ?s c) = u_esp (task s (cur s))" "dir_pages_baseAddr (task ?s c) = Some d'" "my_heap (task ?s c) = Some hz"
    "mm ?s = ?m" "ram ?s = r"
    using hz by (simp_all add: forked_def)
  from tasks_on_spawn [OF inv sp cpu] have ts: "tasks_on ?Q Readyqueue = tasks_on Q Readyqueue @ [c]"
    "?Q (TFills (cur s)) = map_option (\<lambda>cs. cs @ [TParentAnchor c]) (Q (TFills (cur s)))" by simp_all
  show ?thesis
    by (rule exI [of _ ?s], rule exI [of _ ?Q], unfold fields)
      (intro conjI allI impI f(1) i' c' ts refs card; use own tab kern v(1,2) in blast | simp)
qed

text \<open>C9. \<open>fork\<close>, with a free task, a free directory and enough frames: it returns a fresh
  identifier; the child is the last child of the caller and the last ready thread, and will
  return 0 to the same instruction and user stack. In its own directory it reads in every page of
  code, data and heap what the caller read before the call; so does the caller. The pages of
  data and heap of the child lie in frames that were free before. But the counter with the size of
  the heap is the one of the caller.\<close>
theorem sys_fork_ok:
  assumes "sched_inv s Q" and "cpu_inv s Q" and "can_spawn s Q c" and "can_fork s d p hz h d' q"
  shows "\<exists>s' Q'. sys_fork s = Some (Ret (pidGlobal s), s') \<and> sched_inv s' Q' \<and> cpu_inv s' Q' \<and> cur s' = cur s \<and>
     tasks_on Q' Readyqueue = tasks_on Q Readyqueue @ [c] \<and>
     Q' (TFills (cur s)) = map_option (\<lambda>cs. cs @ [TParentAnchor c]) (Q (TFills (cur s))) \<and>
     PID (task s' c) = pidGlobal s \<and> pidGlobal s' = pidGlobal s + 1 \<and> pare (task s' c) = Some (cur s) \<and>
     k_ctx (task s' c) = KRetFromFork \<and> quantum (task s' c) = 10 \<and>
     u_eip (task s' c) = u_eip (task s (cur s)) \<and> u_esp (task s' c) = u_esp (task s (cur s)) \<and>
     dir_pages_baseAddr (task s' c) = Some d' \<and> my_heap (task s' c) = Some hz \<and>
     dir_pages_num_references (mm s') d' = dir_pages_num_references (mm s) d' + 1 \<and>
     card (avail (mm s')) = card (avail (mm s)) - (NUM_PAG_DATA + h) \<and>
     (\<forall>i k. PAG_LOG_INIT_DATA \<le> i \<and> i < PAG_LOG_INIT_HEAP + h \<and> k < PAGE_SIZE \<longrightarrow>
        peek (mm s') d' (ram s') (i * PAGE_SIZE + k) = peek (mm s) d (ram s) (i * PAGE_SIZE + k) \<and>
        peek (mm s') d (ram s') (i * PAGE_SIZE + k) = peek (mm s) d (ram s) (i * PAGE_SIZE + k)) \<and>
     (\<forall>i. own_page h i \<longrightarrow> frame_no (mm s') q i \<in> avail (mm s) - avail (mm s'))"
  using fork_spec [OF assms] by (elim exE conjE) (intro exI conjI; assumption)

text \<open>C18. The child of \<open>fork\<close> may write everywhere: \<open>set_ss_pag\<close> makes each page it maps a
  writable user page, so the 256 pages of the kernel, page 0 included, are open to the child in
  user mode, in the same frames, and its code pages are writable.\<close>
theorem sys_fork_exposes_kernel:
  assumes "sched_inv s Q" and "cpu_inv s Q" and "can_spawn s Q c" and "can_fork s d p hz h d' q"
  shows "\<exists>s'. sys_fork s = Some (Ret (pidGlobal s), s') \<and> dir_pages_baseAddr (task s' c) = Some d' \<and>
     (\<forall>i < PAG_LOG_INIT_HEAP + h. present (pagusr_table (mm s') q i) \<and> user (pagusr_table (mm s') q i) \<and>
        rw (pagusr_table (mm s') q i)) \<and>
     (\<forall>i < NUM_PAG_KERNEL. frame_no (mm s') q i = frame_no (mm s) p i)"
  using fork_spec [OF assms] by meson

section \<open>Too few frames\<close>

text \<open>The lists after a \<open>fork\<close> that fails: the task goes to the end of the free list.\<close>

definition returned :: "nat \<Rightarrow> lnode lists \<Rightarrow> lnode lists" where
  "returned c Q = enqueue (TList c) Freequeue ((unlink (TList c) Q)(TFills c := None, TWaitList c := None))"

lemma on_list_returned:
  assumes "reps h Q" "typed Q" "on_list Q Freequeue (TList c)"
  shows "on_list (returned c Q) a n \<longleftrightarrow> on_list Q a n \<and> a \<noteq> TFills c \<and> a \<noteq> TWaitList c"
  using assms(3) typed_queue [OF assms(2), of Freequeue] typed_sched [OF assms(2), of a "TList c"]
    dl.on_list_unique [OF assms(1), of a "TList c" Freequeue]
  by (auto simp: returned_def on_list_drop dl.on_list_unlink [OF assms(1)])

lemma typed_returned:
  assumes "reps h Q" "typed Q" "on_list Q Freequeue (TList c)"
  shows "typed (returned c Q)"
proof -
  have n: "returned c Q a = None \<longleftrightarrow> Q a = None \<or> a = TFills c \<or> a = TWaitList c" for a
    by (simp add: returned_def)
  have "is_head a" if "returned c Q a \<noteq> None" for a
    using that assms(2) unfolding n typed_def by blast
  moreover have "returned c Q d \<noteq> None" if "d \<in> sched_queues" for d
    using typed_queue [OF assms(2) that] that unfolding n by auto
  ultimately show ?thesis
    using assms(2) unfolding typed_def on_list_returned [OF assms] by blast
qed

lemma sched_inv_returned:
  assumes inv: "sched_inv s Q" and r: "reps (links s') (returned c Q)" and c: "on_list Q Freequeue (TList c)"
    and same: "idle_task s' = idle_task s" "\<And>t. t \<noteq> c \<Longrightarrow> task s' t = task s t"
    and st: "current_state (task s' c) = ST_RUN"
  shows "sched_inv s' (returned c Q)"
proof -
  have rQ: "reps (links s) Q" and ty: "typed Q" using inv by (simp_all add: sched_inv_def)
  note o = on_list_returned [OF rQ ty c]
  have oL: "on_list (returned c Q) a (TList t) \<longleftrightarrow> on_list Q a (TList t)" for a t
    using typed_sched [OF ty, of a "TList t"] by (auto simp: o)
  have lv: "live (returned c Q) t \<longleftrightarrow> live Q t" for t by (simp add: live_def oL)
  have nl: "\<not> live Q c" using c by (simp add: live_def)
  have ci: "c \<noteq> idle_task s" using inv c unfolding sched_inv_def by blast
  have "\<not> on_list Q d (TList c)" if "d \<noteq> Freequeue" for d
    using dl.on_list_unique [OF rQ _ c, of d] that by blast
  then have ok: "state_ok (returned c Q) t (task s' t)" if "t < NR_TASKS" "t \<noteq> idle_task s" for t
    using sched_inv_state [OF inv that] same(2) [of t] st nl
    by (cases "t = c") (auto simp: state_ok_def oL lv)
  have lc: "t \<noteq> c" if "live Q t" for t using that nl by blast
  have idle: "idle_task s \<noteq> c" using ci by simp
  show ?thesis
    unfolding sched_inv_def same(1) lv oL same(2) [OF idle]
    using r typed_returned [OF rQ ty c] ok same(2) [OF lc] inv
    unfolding sched_inv_def by (intro conjI) simp_all
qed

lemma fork_short:
  assumes inv: "sched_inv s Q" and cpu: "cpu_inv s Q" and sp: "can_spawn s Q c"
    and dir: "dir_pages_baseAddr (task s (cur s)) = Some d" "my_heap (task s (cur s)) = Some hz"
      "find_from 0 (\<lambda>i. dir_pages_num_references (mm s) i \<le> 0) 0 NR_TASKS = Some d'" "hz \<noteq> d'"
    and h: "heap_zones (mm s) hz = int h" "card (avail (mm s)) < NUM_PAG_DATA + h"
  shows "\<exists>s'. sys_fork s = Some (Ret (- ENOMEM), s') \<and> sched_inv s' (returned c Q) \<and> cpu_inv s' (returned c Q) \<and>
     cur s' = cur s \<and> pidGlobal s' = pidGlobal s \<and> ram s' = ram s \<and>
     pagusr_table (mm s') = pagusr_table (mm s) \<and> avail (mm s') = avail (mm s) - {NUM_PAG_KERNEL} \<and>
     dir_pages_num_references (mm s') = (dir_pages_num_references (mm s))(d' := dir_pages_num_references (mm s) d' + 1) \<and>
     PID (task s' c) = PID (task s (cur s))"
proof -
  let ?p = "cur s"
  have r: "reps (links s) Q" and ty: "typed Q" using inv by (simp_all add: sched_inv_def)
  have ne: "?p \<noteq> c" using can_spawn_other [OF sp cpu] .
  have fr: "on_list Q Freequeue (TList c)" by (rule can_spawn_free [OF sp])
  obtain ffs where f: "Q Freequeue = Some (TList c # ffs)" using sp by (auto simp: can_spawn_def)
  have l: "list_first Freequeue (links s) = Some (TList c)" "list_empty Freequeue (links s) = False"
    using dl.rep_first [OF r f] dl.rep_empty [OF r f] by simp_all
  obtain h1 where h1: "list_del (TList c) (links s) = Some h1" "reps h1 (unlink (TList c) Q)"
    using dl.del_unlink [OF r fr] by blast
  note o1 = dl.on_list_unlink [OF r, of "TList c"]
  have ty1: "typed (unlink (TList c) Q)" by (rule typed_unlink [OF r ty])
  have d1: "detached (unlink (TList c) Q) c" using sp by (simp add: can_spawn_def detached_def o1)
  let ?Q2 = "(unlink (TList c) Q)(TFills c := None, TWaitList c := None)"
  have r2: "reps (copy_nodes ?p c h1) ?Q2" by (rule reps_copy_nodes [OF h1(2) ty1 d1]) (simp add: o1)
  have "unlinked ?Q2 (TList c)"
    using typed_anchor [OF ty1, of "TList c"] by (intro unlinkedI) (auto simp: on_list_drop o1)
  from dl.add_tail_enqueue [OF r2 _ this, of Freequeue] typed_queue [OF ty, of Freequeue] obtain h2 where
    h2: "list_add_tail (TList c) Freequeue (copy_nodes ?p c h1) = Some h2" "reps h2 (returned c Q)"
    by (auto simp: returned_def)
  let ?m1 = "(mm s)\<lparr>heap_zones := (heap_zones (mm s))(d' := 0),
     dir_pages_num_references := (dir_pages_num_references (mm s))(d' := dir_pages_num_references (mm s) d' + 1)\<rparr>"
  let ?base = "\<lambda>m. s\<lparr>task := (task s)(c := (task s ?p)\<lparr>dir_pages_baseAddr := Some d'\<rparr>),
       links := copy_nodes ?p c h1, mm := m\<rparr>"
  have st4: "(let s3 = snd (allocate_heap c (snd (allocate_DIR c (copy_task_union ?p c (s\<lparr>links := h1\<rparr>)))))
     in upd_task c (\<lambda>ts. ts\<lparr>my_heap := my_heap (task s3 (cur s3))\<rparr>) s3) = ?base ?m1"
    using fork_start [of "s\<lparr>links := h1\<rparr>" d hz d' c] dir ne by simp
  have av1: "avail ?m1 = avail (mm s)" by (simp add: avail_def)
  obtain m2 where a: "alloc_loop (\<lambda>_. alloc_frame) (\<lambda>_ f. free_frame (word_of_int f)) (NUM_PAG_DATA + h) [] ?m1 = (None, m2)"
      "avail m2 = avail (mm s) - {NUM_PAG_KERNEL}"
    using fr.alloc_loop_short [of ?m1 "NUM_PAG_DATA + h" "[]"] h(2) av1 by auto
  obtain pm where m2: "m2 = ?m1\<lparr>phys_mem := pm\<rparr>" using alloc_loop_phys [OF a(1)] by blast
  have hp: "heap_pages ?p (?base ?m1) = Some (int h)" using dir h ne by (simp add: heap_pages_def)
  let ?s = "s\<lparr>task := (task s)(c := (task s ?p)\<lparr>dir_pages_baseAddr := Some d'\<rparr>), links := h2, mm := m2\<rparr>"
  have eq: "sys_fork s = Some (Ret (- ENOMEM), ?s)"
    unfolding sys_fork_def using l h1(1) st4
    by (simp add: on_links_simp Let_def hp a(1) h2(1) nat_add_distrib)
  have "sched_inv ?s (returned c Q)"
    by (rule sched_inv_returned [OF inv _ fr]) (use h2(2) cpu_running [OF cpu] in simp_all)
  moreover have "cpu_inv ?s (returned c Q)"
  proof -
    have lv: "live (returned c Q) t \<longleftrightarrow> live Q t" for t
      using on_list_returned [OF r ty fr] by (simp add: live_def)
    have lc: "t \<noteq> c" if "live Q t" for t using that fr by (auto simp: live_def)
    show ?thesis using cpu lc ne unfolding cpu_inv_def by (simp add: lv m2)
  qed
  ultimately show ?thesis using eq a(2) m2 ne by (intro exI [of _ ?s]) simp
qed

text \<open>C17. \<open>fork\<close> with too few free frames returns \<open>-ENOMEM\<close>, keeps the invariant, changes no page
  and no table, and puts the task back at the end of the free list. It gives the frames back,
  except frame 256 if it was one of them, but it does not give back the directory, which counts one
  user for ever, nor the identifier: the free task keeps the identifier of the caller.\<close>
theorem sys_fork_no_memory:
  assumes "sched_inv s Q" and "cpu_inv s Q" and "can_spawn s Q c"
    and "dir_pages_baseAddr (task s (cur s)) = Some d" "my_heap (task s (cur s)) = Some hz"
      "find_from 0 (\<lambda>i. dir_pages_num_references (mm s) i \<le> 0) 0 NR_TASKS = Some d'" "hz \<noteq> d'"
    and "heap_zones (mm s) hz = int h" "card (avail (mm s)) < NUM_PAG_DATA + h"
  shows "\<exists>s'. sys_fork s = Some (Ret (- ENOMEM), s') \<and> sched_inv s' (returned c Q) \<and> cpu_inv s' (returned c Q) \<and>
     cur s' = cur s \<and> pidGlobal s' = pidGlobal s \<and> ram s' = ram s \<and>
     pagusr_table (mm s') = pagusr_table (mm s) \<and> avail (mm s') = avail (mm s) - {NUM_PAG_KERNEL} \<and>
     dir_pages_num_references (mm s') = (dir_pages_num_references (mm s))(d' := dir_pages_num_references (mm s) d' + 1) \<and>
     PID (task s' c) = PID (task s (cur s))"
  by (rule fork_short [OF assms])

section \<open>A concrete fork\<close>

text \<open>Each directory has its table; pages 0 to 283 are mapped to themselves, directory 3 is free.\<close>

definition fork_mm :: mm_state where
  "fork_mm = \<lparr>phys_mem = (\<lambda>f. if f < 284 then USED_FRAME else FREE_FRAME),
     dir_pages = (\<lambda>d. (\<lambda>_. 0)(ENTRY_DIR_PAGES := user_pte (of_nat d))),
     pagusr_table = (\<lambda>_ i. if i < 284 then user_pte (of_nat i) else 0),
     dir_pages_num_references = (\<lambda>_. 1)(3 := 0), heap_zones = (\<lambda>_. 0), pagusr_page = 0, cr3 = Some 2\<rparr>"

definition forker :: kstate where
  "forker = booted\<lparr>pidGlobal := 1000, mm := fork_mm\<rparr>"

lemma forker_avail: "NUM_PAG_DATA \<le> card (avail fork_mm)"
proof -
  have "(\<lambda>k. 284 + 2 * k) ` {..<20} \<subseteq> avail fork_mm" by (auto simp: avail_def pool_def fork_mm_def)
  moreover have "card ((\<lambda>k::nat. 284 + 2 * k) ` {..<20}) = 20" by (subst card_image) (auto simp: inj_on_def)
  ultimately show ?thesis using card_mono [of "avail fork_mm"] finite_avail by metis
qed

lemma forker_frame: "i < 284 \<Longrightarrow> frame_no fork_mm p i = i"
proof -
  assume "i < 284"
  then have "(of_nat i :: u32) AND mask 20 = of_nat i" by simp
  then show ?thesis using \<open>i < 284\<close> by (simp add: get_frame_def fork_mm_def)
qed

lemma forker_rows: "d < 1024 \<Longrightarrow> row_of fork_mm d d"
proof -
  assume "d < 1024"
  then have "(of_nat d :: u32) AND mask 20 = of_nat d" by simp
  then show ?thesis using \<open>d < 1024\<close> by (simp add: row_of_def dir_PT_def fork_mm_def)
qed

lemma forker_ok: "sched_inv forker boot_queues" "cpu_inv forker boot_queues" "can_spawn forker boot_queues 2"
  "can_fork forker 2 2 2 0 3 3" "pidGlobal forker = 1000" "cur forker = 1"
proof -
  show "sched_inv forker boot_queues"
    by (rule sched_inv_cong [OF booted_inv(1)]) (simp_all add: forker_def)
  show "cpu_inv forker boot_queues"
    by (rule cpu_inv_cong [OF booted_inv(2)])
      (use booted_inv(2,4,9) in \<open>simp_all add: forker_def cpu_inv_def fork_mm_def del: One_nat_def\<close>)
  show "can_spawn forker boot_queues 2"
    using spawner_inv(3) by (simp add: can_spawn_def forker_def spawner_def)
  have "find_from 0 (\<lambda>i. dir_pages_num_references fork_mm i \<le> 0) 0 NR_TASKS = Some 3"
    by (simp add: find_from.simps fork_mm_def)
  moreover have "space_ok fork_mm 2 0"
    by (simp add: space_ok_def forker_frame) (simp add: fork_mm_def avail_def)
  ultimately show "can_fork forker 2 2 2 0 3 3"
    using forker_avail forker_rows booted_inv(4,9,10)
    by (simp add: can_fork_def forker_def del: One_nat_def) (simp add: fork_mm_def)
  show "pidGlobal forker = 1000" "cur forker = 1" using booted_inv(4) by (simp_all add: forker_def)
qed

lemma sys_fork_ok_witness:
  "\<exists>s'. sys_fork forker = Some (Ret 1000, s') \<and> PID (task s' 2) = 1000 \<and> my_heap (task s' 2) = Some 2"
  using sys_fork_ok [OF forker_ok(1-4)] forker_ok(5) by auto

lemma sys_fork_exposes_kernel_witness:
  "\<exists>s'. sys_fork forker = Some (Ret 1000, s') \<and> user (pagusr_table (mm s') 3 0) \<and> rw (pagusr_table (mm s') 3 0)"
  using sys_fork_exposes_kernel [OF forker_ok(1-4)] forker_ok(5) by auto

text \<open>The same kernel with every frame in use.\<close>

definition starved :: kstate where
  "starved = forker\<lparr>mm := fork_mm\<lparr>phys_mem := (\<lambda>_. USED_FRAME)\<rparr>\<rparr>"

lemma sys_fork_no_memory_witness:
  "\<exists>s'. sys_fork starved = Some (Ret (- ENOMEM), s') \<and> dir_pages_num_references (mm s') 3 = 1 \<and>
     PID (task s' 2) = 1"
proof -
  have i: "sched_inv starved boot_queues"
    by (rule sched_inv_cong [OF forker_ok(1)]) (simp_all add: starved_def)
  have "cpu_inv starved boot_queues"
    by (rule cpu_inv_cong [OF forker_ok(2)]) (simp_all add: starved_def forker_def)
  moreover have "can_spawn starved boot_queues 2"
    using forker_ok(3) by (simp add: can_spawn_def starved_def)
  moreover have "avail (mm starved) = {}" by (simp add: starved_def avail_def)
  moreover have "find_from 0 (\<lambda>i. dir_pages_num_references (mm starved) i \<le> 0) 0 NR_TASKS = Some 3"
    by (simp add: find_from.simps starved_def fork_mm_def)
  ultimately show ?thesis
    using sys_fork_no_memory [OF i, of 2 2 2 3 0] booted_inv(4,5,9,10)
    by (auto simp: starved_def forker_def fork_mm_def)
qed

end
