(* ===== verification/Dyn_Mem.thy ===== *)
theory Dyn_Mem
  imports Fork
begin

text \<open>
  \<open>sys_dyn_mem\<close> of \<^verbatim>\<open>sys.c\<close>: what it promises to the allocator of the user library. The
  loop with rollback is the one of \<open>fork\<close>, with the updates of the page table in between; it
  takes the same frames (\<open>grow_loop\<close>), so the contract of the frames carries over.
\<close>

section \<open>The loop and the tables\<close>

abbreviation (input) plain_alloc where
  "plain_alloc \<equiv> alloc_loop (\<lambda>_. alloc_frame) (\<lambda>_ f. free_frame (word_of_int f))"

abbreviation (input) page_alloc where
  "page_alloc p base \<equiv> alloc_loop
     (\<lambda>i m. let (f, m1) = alloc_frame m in
        (f, if f < 0 then m1 else upd_PT p (\<lambda>PT. set_ss_pag PT (base + i) (word_of_int f)) m1))
     (\<lambda>j f m. upd_PT p (\<lambda>PT. del_ss_pag PT (base + j)) (free_frame (word_of_int f) m))"

lemma alloc_frame_upd_PT:
  "alloc_frame m = (f, m1) \<Longrightarrow> alloc_frame (upd_PT p F m) = (f, upd_PT p F m1)"
  by (auto simp: alloc_frame_def upd_PT_def split: option.splits)

lemma free_frame_upd_PT: "free_frame f (upd_PT p F m) = upd_PT p F (free_frame f m)"
  by (simp add: free_frame_def upd_PT_def)

lemma rollback:
  "fold (\<lambda>(j, f) m. upd_PT p (\<lambda>PT. del_ss_pag PT (base + j)) (free_frame (word_of_int f) m)) (enumerate k fs) (upd_PT p F m) =
   upd_PT p (\<lambda>PT. clear_pages (base + k) (length fs) (F PT)) (fold (\<lambda>(j, f) m. free_frame (word_of_int f) m) (enumerate k fs) m)"
proof (induction fs arbitrary: k F m)
  case Nil
  have "clear_pages (base + k) 0 PT = PT" for PT by (auto simp: fun_eq_iff clear_pages_def)
  then show ?case by simp
next
  case (Cons f fs)
  have "clear_pages (base + Suc k) (length fs) (del_ss_pag (F PT) (base + k)) = clear_pages (base + k) (length (f # fs)) (F PT)" for PT
    by (auto simp: fun_eq_iff clear_pages_def del_ss_pag_def)
  then show ?case by (simp add: free_frame_upd_PT Cons.IH)
qed

lemma alloc_loop_prefix:
  "alloc_loop alloc release n acc m = (Some fs, m') \<Longrightarrow> \<exists>gs. fs = acc @ gs \<and> length gs = n"
proof (induction n arbitrary: acc m)
  case (Suc n)
  then show ?case by (fastforce split: prod.splits if_splits simp: Let_def)
qed simp

lemma map_pages_Suc:
  assumes "\<And>i. v (Suc i) = w i"
  shows "map_pages (Suc b) n w (set_ss_pag PT b (v 0)) = map_pages b (Suc n) v PT"
proof
  fix i
  show "map_pages (Suc b) n w (set_ss_pag PT b (v 0)) i = map_pages b (Suc n) v PT i"
    using assms [of "i - Suc b"] Suc_diff_Suc [of b i]
    by (cases "b < i") (auto simp: map_pages_def set_ss_pag_pte)
qed

lemma grow_loop_enough:
  "plain_alloc n acc m = (Some (acc @ gs), mp) \<Longrightarrow> length gs = n \<Longrightarrow>
   page_alloc p base n acc (upd_PT p F m) = (Some (acc @ gs),
     upd_PT p (\<lambda>PT. map_pages (base + length acc) n (\<lambda>i. word_of_int (gs ! i)) (F PT)) mp)"
proof (induction n arbitrary: acc gs m F)
  case 0
  have "map_pages b 0 v PT = PT" for b v PT by (auto simp: fun_eq_iff map_pages_def)
  with 0 show ?case by simp
next
  case (Suc n)
  obtain f m1 where f: "alloc_frame m = (f, m1)" by (cases "alloc_frame m")
  have pos: "\<not> f < 0" using Suc.prems(1) f by (auto simp: Let_def)
  with Suc.prems(1) f have p: "plain_alloc n (acc @ [f]) m1 = (Some (acc @ gs), mp)" by simp
  obtain g gs' where g: "gs = g # gs'" "length gs' = n" using Suc.prems(2) by (cases gs) auto
  have "f = g" using alloc_loop_prefix [OF p] g(1) by auto
  then have p': "plain_alloc n (acc @ [f]) m1 = (Some ((acc @ [f]) @ gs'), mp)" using p g(1) by simp
  let ?F = "\<lambda>PT. set_ss_pag (F PT) (base + length acc) (word_of_int f)"
  have "map_pages (base + length (acc @ [f])) n (\<lambda>i. word_of_int (gs' ! i)) (?F PT) =
        map_pages (base + length acc) (Suc n) (\<lambda>i. word_of_int (gs ! i)) (F PT)" for PT
    using map_pages_Suc [of "\<lambda>i. word_of_int (gs ! i)" "\<lambda>i. word_of_int (gs' ! i)" "base + length acc" n "F PT"]
    by (simp add: g(1) \<open>f = g\<close>)
  with Suc.IH [OF p' g(2), of ?F] show ?case
    using pos \<open>f = g\<close> by (simp add: alloc_frame_upd_PT [OF f] Let_def g(1))
qed

lemma grow_loop_short:
  "plain_alloc n acc m = (None, mp) \<Longrightarrow>
   \<exists>k \<le> card (avail m). page_alloc p base n acc (upd_PT p F m) = (None, upd_PT p (\<lambda>PT. clear_pages base (length acc + k) (F PT)) mp)"
proof (induction n arbitrary: acc m F)
  case (Suc n)
  show ?case
  proof (cases rule: alloc_frame_cases [of m])
    case none
    then show ?thesis
      using Suc.prems rollback [of p base 0 acc F m] alloc_frame_upd_PT [OF none(2)]
      by (intro exI [of _ 0]) (simp add: Let_def)
  next
    case (some f)
    let ?F = "\<lambda>PT. set_ss_pag (F PT) (base + length acc) (word_of_int (int f))"
    let ?m1 = "m\<lparr>phys_mem := (phys_mem m)(f := USED_FRAME)\<rparr>"
    have c: "card (avail m) = Suc (card (avail ?m1))" using some(1) card_Suc_Diff1 [of "avail m" f] by (simp add: avail_mark_used)
    from some(3) Suc.prems have p: "plain_alloc n (acc @ [int f]) ?m1 = (None, mp)" by simp
    from Suc.IH [OF p, of ?F] obtain k where k: "k \<le> card (avail ?m1)"
      "page_alloc p base n (acc @ [int f]) (upd_PT p ?F ?m1) =
         (None, upd_PT p (\<lambda>PT. clear_pages base (length acc + Suc k) (?F PT)) mp)" by auto
    have "clear_pages base (length acc + Suc k) (?F PT) = clear_pages base (length acc + Suc k) (F PT)" for PT
      by (auto simp: fun_eq_iff clear_pages_def set_ss_pag_pte)
    with k c show ?thesis
      by (intro exI [of _ "Suc k"]) (simp add: alloc_frame_upd_PT [OF some(3)] Let_def)
  qed
qed simp

text \<open>As long as the pages it reaches are in the table, \<open>dyn_mem_grow\<close> is that loop.\<close>

abbreviation (input) checked_alloc where
  "checked_alloc p base \<equiv> alloc_loop (\<lambda>i. map_frame p (base + i)) (\<lambda>j. unmap_frame p (base + j))"

lemma map_frame_simps:
  "map_frame p page None = (0, None)"
  "map_frame p page (Some m) = (let (f, m1) = alloc_frame m in
     (f, if f < 0 then Some m1
         else if page < TOTAL_PAGES then Some (upd_PT p (\<lambda>PT. set_ss_pag PT page (word_of_int f)) m1) else None))"
  by (auto simp: map_frame_def in_table_def split: prod.split)

lemma unmap_all:
  "fold (\<lambda>(j, f). unmap_frame p (base + j) f) xs (Some m) =
     Some (fold (\<lambda>(j, f) m. upd_PT p (\<lambda>PT. del_ss_pag PT (base + j)) (free_frame (word_of_int f) m)) xs m)"
  by (induction xs arbitrary: m) (auto simp: unmap_frame_def)

lemma checked_undefined: "checked_alloc p base n acc None = (Some (acc @ replicate n 0), None)"
  by (induction n arbitrary: acc) (simp_all add: map_frame_simps replicate_append_same)

lemma checked_runs:
  "checked_alloc p base n acc (Some m) = (r, Some m') \<Longrightarrow>
   page_alloc p base n acc m = (r, m') \<and> (r \<noteq> None \<and> 0 < n \<longrightarrow> base + length acc + n \<le> TOTAL_PAGES)"
proof (induction n arbitrary: acc m)
  case (Suc n)
  obtain f m1 where f: "alloc_frame m = (f, m1)" by (cases "alloc_frame m")
  show ?case
  proof (cases "f < 0")
    case True
    then show ?thesis using Suc.prems f by (simp add: map_frame_simps unmap_all)
  next
    case False
    let ?m2 = "upd_PT p (\<lambda>PT. set_ss_pag PT (base + length acc) (word_of_int f)) m1"
    have t: "base + length acc < TOTAL_PAGES"
      using Suc.prems f False checked_undefined [where p = p and base = base and n = n and acc = "acc @ [f]"]
      by (auto simp: map_frame_simps split: if_splits)
    then have "checked_alloc p base n (acc @ [f]) (Some ?m2) = (r, Some m')"
      using Suc.prems f False by (simp add: map_frame_simps)
    from Suc.IH [OF this] show ?thesis using f False t by (cases n) auto
  qed
qed auto

lemma checked_in_table:
  "base + length acc + min n (card (avail m)) \<le> TOTAL_PAGES \<Longrightarrow>
   \<exists>r m'. checked_alloc p base n acc (Some m) = (r, Some m')"
proof (induction n arbitrary: acc m)
  case (Suc n)
  show ?case
  proof (cases rule: alloc_frame_cases [of m])
    case none
    then show ?thesis by (simp add: map_frame_simps unmap_all)
  next
    case (some f)
    let ?m1 = "m\<lparr>phys_mem := (phys_mem m)(f := USED_FRAME)\<rparr>"
    let ?m2 = "upd_PT p (\<lambda>PT. set_ss_pag PT (base + length acc) (word_of_int (int f))) ?m1"
    have "avail ?m2 = avail m - {f}" using avail_mark_used [of m f] by (simp add: avail_def upd_PT_def)
    then have c: "card (avail m) = Suc (card (avail ?m2))" using some(1) card_Suc_Diff1 [of "avail m" f] by simp
    have t: "base + length acc < TOTAL_PAGES" "base + length (acc @ [int f]) + min n (card (avail ?m2)) \<le> TOTAL_PAGES"
      using Suc.prems c by simp_all
    from Suc.IH [OF t(2)] show ?thesis using some(3) t(1) by (simp add: map_frame_simps)
  qed
qed auto

lemma dyn_mem_grow_eq:
  "PAG_LOG_INIT_HEAP + h + min n (card (avail m)) \<le> TOTAL_PAGES \<Longrightarrow> page_alloc p (PAG_LOG_INIT_HEAP + h) n [] m = (r, m') \<Longrightarrow>
   dyn_mem_grow p (PAG_LOG_INIT_HEAP + h) (int n) m = (r, Some m')"
  using checked_in_table [where p = p and base = "PAG_LOG_INIT_HEAP + h" and n = n and acc = "[]" and m = m] checked_runs [where p = p and base = "PAG_LOG_INIT_HEAP + h" and n = n and acc = "[]" and m = m]
  unfolding dyn_mem_grow_def nat_int by fastforce

section \<open>The heap of a process\<close>

text \<open>\<open>h\<close> pages from page 284 on, each in a frame of its own that the allocator may take back.\<close>

definition heap_map :: "mm_state \<Rightarrow> nat \<Rightarrow> nat \<Rightarrow> bool" where
  "heap_map m p h \<longleftrightarrow> PAG_LOG_INIT_HEAP + h \<le> TOTAL_PAGES \<and>
     (\<forall>i. PAG_LOG_INIT_HEAP \<le> i \<and> i < PAG_LOG_INIT_HEAP + h \<longrightarrow>
        present (pagusr_table m p i) \<and> frame_no m p i \<in> pool - avail m) \<and>
     inj_on (frame_no m p) {PAG_LOG_INIT_HEAP..<PAG_LOG_INIT_HEAP + h} \<and>
     (\<forall>i. PAG_LOG_INIT_HEAP + h \<le> i \<and> i < TOTAL_PAGES \<longrightarrow> pagusr_table m p i = 0)"

definition has_heap :: "kstate \<Rightarrow> nat \<Rightarrow> nat \<Rightarrow> nat \<Rightarrow> nat \<Rightarrow> bool" where
  "has_heap s d p hz h \<longleftrightarrow> dir_pages_baseAddr (task s (cur s)) = Some d \<and> row_of (mm s) d p \<and>
     cr3 (mm s) = Some d \<and> my_heap (task s (cur s)) = Some hz \<and> heap_zones (mm s) hz = int h \<and> heap_map (mm s) p h"

text \<open>The frames bound the heap: it never reaches the end of the table.\<close>

lemma heap_map_room:
  assumes "heap_map m p h"
  shows "h + card (avail m) \<le> 384"
proof -
  let ?I = "{PAG_LOG_INIT_HEAP..<PAG_LOG_INIT_HEAP + h}"
  have "frame_no m p ` ?I \<subseteq> pool - avail m" "inj_on (frame_no m p) ?I" using assms by (auto simp: heap_map_def)
  then have "card ?I \<le> card (pool - avail m)" by (intro card_inj_on_le) auto
  also have "\<dots> = 384 - card (avail m)"
    by (subst card_Diff_subset) (auto simp: avail_def card_pool)
  finally have "h \<le> 384 - card (avail m)" by simp
  moreover have "card (avail m) \<le> 384"
    using card_mono [of pool "avail m"] card_pool by (auto simp: avail_def)
  ultimately show ?thesis by simp
qed

lemma map_pages_other [simp]:
  "\<not> (lo \<le> i \<and> i < lo + n) \<Longrightarrow> map_pages lo n v PT i = PT i"
  by (auto simp: map_pages_def)

lemma frame_map_pages:
  "lo \<le> i \<Longrightarrow> i < lo + n \<Longrightarrow> length fs = n \<Longrightarrow> \<forall>f \<in> set fs. f < 1024 \<Longrightarrow>
   unat (get_frame (map_pages lo n (\<lambda>i. of_nat (fs ! i)) PT) i) = fs ! (i - lo)"
proof -
  assume i: "lo \<le> i" "i < lo + n" "length fs = n" "\<forall>f \<in> set fs. f < 1024"
  then have b: "fs ! (i - lo) < 1024" by simp
  then have "fs ! (i - lo) < 2 ^ 20" by simp
  then have "get_frame (map_pages lo n (\<lambda>i. of_nat (fs ! i)) PT) i = of_nat (fs ! (i - lo))"
    using i by (simp add: get_frame_def map_pages_def)
  then show ?thesis using unat_frame [OF b] by simp
qed

lemma heap_map_grow:
  assumes hm: "heap_map m p h" and fs: "length fs = n" "distinct fs" "set fs \<subseteq> avail m" and n: "PAG_LOG_INIT_HEAP + h + n \<le> TOTAL_PAGES"
    and m': "pagusr_table m' p = map_pages (PAG_LOG_INIT_HEAP + h) n (\<lambda>i. of_nat (fs ! i)) (pagusr_table m p)"
      "avail m' = avail m - set fs"
  shows "heap_map m' p (h + n)"
proof -
  have b: "\<forall>f \<in> set fs. f < 1024" using fs(3) availD by blast
  have new: "frame_no m' p i = fs ! (i - (284 + h))" "frame_no m' p i \<in> set fs" "present (pagusr_table m' p i)"
    if "284 + h \<le> i" "i < 284 + h + n" for i
    using frame_map_pages [of "284 + h" i n fs] fs(1) b that by (simp_all add: m'(1)) (simp add: map_pages_def)
  have old: "frame_no m' p i = frame_no m p i" "pagusr_table m' p i = pagusr_table m p i" if "i < 284 + h" for i
    using that by (simp_all add: m'(1) get_frame_def)
  have pool: "set fs \<subseteq> pool" using fs(3) by (auto simp: avail_def)
  have o: "frame_no m p i \<in> pool - avail m" "present (pagusr_table m p i)" if "284 \<le> i" "i < 284 + h" for i
    using hm that by (simp_all add: heap_map_def)
  have P: "present (pagusr_table m' p i) \<and> frame_no m' p i \<in> pool - avail m'" if "284 \<le> i" "i < 284 + h + n" for i
  proof (cases "i < 284 + h")
    case True
    with o [of i] old [of i] that m'(2) show ?thesis by simp
  next
    case False
    with new [of i] that pool m'(2) show ?thesis by auto
  qed
  have inj: "inj_on (frame_no m' p) {284..<284 + (h + n)}"
  proof (rule linorder_inj_onI)
    fix i j assume ij: "i < j" "i \<in> {284..<284 + (h + n)}" "j \<in> {284..<284 + (h + n)}"
    have inj0: "inj_on (frame_no m p) {284..<284 + h}" using hm by (simp add: heap_map_def)
    consider "j < 284 + h" | "i < 284 + h" "284 + h \<le> j" | "284 + h \<le> i" by linarith
    then show "frame_no m' p i \<noteq> frame_no m' p j"
    proof cases
      case 1
      with ij old show ?thesis using inj_onD [OF inj0, of i j] by auto
    next
      case 2
      with ij o [of i] new(2) [of j] old(1) [of i] fs(3) show ?thesis by auto
    next
      case 3
      with ij new(1) [of i] new(1) [of j] fs(1) nth_eq_iff_index_eq [OF fs(2)] show ?thesis by auto
    qed
  qed (simp add: linorder_class.linear)
  have "pagusr_table m' p i = 0" if "284 + (h + n) \<le> i" "i < TOTAL_PAGES" for i
    using that hm by (simp add: m'(1) heap_map_def)
  with P inj n show ?thesis by (simp add: heap_map_def)
qed

lemma upd_PT_id: "upd_PT p (\<lambda>PT. PT) m = m"
  by (simp add: upd_PT_def)

lemma has_heap_cong:
  assumes "has_heap s d p hz h" "heap_map m p h'" "heap_zones m hz = int h'" "dir_pages m = dir_pages (mm s)"
    "pagusr_page m = pagusr_page (mm s)" "cr3 m = cr3 (mm s)"
  shows "has_heap (s\<lparr>mm := m\<rparr>) d p hz h'"
  using assms by (simp add: has_heap_def row_of_def dir_PT_def)

lemma get_PT_row: "has_heap s d p hz h \<Longrightarrow> get_PT (cur s) s = Some p"
  by (simp add: has_heap_def get_PT_def row_of_def)

lemma dyn_mem_grow_spec:
  assumes hh: "has_heap s d p hz h" and n: "0 < n" "n \<le> card (avail (mm s))"
  shows "\<exists>m'. sys_dyn_mem (int n) s = Some (Ret (heap_addr (int h)), s\<lparr>mm := m'\<rparr>) \<and>
     has_heap (s\<lparr>mm := m'\<rparr>) d p hz (h + n) \<and>
     avail m' \<subseteq> avail (mm s) \<and> card (avail m') = card (avail (mm s)) - n \<and>
     (\<forall>q i. q \<noteq> p \<or> i < PAG_LOG_INIT_HEAP + h \<longrightarrow> pagusr_table m' q i = pagusr_table (mm s) q i)"
proof -
  obtain fs mp where a: "plain_alloc n [] (mm s) = (Some (map int fs), mp)" "length fs = n" "distinct fs"
     "set fs \<subseteq> avail (mm s)" "avail mp = avail (mm s) - set fs"
    using fr.alloc_loop_enough [of n "mm s" "[]"] n(2) by auto
  obtain pm where mp: "mp = (mm s)\<lparr>phys_mem := pm\<rparr>" using alloc_loop_phys [OF a(1)] by blast
  let ?base = "PAG_LOG_INIT_HEAP + h"
  let ?m2 = "upd_PT p (map_pages ?base n (\<lambda>i. word_of_int (map int fs ! i))) mp"
  have hm: "heap_map (mm s) p h" using hh by (simp add: has_heap_def)
  have "page_alloc p ?base n [] (mm s) = (Some (map int fs), ?m2)"
    using grow_loop_enough [of n "[]" "mm s" "map int fs" mp p ?base "\<lambda>PT. PT"] a(1,2)
    by (simp add: upd_PT_id cong: if_cong)
  then have g: "dyn_mem_grow p ?base (int n) (mm s) = (Some (map int fs), Some ?m2)"
    by (intro dyn_mem_grow_eq) (use heap_map_room [OF hm] in simp)
  let ?m = "?m2\<lparr>heap_zones := (heap_zones ?m2)(hz := int h + int n)\<rparr>"
  have z: "heap_zones (mm s) hz = int h" "my_heap (task s (cur s)) = Some hz" using hh by (simp_all add: has_heap_def)
  have call: "sys_dyn_mem (int n) s = Some (Ret (heap_addr (int h)), s\<lparr>mm := ?m\<rparr>)"
    using n(1) get_PT_row [OF hh] g z by (simp add: sys_dyn_mem_def Let_def)
  have "map_pages ?base n (\<lambda>i. word_of_int (map int fs ! i)) PT = map_pages ?base n (\<lambda>i. of_nat (fs ! i)) PT" for PT :: page_table
    using a(2) by (auto simp: fun_eq_iff map_pages_def)
  then have tab: "pagusr_table ?m p = map_pages ?base n (\<lambda>i. of_nat (fs ! i)) (pagusr_table (mm s) p)"
    by (simp add: mp)
  have av: "avail ?m = avail (mm s) - set fs" using a(5) by (simp add: avail_def upd_PT_def)
  have "heap_map ?m p (h + n)"
  proof (rule heap_map_grow [OF _ a(2-4) _ tab av])
    show "heap_map (mm s) p h" by (rule hm)
    show "PAG_LOG_INIT_HEAP + h + n \<le> TOTAL_PAGES" using heap_map_room [OF hm] n(2) by linarith
  qed
  then have "has_heap (s\<lparr>mm := ?m\<rparr>) d p hz (h + n)"
    by (rule has_heap_cong [OF hh]) (simp_all add: mp)
  moreover have "card (avail ?m) = card (avail (mm s)) - n"
    unfolding av using a(2-4) by (simp add: card_Diff_subset distinct_card)
  ultimately show ?thesis using call av by (intro exI [of _ ?m]) (simp add: mp)
qed

lemma dyn_mem_short_spec:
  assumes hh: "has_heap s d p hz h" and n: "card (avail (mm s)) < n"
  shows "\<exists>m'. sys_dyn_mem (int n) s = Some (Ret (- ENOMEM), s\<lparr>mm := m'\<rparr>) \<and>
     has_heap (s\<lparr>mm := m'\<rparr>) d p hz h \<and> avail m' = avail (mm s) - {NUM_PAG_KERNEL} \<and>
     pagusr_table m' = pagusr_table (mm s) \<and> heap_zones m' = heap_zones (mm s)"
proof -
  obtain mp where a: "plain_alloc n [] (mm s) = (None, mp)" "avail mp = avail (mm s) - {NUM_PAG_KERNEL}"
    using fr.alloc_loop_short [of "mm s" n "[]"] n by auto
  obtain pm where mp: "mp = (mm s)\<lparr>phys_mem := pm\<rparr>" using alloc_loop_phys [OF a(1)] by blast
  let ?base = "PAG_LOG_INIT_HEAP + h"
  have z: "heap_zones (mm s) hz = int h" "my_heap (task s (cur s)) = Some hz" "heap_map (mm s) p h"
    using hh by (simp_all add: has_heap_def)
  obtain k where k: "k \<le> card (avail (mm s))"
    "page_alloc p ?base n [] (upd_PT p (\<lambda>PT. PT) (mm s)) = (None, upd_PT p (clear_pages ?base k) mp)"
    using grow_loop_short [OF a(1), of p ?base "\<lambda>PT. PT"] by auto
  have "?base + k \<le> TOTAL_PAGES" using heap_map_room [OF z(3)] k(1) by simp
  then have "upd_PT p (clear_pages ?base k) mp = mp"
    by (intro clear_nothing) (use z(3) in \<open>simp add: mp heap_map_def\<close>)
  with k(2) have "page_alloc p ?base n [] (mm s) = (None, mp)" by (simp add: upd_PT_id cong: if_cong)
  then have g: "dyn_mem_grow p ?base (int n) (mm s) = (None, Some mp)"
    by (intro dyn_mem_grow_eq) (use heap_map_room [OF z(3)] in simp)
  have "n > 0" using n by simp
  then have call: "sys_dyn_mem (int n) s = Some (Ret (- ENOMEM), s\<lparr>mm := mp\<rparr>)"
    using get_PT_row [OF hh] g z by (simp add: sys_dyn_mem_def Let_def)
  have "heap_map mp p h" using z(3) a(2) unfolding heap_map_def by (auto simp: mp)
  then have "has_heap (s\<lparr>mm := mp\<rparr>) d p hz h"
    by (rule has_heap_cong [OF hh]) (simp_all add: mp z)
  then show ?thesis using call a(2) by (intro exI [of _ mp]) (simp add: mp)
qed

text \<open>Giving pages back.\<close>

lemma release_pages_eq:
  "release_pages p lo n m = upd_PT p (clear_pages lo n)
     (fold (\<lambda>i. free_frame (get_frame (pagusr_table m p) i)) [lo..<lo + n] m)"
proof (induction n)
  case 0
  have "clear_pages lo 0 = (\<lambda>PT. PT)" by (auto simp: fun_eq_iff clear_pages_def)
  then show ?case by (simp add: release_pages_def upd_PT_id)
next
  case (Suc n)
  let ?F = "\<lambda>n. fold (\<lambda>i. free_frame (get_frame (pagusr_table m p) i)) [lo..<lo + n] m"
  have t: "pagusr_table (?F n) = pagusr_table m" for n
    by (induction n) (simp_all add: free_frame_def)
  have c: "(\<lambda>PT. del_ss_pag (clear_pages lo n PT) (lo + n)) = clear_pages lo (Suc n)"
    by (auto simp: fun_eq_iff clear_pages_def del_ss_pag_def)
  have "get_frame (clear_pages lo n (pagusr_table m p)) (lo + n) = get_frame (pagusr_table m p) (lo + n)"
    by (simp add: get_frame_def clear_pages_def)
  with Suc.IH show ?case by (simp add: release_pages_def t free_frame_upd_PT c)
qed

lemma avail_free_all:
  "\<forall>i \<in> set is'. unat (F i :: u32) \<in> pool \<Longrightarrow>
   avail (fold (\<lambda>i. free_frame (F i)) is' m) = avail m \<union> ((\<lambda>i. unat (F i)) ` set is' - {NUM_PAG_KERNEL})"
proof (induction is' arbitrary: m)
  case (Cons i is')
  then have "unat (F i) \<in> pool" by simp
  from avail_free_frame [OF this, of m]
  have "avail (free_frame (F i) m) = avail m \<union> ({unat (F i)} - {NUM_PAG_KERNEL})" by auto
  with Cons show ?case by auto
qed simp

lemma free_all_frame:
  "\<exists>pm. fold (\<lambda>i. free_frame (F i)) is' m = m\<lparr>phys_mem := pm\<rparr>"
proof (induction is' arbitrary: m)
  case Nil
  have "m = m\<lparr>phys_mem := phys_mem m\<rparr>" by simp
  then show ?case by (metis fold_simps(1))
next
  case (Cons i is')
  have "\<exists>pm. free_frame (F i) m = m\<lparr>phys_mem := pm\<rparr>" by (cases m) (auto simp: free_frame_def)
  then obtain pm where "free_frame (F i) m = m\<lparr>phys_mem := pm\<rparr>" by blast
  with Cons.IH [of "m\<lparr>phys_mem := pm\<rparr>"] show ?case by auto
qed

lemma heap_map_shrink:
  assumes hm: "heap_map m p (k + n)"
    and tab: "\<And>i. pagusr_table m' p i = (if PAG_LOG_INIT_HEAP + k \<le> i \<and> i < PAG_LOG_INIT_HEAP + k + n then 0 else pagusr_table m p i)"
    and av: "avail m' = avail m \<union> (frame_no m p ` {PAG_LOG_INIT_HEAP + k..<PAG_LOG_INIT_HEAP + k + n} - {NUM_PAG_KERNEL})"
  shows "heap_map m' p k"
proof -
  have inj0: "inj_on (frame_no m p) {284..<284 + (k + n)}" using hm by (simp add: heap_map_def)
  have fr: "frame_no m' p i = frame_no m p i" if "i < 284 + k" for i using that by (simp add: get_frame_def tab)
  have P: "present (pagusr_table m' p i) \<and> frame_no m' p i \<in> pool - avail m'" if i: "284 \<le> i" "i < 284 + k" for i
  proof -
    have old: "present (pagusr_table m p i)" "frame_no m p i \<in> pool - avail m"
      using hm i by (simp_all add: heap_map_def)
    have "frame_no m p i \<notin> frame_no m p ` {284 + k..<284 + k + n}"
      using inj_onD [OF inj0, of i] i by fastforce
    with old show ?thesis using i by (simp add: fr tab av)
  qed
  have "inj_on (frame_no m' p) {284..<284 + k}"
  proof (rule inj_onI)
    fix i j assume "i \<in> {284..<284 + k}" "j \<in> {284..<284 + k}" "frame_no m' p i = frame_no m' p j"
    then show "i = j" using inj_onD [OF inj0, of i j] fr by auto
  qed
  moreover have "pagusr_table m' p i = 0" if "284 + k \<le> i" "i < TOTAL_PAGES" for i
    using that hm by (simp add: tab heap_map_def)
  ultimately show ?thesis using P hm by (simp add: heap_map_def)
qed

lemma dyn_mem_shrink_spec:
  assumes hh: "has_heap s d p hz (k + n)" and n: "0 < n"
  shows "\<exists>m'. sys_dyn_mem (- int n) s = Some (Ret (heap_addr (int k)), s\<lparr>mm := m'\<rparr>) \<and>
     has_heap (s\<lparr>mm := m'\<rparr>) d p hz k \<and>
     avail m' = avail (mm s) \<union>
       (frame_no (mm s) p ` {PAG_LOG_INIT_HEAP + k..<PAG_LOG_INIT_HEAP + k + n} - {NUM_PAG_KERNEL}) \<and>
     (\<forall>q i. q \<noteq> p \<or> i < PAG_LOG_INIT_HEAP + k \<longrightarrow> pagusr_table m' q i = pagusr_table (mm s) q i)"
proof -
  let ?lo = "PAG_LOG_INIT_HEAP + k" and ?m = "mm s"
  have z: "heap_zones ?m hz = int (k + n)" "my_heap (task s (cur s)) = Some hz" "heap_map ?m p (k + n)"
    "cr3 ?m = Some d" "dir_pages_baseAddr (task s (cur s)) = Some d"
    using hh by (simp_all add: has_heap_def)
  let ?F = "\<lambda>i. get_frame (pagusr_table ?m p) i"
  obtain pm where pm: "fold (\<lambda>i. free_frame (?F i)) [?lo..<?lo + n] ?m = ?m\<lparr>phys_mem := pm\<rparr>"
    using free_all_frame by blast
  have pool: "\<forall>i \<in> set [?lo..<?lo + n]. unat (?F i) \<in> pool"
    using z(3) by (auto simp: heap_map_def)
  have av: "avail (?m\<lparr>phys_mem := pm\<rparr>) = avail ?m \<union> (frame_no ?m p ` {?lo..<?lo + n} - {NUM_PAG_KERNEL})"
    using avail_free_all [OF pool, of ?m] unfolding pm by simp
  let ?m1 = "upd_PT p (clear_pages ?lo n) (?m\<lparr>phys_mem := pm\<rparr>)"
  have rel: "release_pages p ?lo n ?m = ?m1" using release_pages_eq [of p ?lo n ?m] pm by simp
  let ?m' = "?m1\<lparr>heap_zones := (heap_zones ?m1)(hz := int k)\<rparr>"
  have b: "int n \<noteq> 2 ^ 31" "nat (int k + int n) \<le> 740" using z(3) n by (simp_all add: heap_map_def nat_int_add)
  have cr: "?m'\<lparr>cr3 := Some d\<rparr> = ?m'" using z(4) by simp
  have call: "sys_dyn_mem (- int n) s = Some (Ret (heap_addr (int k)), s\<lparr>mm := ?m'\<rparr>)"
    using n b get_PT_row [OF hh] z rel cr
    by (simp add: sys_dyn_mem_def upd_mm_def set_cr3_def get_DIR_def Let_def in_table_def)
  have av': "avail ?m' = avail ?m \<union> (frame_no ?m p ` {?lo..<?lo + n} - {NUM_PAG_KERNEL})"
    using av by (simp add: avail_def)
  have tab: "pagusr_table ?m' p i = (if ?lo \<le> i \<and> i < ?lo + n then 0 else pagusr_table ?m p i)" for i
    by (simp add: clear_pages_def)
  have "heap_map ?m' p k" by (rule heap_map_shrink [OF z(3) tab av'])
  then have "has_heap (s\<lparr>mm := ?m'\<rparr>) d p hz k"
    by (rule has_heap_cong [OF hh]) simp_all
  moreover have "\<forall>q i. q \<noteq> p \<or> i < ?lo \<longrightarrow> pagusr_table ?m' q i = pagusr_table ?m q i"
    by (simp add: upd_PT_def clear_pages_def)
  ultimately show ?thesis using call av' by blast
qed

text \<open>The counter of the heap is shared with the children that \<open>fork\<close> makes, and it is all the code looks at: once
  it stands at the end of the table, the next page of \<open>dyn_mem\<close> is written into another table.\<close>

lemma dyn_mem_overrun:
  assumes "my_heap (task s (cur s)) = Some hz" "heap_zones (mm s) hz = int h" "get_PT (cur s) s = Some p"
    and "TOTAL_PAGES \<le> PAG_LOG_INIT_HEAP + h" "avail (mm s) \<noteq> {}" "0 < n"
  shows "sys_dyn_mem (int n) s = None"
proof -
  obtain k where n: "n = Suc k" using assms(6) by (cases n) auto
  have t: "\<not> PAG_LOG_INIT_HEAP + h < TOTAL_PAGES" using assms(4) by simp
  have "snd (dyn_mem_grow p (PAG_LOG_INIT_HEAP + h) (int n) (mm s)) = None"
    by (cases rule: alloc_frame_cases [of "mm s"])
      (use assms(5) t in \<open>simp_all add: n dyn_mem_grow_def nat_add_distrib map_frame_simps checked_undefined\<close>)
  then obtain fs where "dyn_mem_grow p (PAG_LOG_INIT_HEAP + h) (int n) (mm s) = (fs, None)"
    by (cases "dyn_mem_grow p (PAG_LOG_INIT_HEAP + h) (int n) (mm s)") simp
  then show ?thesis using assms by (cases fs) (simp_all add: sys_dyn_mem_def Let_def)
qed

end
