(* ===== verification/Exit.thy ===== *)
theory Exit
  imports Sem_Queues Dyn_Mem
begin

text \<open>
  The end of a thread: \<open>sys_exit\<close> and \<open>sys_wait_thread\<close> of \<^verbatim>\<open>sys.c\<close>. \<open>inherit\<close> and \<open>release\<close> are
  the bodies of the two traversals of \<open>sys_exit\<close>: the children are appended to the idle task's list
  while the list they are still on is traversed, and each waiting thread is taken off the list it is
  found on. The lemmas follow the exiting thread through a state in which it still has its
  identifier (\<open>upd_task c f\<close> commutes with what the calls do to the other threads), so that the
  invariant of the scheduler holds until the thread goes to the free list.
\<close>

section \<open>The children\<close>

definition inherit :: "lnode \<Rightarrow> kstate \<Rightarrow> kstate option" where
  "inherit pos s = do {
     t \<leftarrow> list_head_to_task_struct pos;
     on_links (list_add_tail pos (TFills (idle_task s))) (upd_task t (\<lambda>ts. ts\<lparr>pare := Some (idle_task s)\<rparr>) s) }"

definition orphans :: "nat list \<Rightarrow> kstate \<Rightarrow> kstate" where
  "orphans cs s = s\<lparr>task := (\<lambda>t. if t \<in> set cs then (task s t)\<lparr>pare := Some (idle_task s)\<rparr> else task s t)\<rparr>"

lemma orphans_fields [simp]:
  "links (orphans cs s) = links s" "idle_task (orphans cs s) = idle_task s" "cur (orphans cs s) = cur s"
  "mm (orphans cs s) = mm s" "esp0 (orphans cs s) = esp0 s"
  "PID (task (orphans cs s) t) = PID (task s t)" "current_state (task (orphans cs s) t) = current_state (task s t)"
  "dir_pages_baseAddr (task (orphans cs s) t) = dir_pages_baseAddr (task s t)"
  by (simp_all add: orphans_def)

lemma inherit_children:
  assumes r: "reps (links s) Q" and ty: "typed Q" and f: "Q (TFills c) = Some (map TParentAnchor cs)"
    and i: "Q (TFills (idle_task s)) = Some os" "c \<noteq> idle_task s"
  shows "\<exists>h. list_for_each_safe links inherit (TFills c) s = Some ((orphans cs s)\<lparr>links := h\<rparr>) \<and>
     reps h (Q(TFills c := None, TFills (idle_task s) \<mapsto> os @ map TParentAnchor cs))"
proof -
  let ?i = "TFills (idle_task s)" and ?c = "TFills c"
  let ?Q = "\<lambda>ds. Q(?c := None, ?i \<mapsto> os @ map TParentAnchor ds)"
  let ?I = "\<lambda>ys s1. \<exists>ds es h. cs = ds @ es \<and> ys = map TParentAnchor es \<and> s1 = (orphans ds s)\<lparr>links := h\<rparr> \<and>
     reps h (?Q ds) \<and> chain h ?c ys"
  have ic: "?c \<noteq> ?i" using i(2) by simp
  have dist: "distinct (map TParentAnchor cs)" using dl.rep_distinct [OF r f] by simp
  have un: "unlinked (?Q ds) (TParentAnchor e)" if e: "cs = ds @ es" "e \<in> set es" for ds es e
  proof (intro unlinkedI)
    show "?Q ds (TParentAnchor e) = None" using typed_anchor [OF ty, of "TParentAnchor e"] by simp
    have l: "on_list Q ?c (TParentAnchor e)" using f e by (simp add: on_list_def)
    have "e \<notin> set ds" using dist e by (auto simp: distinct_map)
    moreover have "\<not> on_list Q b (TParentAnchor e)" if "b \<noteq> ?c" for b
      using dl.on_list_unique [OF r l] that by blast
    ultimately show "\<not> on_list (?Q ds) b (TParentAnchor e)" for b
      using i ic by (auto simp: on_list_def split: if_splits)
  qed
  have step: "\<exists>s'. inherit n s1 = Some s' \<and> ?I ys s'" if I: "?I (n # ys) s1" for n ys s1
  proof -
    obtain ds e es h where *: "cs = ds @ e # es" "n = TParentAnchor e" "ys = map TParentAnchor es"
      "s1 = (orphans ds s)\<lparr>links := h\<rparr>" "reps h (?Q ds)" "chain h ?c (n # ys)"
      using I by (auto simp: Cons_eq_map_conv)
    obtain h' where h': "list_add_tail n ?i h = Some h'" "reps h' ((?Q ds)(?i \<mapsto> (os @ map TParentAnchor ds) @ [n]))"
      using reps_add_tail [OF *(5) _ un [OF *(1)], of ?i "os @ map TParentAnchor ds" e] *(2) by auto
    have "chain h' ?c ys"
    proof (rule chain_cong)
      fix x assume x: "x \<in> set ys"
      then obtain e' where e': "x = TParentAnchor e'" "e' \<in> set es" using *(3) by auto
      have "x \<noteq> n" using dist x e' *(1,2) by (auto simp: distinct_map)
      then show "h' x = h x"
        using add_tail_frame [OF *(5) _ h'(1), of "os @ map TParentAnchor ds" x] un [OF *(1), of e'] e' by simp
    qed (use *(6) in \<open>simp add: chain_Cons\<close>)
    moreover have "inherit n s1 = Some ((orphans (ds @ [e]) s)\<lparr>links := h'\<rparr>)"
      using h'(1) *(2,4) by (auto simp: inherit_def on_links_def upd_task_def orphans_def fun_eq_iff)
    ultimately show ?thesis using *(1,2,3) h'(2)
      by (intro exI [of _ "(orphans (ds @ [e]) s)\<lparr>links := h'\<rparr>"] conjI exI [of _ "ds @ [e]"] exI [of _ es] exI [of _ h']) auto
  qed
  have I0: "?I (map TParentAnchor cs) s"
  proof (intro exI conjI)
    show "cs = [] @ cs" by simp
    show "s = (orphans [] s)\<lparr>links := links s\<rparr>" by (simp add: orphans_def)
    show "reps (links s) (?Q [])" using r i ic reps_drop [of "links s" Q ?c] fun_upd_triv [of "Q(?c := None)" ?i] by simp
    show "chain (links s) ?c (map TParentAnchor cs)" by (rule dll_chain [OF repsD_dll [OF r f]])
  qed simp
  have "list_for_each_safe links inherit ?c s = foldo inherit (map TParentAnchor cs) s \<and>
     (\<exists>s'. foldo inherit (map TParentAnchor cs) s = Some s' \<and> ?I [] s')"
  proof (rule list_for_each_safe_fold [of ?I])
    show "?I (map TParentAnchor cs) s" by (rule I0)
    show "nxt (links s ?c) = Some (hd (map TParentAnchor cs @ [?c]))" by (rule dll_nxt [OF repsD_dll [OF r f]])
    show "n \<noteq> ?c \<and> nxt (links s1 n) = Some (hd (ys @ [?c]))" if "?I (n # ys) s1" for n ys s1
      using that by (auto simp: chain_Cons Cons_eq_map_conv)
    show "\<exists>s'. inherit n s1 = Some s' \<and> ?I ys s'" if "?I (n # ys) s1" for n ys s1 using step [OF that] .
  qed
  then show ?thesis by auto
qed

section \<open>The waiting threads\<close>

definition release :: "lnode \<Rightarrow> kstate \<Rightarrow> kstate option" where
  "release pos s = do {
     t \<leftarrow> list_head_to_task_struct pos;
     s' \<leftarrow> update_process_state_rr t (Some Readyqueue) s;
     on_links (list_del pos) s' }"

lemma set_state_upd_task:
  "t \<noteq> c \<Longrightarrow> set_state t st (upd_task c f s) = upd_task c f (set_state t st s)"
  by (simp add: set_state_def upd_task_def fun_upd_twist)

lemma on_links_upd_task: "on_links g (upd_task c f s) = map_option (upd_task c f) (on_links g s)"
  by (cases "g (links s)") (simp_all add: on_links_def upd_task_def)

text \<open>Moving one thread does not look at the others.\<close>

lemma update_other:
  assumes "t \<noteq> c"
  shows "update_process_state_rr t d (upd_task c f s) = map_option (upd_task c f) (update_process_state_rr t d s)"
proof -
  have t: "task (upd_task c f s) t = task s t" using assms by (simp add: upd_task_def)
  show ?thesis
  proof (cases "PID (task s t) > 0 \<and> current_state (task s t) \<noteq> ST_RUN")
    case True
    then show ?thesis using assms
      by (cases "on_links (list_del (TList t)) s")
        (auto simp: update_process_state_rr_def t on_links_upd_task set_state_upd_task Let_def
          split: option.splits)
  next
    case False
    then show ?thesis using assms
      by (auto simp: update_process_state_rr_def t on_links_upd_task set_state_upd_task
          split: option.splits simp del: on_links_simp)
  qed
qed

lemma filter_remove1: "distinct xs \<Longrightarrow> remove1 w (filter P xs) = filter (\<lambda>x. P x \<and> x \<noteq> w) xs"
  by (induction xs) (auto simp: remove1_absent filter_id_conv)

definition waiting :: "nat \<Rightarrow> nat list \<Rightarrow> nat list \<Rightarrow> kstate \<Rightarrow> lnode lists \<Rightarrow> kstate \<Rightarrow> lnode lists \<Rightarrow> bool" where
  "waiting c ds es s Q s1 Q1 \<longleftrightarrow> sched_inv s1 Q1 \<and> cpu_inv s1 Q1 \<and> cur s1 = c \<and>
     Q1 (TWaitList c) = Some (map TWaitAnchor es) \<and>
     tasks_on Q1 Readyqueue = tasks_on Q Readyqueue @ ds \<and>
     tasks_on Q1 Blocked = filter (\<lambda>t. t \<notin> set ds) (tasks_on Q Blocked) \<and>
     (\<forall>a. a \<noteq> Readyqueue \<longrightarrow> a \<noteq> Blocked \<longrightarrow> a \<noteq> TWaitList c \<longrightarrow> Q1 a = Q a) \<and> sched_frame s s1 \<and>
     (\<forall>t. k_ctx (task s1 t) = k_ctx (task s t))"

lemma release_one:
  assumes w: "waiting c ds (e # es) s Q s1 Q1" and b: "e \<in> set (tasks_on Q Blocked)" "e \<notin> set ds"
    and d: "distinct (tasks_on Q Blocked)"
  shows "\<exists>s2 Q2. release (TWaitAnchor e) (upd_task c f s1) = Some (upd_task c f s2) \<and> waiting c (ds @ [e]) es s Q s2 Q2"
proof -
  have inv: "sched_inv s1 Q1" "cpu_inv s1 Q1" "cur s1 = c" "Q1 (TWaitList c) = Some (map TWaitAnchor (e # es))"
    "tasks_on Q1 Readyqueue = tasks_on Q Readyqueue @ ds"
    "tasks_on Q1 Blocked = filter (\<lambda>t. t \<notin> set ds) (tasks_on Q Blocked)"
    "\<forall>a. a \<noteq> Readyqueue \<longrightarrow> a \<noteq> Blocked \<longrightarrow> a \<noteq> TWaitList c \<longrightarrow> Q1 a = Q a" "sched_frame s s1"
    "\<forall>t. k_ctx (task s1 t) = k_ctx (task s t)"
    using w by (simp_all add: waiting_def)
  have "e \<in> set (tasks_on Q1 Blocked)" using b inv(6) by simp
  then obtain s2 Q2 where s2: "update_process_state_rr e (Some Readyqueue) s1 = Some s2" "sched_inv s2 Q2" "cpu_inv s2 Q2"
    "tasks_on Q2 Readyqueue = tasks_on Q1 Readyqueue @ [e]" "tasks_on Q2 Blocked = remove1 e (tasks_on Q1 Blocked)"
    "\<forall>a. a \<noteq> Readyqueue \<longrightarrow> a \<noteq> Blocked \<longrightarrow> Q2 a = Q1 a" "cur s2 = cur s1" "e \<noteq> cur s1" "sched_frame s1 s2"
    "\<forall>t. k_ctx (task s2 t) = k_ctx (task s1 t)"
    using wake [OF inv(1,2), of e Blocked] by blast
  have r2: "reps (links s2) Q2" and ty2: "typed Q2" using s2(2) by (simp_all add: sched_inv_def)
  have q: "Q2 (TWaitList c) = Some (map TWaitAnchor (e # es))" using s2(6) inv(4) by simp
  then have "on_list Q2 (TWaitList c) (TWaitAnchor e)" by (simp add: on_list_def)
  then obtain h where h: "list_del (TWaitAnchor e) (links s2) = Some h" "reps h (unlink (TWaitAnchor e) Q2)"
    using dl.del_unlink [OF r2] by blast
  have u: "unlink (TWaitAnchor e) Q2 = Q2(TWaitList c \<mapsto> map TWaitAnchor es)"
    using dl.unlink_upd [OF r2 q, of "TWaitAnchor e"] by simp
  have o: "on_list (unlink (TWaitAnchor e) Q2) a (TList t) \<longleftrightarrow> on_list Q2 a (TList t)" for a t
    by (simp add: dl.on_list_unlink [OF r2])
  let ?s3 = "s2\<lparr>links := h\<rparr>" and ?Q3 = "unlink (TWaitAnchor e) Q2"
  have "sched_inv ?s3 ?Q3" by (rule sched_inv_relist [OF s2(2) h(2) typed_unlink [OF r2 ty2] o])
  moreover have "cpu_inv ?s3 ?Q3" by (rule cpu_inv_relist [OF s2(3) o])
  moreover have "tasks_on ?Q3 d = tasks_on Q2 d" if "d \<noteq> TWaitList c" for d using that by (simp add: u tasks_on_def)
  moreover have "remove1 e (tasks_on Q1 Blocked) = filter (\<lambda>t. t \<notin> set (ds @ [e])) (tasks_on Q Blocked)"
    using filter_remove1 [OF d, of e "\<lambda>t. t \<notin> set ds"] inv(6) by (simp add: conj_commute)
  moreover have "sched_frame s ?s3"
    using sched_frame_trans [OF inv(8) s2(9)] by (simp add: sched_frame_def)
  ultimately have "waiting c (ds @ [e]) es s Q ?s3 ?Q3"
    using s2(4-7,10) inv(3,5,7,9) by (simp add: waiting_def u)
  moreover have "release (TWaitAnchor e) (upd_task c f s1) = Some (upd_task c f ?s3)"
    using update_other [of e c "Some Readyqueue" f s1] s2(1,8) h(1) inv(3)
    by (simp add: release_def on_links_def upd_task_def)
  ultimately show ?thesis by blast
qed

lemma release_waiters:
  assumes inv: "sched_inv s Q" "cpu_inv s Q" "cur s = c"
    and q: "Q (TWaitList c) = Some (map TWaitAnchor ws)" "set ws \<subseteq> set (tasks_on Q Blocked)"
  shows "\<exists>s1 Q1. list_for_each_safe links release (TWaitList c) (upd_task c f s) = Some (upd_task c f s1) \<and>
     waiting c ws [] s Q s1 Q1"
proof -
  have r: "reps (links s) Q" and ty: "typed Q" using inv(1) by (simp_all add: sched_inv_def)
  have d: "distinct (tasks_on Q Blocked)" by (rule distinct_tasks_on [OF r ty]) simp
  have dw: "distinct ws" using dl.rep_distinct [OF r q(1)] by (simp add: distinct_map)
  let ?I = "\<lambda>ys s1. \<exists>ds es s2 Q2. ws = ds @ es \<and> ys = map TWaitAnchor es \<and> s1 = upd_task c f s2 \<and> waiting c ds es s Q s2 Q2"
  have l: "links (upd_task c f s1) = links s1" for s1 by (simp add: upd_task_def)
  have "list_for_each_safe links release (TWaitList c) (upd_task c f s) =
      foldo release (map TWaitAnchor ws) (upd_task c f s) \<and>
      (\<exists>s'. foldo release (map TWaitAnchor ws) (upd_task c f s) = Some s' \<and> ?I [] s')"
  proof (rule list_for_each_safe_fold [of ?I])
    have "waiting c [] ws s Q s Q" using inv q(1) by (simp add: waiting_def sched_frame_refl filter_True)
    then show "?I (map TWaitAnchor ws) (upd_task c f s)" by (intro exI [of _ "[]"] exI [of _ ws] exI [of _ s] exI [of _ Q]) simp
    show "nxt (links (upd_task c f s) (TWaitList c)) = Some (hd (map TWaitAnchor ws @ [TWaitList c]))"
      unfolding l by (rule dll_nxt [OF repsD_dll [OF r q(1)]])
    show "n \<noteq> TWaitList c \<and> nxt (links s1 n) = Some (hd (ys @ [TWaitList c]))" if I: "?I (n # ys) s1" for n ys s1
    proof -
      obtain es and s2 :: kstate and Q2 where e: "n # ys = map TWaitAnchor es" "links s1 = links s2" "reps (links s2) Q2"
        "Q2 (TWaitList c) = Some ([] @ n # ys)"
      proof -
        obtain ds es s2 Q2 where e: "n # ys = map TWaitAnchor es" "s1 = upd_task c f s2" "waiting c ds es s Q s2 Q2"
          using I by (elim exE conjE)
        then show ?thesis using that [of es s2 Q2] by (simp add: l waiting_def sched_inv_def)
      qed
      from reps_nxt [OF e(3,4)] e(1,2) show ?thesis by (cases es) auto
    qed
    show "\<exists>s'. release n s1 = Some s' \<and> ?I ys s'" if I: "?I (n # ys) s1" for n ys s1
    proof -
      obtain ds e es s2 Q2 where e: "ws = ds @ e # es" "n = TWaitAnchor e" "ys = map TWaitAnchor es"
        "s1 = upd_task c f s2" "waiting c ds (e # es) s Q s2 Q2" using I by (auto simp: Cons_eq_map_conv)
      have "e \<in> set (tasks_on Q Blocked)" "e \<notin> set ds" using q(2) dw e(1) by auto
      from release_one [OF e(5) this d, of f] obtain s3 Q3 where "release n s1 = Some (upd_task c f s3)"
        "waiting c (ds @ [e]) es s Q s3 Q3" unfolding e(2,4) by blast
      with e(1,3) show ?thesis by (intro exI [of _ "upd_task c f s3"] conjI exI [of _ "ds @ [e]"] exI [of _ es] exI [of _ s3] exI [of _ Q3]) simp_all
    qed
  qed
  then show ?thesis by auto
qed

section \<open>The end of a thread\<close>

abbreviation (input) dead :: "task_struct \<Rightarrow> task_struct" where
  "dead \<equiv> \<lambda>ts. ts\<lparr>PID := -1, dir_pages_baseAddr := None, pare := None\<rparr>"

lemma exit_family_eq:
  "exit_family s = do {
     s1 \<leftarrow> on_links (list_del (TParentAnchor (cur s))) s;
     s2 \<leftarrow> list_for_each_safe links inherit (TFills (cur s1)) s1;
     list_for_each_safe links release (TWaitList (cur s2)) s2 }"
  unfolding exit_family_def inherit_def [abs_def] release_def [abs_def] ..

definition heir_lists :: "nat \<Rightarrow> nat \<Rightarrow> nat list \<Rightarrow> lnode lists \<Rightarrow> lnode lists" where
  "heir_lists c i cs Q = (let Q1 = unlink (TParentAnchor c) Q in
     Q1(TFills c := None, TFills i := map_option (\<lambda>os. os @ map TParentAnchor cs) (Q1 (TFills i))))"

definition leaves :: "kstate \<Rightarrow> lnode lists \<Rightarrow> nat list \<Rightarrow> nat list \<Rightarrow> bool" where
  "leaves s Q cs ws \<longleftrightarrow> cur s \<noteq> idle_task s \<and>
     (\<exists>p. p \<noteq> cur s \<and> on_list Q (TFills p) (TParentAnchor (cur s))) \<and>
     Q (TFills (cur s)) = Some (map TParentAnchor cs) \<and> Q (TFills (idle_task s)) \<noteq> None \<and>
     Q (TWaitList (cur s)) = Some (map TWaitAnchor ws) \<and> set ws \<subseteq> set (tasks_on Q Blocked) \<and>
     (\<forall>w \<in> set ws. \<forall>i. \<not> on_list Q (SemBlocked i) (TSemList w))"

lemma exit_family_ok:
  assumes inv: "sched_inv s Q" "cpu_inv s Q" and lv: "leaves s Q cs ws"
  shows "\<exists>s0 s3 Q3. exit_family (upd_task (cur s) dead s) = Some (upd_task (cur s) dead s3) \<and>
     s0 = (orphans cs s)\<lparr>links := links s0\<rparr> \<and>
     waiting (cur s) ws [] s0 (heir_lists (cur s) (idle_task s) cs Q) s3 Q3"
proof -
  let ?c = "cur s" and ?i = "idle_task s"
  let ?Q1 = "unlink (TParentAnchor ?c) Q" and ?Q2 = "heir_lists ?c ?i cs Q"
  have r: "reps (links s) Q" and ty: "typed Q" using inv(1) by (simp_all add: sched_inv_def)
  obtain p where p: "p \<noteq> ?c" "on_list Q (TFills p) (TParentAnchor ?c)" using lv by (auto simp: leaves_def)
  have l: "?c \<noteq> ?i" "Q (TFills ?c) = Some (map TParentAnchor cs)" "Q (TFills ?i) \<noteq> None"
    "Q (TWaitList ?c) = Some (map TWaitAnchor ws)" "set ws \<subseteq> set (tasks_on Q Blocked)"
    using lv by (simp_all add: leaves_def)
  have c: "?c \<notin> set cs"
  proof
    assume "?c \<in> set cs"
    then have "on_list Q (TFills ?c) (TParentAnchor ?c)" using l(2) by (simp add: on_list_def)
    from dl.on_list_unique [OF r this p(2)] p(1) show False by simp
  qed
  obtain h1 where h1: "list_del (TParentAnchor ?c) (links s) = Some h1" "reps h1 ?Q1"
    using dl.del_unlink [OF r p(2)] by blast
  have ty1: "typed ?Q1" by (rule typed_unlink [OF r ty])
  have f1: "?Q1 (TFills ?c) = Some (map TParentAnchor cs)"
    using l(2) c by (simp add: unlink_def remove1_absent image_iff)
  obtain os where os: "?Q1 (TFills ?i) = Some os" using l(3) by (auto simp: unlink_def)
  let ?s1 = "(upd_task ?c dead s)\<lparr>links := h1\<rparr>"
  have e1: "links ?s1 = h1" "idle_task ?s1 = ?i" "cur ?s1 = ?c" by (simp_all add: upd_task_def)
  obtain h2 where h2: "list_for_each_safe links inherit (TFills ?c) ?s1 = Some ((orphans cs ?s1)\<lparr>links := h2\<rparr>)"
    "reps h2 (?Q1(TFills ?c := None, TFills ?i \<mapsto> os @ map TParentAnchor cs))"
    using inherit_children [of ?s1 ?Q1 ?c cs os] h1(2) ty1 f1 os l(1) unfolding e1 by blast
  have Q2: "?Q2 = ?Q1(TFills ?c := None, TFills ?i \<mapsto> os @ map TParentAnchor cs)"
    using os by (simp add: heir_lists_def Let_def)
  let ?s2 = "(orphans cs s)\<lparr>links := h2\<rparr>"
  have e2: "(orphans cs ?s1)\<lparr>links := h2\<rparr> = upd_task ?c dead ?s2"
    using c by (auto simp: upd_task_def orphans_def fun_eq_iff)
  have oQ1: "on_list ?Q1 a (TList t) \<longleftrightarrow> on_list Q a (TList t)" for a t by (simp add: dl.on_list_unlink [OF r])
  have notL: "\<not> on_list Q (TFills j) (TList t)" for j t
    using ty unfolding typed_def by (metis fits.simps(1) lnode.distinct insertE empty_iff)
  have o: "on_list ?Q2 a (TList t) \<longleftrightarrow> on_list Q a (TList t)" for a t
    using oQ1 [of a t] notL [of _ t] os unfolding Q2 by (auto simp: on_list_def)
  have "typed ?Q2"
    unfolding typed_def
  proof (intro conjI allI impI ballI)
    show "is_head a" if "?Q2 a \<noteq> None" for a
      using that typed_anchor [OF ty1, of a] unfolding Q2
      by (cases "is_head a") (auto simp: unlink_def split: if_splits)
    show "?Q2 d \<noteq> None" if "d \<in> sched_queues" for d
      using that typed_queue [OF ty1 that] unfolding Q2 by (auto simp: unlink_def)
    show "fits a n" if "on_list ?Q2 a n" for a n
    proof -
      have "on_list ?Q1 a n \<or> a = TFills ?i \<and> n \<in> TParentAnchor ` set cs"
        using that os unfolding Q2 by (auto simp: on_list_def split: if_splits)
      then show ?thesis using ty1 by (auto simp: typed_def)
    qed
  qed
  moreover have "sched_inv (orphans cs s) Q" "cpu_inv (orphans cs s) Q"
    by (rule sched_inv_cong [OF inv(1)] cpu_inv_cong [OF inv(2)]; simp)+
  ultimately have inv2: "sched_inv ?s2 ?Q2" "cpu_inv ?s2 ?Q2"
    using sched_inv_relist [OF _ h2(2) [folded Q2] _ o] cpu_inv_relist [OF _ o] by blast+
  have "tasks_on ?Q2 Blocked = tasks_on Q Blocked"
    by (rule tasks_on_map) (simp add: Q2 unlink_def tasks_on_queue [OF ty] remove1_absent image_iff)
  moreover have "?Q2 (TWaitList ?c) = Some (map TWaitAnchor ws)"
    using l(4) by (simp add: Q2 unlink_def remove1_absent image_iff)
  ultimately obtain s3 Q3 where s3: "list_for_each_safe links release (TWaitList ?c) (upd_task ?c dead ?s2) =
      Some (upd_task ?c dead s3)" "waiting ?c ws [] ?s2 ?Q2 s3 Q3"
    using release_waiters [OF inv2, of ?c ws dead] l(5) by auto
  have "exit_family (upd_task ?c dead s) = Some (upd_task ?c dead s3)"
  proof -
    have "on_links (list_del (TParentAnchor ?c)) (upd_task ?c dead s) = Some ?s1"
      using h1(1) by (simp add: on_links_def upd_task_def)
    moreover have "cur (upd_task ?c dead s) = ?c" "cur (upd_task ?c dead ?s2) = ?c" by (simp_all add: upd_task_def)
    ultimately show ?thesis unfolding exit_family_eq using h2(1) s3(1) e1(3) e2 by simp
  qed
  then show ?thesis using s3(2) by (intro exI [of _ ?s2] exI [of _ s3] exI [of _ Q3]) simp
qed

text \<open>The thread goes to the free list.\<close>

lemma freed_inv:
  assumes inv: "sched_inv s Q" "cpu_inv s Q" and ni: "cur s \<noteq> idle_task s"
  shows "\<exists>h. let s' = moved (cur s) (Some Freequeue) h (upd_task (cur s) dead s); Q' = enqueue (TList (cur s)) Freequeue Q in
     update_process_state_rr (cur s) (Some Freequeue) (upd_task (cur s) dead s) = Some s' \<and> sched_inv s' Q' \<and> yieldable s' Q'"
proof -
  let ?c = "cur s" and ?s = "upd_task (cur s) dead s" and ?Q = "enqueue (TList (cur s)) Freequeue Q"
  have r: "reps (links s) Q" and ty: "typed Q" using inv(1) by (simp_all add: sched_inv_def)
  have c: "?c < NR_TASKS" "live Q ?c" "esp0 s = ?c" and run: "\<forall>t < NR_TASKS. live Q t \<longrightarrow> (current_state (task s t) = ST_RUN \<longleftrightarrow> t = ?c)"
    using inv(2) by (simp_all add: cpu_inv_def)
  have n: "\<forall>a. \<not> on_list Q a (TList ?c)" using live_linked [OF inv(1) c(1) ni c(2)] cpu_running [OF inv(2)] by blast
  have e: "links ?s = links s" "PID (task ?s ?c) = -1" "idle_task ?s = idle_task s" "cur ?s = ?c" "esp0 ?s = esp0 s" "mm ?s = mm s"
    "task ?s t = (if t = ?c then dead (task s ?c) else task s t)" for t
    by (simp_all add: upd_task_def)
  obtain h where h: "update_process_state_rr ?c (Some Freequeue) ?s = Some (moved ?c (Some Freequeue) h ?s)" "reps h ?Q"
    using update_freed [of ?s Q ?c "Some Freequeue"] r ty n e(1,2) by auto
  let ?s' = "moved ?c (Some Freequeue) h ?s"
  have o: "on_list ?Q a (TList t) \<longleftrightarrow> on_list Q a (TList t) \<or> a = Freequeue \<and> t = ?c" for a t
    using typed_queue [OF ty, of Freequeue] by simp
  have "Q Freequeue \<noteq> None" using typed_queue [OF ty, of Freequeue] by simp
  then have lv: "live ?Q t \<longleftrightarrow> live Q t \<and> t \<noteq> ?c" for t by (auto simp: live_def o)
  have ok: "state_ok ?Q t (task ?s' t)" if t: "t < NR_TASKS" "t \<noteq> idle_task s" for t
  proof (cases "t = ?c")
    case True
    then show ?thesis using n by (simp add: state_ok_def o lv)
  next
    case False
    then have "task ?s' t = task s t" by (simp add: e(7))
    then show ?thesis using sched_inv_state [OF inv(1) t] False by (simp add: state_ok_def o lv)
  qed
  have pid: "PID (task ?s' t) = PID (task s t)" "dir_pages_baseAddr (task ?s' t) = dir_pages_baseAddr (task s t)"
    "current_state (task ?s' t) = current_state (task s t)" if "t \<noteq> ?c" for t
    using that by (simp_all add: e(7))
  have "typed ?Q" using typed_enqueue [OF ty, of Freequeue] by simp
  then have "sched_inv ?s' ?Q"
    using inv(1) h(2) ok ni c(1) pid unfolding sched_inv_def by (simp add: lv o e(3))
  moreover have "yieldable ?s' ?Q"
    unfolding yieldable_def using c run pid(3) by (simp add: lv e)
  ultimately show ?thesis using h(1) by (auto simp: Let_def)
qed

section \<open>The semaphores of the thread\<close>

definition owns :: "kstate \<Rightarrow> nat \<Rightarrow> bool" where
  "owns s i \<longleftrightarrow> i < NUM_SEMS \<and> \<not> sem_free (semaphores s i) \<and> creatorPID (semaphores s i) = PID (task s (cur s))"

definition closed_sems :: "nat \<Rightarrow> kstate \<Rightarrow> kstate" where
  "closed_sems k s = s\<lparr>semaphores := (\<lambda>i. if i < k \<and> owns s i then (semaphores s i)\<lparr>sem_free := True\<rparr> else semaphores s i)\<rparr>"

lemma sem_destroy_refused:
  assumes "\<forall>j < NUM_SEMS. i \<le> j \<longrightarrow> sem_id (semaphores s j) = semid \<longrightarrow> \<not> owns s j"
  shows "\<exists>r. sem_destroy_from i semid ex s = Some (Ret r, s)"
  using assms
proof (induction "NUM_SEMS - i" arbitrary: i)
  case 0
  then show ?case by (simp add: sem_destroy_from.simps)
next
  case (Suc n)
  show ?case
  proof (cases "sem_id (semaphores s i) = semid")
    case True
    then have "\<not> owns s i" using Suc.prems Suc.hyps(2) by auto
    then show ?thesis using True
      by (subst sem_destroy_from.simps) (auto simp: owns_def sys_getpid_def)
  next
    case False
    then show ?thesis using Suc.prems Suc.hyps(1) [of "Suc i"] Suc.hyps(2)
      by (subst sem_destroy_from.simps) auto
  qed
qed

lemma sem_destroy_owned:
  assumes o: "owns s i" and w: "list_empty (SemBlocked i) (links s)"
    and u: "\<forall>j < NUM_SEMS. j \<noteq> i \<longrightarrow> sem_id (semaphores s j) \<noteq> sem_id (semaphores s i)"
  shows "sem_destroy_from 0 (sem_id (semaphores s i)) ex s =
     Some (Ret (-1), upd_sem i (\<lambda>sm. sm\<lparr>sem_free := True\<rparr>) s)"
proof -
  let ?id = "sem_id (semaphores s i)" and ?s = "upd_sem i (\<lambda>sm. sm\<lparr>sem_free := True\<rparr>) s"
  have i: "i < NUM_SEMS" "\<not> sem_free (semaphores s i)" "creatorPID (semaphores s i) = PID (task s (cur s))"
    using o by (simp_all add: owns_def)
  have "sem_destroy_from 0 ?id ex s = sem_destroy_from i ?id ex s"
    by (rule sem_destroy_skip) (use i(1) u in auto)
  also have "\<dots> = sem_destroy_from (Suc i) ?id ex ?s"
    using i w by (subst sem_destroy_from.simps) (simp add: sys_getpid_def sem_wake_all.simps)
  also have "\<dots> = sem_destroy_from NUM_SEMS ?id ex ?s"
    by (rule sem_destroy_skip) (use i(1) u in auto)
  finally show ?thesis by (simp add: sem_destroy_end)
qed

lemma exit_sems_ok:
  assumes w: "\<And>i. owns s i \<Longrightarrow> list_empty (SemBlocked i) (links s)"
    and u: "\<And>i j. owns s i \<Longrightarrow> j < NUM_SEMS \<Longrightarrow> j \<noteq> i \<Longrightarrow> sem_id (semaphores s j) \<noteq> sem_id (semaphores s i)"
    and "k \<le> NUM_SEMS"
  shows "exit_sems k (closed_sems k s) = Some (False, closed_sems NUM_SEMS s)"
  using assms(3)
proof (induction "NUM_SEMS - k" arbitrary: k)
  case 0
  then show ?case by (simp add: exit_sems.simps)
next
  case (Suc n)
  let ?t = "closed_sems k s"
  have k: "k < NUM_SEMS" using Suc.hyps(2) by simp
  have f: "links ?t = links s" "task ?t = task s" "cur ?t = cur s" "semaphores ?t k = semaphores s k"
    "sem_id (semaphores ?t i) = sem_id (semaphores s i)" "creatorPID (semaphores ?t i) = creatorPID (semaphores s i)" for i
    by (simp_all add: closed_sems_def)
  have o: "owns ?t i \<longleftrightarrow> owns s i \<and> k \<le> i" for i by (auto simp: owns_def closed_sems_def)
  have next_state: "closed_sems (Suc k) s = (if owns s k then upd_sem k (\<lambda>sm. sm\<lparr>sem_free := True\<rparr>) ?t else ?t)"
    by (auto simp: closed_sems_def upd_sem_def less_Suc_eq fun_eq_iff)
  have IH: "exit_sems (Suc k) (closed_sems (Suc k) s) = Some (False, closed_sems NUM_SEMS s)"
    using Suc.hyps(1) [of "Suc k"] Suc.hyps(2) k by simp
  show ?case
  proof (cases "creatorPID (semaphores s k) = PID (task s (cur s))")
    case False
    then have "\<not> owns s k" by (simp add: owns_def)
    then show ?thesis using False k IH next_state by (subst exit_sems.simps) (simp add: f sys_getpid_def)
  next
    case True
    have "\<exists>r. sys_semDestroy_extended (sem_id (semaphores s k)) False (Some k) ?t = Some (Ret r, closed_sems (Suc k) s)"
    proof (cases "owns s k")
      case True
      have "list_empty (SemBlocked k) (links ?t)" using w [OF True] by (simp add: f)
      from sem_destroy_owned [OF _ this, of "Some k"] True u [OF True] show ?thesis
        by (simp add: f o next_state sys_semDestroy_extended_def)
    next
      case False
      have "\<not> owns ?t j" if "j < NUM_SEMS" "sem_id (semaphores ?t j) = sem_id (semaphores s k)" for j
        using that u [of j k] k False by (cases "j = k") (auto simp: f o)
      then show ?thesis using sem_destroy_refused [of 0 ?t "sem_id (semaphores s k)" "Some k"] False
        by (simp add: next_state sys_semDestroy_extended_def)
    qed
    then show ?thesis using True k IH by (subst exit_sems.simps) (auto simp: f sys_getpid_def)
  qed
qed

section \<open>The memory of the thread\<close>

definition user_pages :: "nat \<Rightarrow> nat set" where
  "user_pages h = {PAG_LOG_INIT_DATA..<PAG_LOG_INIT_DATA + NUM_PAG_DATA} \<union> {PAG_LOG_INIT_HEAP..<PAG_LOG_INIT_HEAP + h}"

definition left_mm :: "nat \<Rightarrow> nat \<Rightarrow> nat \<Rightarrow> mm_state \<Rightarrow> mm_state" where
  "left_mm d p h m = (let n = dir_pages_num_references m d - 1;
      m1 = m\<lparr>dir_pages_num_references := (dir_pages_num_references m)(d := n)\<rparr>
    in if n \<le> 0 then release_pages p PAG_LOG_INIT_HEAP h (release_pages p PAG_LOG_INIT_DATA NUM_PAG_DATA m1) else m1)"

lemma release_user_pages:
  assumes "frame_no m p ` user_pages h \<subseteq> pool"
  shows "\<exists>pm. release_pages p PAG_LOG_INIT_HEAP h (release_pages p PAG_LOG_INIT_DATA NUM_PAG_DATA m) =
       upd_PT p (\<lambda>PT i. if i \<in> user_pages h then 0 else PT i) (m\<lparr>phys_mem := pm\<rparr>) \<and>
     avail (m\<lparr>phys_mem := pm\<rparr>) = avail m \<union> (frame_no m p ` user_pages h - {NUM_PAG_KERNEL})"
proof -
  let ?F = "\<lambda>i. get_frame (pagusr_table m p) i"
  let ?D = "[PAG_LOG_INIT_DATA..<PAG_LOG_INIT_DATA + NUM_PAG_DATA]" and ?H = "[PAG_LOG_INIT_HEAP..<PAG_LOG_INIT_HEAP + h]"
  obtain pm1 where pm1: "fold (\<lambda>i. free_frame (?F i)) ?D m = m\<lparr>phys_mem := pm1\<rparr>" using free_all_frame by blast
  obtain pm where pm: "fold (\<lambda>i. free_frame (?F i)) ?H (m\<lparr>phys_mem := pm1\<rparr>) = m\<lparr>phys_mem := pm\<rparr>"
    using free_all_frame [of ?F ?H "m\<lparr>phys_mem := pm1\<rparr>"] by auto
  let ?m1 = "upd_PT p (clear_pages PAG_LOG_INIT_DATA NUM_PAG_DATA) (m\<lparr>phys_mem := pm1\<rparr>)"
  have r1: "release_pages p PAG_LOG_INIT_DATA NUM_PAG_DATA m = ?m1" by (simp only: release_pages_eq pm1)
  have F: "get_frame (pagusr_table ?m1 p) i = ?F i" if "i \<in> set ?H" for i
    using that by (simp add: get_frame_def clear_pages_def)
  have "fold (\<lambda>i. free_frame (get_frame (pagusr_table ?m1 p) i)) ?H ?m1 = fold (\<lambda>i. free_frame (?F i)) ?H ?m1"
    by (rule fold_cong) (simp_all only: F)
  also have "\<dots> = upd_PT p (clear_pages PAG_LOG_INIT_DATA NUM_PAG_DATA) (m\<lparr>phys_mem := pm\<rparr>)"
  proof -
    have "fold (\<lambda>i. free_frame (?F i)) is' (upd_PT p f m') = upd_PT p f (fold (\<lambda>i. free_frame (?F i)) is' m')" for is' f m'
      by (induction is' arbitrary: m') (simp_all add: free_frame_upd_PT)
    then show ?thesis using pm by simp
  qed
  finally have "release_pages p PAG_LOG_INIT_HEAP h ?m1 = upd_PT p (clear_pages PAG_LOG_INIT_HEAP h)
      (upd_PT p (clear_pages PAG_LOG_INIT_DATA NUM_PAG_DATA) (m\<lparr>phys_mem := pm\<rparr>))"
    by (simp only: release_pages_eq [of p PAG_LOG_INIT_HEAP])
  also have "\<dots> = upd_PT p (\<lambda>PT i. if i \<in> user_pages h then 0 else PT i) (m\<lparr>phys_mem := pm\<rparr>)"
    by (auto simp: upd_PT_def clear_pages_def user_pages_def fun_eq_iff)
  finally have "release_pages p PAG_LOG_INIT_HEAP h (release_pages p PAG_LOG_INIT_DATA NUM_PAG_DATA m) =
      upd_PT p (\<lambda>PT i. if i \<in> user_pages h then 0 else PT i) (m\<lparr>phys_mem := pm\<rparr>)"
    by (simp only: r1)
  moreover have "avail (m\<lparr>phys_mem := pm\<rparr>) = avail m \<union> (frame_no m p ` user_pages h - {NUM_PAG_KERNEL})"
  proof -
    have "\<forall>i \<in> set ?D. unat (?F i) \<in> pool" "\<forall>i \<in> set ?H. unat (?F i) \<in> pool"
      using assms by (auto simp: user_pages_def)
    then show ?thesis using avail_free_all [of ?D ?F m] avail_free_all [of ?H ?F "m\<lparr>phys_mem := pm1\<rparr>"]
      unfolding pm1 pm user_pages_def image_Un set_upt by blast
  qed
  ultimately show ?thesis by blast
qed

lemma release_pages_keeps: "cr3 (release_pages p lo n m) = cr3 m \<and> heap_zones (release_pages p lo n m) = heap_zones m"
proof -
  obtain pm where "fold (\<lambda>i. free_frame (get_frame (pagusr_table m p) i)) [lo..<lo + n] m = m\<lparr>phys_mem := pm\<rparr>"
    using free_all_frame by blast
  then show ?thesis by (simp add: release_pages_eq)
qed

lemma left_mm_keeps [simp]: "cr3 (left_mm d p h m) = cr3 m" "heap_zones (left_mm d p h m) = heap_zones m"
  by (simp_all add: left_mm_def Let_def release_pages_keeps)

definition released :: "mm_state \<Rightarrow> nat \<Rightarrow> nat \<Rightarrow> nat \<Rightarrow> mm_state \<Rightarrow> bool" where
  "released m d p h m' \<longleftrightarrow>
     dir_pages_num_references m' = (dir_pages_num_references m)(d := dir_pages_num_references m d - 1) \<and>
     (if dir_pages_num_references m d > 1 then pagusr_table m' = pagusr_table m \<and> avail m' = avail m
      else pagusr_table m' = (pagusr_table m)(p := \<lambda>i. if i \<in> user_pages h then 0 else pagusr_table m p i) \<and>
        avail m' = avail m \<union> (frame_no m p ` user_pages h - {NUM_PAG_KERNEL}))"

lemma left_mm_released:
  assumes "dir_pages_num_references m d \<le> 1 \<longrightarrow> frame_no m p ` user_pages h \<subseteq> pool"
  shows "released m d p h (left_mm d p h m)"
proof (cases "dir_pages_num_references m d \<le> 1")
  case True
  let ?m1 = "m\<lparr>dir_pages_num_references := (dir_pages_num_references m)(d := dir_pages_num_references m d - 1)\<rparr>"
  have "frame_no ?m1 p ` user_pages h \<subseteq> pool" using assms True by simp
  from release_user_pages [OF this] obtain pm where pm:
    "release_pages p PAG_LOG_INIT_HEAP h (release_pages p PAG_LOG_INIT_DATA NUM_PAG_DATA ?m1) =
       upd_PT p (\<lambda>PT i. if i \<in> user_pages h then 0 else PT i) (?m1\<lparr>phys_mem := pm\<rparr>)"
    "avail (?m1\<lparr>phys_mem := pm\<rparr>) = avail ?m1 \<union> (frame_no ?m1 p ` user_pages h - {NUM_PAG_KERNEL})" by blast
  have "left_mm d p h m = upd_PT p (\<lambda>PT i. if i \<in> user_pages h then 0 else PT i) (?m1\<lparr>phys_mem := pm\<rparr>)"
    using True pm(1) by (simp add: left_mm_def Let_def)
  then show ?thesis using True pm(2) by (simp add: released_def avail_def upd_PT_def cong: if_cong)
next
  case False
  then show ?thesis by (simp add: left_mm_def Let_def released_def avail_def)
qed

lemma released_cong:
  assumes "dir_pages_num_references m2 = dir_pages_num_references m1" "pagusr_table m2 = pagusr_table m1"
    "phys_mem m2 = phys_mem m1" "released m d p h m1"
  shows "released m d p h m2"
proof -
  have "avail m2 = avail m1" using assms(3) by (simp add: avail_def)
  show ?thesis using assms(4) unfolding released_def assms(1,2) \<open>avail m2 = avail m1\<close> .
qed

section \<open>exit\<close>

lemma sched_frame_rest:
  assumes "sched_frame s s'"
  shows "pare (task s' t) = pare (task s t)" "semaphores s' = semaphores s"
    "task1 s' = task1 s" "pidGlobal s' = pidGlobal s" "semIDglobal s' = semIDglobal s" "heap_zones (mm s') = heap_zones (mm s)"
    "released m d p h (mm s) \<Longrightarrow> released m d p h (mm s')"
proof -
  have e: "(task s' t)\<lparr>current_state := current_state (task s t), k_ctx := k_ctx (task s t)\<rparr> = task s t"
    and m: "(mm s')\<lparr>cr3 := cr3 (mm s)\<rparr> = mm s"
    using assms by (simp_all add: sched_frame_def)
  show "pare (task s' t) = pare (task s t)" by (subst e [symmetric]) simp
  show "semaphores s' = semaphores s" "task1 s' = task1 s" "pidGlobal s' = pidGlobal s" "semIDglobal s' = semIDglobal s"
    using assms by (simp_all add: sched_frame_def)
  show "heap_zones (mm s') = heap_zones (mm s)" by (subst m [symmetric]) simp
  show "released m d p h (mm s')" if "released m d p h (mm s)"
    by (rule released_cong [OF _ _ _ that]) (subst m [symmetric], simp)+
qed

text \<open>What an exiting thread leaves alone, beside the lists.\<close>

definition exit_frame :: "kstate \<Rightarrow> kstate \<Rightarrow> bool" where
  "exit_frame s s' \<longleftrightarrow> idle_task s' = idle_task s \<and> task1 s' = task1 s \<and> pidGlobal s' = pidGlobal s \<and>
     semIDglobal s' = semIDglobal s \<and> heap_zones (mm s') = heap_zones (mm s) \<and>
     (\<forall>t. t \<noteq> cur s \<longrightarrow> PID (task s' t) = PID (task s t) \<and> my_heap (task s' t) = my_heap (task s t) \<and>
        k_ctx (task s' t) = k_ctx (task s t))"

lemma exit_rest_ok:
  assumes inv: "sched_inv s Q" "cpu_inv s Q" and lv: "leaves s Q cs ws"
    and d: "dir_pages_baseAddr (task s (cur s)) = Some d" "dir_PT (mm s) d = p"
    and hp: "my_heap (task s (cur s)) = Some hz" "heap_zones (mm s) hz = int h"
  shows "\<exists>s' Q'. exit_rest s = Some (Switched, s') \<and> sched_inv s' Q' \<and> cpu_inv s' Q' \<and>
     (cur s', tasks_on Q' Readyqueue) = rr_next (idle_task s) False (cur s, tasks_on Q Readyqueue @ ws) \<and>
     cur s' \<noteq> cur s \<and> PID (task s' (cur s)) = -1 \<and> (\<forall>t \<in> set cs. pare (task s' t) = Some (idle_task s)) \<and>
     Q' = (heir_lists (cur s) (idle_task s) cs Q)(Readyqueue := Q' Readyqueue, TWaitList (cur s) \<mapsto> [],
        Freequeue \<mapsto> map TList (tasks_on Q Freequeue @ [cur s]),
        Blocked \<mapsto> map TList (filter (\<lambda>t. t \<notin> set ws) (tasks_on Q Blocked))) \<and>
     semaphores s' = semaphores s \<and> exit_frame s s' \<and>
     (released (mm s) d p h (left_mm d p h (mm s)) \<longrightarrow> released (mm s) d p h (mm s'))"
proof -
  let ?c = "cur s" and ?s2 = "s\<lparr>mm := left_mm d p h (mm s)\<rparr>" and ?H = "heir_lists (cur s) (idle_task s) cs Q"
  have r: "reps (links s) Q" and ty: "typed Q" using inv(1) by (simp_all add: sched_inv_def)
  have ni: "?c \<noteq> idle_task s" and ws: "set ws \<subseteq> set (tasks_on Q Blocked)" using lv by (simp_all add: leaves_def)
  have inv2: "sched_inv ?s2 Q" "cpu_inv ?s2 Q"
    by (rule sched_inv_cong [OF inv(1)] cpu_inv_cong [OF inv(2)]; simp)+
  have lv2: "leaves ?s2 Q cs ws" using lv by (simp add: leaves_def)
  obtain s0 s3 Q3 where fam: "exit_family (upd_task ?c dead ?s2) = Some (upd_task ?c dead s3)"
    and s0: "s0 = (orphans cs ?s2)\<lparr>links := links s0\<rparr>" and w: "waiting ?c ws [] s0 ?H s3 Q3"
    using exit_family_ok [OF inv2 lv2] by auto
  have w3: "sched_inv s3 Q3" "cpu_inv s3 Q3" "cur s3 = ?c" "sched_frame s0 s3"
    "tasks_on Q3 Readyqueue = tasks_on ?H Readyqueue @ ws" "tasks_on Q3 Blocked = filter (\<lambda>t. t \<notin> set ws) (tasks_on ?H Blocked)"
    "Q3 (TWaitList ?c) = Some []" "\<forall>a. a \<noteq> Readyqueue \<longrightarrow> a \<noteq> Blocked \<longrightarrow> a \<noteq> TWaitList ?c \<longrightarrow> Q3 a = ?H a"
    "\<forall>t. k_ctx (task s3 t) = k_ctx (task s0 t)"
    using w by (simp_all add: waiting_def)
  have H: "?H a = Q a" if "a \<in> sched_queues" for a
    using that tasks_on_queue [OF ty that] by (auto simp: heir_lists_def Let_def unlink_def remove1_absent image_iff)
  then have tH: "tasks_on ?H a = tasks_on Q a" if "a \<in> sched_queues" for a using that by (simp add: tasks_on_def)
  have i3: "idle_task s3 = idle_task s"
    using sched_frame_fields(6) [OF w3(4)] by (subst (asm) s0) simp
  obtain hh where fr: "update_process_state_rr ?c (Some Freequeue) (upd_task ?c dead s3) =
       Some (moved ?c (Some Freequeue) hh (upd_task ?c dead s3))"
    "sched_inv (moved ?c (Some Freequeue) hh (upd_task ?c dead s3)) (enqueue (TList ?c) Freequeue Q3)"
    "yieldable (moved ?c (Some Freequeue) hh (upd_task ?c dead s3)) (enqueue (TList ?c) Freequeue Q3)"
    using freed_inv [OF w3(1,2)] ni unfolding w3(3) i3 Let_def by blast
  let ?s4 = "moved ?c (Some Freequeue) hh (upd_task ?c dead s3)" and ?Q4 = "enqueue (TList ?c) Freequeue Q3"
  have e4: "cur ?s4 = ?c" "idle_task ?s4 = idle_task s" "current_state (task ?s4 ?c) = ST_FREE" "PID (task ?s4 ?c) = -1"
    using w3(3) i3 by (simp_all add: upd_task_def)
  from sched_then_spec [OF fr(2,3), of KExited "\<lambda>s. Some (RetVoid, s)"] obtain s' Q' where
    s': "sched_inv s' Q'" "cpu_inv s' Q'"
    "(cur s', tasks_on Q' Readyqueue) = rr_next (idle_task s) False (?c, tasks_on ?Q4 Readyqueue)"
    "\<forall>a. a \<noteq> Readyqueue \<longrightarrow> Q' a = ?Q4 a" "sched_frame ?s4 s'"
    "sched_then KExited (\<lambda>s. Some (RetVoid, s)) ?s4 = (if cur s' \<noteq> ?c then Some (Switched, s') else Some (RetVoid, s'))"
    "\<forall>t. t \<noteq> ?c \<longrightarrow> k_ctx (task s' t) = k_ctx (task ?s4 t)"
    unfolding e4 by auto
  have rdy: "tasks_on ?Q4 Readyqueue = tasks_on Q Readyqueue @ ws"
    using w3(5) tH [of Readyqueue] by (simp add: enqueue_def tasks_on_def)
  have n: "?c \<notin> set (tasks_on Q a)" if "a \<in> {Readyqueue, Blocked}" for a
    using that live_linked [OF inv(1) _ ni] inv(2) cpu_running [OF inv(2)] on_queue_iff [OF ty, of a ?c] by (auto simp: cpu_inv_def)
  have ne: "cur s' \<noteq> ?c"
  proof -
    have "?c \<notin> set (tasks_on Q Readyqueue @ ws)" using n ws by auto
    then show ?thesis using s'(3) ni unfolding rdy by (cases "tasks_on Q Readyqueue @ ws") auto
  qed
  let ?n = "dir_pages_num_references (mm s) d - 1"
  let ?s1 = "upd_mm (\<lambda>m. m\<lparr>dir_pages_num_references := (dir_pages_num_references m)(d := ?n)\<rparr>) s"
  have "sub_DIR_ref ?c s = Some (?n, ?s1)" "get_PT ?c s = Some p"
    using d by (simp_all add: sub_DIR_ref_def Let_def get_PT_def)
  moreover have "(if ?n \<le> 0 then Option.bind (heap_pages ?c ?s1) (\<lambda>h. Some (upd_mm (\<lambda>m. release_pages p PAG_LOG_INIT_HEAP (nat h)
      (release_pages p PAG_LOG_INIT_DATA NUM_PAG_DATA m)) ?s1)) else Some ?s1) = Some ?s2"
    using hp by (simp add: heap_pages_def upd_mm_def left_mm_def Let_def)
  ultimately have exit: "exit_rest s = Some (Switched, s')"
    using fam fr(1) s'(6) ne unfolding exit_rest_def Let_def
    by (simp only: Option.bind.simps prod.case if_True simp_thms)
  note f4 = sched_frame_fields [OF s'(5)] and g4 = sched_frame_rest [OF s'(5)]
  note f3 = sched_frame_fields [OF w3(4)] and g3 = sched_frame_rest [OF w3(4)]
  have e: "semaphores ?s4 = semaphores s3" "mm ?s4 = mm s3" "pare (task ?s4 t) = (if t = ?c then None else pare (task s3 t))" for t
    by (simp_all add: moved_def set_state_def upd_task_def)
  have "semaphores s0 = semaphores s" "mm s0 = left_mm d p h (mm s)" "t \<in> set cs \<Longrightarrow> pare (task s0 t) = Some (idle_task s)" for t
    by (subst s0, simp add: orphans_def)+
  then have "semaphores s' = semaphores s" "released (mm s) d p h (left_mm d p h (mm s)) \<longrightarrow> released (mm s) d p h (mm s')"
    "t \<in> set cs \<Longrightarrow> t \<noteq> ?c \<Longrightarrow> pare (task s' t) = Some (idle_task s)" for t
    using g4 g3 by (simp_all add: e upd_task_def)
  moreover have "?c \<notin> set cs"
    using lv dl.on_list_unique [OF r, of "TFills ?c" "TParentAnchor ?c"] by (auto simp: leaves_def on_list_def)
  moreover have "exit_frame s s'"
  proof -
    have e0: "idle_task s0 = idle_task s" "task1 s0 = task1 s" "pidGlobal s0 = pidGlobal s" "semIDglobal s0 = semIDglobal s"
      "mm s0 = left_mm d p h (mm s)" "PID (task s0 t) = PID (task s t)" "my_heap (task s0 t) = my_heap (task s t)"
      "k_ctx (task s0 t) = k_ctx (task s t)" for t
      by (subst s0, simp add: orphans_def)+
    have e5: "task1 ?s4 = task1 s3" "pidGlobal ?s4 = pidGlobal s3" "semIDglobal ?s4 = semIDglobal s3"
      "t \<noteq> ?c \<Longrightarrow> my_heap (task ?s4 t) = my_heap (task s3 t)" "t \<noteq> ?c \<Longrightarrow> PID (task ?s4 t) = PID (task s3 t)"
      "t \<noteq> ?c \<Longrightarrow> k_ctx (task ?s4 t) = k_ctx (task s3 t)" for t
      by (simp_all add: moved_def set_state_def upd_task_def)
    show ?thesis unfolding exit_frame_def using f4 f3 g4 g3 e e0 e5 e4(2) s'(7) w3(9) by simp
  qed
  moreover have "PID (task s' ?c) = -1" using f4(1) [of ?c] e4(4) by simp
  moreover have "Q' = ?H(Readyqueue := Q' Readyqueue, TWaitList ?c \<mapsto> [],
      Freequeue \<mapsto> map TList (tasks_on Q Freequeue @ [?c]), Blocked \<mapsto> map TList (filter (\<lambda>t. t \<notin> set ws) (tasks_on Q Blocked)))"
  proof
    fix a
    have "typed Q3" using w3(1) by (simp add: sched_inv_def)
    from tasks_on_queue [OF this, of Blocked] have "Q3 Blocked = Some (map TList (filter (\<lambda>t. t \<notin> set ws) (tasks_on Q Blocked)))"
      using w3(6) tH [of Blocked] by simp
    moreover have "Q3 Freequeue = Some (map TList (tasks_on Q Freequeue))"
      using w3(8) H [of Freequeue] tasks_on_queue [OF ty, of Freequeue] by simp
    ultimately show "Q' a = (?H(Readyqueue := Q' Readyqueue, TWaitList ?c \<mapsto> [],
      Freequeue \<mapsto> map TList (tasks_on Q Freequeue @ [?c]), Blocked \<mapsto> map TList (filter (\<lambda>t. t \<notin> set ws) (tasks_on Q Blocked)))) a"
      using s'(4) w3(7,8) by (auto simp: enqueue_def)
  qed
  ultimately show ?thesis using exit s'(1-3) ne unfolding rdy
    by (intro exI [of _ s'] exI [of _ Q'] conjI ballI) blast+
qed

lemma closed_sems_fields [simp]:
  "links (closed_sems k s) = links s" "cur (closed_sems k s) = cur s" "task (closed_sems k s) = task s"
  "mm (closed_sems k s) = mm s" "idle_task (closed_sems k s) = idle_task s" "esp0 (closed_sems k s) = esp0 s"
  by (simp_all add: closed_sems_def)

lemma heir_lists_other:
  assumes "typed Q" "\<forall>p. a \<noteq> TFills p"
  shows "heir_lists c i cs Q a = Q a"
proof -
  have "\<not> on_list Q a (TParentAnchor c)" using assms unfolding typed_def by fastforce
  then show ?thesis using assms(2)
    by (cases "Q a") (auto simp: heir_lists_def Let_def unlink_def on_list_def remove1_absent)
qed

lemma left_lists:
  assumes ty: "typed Q" and Q': "Q' = (heir_lists c i cs Q)(Readyqueue := rs, TWaitList c \<mapsto> [],
      Freequeue \<mapsto> map TList fs, Blocked \<mapsto> map TList bs)"
  shows "tasks_on Q' Blocked = bs" "tasks_on Q' Freequeue = fs" "Q' (SemBlocked k) = Q (SemBlocked k)"
    "Q' (TFills i) = map_option (\<lambda>os. remove1 (TParentAnchor c) os @ map TParentAnchor cs) (Q (TFills i))"
proof -
  show "tasks_on Q' Blocked = bs" "tasks_on Q' Freequeue = fs" by (rule tasks_on_map, simp add: Q')+
  show "Q' (SemBlocked k) = Q (SemBlocked k)" by (simp add: Q' heir_lists_other [OF ty])
  show "Q' (TFills i) = map_option (\<lambda>os. remove1 (TParentAnchor c) os @ map TParentAnchor cs) (Q (TFills i))"
    by (simp add: Q' heir_lists_def Let_def unlink_def option.map_comp comp_def)
qed

lemma sys_exit_spec:
  assumes inv: "sched_inv s Q" and cpu: "cpu_inv s Q" and sem: "sem_inv s Q" and lv: "leaves s Q cs ws"
    and nobody: "\<forall>i. owns s i \<longrightarrow> waiters Q i = []"
    and ids: "\<forall>i j. owns s i \<longrightarrow> j < NUM_SEMS \<longrightarrow> j \<noteq> i \<longrightarrow> sem_id (semaphores s j) \<noteq> sem_id (semaphores s i)"
    and d: "dir_pages_baseAddr (task s (cur s)) = Some d" "dir_PT (mm s) d = p"
    and hp: "my_heap (task s (cur s)) = Some hz" "heap_zones (mm s) hz = int h"
  shows "\<exists>s' Q'. sys_exit s = Some (Switched, s') \<and> sched_inv s' Q' \<and> cpu_inv s' Q' \<and> sem_inv s' Q' \<and>
     (cur s', tasks_on Q' Readyqueue) = rr_next (idle_task s) False (cur s, tasks_on Q Readyqueue @ ws) \<and>
     tasks_on Q' Blocked = filter (\<lambda>t. t \<notin> set ws) (tasks_on Q Blocked) \<and>
     tasks_on Q' Freequeue = tasks_on Q Freequeue @ [cur s] \<and>
     Q' (TFills (idle_task s)) = map_option (\<lambda>os. remove1 (TParentAnchor (cur s)) os @ map TParentAnchor cs) (Q (TFills (idle_task s))) \<and>
     (\<forall>t \<in> set cs. pare (task s' t) = Some (idle_task s)) \<and>
     (\<forall>i. semaphores s' i = (if owns s i then (semaphores s i)\<lparr>sem_free := True\<rparr> else semaphores s i)) \<and>
     wait_thread_end (cur s) s' = Some (Ret (-1), s') \<and> PID (task s' (cur s)) = -1 \<and> exit_frame s s' \<and>
     Q' = (heir_lists (cur s) (idle_task s) cs Q)(Readyqueue := Q' Readyqueue, TWaitList (cur s) \<mapsto> [],
        Freequeue \<mapsto> map TList (tasks_on Q Freequeue @ [cur s]), Blocked \<mapsto> map TList (filter (\<lambda>t. t \<notin> set ws) (tasks_on Q Blocked))) \<and>
     (released (mm s) d p h (left_mm d p h (mm s)) \<longrightarrow> released (mm s) d p h (mm s'))"
proof -
  let ?c = "cur s" and ?s1 = "closed_sems NUM_SEMS s"
  have r: "reps (links s) Q" and ty: "typed Q" using inv by (simp_all add: sched_inv_def)
  have "list_empty (SemBlocked i) (links s)" if "owns s i" for i
  proof -
    have "Q (SemBlocked i) \<noteq> None" using that sem by (simp add: owns_def sem_inv_def)
    from dl.rep_empty [OF r sem_queue [OF ty this]] show ?thesis using nobody that by simp
  qed
  from exit_sems_ok [OF this, of 0] ids have sems: "exit_sems 0 s = Some (False, ?s1)" by (simp add: closed_sems_def)
  have inv1: "sched_inv ?s1 Q" "cpu_inv ?s1 Q"
    by (rule sched_inv_cong [OF inv] cpu_inv_cong [OF cpu]; simp)+
  have lv1: "leaves ?s1 Q cs ws" using lv by (simp add: leaves_def)
  obtain s' Q' where s': "exit_rest ?s1 = Some (Switched, s')" "sched_inv s' Q'" "cpu_inv s' Q'"
     "(cur s', tasks_on Q' Readyqueue) = rr_next (idle_task s) False (?c, tasks_on Q Readyqueue @ ws)"
     "PID (task s' ?c) = -1" "\<forall>t \<in> set cs. pare (task s' t) = Some (idle_task s)" "semaphores s' = semaphores ?s1"
     "exit_frame ?s1 s'" "released (mm s) d p h (left_mm d p h (mm s)) \<longrightarrow> released (mm s) d p h (mm s')"
    and Q': "Q' = (heir_lists ?c (idle_task s) cs Q)(Readyqueue := Q' Readyqueue, TWaitList ?c \<mapsto> [],
        Freequeue \<mapsto> map TList (tasks_on Q Freequeue @ [?c]), Blocked \<mapsto> map TList (filter (\<lambda>t. t \<notin> set ws) (tasks_on Q Blocked)))"
    using exit_rest_ok [OF inv1 lv1, unfolded closed_sems_fields, OF d hp] by blast
  have sm: "semaphores s' i = (if owns s i then (semaphores s i)\<lparr>sem_free := True\<rparr> else semaphores s i)" for i
    unfolding s'(7) closed_sems_def by (simp add: owns_def)
  note q = left_lists [OF ty Q']
  have "sem_inv s' Q'"
    unfolding sem_inv_def
  proof (intro conjI allI impI)
    show "t \<in> set (tasks_on Q' Blocked)" if "on_list Q' (SemBlocked i) (TSemList t)" for i t
      using that sem lv unfolding q(1) sem_inv_def leaves_def on_list_def q(3) by auto
  qed (use sem nobody in \<open>auto simp: sm waiters_def tasks_on_def q(3) sem_inv_def split: if_splits\<close>)
  moreover have "sys_exit s = Some (Switched, s')"
    using sems s'(1) d by (simp add: sys_exit_def get_PT_def exit_from_def)
  moreover have "exit_frame s s'" using s'(8) by (simp add: exit_frame_def closed_sems_def)
  ultimately show ?thesis using s' q sm Q'
    by (intro exI [of _ s'] exI [of _ Q'] conjI) (simp_all only: wait_thread_end_def simp_thms)
qed


section \<open>wait\<close>

text \<open>\<open>wait_thread\<close> suspends its caller on the list of the awaited thread.\<close>

lemma sys_wait_thread_spec:
  assumes inv: "sched_inv s Q" and cpu: "cpu_inv s Q" and ni: "cur s \<noteq> idle_task s"
    and f: "find_from 0 (\<lambda>i. PID (task s i) = pid) 0 NR_TASKS = Some bt"
    and q: "Q (TWaitList bt) = Some (map TWaitAnchor ws)" "\<forall>a. \<not> on_list Q a (TWaitAnchor (cur s))"
  shows "\<exists>s' Q'. sys_wait_thread pid s = Some (Switched, s') \<and> sched_inv s' Q' \<and> cpu_inv s' Q' \<and>
     (cur s', tasks_on Q' Readyqueue) = rr_next (idle_task s) False (cur s, tasks_on Q Readyqueue) \<and>
     tasks_on Q' Blocked = tasks_on Q Blocked @ [cur s] \<and> Q' (TWaitList bt) = Some (map TWaitAnchor (ws @ [cur s])) \<and>
     (\<forall>a. a \<noteq> Readyqueue \<longrightarrow> a \<noteq> Blocked \<longrightarrow> a \<noteq> TWaitList bt \<longrightarrow> Q' a = Q a) \<and>
     k_ctx (task s' (cur s)) = KWaitThread bt \<and> sched_frame s s' \<and>
     (\<forall>t. t \<noteq> cur s \<longrightarrow> k_ctx (task s' t) = k_ctx (task s t))"
proof -
  let ?n = "TWaitAnchor (cur s)" and ?a = "TWaitList bt"
  have r: "reps (links s) Q" and ty: "typed Q" using inv by (simp_all add: sched_inv_def)
  have "unlinked Q ?n" using q(2) typed_anchor [OF ty, of ?n] by (simp add: unlinked_conv)
  then obtain h where h: "list_add_tail ?n ?a (links s) = Some h" "reps h (Q(?a \<mapsto> map TWaitAnchor (ws @ [cur s])))"
    using reps_add_tail [OF r q(1)] by auto
  let ?Q1 = "Q(?a \<mapsto> map TWaitAnchor (ws @ [cur s]))" and ?s1 = "s\<lparr>links := h\<rparr>"
  have o: "on_list ?Q1 a (TList t) \<longleftrightarrow> on_list Q a (TList t)" for a t
    using q(1) by (auto simp: on_list_def)
  have "typed ?Q1"
    using ty q(1) unfolding typed_def by (auto simp: on_list_def split: if_splits)
  then have inv1: "sched_inv ?s1 ?Q1" "cpu_inv ?s1 ?Q1"
    using sched_inv_relist [OF inv h(2) _ o] cpu_inv_relist [OF cpu o] by blast+
  obtain s2 s' Q' where s': "update_process_state_rr (cur ?s1) (Some Blocked) ?s1 = Some s2"
    "sched_then (KWaitThread bt) (wait_thread_end bt) s2 = Some (Switched, s')" "sched_inv s' Q'" "cpu_inv s' Q'"
    "(cur s', tasks_on Q' Readyqueue) = rr_next (idle_task s) False (cur s, tasks_on ?Q1 Readyqueue)"
    "tasks_on Q' Blocked = tasks_on ?Q1 Blocked @ [cur s]" "\<forall>a. a \<noteq> Readyqueue \<longrightarrow> a \<noteq> Blocked \<longrightarrow> Q' a = ?Q1 a"
    "k_ctx (task s' (cur s)) = KWaitThread bt" "sched_frame ?s1 s'"
    "\<forall>t. t \<noteq> cur s \<longrightarrow> k_ctx (task s' t) = k_ctx (task s t)"
    using suspend [OF inv1, of Blocked "KWaitThread bt" "wait_thread_end bt"] ni by auto
  have "tasks_on ?Q1 d = tasks_on Q d" if "d \<noteq> ?a" for d using that by (simp add: tasks_on_def)
  moreover have "sched_frame s s'" using s'(9) by (simp add: sched_frame_def)
  moreover have "sys_wait_thread pid s = Some (Switched, s')"
    using f h(1) s'(1,2) by (simp add: sys_wait_thread_def on_links_simp)
  ultimately show ?thesis using s'(3-8,10) by (intro exI [of _ s'] exI [of _ Q']) simp
qed

text \<open>A parent that waits for its child, the last user of a directory with even frames.\<close>

definition parting :: kstate where
  "parting = unsignalled\<lparr>mm := (mm family)\<lparr>pagusr_table := (\<lambda>_ p. set_ss_pag (\<lambda>_. 0) p (of_nat (2 * p - 256)) p),
     heap_zones := (\<lambda>_. 0), dir_pages_num_references := (\<lambda>_. 1)\<rparr>\<rparr>"

lemma parting_table:
  "pagusr_table (mm parting) = (\<lambda>_ p. set_ss_pag (\<lambda>_. 0) p (of_nat (2 * p - 256)) p)"
  by (simp add: parting_def)


end
