(* ===== verification/Writing.thy ===== *)
theory Writing
  imports FileIO Threads
begin

text \<open>
  \<open>sys_write\<close> of \<^verbatim>\<open>sys.c\<close> from the user's buffer to the screen: the pieces that go through the
  kernel's buffer add up to the text the user wrote.
\<close>

section \<open>The pieces\<close>

text \<open>\<open>user_bytes s a n P\<close>: the \<open>n\<close> bytes at the user address \<open>a\<close> are mapped to the places \<open>P\<close>, outside of
  the kernel's buffer, which is mapped to itself.\<close>

definition user_bytes :: "kstate \<Rightarrow> nat \<Rightarrow> nat \<Rightarrow> (nat \<Rightarrow> nat) \<Rightarrow> bool" where
  "user_bytes s a n P \<longleftrightarrow>
     (\<forall>i < n. translate (mm s) (a + i) = Some (P i) \<and> P i \<notin> {bufferAux s..<bufferAux s + 1024}) \<and>
     (\<forall>j < 1024. translate (mm s) (bufferAux s + j) = Some (bufferAux s + j))"

definition printed :: "kstate \<Rightarrow> u8 list \<Rightarrow> kstate \<Rightarrow> bool" where
  "printed s cs s' \<longleftrightarrow> s' = s\<lparr>ram := ram s', con := fold printc cs (con s)\<rparr> \<and>
     (\<forall>x. x \<notin> {bufferAux s..<bufferAux s + 1024} \<longrightarrow> ram s' x = ram s x)"

lemma printed_fields:
  assumes "printed s cs s'"
  shows "mm s' = mm s" "bufferAux s' = bufferAux s" "con s' = fold printc cs (con s)"
proof -
  have e: "s' = s\<lparr>ram := ram s', con := fold printc cs (con s)\<rparr>" using assms by (simp only: printed_def)
  show "mm s' = mm s" "bufferAux s' = bufferAux s" "con s' = fold printc cs (con s)" by (subst e, simp)+
qed

lemma printed_trans:
  assumes "printed s cs s1" "printed s1 ds s2"
  shows "printed s (cs @ ds) s2"
proof -
  note f = printed_fields [OF assms(1)]
  have "s1 = s\<lparr>ram := ram s1, con := con s1\<rparr>" "s2 = s1\<lparr>ram := ram s2, con := fold printc ds (con s1)\<rparr>"
    using assms f(3) by (simp_all only: printed_def)
  moreover have "s1\<lparr>ram := r, con := c\<rparr> = s\<lparr>ram := r, con := c\<rparr>" for r c by (subst calculation(1)) simp
  ultimately have "s2 = s\<lparr>ram := ram s2, con := fold printc ds (con s1)\<rparr>" by simp
  with assms f(2,3) show ?thesis by (simp add: printed_def)
qed

lemma write_chunk_ok:
  assumes u: "user_bytes s a n P" and n: "n \<le> 1024"
  shows "\<exists>s'. write_chunk a (int n) s = Some (int n, s') \<and> printed s (map (\<lambda>i. ram s (P i)) [0..<n]) s'"
proof -
  have p: "translate (mm s) (a + i) = Some (P i)" "P i \<noteq> bufferAux s + j" "translate (mm s) (bufferAux s + j) = Some (bufferAux s + j)"
    if "i < n" "j < n" for i j
    using u n that by (auto simp: user_bytes_def)
  obtain r where r: "copy_data (translate (mm s)) a (bufferAux s) (int n) (ram s) = Some r"
    "\<forall>i < n. r (bufferAux s + i) = ram s (P i)" "\<forall>x. x \<notin> (+) (bufferAux s) ` {..<n} \<longrightarrow> r x = ram s x"
    using copy_data_blit [of "int n" "translate (mm s)" a P "bufferAux s" "(+) (bufferAux s)" "ram s"] p
    by auto
  let ?s' = "s\<lparr>ram := r, con := fold printc (map (\<lambda>i. ram s (P i)) [0..<n]) (con s)\<rparr>"
  have m: "map (\<lambda>i. r (bufferAux s + i)) [0..<n] = map (\<lambda>i. ram s (P i)) [0..<n]" using r(2) by simp
  have "write_chunk a (int n) s = Some (int n, ?s')"
    by (simp add: write_chunk_def copy_user_eq r(1) sys_write_console_def print_loop_fold m)
  moreover have "r x = ram s x" if "x \<notin> {bufferAux s..<bufferAux s + 1024}" for x
  proof -
    have "x \<notin> (+) (bufferAux s) ` {..<n}" using that n by (auto simp: image_iff)
    then show ?thesis using r(3) by blast
  qed
  ultimately show ?thesis by (intro exI [of _ ?s']) (simp add: printed_def)
qed

lemma user_bytes_shift:
  assumes u: "user_bytes s a (k + n) P" and p: "printed s cs s1"
  shows "user_bytes s1 (a + k) n (\<lambda>i. P (k + i))" "i < n \<Longrightarrow> ram s1 (P (k + i)) = ram s (P (k + i))"
proof -
  have f: "mm s1 = mm s" "bufferAux s1 = bufferAux s" using printed_fields [OF p] by blast+
  show "user_bytes s1 (a + k) n (\<lambda>i. P (k + i))"
    using u unfolding user_bytes_def f by (auto simp: add.assoc)
  show "ram s1 (P (k + i)) = ram s (P (k + i))" if "i < n"
    using u p that by (simp add: user_bytes_def printed_def)
qed

lemma map_upt_append: "map f [0..<k] @ map (\<lambda>i. f (k + i)) [0..<m] = map f [0..<k + m]"
  by (induction m) simp_all

lemma write_loop_ok:
  assumes "user_bytes s a n P"
  shows "\<exists>s'. write_loop a (int n) ret s = Some (ret + int n, s') \<and> printed s (map (\<lambda>i. ram s (P i)) [0..<n]) s'"
  using assms
proof (induction n arbitrary: a P ret s rule: less_induct)
  case (less n)
  show ?case
  proof (cases "n \<le> 1024")
    case True
    obtain s' where "write_chunk a (int n) s = Some (int n, s')" "printed s (map (\<lambda>i. ram s (P i)) [0..<n]) s'"
      using write_chunk_ok [OF less.prems True] by blast
    with True show ?thesis by (subst write_loop.simps) simp
  next
    case False
    then have "n = 1024 + (n - 1024)" "0 < n - 1024" by simp_all
    then obtain m where m: "n = 1024 + m" "0 < m" by blast
    have "user_bytes s a 1024 P" using less.prems m by (simp add: user_bytes_def)
    from write_chunk_ok [OF this] obtain s1 where
      s1: "write_chunk a (int 1024) s = Some (int 1024, s1)" "printed s (map (\<lambda>i. ram s (P i)) [0..<1024]) s1" by blast
    note sh = user_bytes_shift [OF less.prems [unfolded m] s1(2)]
    have "m < n" using m by simp
    from less.IH [OF this sh(1), of "ret + 1024"] obtain s2 where
      s2: "write_loop (a + 1024) (int m) (ret + 1024) s1 = Some (ret + 1024 + int m, s2)"
      "printed s1 (map (\<lambda>i. ram s1 (P (1024 + i))) [0..<m]) s2" by blast
    have "map (\<lambda>i. ram s1 (P (1024 + i))) [0..<m] = map (\<lambda>i. ram s (P (1024 + i))) [0..<m]" using sh(2) by simp
    then have e: "map (\<lambda>i. ram s (P i)) [0..<1024] @ map (\<lambda>i. ram s1 (P (1024 + i))) [0..<m] = map (\<lambda>i. ram s (P i)) [0..<n]"
      using map_upt_append [of "\<lambda>i. ram s (P i)" 1024 m] unfolding m(1) by (simp only:)
    have "printed s (map (\<lambda>i. ram s (P i)) [0..<n]) s2" using printed_trans [OF s1(2) s2(2)] unfolding e .
    moreover have "write_loop a (int n) ret s = Some (ret + int n, s2)"
      using m s1(1) s2(1) by (subst write_loop.simps) (simp add: add.assoc)
    ultimately show ?thesis by blast
  qed
qed

text \<open>C34. \<open>write\<close> to the standard output sends exactly the bytes of the user's buffer to the console, in
  order and once each, however many pieces of 1024 bytes the kernel copies them in; it returns
  their number, keeps the cursor on the screen, and changes no memory but the kernel's buffer.\<close>
theorem sys_write_ok:
  assumes "user_bytes s (unat buffer) n P" and "buffer \<noteq> 0" and "0 < n" and "n < 2 ^ 31"
    and "access_ok VERIFY_READ buffer (of_nat n) \<noteq> 0"
  shows "\<exists>s'. sys_write 1 buffer (int n) s = Some (Ret (int n), s') \<and>
     printed s (map (\<lambda>i. ram s (P i)) [0..<n]) s' \<and>
     port_e9 (con s') = port_e9 (con s) @ map (\<lambda>i. ram s (P i)) [0..<n] \<and>
     (cursor_ok (con s) \<longrightarrow> cursor_ok (con s') \<and> (\<forall>k \<ge> 2000. screen (con s') k = screen (con s) k))"
proof -
  obtain s' where s': "write_loop (unat buffer) (int n) 0 s = Some (int n, s')"
    "printed s (map (\<lambda>i. ram s (P i)) [0..<n]) s'"
    using write_loop_ok [OF assms(1), of 0] by auto
  have "sys_write 1 buffer (int n) s = Some (Ret (int n), s')"
    using assms s'(1) by (simp add: sys_write_def check_fd_def)
  then show ?thesis using s'(2) printed_fields(3) [OF s'(2)]
    by (intro exI [of _ s']) (simp add: fold_printc_cursor_ok fold_printc_screen_outside)
qed

text \<open>A user that writes a page and a half from its data.\<close>

definition writer :: kstate where
  "writer = spawner\<lparr>bufferAux := 0x20000, con := init_console\<rparr>"

lemma sys_write_ok_witness:
  "\<exists>s'. sys_write 1 0x101000 6144 writer = Some (Ret 6144, s') \<and>
     length (port_e9 (con s')) = length (port_e9 init_console) + 6144 \<and> cursor_ok (con s')"
proof -
  obtain d where d: "mm spawner = flat_mm (Some d)" using spawner_inv(4) by blast
  have u: "unat (0x101000 :: u32) = 0x101000" by simp
  have "user_bytes writer (unat (0x101000 :: u32)) 6144 (\<lambda>i. 0x101000 + i)"
    unfolding user_bytes_def u by (simp add: writer_def d translate_flat)
  moreover have "access_ok VERIFY_READ (0x101000 :: u32) (of_nat 6144) \<noteq> 0"
    by (simp add: access_ok_def Let_def)
  ultimately obtain s' where s': "sys_write 1 0x101000 (int 6144) writer = Some (Ret (int 6144), s')"
    "port_e9 (con s') = port_e9 (con writer) @ map (\<lambda>i. ram writer (0x101000 + i)) [0..<6144]"
    "cursor_ok (con writer) \<longrightarrow> cursor_ok (con s')"
    using sys_write_ok [of writer "0x101000" 6144 "\<lambda>i. 0x101000 + i"] by auto
  have "con writer = init_console" by (simp add: writer_def)
  moreover have "cursor_ok init_console" by (simp add: cursor_ok_def init_console_def)
  moreover have "length (port_e9 (con s')) = length (port_e9 (con writer)) + 6144"
    unfolding s'(2) length_append length_map length_upt by simp
  ultimately show ?thesis using s'(1,3) by simp
qed

end
