(* ===== verification/Libc.thy ===== *)
theory Libc
  imports Process Console "HOL-Library.Signed_Division"
begin

text \<open>
  The user library \<^verbatim>\<open>libc.c\<close>: the strings, the messages of \<open>perror\<close>, and the allocator
  \<open>malloc\<close> and \<open>free\<close>.

  The arrays of the string functions are lists of bytes; an access outside of them is \<open>None\<close>.
  The allocator works on the memory of the process: its pointers are 32-bit words that go through
  the page table, so a pointer to a page that is not mapped is a fault, \<open>None\<close>. Signed
  arithmetic that C leaves undefined is \<open>None\<close> too (\<open>cint\<close>); sums of sizes, which are at most the
  size of the heap, are words.
\<close>

section \<open>Strings\<close>

definition get_at :: "u8 list \<Rightarrow> nat \<Rightarrow> u8 option" where
  "get_at b i = (if i < length b then Some (b ! i) else None)"

definition put_at :: "u8 list \<Rightarrow> nat \<Rightarrow> u8 \<Rightarrow> u8 list option" where
  "put_at b i v = (if i < length b then Some (b[i := v]) else None)"

text \<open>The two loops of \<open>itoa\<close>: the digits from the last to the first, then the reversal.\<close>

function itoa_digits :: "int \<Rightarrow> nat \<Rightarrow> u8 list \<Rightarrow> (nat \<times> u8 list) option" where
  "itoa_digits a i b =
     (if a > 0 then Option.bind (put_at b i (word_of_int (a mod 10 + 48))) (itoa_digits (a div 10) (Suc i))
      else Some (i, b))"
  by pat_completeness auto
termination
  by (relation "measure (\<lambda>(a, i, b). nat a)") auto

declare itoa_digits.simps [simp del]

definition itoa_swap :: "nat \<Rightarrow> nat \<Rightarrow> u8 list \<Rightarrow> u8 list option" where
  "itoa_swap i i1 b = do {
     c \<leftarrow> get_at b i1;
     e \<leftarrow> get_at b (i - i1 - 1);
     b1 \<leftarrow> put_at b i1 e;
     put_at b1 (i - i1 - 1) c }"

definition itoa :: "int \<Rightarrow> u8 list \<Rightarrow> u8 list option" where
  "itoa a b =
     (if a = 0 then Option.bind (put_at b 0 48) (\<lambda>b. put_at b 1 0)
      else do {
        (i, b1) \<leftarrow> itoa_digits a 0 b;
        b2 \<leftarrow> foldo (itoa_swap i) [0..<i div 2] b1;
        put_at b2 i 0 })"

function strlen_from :: "u8 list \<Rightarrow> nat \<Rightarrow> nat option" where
  "strlen_from a i = (if i < length a then if a ! i \<noteq> 0 then strlen_from a (Suc i) else Some i else None)"
  by pat_completeness auto
termination
  by (relation "measure (\<lambda>(a, i). length a - i)") auto

declare strlen_from.simps [simp del]

definition strlen :: "u8 list \<Rightarrow> nat option" where
  "strlen a = strlen_from a 0"

section \<open>Messages\<close>

text \<open>\<open>write(1, s, n)\<close> sends the first \<open>n\<close> bytes to the console (\<open>FileIO\<close>, \<open>Console\<close>).\<close>

definition write1 :: "u8 list \<Rightarrow> nat \<Rightarrow> console \<Rightarrow> console option" where
  "write1 s n cn = (if n \<le> length s then Some (snd (sys_write_console (\<lambda>i. s ! i) (int n) cn)) else None)"

abbreviation (input) bytes :: "char list \<Rightarrow> u8 list" where
  "bytes s \<equiv> List.map of_char s"

definition perror :: "int \<Rightarrow> u8 list \<Rightarrow> console \<Rightarrow> console option" where
  "perror err buff cn =
     (if err = 38 then write1 (bytes ''Syscall not implemented\<newline>'') 24 cn
      else if err = 14 then write1 (bytes ''Bad address\<newline>'') 12 cn
      else if err = 22 then write1 (bytes ''Invalid argument\<newline>'') 17 cn
      else do {
        buff1 \<leftarrow> itoa err buff;
        cn1 \<leftarrow> write1 (bytes ''Message for error '') 18 cn;
        n \<leftarrow> strlen buff1;
        cn2 \<leftarrow> write1 buff1 n cn1;
        write1 (bytes '' not found\<newline>'') 11 cn2 })"

section \<open>The memory of the library\<close>

record libc =
  heap_start :: u32
  heap_end :: u32
  errno :: int
  kern :: kstate

abbreviation (input) MALLOC_HEADER_SIZE :: u32 where "MALLOC_HEADER_SIZE \<equiv> 8"

definition rd :: "libc \<Rightarrow> u32 \<Rightarrow> u32 option" where
  "rd l a = ld32 (translate (mm (kern l))) (unat a) (ram (kern l))"

definition wr :: "u32 \<Rightarrow> u32 \<Rightarrow> libc \<Rightarrow> libc option" where
  "wr a v l = do {
     r \<leftarrow> st32 (translate (mm (kern l))) (unat a) v (ram (kern l));
     Some (l\<lparr>kern := (kern l)\<lparr>ram := r\<rparr>\<rparr>) }"

text \<open>The system call and its wrapper, which turns a negative result into -1 and \<open>errno\<close>.\<close>

definition dyn_mem :: "int \<Rightarrow> libc \<Rightarrow> (u32 \<times> libc) option" where
  "dyn_mem num_pages l = do {
     (r, k) \<leftarrow> sys_dyn_mem num_pages (kern l);
     case r of
       Ret v \<Rightarrow> if v < 0 then Some (-1, l\<lparr>kern := k, errno := - v\<rparr>) else Some (word_of_int v, l\<lparr>kern := k\<rparr>)
     | _ \<Rightarrow> None }"

definition cint :: "int \<Rightarrow> int option" where
  "cint i = (if - (2 ^ 31) \<le> i \<and> i < 2 ^ 31 then Some i else None)"

text \<open>A \<open>block_header\<close> has \<open>size\<close> at offset 0 and \<open>is_free\<close> at offset 4.\<close>

definition blk_size :: "u32 \<Rightarrow> libc \<Rightarrow> u32 option" where
  "blk_size block l = rd l block"

definition blk_free :: "u32 \<Rightarrow> libc \<Rightarrow> u32 option" where
  "blk_free block l = rd l (block + 4)"

definition next_block :: "u32 \<Rightarrow> libc \<Rightarrow> u32 option" where
  "next_block block l = do { sz \<leftarrow> blk_size block l; Some (block + sz) }"

definition prev_block :: "u32 \<Rightarrow> libc \<Rightarrow> u32 option" where
  "prev_block block l = do {
     let block_footer = block - MALLOC_HEADER_SIZE;
     prev_size \<leftarrow> blk_size block_footer l;
     Some (block - prev_size) }"

definition write_header_footer :: "u32 \<Rightarrow> u32 \<Rightarrow> u32 \<Rightarrow> libc \<Rightarrow> libc option" where
  "write_header_footer block sz is_free l = do {
     l1 \<leftarrow> wr block sz l;
     l2 \<leftarrow> wr (block + 4) is_free l1;
     let footer = block + sz - MALLOC_HEADER_SIZE;
     l3 \<leftarrow> wr footer sz l2;
     wr (footer + 4) is_free l3 }"

section \<open>malloc\<close>

text \<open>The branch of the loop that takes the block \<open>current\<close>.\<close>

definition take_block :: "u32 \<Rightarrow> u32 \<Rightarrow> libc \<Rightarrow> (u32 \<times> libc) option" where
  "take_block total_size current l = do {
     sz \<leftarrow> blk_size current l;
     rem \<leftarrow> cint (sint sz - sint total_size);
     l1 \<leftarrow> (if word_of_int rem > 2 * MALLOC_HEADER_SIZE then do {
              l1 \<leftarrow> write_header_footer current total_size 0 l;
              partition \<leftarrow> next_block current l1;
              write_header_footer partition (word_of_int rem) 1 l1 }
            else write_header_footer current sz 0 l);
     Some (current + MALLOC_HEADER_SIZE, l1) }"

definition block_fits :: "u32 \<Rightarrow> u32 \<Rightarrow> libc \<Rightarrow> bool option" where
  "block_fits total_size current l = do {
     f \<leftarrow> blk_free current l;
     if f = 0 then Some False
     else do { sz \<leftarrow> blk_size current l; Some (sint sz \<ge> sint total_size) } }"

partial_function (option) malloc_loop :: "u32 \<Rightarrow> u32 \<Rightarrow> libc \<Rightarrow> (u32 option \<times> libc) option" where
  "malloc_loop total_size current l =
     (if current < heap_end l then
        Option.bind (block_fits total_size current l) (\<lambda>ok.
          if ok then Option.bind (take_block total_size current l) (\<lambda>(p, l1). Some (Some p, l1))
          else Option.bind (next_block current l) (\<lambda>nxt. malloc_loop total_size nxt l))
      else Some (None, l))"

definition malloc_init :: "libc \<Rightarrow> libc option" where
  "malloc_init l =
     (if heap_start l = 0 then do {
        (p, l1) \<leftarrow> dyn_mem 1 l;
        write_header_footer p (of_nat PAGE_SIZE) 1 (l1\<lparr>heap_start := p, heap_end := p + of_nat PAGE_SIZE\<rparr>) }
      else Some l)"

definition malloc_grow :: "u32 \<Rightarrow> libc \<Rightarrow> (u32 \<times> libc) option" where
  "malloc_grow total_size l = do {
     t \<leftarrow> cint (sint total_size + int PAGE_SIZE);
     let pages_needed = (t - 1) sdiv int PAGE_SIZE;
     (new_mem, l1) \<leftarrow> dyn_mem pages_needed l;
     let old_heap_end = heap_end l1;
     let bytes_needed = word_of_int (pages_needed * int PAGE_SIZE);
     l2 \<leftarrow> write_header_footer old_heap_end bytes_needed 0 (l1\<lparr>heap_end := new_mem + bytes_needed\<rparr>);
     Some (old_heap_end + MALLOC_HEADER_SIZE, l2) }"

definition malloc :: "int \<Rightarrow> libc \<Rightarrow> (u32 \<times> libc) option" where
  "malloc num_bytes l =
     (if num_bytes \<le> 0 then Some (-1, l)
      else do {
        let total_size = word_of_int num_bytes + 2 * MALLOC_HEADER_SIZE;
        l1 \<leftarrow> malloc_init l;
        (r, l2) \<leftarrow> malloc_loop total_size (heap_start l1) l1;
        case r of Some p \<Rightarrow> Some (p, l2) | None \<Rightarrow> malloc_grow total_size l2 })"

section \<open>free\<close>

definition join_next :: "u32 \<Rightarrow> libc \<Rightarrow> libc option" where
  "join_next block l = do {
     nxt \<leftarrow> next_block block l;
     if nxt < heap_end l then do {
       f \<leftarrow> blk_free nxt l;
       if f \<noteq> 0 then do {
         a \<leftarrow> blk_size block l; b \<leftarrow> blk_size nxt l;
         write_header_footer block (a + b) 1 l }
       else Some l }
     else Some l }"

definition join_prev :: "u32 \<Rightarrow> libc \<Rightarrow> libc option" where
  "join_prev block l =
     (if block > heap_start l then do {
        prev \<leftarrow> prev_block block l;
        f \<leftarrow> blk_free prev l;
        if f \<noteq> 0 then do {
          a \<leftarrow> blk_size block l; b \<leftarrow> blk_size prev l;
          write_header_footer prev (a + b) 1 l }
        else Some l }
      else Some l)"

text \<open>Giving the last pages back, if the last block is free.\<close>

definition shrink :: "libc \<Rightarrow> libc option" where
  "shrink l = do {
     last \<leftarrow> prev_block (heap_end l) l;
     f \<leftarrow> blk_free last l;
     if f \<noteq> 0 then do {
       sz \<leftarrow> blk_size last l;
       let block_end = last + sz;
       let free_bytes = sint (heap_end l - last);
       let free_pages = free_bytes sdiv int PAGE_SIZE;
       let bytes_given = word_of_int (free_pages * int PAGE_SIZE);
       if free_pages > 0 \<and> block_end = heap_end l then do {
         l1 \<leftarrow> wr last (sz - bytes_given) (l\<lparr>heap_end := heap_end l - bytes_given\<rparr>);
         (_, l2) \<leftarrow> dyn_mem (- free_pages) l1;
         Some l2 }
       else Some l }
     else Some l }"

definition free :: "u32 \<Rightarrow> libc \<Rightarrow> (int \<times> libc) option" where
  "free p l =
     (if p = 0 \<or> heap_start l = 0 then Some (-1, l)
      else if p < heap_start l + MALLOC_HEADER_SIZE \<or> p \<ge> heap_end l then Some (-1, l)
      else do {
        let block = p - MALLOC_HEADER_SIZE;
        f \<leftarrow> blk_free block l;
        if f \<noteq> 0 then Some (-1, l)
        else do {
          sz \<leftarrow> blk_size block l;
          l1 \<leftarrow> write_header_footer block sz 1 l;
          l2 \<leftarrow> join_next block l1;
          l3 \<leftarrow> join_prev block l2;
          l4 \<leftarrow> shrink l3;
          Some (0, l4) } })"

end
