(* ===== verification/Heap.thy ===== *)
theory Heap
  imports Libc Dyn_Mem
begin

text \<open>
  The allocator of \<^verbatim>\<open>libc.c\<close> on the pages that \<open>dyn_mem\<close> gives it: the blocks tile the heap, each
  with its size and its mark in its first and its last eight bytes. \<open>malloc\<close> is first fit on that
  list of blocks, \<open>free\<close> joins neighbours.
\<close>

section \<open>Memory as cells\<close>

text \<open>
  What the allocator relies on: inside of a region that the process owns, a store changes four
  bytes and nothing else. \<open>rest\<close> is everything but the memory.
\<close>

definition tagged :: "(nat \<Rightarrow> u32 option) \<Rightarrow> nat \<Rightarrow> nat \<Rightarrow> u32 \<Rightarrow> bool" where
  "tagged M a n f \<longleftrightarrow> M a = Some (of_nat n) \<and> M (a + 4) = Some f \<and>
     M (a + n - 8) = Some (of_nat n) \<and> M (a + n - 4) = Some f"

locale cell_store =
  fixes load :: "'s \<Rightarrow> nat \<Rightarrow> u32 option"
    and store :: "nat \<Rightarrow> u32 \<Rightarrow> 's \<Rightarrow> 's option"
    and byte :: "'s \<Rightarrow> nat \<Rightarrow> u8 option"
    and rest :: "'s \<Rightarrow> 'r"
    and owns :: "'r \<Rightarrow> nat \<Rightarrow> nat \<Rightarrow> bool"
  assumes store_ok: "owns (rest s) lo hi \<Longrightarrow> lo \<le> a \<Longrightarrow> a + 4 \<le> hi \<Longrightarrow>
      \<exists>s'. store a v s = Some s' \<and> rest s' = rest s \<and> load s' a = Some v \<and>
        (\<forall>b. lo \<le> b \<longrightarrow> b + 4 \<le> hi \<longrightarrow> b + 4 \<le> a \<or> a + 4 \<le> b \<longrightarrow> load s' b = load s b) \<and>
        (\<forall>b. lo \<le> b \<longrightarrow> b < hi \<longrightarrow> b < a \<or> a + 4 \<le> b \<longrightarrow> byte s' b = byte s b)"
begin

text \<open>Marking a block writes its four tags, and leaves every other block and its own contents.\<close>

lemma tag_block:
  assumes o: "owns (rest s) lo hi" and a: "lo \<le> a" "16 \<le> n" "a + n \<le> hi"
  shows "\<exists>s1 s2 s3 s'. store a (of_nat n) s = Some s1 \<and> store (a + 4) f s1 = Some s2 \<and>
     store (a + n - 8) (of_nat n) s2 = Some s3 \<and> store (a + n - 4) f s3 = Some s' \<and>
     rest s' = rest s \<and> tagged (load s') a n f \<and>
     (\<forall>b. lo \<le> b \<longrightarrow> b + 4 \<le> hi \<longrightarrow> b + 4 \<le> a \<or> a + n \<le> b \<or> a + 8 \<le> b \<and> b + 4 \<le> a + n - 8 \<longrightarrow> load s' b = load s b) \<and>
     (\<forall>b. lo \<le> b \<longrightarrow> b < hi \<longrightarrow> b < a \<or> a + n \<le> b \<or> a + 8 \<le> b \<and> b < a + n - 8 \<longrightarrow> byte s' b = byte s b)"
proof -
  obtain s1 where 1: "store a (of_nat n) s = Some s1" "rest s1 = rest s" "load s1 a = Some (of_nat n)"
    "\<And>b. lo \<le> b \<Longrightarrow> b + 4 \<le> hi \<Longrightarrow> b + 4 \<le> a \<or> a + 4 \<le> b \<Longrightarrow> load s1 b = load s b"
    "\<And>b. lo \<le> b \<Longrightarrow> b < hi \<Longrightarrow> b < a \<or> a + 4 \<le> b \<Longrightarrow> byte s1 b = byte s b"
    using store_ok [OF o, of a "of_nat n"] a by auto
  obtain s2 where 2: "store (a + 4) f s1 = Some s2" "rest s2 = rest s" "load s2 (a + 4) = Some f"
    "\<And>b. lo \<le> b \<Longrightarrow> b + 4 \<le> hi \<Longrightarrow> b + 4 \<le> a + 4 \<or> a + 4 + 4 \<le> b \<Longrightarrow> load s2 b = load s1 b"
    "\<And>b. lo \<le> b \<Longrightarrow> b < hi \<Longrightarrow> b < a + 4 \<or> a + 4 + 4 \<le> b \<Longrightarrow> byte s2 b = byte s1 b"
    using store_ok [of s1 lo hi "a + 4" f] o 1(2) a by auto
  have e: "lo \<le> a + n - 8" "a + n - 8 + 4 \<le> hi" "lo \<le> a + n - 4" "a + n - 4 + 4 \<le> hi" using a by simp_all
  have o2: "owns (rest s2) lo hi" using o 2(2) by simp
  obtain s3 where 3: "store (a + n - 8) (of_nat n) s2 = Some s3" "rest s3 = rest s" "load s3 (a + n - 8) = Some (of_nat n)"
    "\<And>b. lo \<le> b \<Longrightarrow> b + 4 \<le> hi \<Longrightarrow> b + 4 \<le> a + n - 8 \<or> a + n - 8 + 4 \<le> b \<Longrightarrow> load s3 b = load s2 b"
    "\<And>b. lo \<le> b \<Longrightarrow> b < hi \<Longrightarrow> b < a + n - 8 \<or> a + n - 8 + 4 \<le> b \<Longrightarrow> byte s3 b = byte s2 b"
    using store_ok [OF o2 e(1,2), of "of_nat n"] 2(2) by auto
  have o3: "owns (rest s3) lo hi" using o 3(2) by simp
  obtain s' where 4: "store (a + n - 4) f s3 = Some s'" "rest s' = rest s" "load s' (a + n - 4) = Some f"
    "\<And>b. lo \<le> b \<Longrightarrow> b + 4 \<le> hi \<Longrightarrow> b + 4 \<le> a + n - 4 \<or> a + n - 4 + 4 \<le> b \<Longrightarrow> load s' b = load s3 b"
    "\<And>b. lo \<le> b \<Longrightarrow> b < hi \<Longrightarrow> b < a + n - 4 \<or> a + n - 4 + 4 \<le> b \<Longrightarrow> byte s' b = byte s3 b"
    using store_ok [OF o3 e(3,4), of f] 3(2) by auto
  have "load s' a = Some (of_nat n)" "load s' (a + 4) = Some f" "load s' (a + n - 8) = Some (of_nat n)"
    using a 1(3) 2(3) 3(3) 4(4) [of a] 3(4) [of a] 2(4) [of a] 4(4) [of "a + 4"] 3(4) [of "a + 4"] 4(4) [of "a + n - 8"]
    by simp_all
  then have t: "tagged (load s') a n f" using 4(3) by (simp add: tagged_def)
  have "load s' b = load s b" if "lo \<le> b" "b + 4 \<le> hi" "b + 4 \<le> a \<or> a + n \<le> b \<or> a + 8 \<le> b \<and> b + 4 \<le> a + n - 8" for b
  proof -
    have c: "b + 4 \<le> a \<or> a + 4 \<le> b" "b + 4 \<le> a + 4 \<or> a + 4 + 4 \<le> b" "b + 4 \<le> a + n - 8 \<or> a + n - 8 + 4 \<le> b"
      "b + 4 \<le> a + n - 4 \<or> a + n - 4 + 4 \<le> b" using that(3) a(2) by arith+
    show ?thesis
      by (simp only: 4(4) [OF that(1,2) c(4)] 3(4) [OF that(1,2) c(3)] 2(4) [OF that(1,2) c(2)] 1(4) [OF that(1,2) c(1)])
  qed
  moreover have "byte s' b = byte s b" if "lo \<le> b" "b < hi" "b < a \<or> a + n \<le> b \<or> a + 8 \<le> b \<and> b < a + n - 8" for b
  proof -
    have c: "b < a \<or> a + 4 \<le> b" "b < a + 4 \<or> a + 4 + 4 \<le> b" "b < a + n - 8 \<or> a + n - 8 + 4 \<le> b"
      "b < a + n - 4 \<or> a + n - 4 + 4 \<le> b" using that(3) a(2) by arith+
    show ?thesis
      by (simp only: 4(5) [OF that(1,2) c(4)] 3(5) [OF that(1,2) c(3)] 2(5) [OF that(1,2) c(2)] 1(5) [OF that(1,2) c(1)])
  qed
  ultimately show ?thesis using 1(1) 2(1) 3(1) 4(1,2) t by blast
qed

end

section \<open>The memory of the process\<close>

definition word_at :: "libc \<Rightarrow> nat \<Rightarrow> u32 option" where
  "word_at l a = ld32 (translate (mm (kern l))) a (ram (kern l))"

definition byte_at :: "libc \<Rightarrow> nat \<Rightarrow> u8 option" where
  "byte_at l a = ld8 (translate (mm (kern l))) a (ram (kern l))"

definition but_ram :: "libc \<Rightarrow> libc" where
  "but_ram l = l\<lparr>kern := (kern l)\<lparr>ram := (\<lambda>_. 0)\<rparr>\<rparr>"

definition owned :: "libc \<Rightarrow> nat \<Rightarrow> nat \<Rightarrow> bool" where
  "owned l lo hi \<longleftrightarrow> hi \<le> PAGE_SIZE * TOTAL_PAGES \<and> (\<forall>a. lo \<le> a \<longrightarrow> a < hi \<longrightarrow> translate (mm (kern l)) a \<noteq> None) \<and>
     inj_on (translate (mm (kern l))) {lo..<hi}"

lemma but_ram_eqD:
  "but_ram l' = but_ram l \<Longrightarrow> heap_start l' = heap_start l \<and> heap_end l' = heap_end l \<and> errno l' = errno l \<and>
     mm (kern l') = mm (kern l) \<and> task (kern l') = task (kern l) \<and> cur (kern l') = cur (kern l)"
  by (cases l; cases l'; cases "kern l"; cases "kern l'") (simp add: but_ram_def)

lemma unat_ptr: "a \<le> PAGE_SIZE * TOTAL_PAGES \<Longrightarrow> unat (of_nat a :: u32) = a"
  by (simp add: unat_of_nat take_bit_nat_eq_self)

lemma byte_st32_other:
  assumes "st32 tr a w m = Some m'" and "\<forall>j<4. tr b \<noteq> tr (a + j)"
  shows "ld8 tr b m' = ld8 tr b m"
proof -
  obtain m0 m1 m2 where s: "st8 tr a (byte_of 0 w) m = Some m0" "st8 tr (a + 1) (byte_of 1 w) m0 = Some m1"
    "st8 tr (a + 2) (byte_of 2 w) m1 = Some m2" "st8 tr (a + 3) (byte_of 3 w) m2 = Some m'"
    using assms(1) by (auto simp: st32_def)
  then show ?thesis
    using ld8_st8 [OF s(1)] ld8_st8 [OF s(2)] ld8_st8 [OF s(3)] ld8_st8 [OF s(4)]
      assms(2) [rule_format, of 0] assms(2) [rule_format, of 1] assms(2) [rule_format, of 2] assms(2) [rule_format, of 3]
    by simp
qed

interpretation hm: cell_store word_at "\<lambda>a. wr (of_nat a)" byte_at but_ram owned
proof unfold_locales
  fix s :: libc and lo hi a :: nat and v :: u32
  assume "owned (but_ram s) lo hi" and a: "lo \<le> a" "a + 4 \<le> hi"
  then have o: "owned s lo hi" by (simp add: owned_def but_ram_def)
  let ?tr = "translate (mm (kern s))"
  have m: "\<forall>i<4. ?tr (a + i) \<noteq> None" and inj: "inj_on ?tr {lo..<hi}" and hi: "hi \<le> PAGE_SIZE * TOTAL_PAGES"
    using o a by (auto simp: owned_def)
  have u: "unat (of_nat a :: u32) = a" using hi a by (intro unat_ptr) simp
  obtain r where r: "st32 ?tr a v (ram (kern s)) = Some r" using st32_mapped [OF m] by blast
  let ?s = "s\<lparr>kern := (kern s)\<lparr>ram := r\<rparr>\<rparr>"
  have "wr (of_nat a) v s = Some ?s" using r by (simp add: wr_def u)
  moreover have "but_ram ?s = but_ram s" by (simp add: but_ram_def)
  moreover have "word_at ?s a = Some v"
    using ld32_st32 [OF r] inj_on_subset [OF inj, of "{a..<a + 4}"] a by (auto simp: word_at_def)
  moreover have "word_at ?s b = word_at s b" if "lo \<le> b" "b + 4 \<le> hi" "b + 4 \<le> a \<or> a + 4 \<le> b" for b
  proof -
    have "\<forall>i<4. \<forall>j<4. ?tr (b + i) \<noteq> ?tr (a + j)"
      using that a inj_on_eq_iff [OF inj] by auto
    then show ?thesis using ld32_st32_other [OF r] by (simp add: word_at_def)
  qed
  moreover have "byte_at ?s b = byte_at s b" if "lo \<le> b" "b < hi" "b < a \<or> a + 4 \<le> b" for b
  proof -
    have "\<forall>j<4. ?tr b \<noteq> ?tr (a + j)" using that a inj_on_eq_iff [OF inj] by auto
    then show ?thesis using byte_st32_other [OF r] by (simp add: byte_at_def)
  qed
  ultimately show "\<exists>s'. wr (of_nat a) v s = Some s' \<and> but_ram s' = but_ram s \<and> word_at s' a = Some v \<and>
      (\<forall>b. lo \<le> b \<longrightarrow> b + 4 \<le> hi \<longrightarrow> b + 4 \<le> a \<or> a + 4 \<le> b \<longrightarrow> word_at s' b = word_at s b) \<and>
      (\<forall>b. lo \<le> b \<longrightarrow> b < hi \<longrightarrow> b < a \<or> a + 4 \<le> b \<longrightarrow> byte_at s' b = byte_at s b)"
    by blast
qed

lemma owned_but_ram [simp]: "owned (but_ram l) = owned l"
  by (simp add: owned_def but_ram_def fun_eq_iff)

lemma owned_cong: "but_ram l' = but_ram l \<Longrightarrow> owned l' = owned l"
  by (metis owned_but_ram)

lemma ptr_diff: "b \<le> a \<Longrightarrow> (of_nat a :: u32) - of_nat b = of_nat (a - b)"
  by (simp add: of_nat_diff)

lemma rd_ptr: "a \<le> PAGE_SIZE * TOTAL_PAGES \<Longrightarrow> rd l (of_nat a) = word_at l a"
  by (simp only: rd_def word_at_def unat_ptr)

lemma header_ptr:
  "a + 4 \<le> PAGE_SIZE * TOTAL_PAGES \<Longrightarrow> blk_size (of_nat a) l = word_at l a"
  "a + 4 \<le> PAGE_SIZE * TOTAL_PAGES \<Longrightarrow> blk_free (of_nat a) l = word_at l (a + 4)"
  using rd_ptr [of a l] rd_ptr [of "a + 4" l] by (simp_all add: blk_size_def blk_free_def add.commute)

lemma write_header_footer_ok:
  assumes o: "owned l lo hi" and a: "lo \<le> a" "16 \<le> n" "a + n \<le> hi"
  shows "\<exists>l'. write_header_footer (of_nat a) (of_nat n) f l = Some l' \<and> but_ram l' = but_ram l \<and> tagged (word_at l') a n f \<and>
     (\<forall>b. lo \<le> b \<longrightarrow> b + 4 \<le> hi \<longrightarrow> b + 4 \<le> a \<or> a + n \<le> b \<or> a + 8 \<le> b \<and> b + 4 \<le> a + n - 8 \<longrightarrow> word_at l' b = word_at l b) \<and>
     (\<forall>b. lo \<le> b \<longrightarrow> b < hi \<longrightarrow> b < a \<or> a + n \<le> b \<or> a + 8 \<le> b \<and> b < a + n - 8 \<longrightarrow> byte_at l' b = byte_at l b)"
proof -
  have p: "(of_nat a :: u32) + 4 = of_nat (a + 4)" by simp
  have q: "(of_nat a :: u32) + of_nat n - 8 = of_nat (a + n - 8)"
    using ptr_diff [of 8 "a + n"] a(2) by simp
  have r: "(of_nat (a + n - 8) :: u32) + 4 = of_nat (a + n - 4)"
  proof -
    have "a + n - 4 = a + n - 8 + 4" using a(2) by simp
    then show ?thesis by (simp only: of_nat_add of_nat_numeral)
  qed
  have o': "owned (but_ram l) lo hi" using o by simp
  from hm.tag_block [OF o' a, of f] show ?thesis
    unfolding write_header_footer_def Let_def p q r by fastforce
qed

section \<open>Blocks that tile the heap\<close>

text \<open>A block is its size and whether it is free.\<close>

type_synonym blocks = "(nat \<times> bool) list"

definition span :: "blocks \<Rightarrow> nat" where
  "span bs = sum_list (List.map fst bs)"

lemma span_simps [simp]: "span [] = 0" "span (b # bs) = fst b + span bs" "span (xs @ ys) = span xs + span ys"
  by (simp_all add: span_def)

fun tiles :: "(nat \<Rightarrow> u32 option) \<Rightarrow> nat \<Rightarrow> blocks \<Rightarrow> bool" where
  "tiles M a [] \<longleftrightarrow> True"
| "tiles M a ((n, f) # bs) \<longleftrightarrow> 16 \<le> n \<and> tagged M a n (of_bool f) \<and> tiles M (a + n) bs"

lemma tiles_append [simp]: "tiles M a (xs @ ys) \<longleftrightarrow> tiles M a xs \<and> tiles M (a + span xs) ys"
  by (induction xs arbitrary: a) (auto simp: add.assoc)

lemma tagged_cong:
  assumes "\<And>b. a \<le> b \<Longrightarrow> b + 4 \<le> a + n \<Longrightarrow> M' b = M b" "16 \<le> n"
  shows "tagged M' a n f \<longleftrightarrow> tagged M a n f"
  using assms(1) [of a] assms(1) [of "a + 4"] assms(1) [of "a + n - 8"] assms(1) [of "a + n - 4"] assms(2)
  by (simp add: tagged_def)

lemma tiles_cong:
  "(\<And>b. a \<le> b \<Longrightarrow> b + 4 \<le> a + span bs \<Longrightarrow> M' b = M b) \<Longrightarrow> tiles M' a bs \<longleftrightarrow> tiles M a bs"
proof (induction bs arbitrary: a)
  case (Cons b bs)
  obtain n f where b: "b = (n, f)" by (cases b)
  have "tagged M' a n (of_bool f) \<longleftrightarrow> tagged M a n (of_bool f)" if "16 \<le> n"
    by (rule tagged_cong [OF _ that]) (use Cons.prems b in simp)
  moreover have "tiles M' (a + n) bs \<longleftrightarrow> tiles M (a + n) bs"
    by (rule Cons.IH) (use Cons.prems b in simp)
  ultimately show ?case by (auto simp: b)
qed simp

text \<open>The addresses the program may use: the inside of the blocks in use.\<close>

fun payload :: "nat \<Rightarrow> blocks \<Rightarrow> nat set" where
  "payload a [] = {}"
| "payload a ((n, f) # bs) = (if f then {} else {a + 8..<a + n - 8}) \<union> payload (a + n) bs"

lemma payload_append [simp]: "payload a (xs @ ys) = payload a xs \<union> payload (a + span xs) ys"
  by (induction xs arbitrary: a) (auto simp: add.assoc)

lemma payload_bounds: "b \<in> payload a bs \<Longrightarrow> a \<le> b \<and> b < a + span bs"
  by (induction bs arbitrary: a) (fastforce split: if_splits)+

definition HEAP_BASE :: nat where
  "HEAP_BASE = PAG_LOG_INIT_HEAP * PAGE_SIZE"

definition heap_inv :: "libc \<Rightarrow> nat \<Rightarrow> blocks \<Rightarrow> bool" where
  "heap_inv l h bs \<longleftrightarrow> (\<exists>d p hz. has_heap (kern l) d p hz h) \<and> heap_start l = of_nat HEAP_BASE \<and>
     heap_end l = of_nat (HEAP_BASE + PAGE_SIZE * h) \<and> span bs = PAGE_SIZE * h \<and> tiles (word_at l) HEAP_BASE bs"

lemma translate_heap:
  assumes "has_heap s d p hz h" "HEAP_BASE \<le> a" "a < HEAP_BASE + PAGE_SIZE * h"
  shows "translate (mm s) a = Some (frame_no (mm s) p (a div PAGE_SIZE) * PAGE_SIZE + a mod PAGE_SIZE)"
    "PAG_LOG_INIT_HEAP \<le> a div PAGE_SIZE" "a div PAGE_SIZE < PAG_LOG_INIT_HEAP + h"
proof -
  have m: "cr3 (mm s) = Some d" "row_of (mm s) d p" "heap_map (mm s) p h" using assms(1) by (simp_all add: has_heap_def)
  show i: "PAG_LOG_INIT_HEAP \<le> a div PAGE_SIZE" using assms(2) by (simp add: HEAP_BASE_def less_eq_div_iff_mult_less_eq)
  show j: "a div PAGE_SIZE < PAG_LOG_INIT_HEAP + h"
    using assms(3) by (simp add: HEAP_BASE_def less_mult_imp_div_less algebra_simps)
  have t: "a div PAGE_SIZE < TOTAL_PAGES" "present (pagusr_table (mm s) p (a div PAGE_SIZE))"
    using m(3) i j by (simp_all add: heap_map_def)
  have "a = a div PAGE_SIZE * PAGE_SIZE + a mod PAGE_SIZE" by simp
  then show "translate (mm s) a = Some (frame_no (mm s) p (a div PAGE_SIZE) * PAGE_SIZE + a mod PAGE_SIZE)"
    using translate_row [OF m(1,2) t(1), of "a mod PAGE_SIZE"] t(2) by simp
qed

lemma owned_heap:
  assumes "has_heap (kern l) d p hz h"
  shows "owned l HEAP_BASE (HEAP_BASE + PAGE_SIZE * h)"
proof -
  have hm: "heap_map (mm (kern l)) p h" using assms by (simp add: has_heap_def)
  then have "HEAP_BASE + PAGE_SIZE * h \<le> PAGE_SIZE * TOTAL_PAGES" by (simp add: heap_map_def HEAP_BASE_def)
  moreover have "inj_on (translate (mm (kern l))) {HEAP_BASE..<HEAP_BASE + PAGE_SIZE * h}"
  proof (rule inj_onI)
    fix a b assume ab: "a \<in> {HEAP_BASE..<HEAP_BASE + PAGE_SIZE * h}" "b \<in> {HEAP_BASE..<HEAP_BASE + PAGE_SIZE * h}"
      and eq: "translate (mm (kern l)) a = translate (mm (kern l)) b"
    let ?F = "frame_no (mm (kern l)) p"
    have "?F (a div PAGE_SIZE) * PAGE_SIZE + a mod PAGE_SIZE = ?F (b div PAGE_SIZE) * PAGE_SIZE + b mod PAGE_SIZE"
      using eq translate_heap(1) [OF assms, of a] translate_heap(1) [OF assms, of b] ab by simp
    then have "?F (a div PAGE_SIZE) = ?F (b div PAGE_SIZE)" "a mod PAGE_SIZE = b mod PAGE_SIZE"
      using page_div [of "a mod PAGE_SIZE" "?F (a div PAGE_SIZE)"] page_div [of "b mod PAGE_SIZE" "?F (b div PAGE_SIZE)"]
      by (metis mod_less_divisor zero_less_numeral, simp)
    moreover have "inj_on ?F {PAG_LOG_INIT_HEAP..<PAG_LOG_INIT_HEAP + h}" using hm by (simp add: heap_map_def)
    ultimately have "a div PAGE_SIZE = b div PAGE_SIZE"
      using inj_onD translate_heap(2,3) [OF assms, of a] translate_heap(2,3) [OF assms, of b] ab by fastforce
    then show "a = b" using \<open>a mod PAGE_SIZE = b mod PAGE_SIZE\<close> by (metis div_mult_mod_eq)
  qed
  ultimately show ?thesis
    using translate_heap(1) [OF assms] unfolding owned_def by auto
qed

lemma sint_nat: "n < 2 ^ 31 \<Longrightarrow> sint (of_nat n :: u32) = int n"
  by (simp add: signed_of_nat signed_take_bit_int_eq_self)

lemma less_ptr: "a < 2 ^ 32 \<Longrightarrow> b < 2 ^ 32 \<Longrightarrow> (of_nat a :: u32) < of_nat b \<longleftrightarrow> a < b"
  by (simp add: word_less_nat_alt unat_of_nat take_bit_nat_eq_self)

lemma sdiv_nat: "int a sdiv int b = int (a div b)"
  by (cases "a = 0"; cases "b = 0") (simp_all add: signed_divide_int_def zdiv_int)

lemma cint_ok: "- (2 ^ 31) \<le> i \<Longrightarrow> i < 2 ^ 31 \<Longrightarrow> cint i = Some i"
  by (simp add: cint_def)

lemma heap_invD:
  assumes "heap_inv l h bs"
  shows "owned l HEAP_BASE (HEAP_BASE + span bs)" "HEAP_BASE + span bs \<le> 4194304"
    "heap_start l = of_nat HEAP_BASE" "heap_end l = of_nat (HEAP_BASE + span bs)" "tiles (word_at l) HEAP_BASE bs"
    "span bs = PAGE_SIZE * h"
proof -
  obtain d p hz where "has_heap (kern l) d p hz h" using assms by (auto simp: heap_inv_def)
  from owned_heap [OF this] show o: "owned l HEAP_BASE (HEAP_BASE + span bs)"
    using assms by (simp add: heap_inv_def)
  then show "HEAP_BASE + span bs \<le> 4194304" by (simp add: owned_def)
qed (use assms in \<open>simp_all add: heap_inv_def\<close>)

lemma heap_inv_cong:
  assumes "heap_inv l h bs" "but_ram l' = but_ram l" "span bs' = span bs" "tiles (word_at l') HEAP_BASE bs'"
  shows "heap_inv l' h bs'"
  using assms but_ram_eqD [OF assms(2)] by (simp add: heap_inv_def has_heap_def)

text \<open>Marking the block between \<open>xs\<close> and \<open>ys\<close>, whatever was there before.\<close>

lemma mark:
  assumes o: "owned l HEAP_BASE E" and t: "tiles (word_at l) HEAP_BASE xs" "tiles (word_at l) (HEAP_BASE + span xs + n) ys"
    and E: "HEAP_BASE + span xs + n + span ys \<le> E" and n: "16 \<le> n" and a: "a = HEAP_BASE + span xs"
  shows "\<exists>l'. write_header_footer (of_nat a) (of_nat n) (of_bool f) l = Some l' \<and> but_ram l' = but_ram l \<and>
     tiles (word_at l') HEAP_BASE (xs @ (n, f) # ys) \<and>
     (\<forall>b. HEAP_BASE \<le> b \<longrightarrow> b + 4 \<le> E \<longrightarrow> b + 4 \<le> a \<or> a + n \<le> b \<or> a + 8 \<le> b \<and> b + 4 \<le> a + n - 8 \<longrightarrow> word_at l' b = word_at l b) \<and>
     (\<forall>b. HEAP_BASE \<le> b \<longrightarrow> b < E \<longrightarrow> b < a \<or> a + n \<le> b \<or> a + 8 \<le> b \<and> b < a + n - 8 \<longrightarrow> byte_at l' b = byte_at l b)"
proof -
  have "HEAP_BASE \<le> a" "a + n \<le> E" using E by (simp_all add: a)
  from write_header_footer_ok [OF o this(1) n this(2), of "of_bool f"] obtain l' where
    l': "write_header_footer (of_nat a) (of_nat n) (of_bool f) l = Some l'" "but_ram l' = but_ram l"
      "tagged (word_at l') a n (of_bool f)"
      "\<forall>b. HEAP_BASE \<le> b \<longrightarrow> b + 4 \<le> E \<longrightarrow> b + 4 \<le> a \<or> a + n \<le> b \<or> a + 8 \<le> b \<and> b + 4 \<le> a + n - 8 \<longrightarrow> word_at l' b = word_at l b"
      "\<forall>b. HEAP_BASE \<le> b \<longrightarrow> b < E \<longrightarrow> b < a \<or> a + n \<le> b \<or> a + 8 \<le> b \<and> b < a + n - 8 \<longrightarrow> byte_at l' b = byte_at l b"
    by blast
  have "tiles (word_at l') HEAP_BASE xs"
    using tiles_cong [of HEAP_BASE xs "word_at l'" "word_at l"] l'(4) E t(1) by (simp add: a)
  moreover have "tiles (word_at l') (a + n) ys"
    using tiles_cong [of "a + n" ys "word_at l'" "word_at l"] l'(4) E t(2) by (simp add: a)
  ultimately show ?thesis using l' n by (simp add: a)
qed

section \<open>malloc is first fit\<close>

fun first_fit :: "nat \<Rightarrow> blocks \<Rightarrow> (nat \<times> blocks) option" where
  "first_fit t [] = None"
| "first_fit t ((n, f) # bs) =
     (if f \<and> t \<le> n then Some (0, if 16 < n - t then (t, False) # (n - t, True) # bs else (n, False) # bs)
      else map_option (\<lambda>(k, bs'). (n + k, (n, f) # bs')) (first_fit t bs))"

lemma first_fit_span: "first_fit t bs = Some (k, bs') \<Longrightarrow> span bs' = span bs"
  by (induction bs arbitrary: k bs') (auto split: if_splits)

lemma take_block_ok:
  assumes hi: "heap_inv l h (xs @ (n, True) # ys)" and t: "16 < t" "t \<le> n"
  shows "\<exists>l'. take_block (of_nat t) (of_nat (HEAP_BASE + span xs)) l = Some (of_nat (HEAP_BASE + span xs + 8), l') \<and>
     heap_inv l' h (xs @ (if 16 < n - t then (t, False) # (n - t, True) # ys else (n, False) # ys)) \<and>
     (\<forall>b \<in> payload HEAP_BASE (xs @ (n, True) # ys). byte_at l' b = byte_at l b)"
proof -
  let ?a = "HEAP_BASE + span xs" and ?bs = "xs @ (n, True) # ys"
  let ?E = "HEAP_BASE + span ?bs"
  note H = heap_invD [OF hi]
  have T: "tiles (word_at l) HEAP_BASE xs" "tagged (word_at l) ?a n 1" "tiles (word_at l) (?a + n) ys"
    using H(5) by (simp_all add: add.assoc)
  have b: "?a + n \<le> 4194304" using H(2) by simp
  have sz: "blk_size (of_nat ?a) l = Some (of_nat n)"
    using header_ptr(1) [of ?a l] b t T(2) by (simp add: tagged_def)
  have s: "sint (of_nat n :: u32) = int n" "sint (of_nat t :: u32) = int t"
    using b t by (intro sint_nat; simp)+
  have rem: "cint (int n - int t) = Some (int n - int t)" using b t by (intro cint_ok) simp_all
  have w: "(word_of_int (int n - int t) :: u32) = of_nat (n - t)" using t(2) by (simp add: of_nat_diff)
  have cmp: "(of_nat (n - t) :: u32) > 16 \<longleftrightarrow> 16 < n - t" using less_ptr [of 16 "n - t"] b by simp
  have out: "b < ?a \<or> ?a + n \<le> b" "HEAP_BASE \<le> b" "b < ?E" if "b \<in> payload HEAP_BASE ?bs" for b
    using that payload_bounds [of b HEAP_BASE xs] payload_bounds [of b "?a + n" ys]
    by (auto simp: add.assoc)
  have p8: "(of_nat ?a :: u32) + 8 = of_nat (?a + 8)" and c16: "(2 * 8 :: u32) = 16" by simp_all
  show ?thesis
  proof (cases "16 < n - t")
    case False
    have "?a + n + span ys \<le> ?E" "16 \<le> n" using t by simp_all
    from mark [OF H(1) T(1,3) this refl, of False] obtain l' where
      l': "write_header_footer (of_nat ?a) (of_nat n) 0 l = Some l'" "but_ram l' = but_ram l"
        "tiles (word_at l') HEAP_BASE (xs @ (n, False) # ys)"
        "\<forall>b. HEAP_BASE \<le> b \<longrightarrow> b < ?E \<longrightarrow> b < ?a \<or> ?a + n \<le> b \<or> ?a + 8 \<le> b \<and> b < ?a + n - 8 \<longrightarrow> byte_at l' b = byte_at l b"
      by auto
    have "heap_inv l' h (xs @ (n, False) # ys)" by (rule heap_inv_cong [OF hi l'(2) _ l'(3)]) simp
    moreover have "take_block (of_nat t) (of_nat ?a) l = Some (of_nat (?a + 8), l')"
      by (simp only: take_block_def sz s rem w c16 cmp False if_False l'(1) Option.bind.simps p8)
    moreover have "\<forall>b \<in> payload HEAP_BASE ?bs. byte_at l' b = byte_at l b" using l'(4) out by blast
    ultimately show ?thesis using False by auto
  next
    case True
    have "?a + t + span [] \<le> ?E" "16 \<le> t" using t by simp_all
    from mark [OF H(1) T(1) _ this refl, of False] obtain l1 where
      l1: "write_header_footer (of_nat ?a) (of_nat t) 0 l = Some l1" "but_ram l1 = but_ram l"
        "tiles (word_at l1) HEAP_BASE (xs @ [(t, False)])"
        "\<And>b. HEAP_BASE \<le> b \<Longrightarrow> b + 4 \<le> ?E \<Longrightarrow> b + 4 \<le> ?a \<or> ?a + t \<le> b \<Longrightarrow> word_at l1 b = word_at l b"
        "\<And>b. HEAP_BASE \<le> b \<Longrightarrow> b < ?E \<Longrightarrow> b < ?a \<or> ?a + t \<le> b \<Longrightarrow> byte_at l1 b = byte_at l b"
      by auto
    have o1: "owned l1 HEAP_BASE ?E" using H(1) owned_cong [OF l1(2)] by simp
    have T1: "tiles (word_at l1) (HEAP_BASE + span (xs @ [(t, False)]) + (n - t)) ys"
      using tiles_cong [of "?a + n" ys "word_at l1" "word_at l"] l1(4) t(2) T(3) by (simp add: add.assoc)
    have "HEAP_BASE + span (xs @ [(t, False)]) + (n - t) + span ys \<le> ?E" "16 \<le> n - t" using True by simp_all
    from mark [OF o1 l1(3) T1 this refl, of True] obtain l' where
      l': "write_header_footer (of_nat (?a + t)) (of_nat (n - t)) 1 l1 = Some l'" "but_ram l' = but_ram l1"
        "tiles (word_at l') HEAP_BASE ((xs @ [(t, False)]) @ (n - t, True) # ys)"
        "\<And>b. HEAP_BASE \<le> b \<Longrightarrow> b < ?E \<Longrightarrow> b < ?a + t \<or> ?a + n \<le> b \<Longrightarrow> byte_at l' b = byte_at l1 b"
      using t(2) by (auto simp: add.assoc)
    have nx: "next_block (of_nat ?a) l1 = Some (of_nat (?a + t))"
      using header_ptr(1) [of ?a l1] b t l1(3) by (simp add: next_block_def tagged_def)
    have "heap_inv l' h (xs @ (t, False) # (n - t, True) # ys)"
      using heap_inv_cong [OF hi, of l' "xs @ (t, False) # (n - t, True) # ys"] l'(2,3) l1(2) t(2) by simp
    moreover have "take_block (of_nat t) (of_nat ?a) l = Some (of_nat (?a + 8), l')"
      by (simp only: take_block_def sz s rem w c16 cmp True if_True l1(1) nx l'(1) Option.bind.simps p8)
    moreover have "byte_at l' b = byte_at l b" if "b \<in> payload HEAP_BASE ?bs" for b
    proof -
      have "b < ?a + t \<or> ?a + n \<le> b" "b < ?a \<or> ?a + t \<le> b" using out(1) [OF that] t(2) by linarith+
      then show ?thesis using l'(4) l1(5) out(2,3) [OF that] by simp
    qed
    ultimately show ?thesis using True by auto
  qed
qed

lemma malloc_loop_ok:
  assumes t: "16 < t" "t < 2 ^ 31"
  shows "heap_inv l h (xs @ ys) \<Longrightarrow>
    (case first_fit t ys of
       None \<Rightarrow> malloc_loop (of_nat t) (of_nat (HEAP_BASE + span xs)) l = Some (None, l)
     | Some (k, ys') \<Rightarrow> \<exists>l'. malloc_loop (of_nat t) (of_nat (HEAP_BASE + span xs)) l =
           Some (Some (of_nat (HEAP_BASE + span xs + k + 8)), l') \<and> heap_inv l' h (xs @ ys') \<and>
           (\<forall>b \<in> payload HEAP_BASE (xs @ ys). byte_at l' b = byte_at l b))"
proof (induction ys arbitrary: xs)
  case Nil
  note H = heap_invD [OF Nil]
  then show ?case by (subst malloc_loop.simps) simp
next
  case (Cons y ys)
  obtain n f where y: "y = (n, f)" by (cases y)
  let ?a = "HEAP_BASE + span xs"
  note H = heap_invD [OF Cons.prems]
  have T: "tagged (word_at l) ?a n (of_bool f)" "16 \<le> n" using H(5) by (simp_all add: y)
  have b: "?a + n + span ys \<le> 4194304" using H(2) by (simp add: y)
  have lt: "(of_nat ?a :: u32) < heap_end l"
    using less_ptr [of ?a "HEAP_BASE + span (xs @ y # ys)"] H(2) T(2) unfolding H(4) by (simp add: y del: of_nat_add)
  have hd: "blk_size (of_nat ?a) l = Some (of_nat n)" "blk_free (of_nat ?a) l = Some (of_bool f)"
    using header_ptr [of ?a l] b T by (simp_all add: tagged_def)
  have s: "sint (of_nat n :: u32) = int n" "sint (of_nat t :: u32) = int t"
    using b t by (intro sint_nat; simp)+
  have ft: "block_fits (of_nat t) (of_nat ?a) l = Some (f \<and> t \<le> n)"
    using hd s by (simp add: block_fits_def)
  show ?case
  proof (cases "f \<and> t \<le> n")
    case True
    with Cons.prems y have "heap_inv l h (xs @ (n, True) # ys)" by simp
    from take_block_ok [OF this t(1)] True obtain l' where
      l': "take_block (of_nat t) (of_nat ?a) l = Some (of_nat (?a + 8), l')"
        "heap_inv l' h (xs @ (if 16 < n - t then (t, False) # (n - t, True) # ys else (n, False) # ys))"
        "\<forall>b \<in> payload HEAP_BASE (xs @ (n, True) # ys). byte_at l' b = byte_at l b" by blast
    have "malloc_loop (of_nat t) (of_nat ?a) l = Some (Some (of_nat (?a + 8)), l')"
      by (subst malloc_loop.simps) (simp only: lt ft True l'(1) if_True simp_thms Option.bind.simps prod.case)
    with True l'(2,3) y show ?thesis by auto
  next
    case False
    have nx: "next_block (of_nat ?a) l = Some (of_nat (HEAP_BASE + span (xs @ [y])))"
      using hd(1) by (simp add: next_block_def y)
    have eq: "malloc_loop (of_nat t) (of_nat ?a) l = malloc_loop (of_nat t) (of_nat (HEAP_BASE + span (xs @ [y]))) l"
      by (subst malloc_loop.simps) (simp only: lt ft False nx if_True if_False Option.bind.simps)
    have hi: "heap_inv l h ((xs @ [y]) @ ys)" using Cons.prems by simp
    note IH = Cons.IH [OF hi]
    have ff: "first_fit t (y # ys) = map_option (\<lambda>(k, bs'). (n + k, y # bs')) (first_fit t ys)"
      using False by (auto simp: y)
    show ?thesis
    proof (cases "first_fit t ys")
      case None
      then show ?thesis using IH ff eq by simp
    next
      case (Some kb)
      obtain k ys' where kb: "kb = (k, ys')" by (cases kb)
      have "HEAP_BASE + span (xs @ [y]) + k + 8 = ?a + (n + k) + 8" by (simp add: y)
      then show ?thesis using IH ff eq Some kb by (simp only: append_assoc append.simps option.simps prod.case list.simps)
    qed
  qed
qed

section \<open>malloc gets pages\<close>

lemma word_at_cong:
  assumes "\<And>i. i < 4 \<Longrightarrow> byte_at l' (a + i) = byte_at l (a + i)"
  shows "word_at l' a = word_at l a"
  using assms [of 0] assms [of 1] assms [of 2] assms [of 3] by (simp add: word_at_def byte_at_def ld32_def)

text \<open>\<open>dyn_mem\<close> of the library: new pages behind the heap, or -1.\<close>

lemma dyn_mem_grow_lib:
  assumes hh: "has_heap (kern l) d p hz h" and n: "0 < n" "n \<le> card (avail (mm (kern l)))"
  shows "\<exists>l'. dyn_mem (int n) l = Some (of_nat (HEAP_BASE + PAGE_SIZE * h), l') \<and> has_heap (kern l') d p hz (h + n) \<and>
     heap_start l' = heap_start l \<and> heap_end l' = heap_end l \<and>
     card (avail (mm (kern l'))) = card (avail (mm (kern l))) - n \<and>
     (\<forall>b. HEAP_BASE \<le> b \<longrightarrow> b < HEAP_BASE + PAGE_SIZE * h \<longrightarrow> byte_at l' b = byte_at l b)"
proof -
  obtain m' where m': "sys_dyn_mem (int n) (kern l) = Some (Ret (heap_addr (int h)), (kern l)\<lparr>mm := m'\<rparr>)"
     "has_heap ((kern l)\<lparr>mm := m'\<rparr>) d p hz (h + n)" "card (avail m') = card (avail (mm (kern l))) - n"
     "\<forall>q i. q \<noteq> p \<or> i < PAG_LOG_INIT_HEAP + h \<longrightarrow> pagusr_table m' q i = pagusr_table (mm (kern l)) q i"
    using dyn_mem_grow_spec [OF hh n] by blast
  let ?l = "l\<lparr>kern := (kern l)\<lparr>mm := m'\<rparr>\<rparr>"
  have v: "heap_addr (int h) = int (HEAP_BASE + PAGE_SIZE * h)"
    by (simp add: heap_addr_def HEAP_BASE_def algebra_simps)
  have "dyn_mem (int n) l = Some (of_nat (HEAP_BASE + PAGE_SIZE * h), ?l)"
    unfolding dyn_mem_def m'(1) v by (simp del: of_nat_add)
  moreover have "byte_at ?l b = byte_at l b" if b: "HEAP_BASE \<le> b" "b < HEAP_BASE + PAGE_SIZE * h" for b
  proof -
    have h': "has_heap (kern ?l) d p hz (h + n)" using m'(2) by simp
    have b': "b < HEAP_BASE + PAGE_SIZE * (h + n)" using b by simp
    have "frame_no m' p (b div PAGE_SIZE) = frame_no (mm (kern l)) p (b div PAGE_SIZE)"
      using m'(4) translate_heap(3) [OF hh b] by (simp add: get_frame_def)
    then have "translate m' b = translate (mm (kern l)) b"
      using translate_heap(1) [OF hh b] translate_heap(1) [OF h' b(1) b'] by simp
    then show ?thesis by (simp add: byte_at_def ld8_def)
  qed
  ultimately show ?thesis using m'(2,3) by (intro exI [of _ ?l]) simp
qed

lemma grow_block:
  assumes hi: "heap_inv l h bs" and k: "0 < k" "k \<le> card (avail (mm (kern l)))"
  shows "\<exists>l1 l'. dyn_mem (int k) l = Some (of_nat (HEAP_BASE + span bs), l1) \<and> heap_end l1 = heap_end l \<and>
     write_header_footer (heap_end l1) (of_nat (PAGE_SIZE * k)) 0
       (l1\<lparr>heap_end := of_nat (HEAP_BASE + span bs) + of_nat (PAGE_SIZE * k)\<rparr>) = Some l' \<and>
     heap_inv l' (h + k) (bs @ [(PAGE_SIZE * k, False)]) \<and>
     card (avail (mm (kern l'))) = card (avail (mm (kern l))) - k \<and>
     (\<forall>b. HEAP_BASE \<le> b \<longrightarrow> b < HEAP_BASE + span bs \<longrightarrow> byte_at l' b = byte_at l b)"
proof -
  note H = heap_invD [OF hi]
  obtain d p hz where hh: "has_heap (kern l) d p hz h" using hi by (auto simp: heap_inv_def)
  from dyn_mem_grow_lib [OF hh k] obtain l1 where
    l1: "dyn_mem (int k) l = Some (of_nat (HEAP_BASE + span bs), l1)" "has_heap (kern l1) d p hz (h + k)"
      "heap_start l1 = heap_start l" "heap_end l1 = heap_end l"
      "card (avail (mm (kern l1))) = card (avail (mm (kern l))) - k"
      "\<forall>b. HEAP_BASE \<le> b \<longrightarrow> b < HEAP_BASE + span bs \<longrightarrow> byte_at l1 b = byte_at l b"
    unfolding H(6) by blast
  let ?l = "l1\<lparr>heap_end := of_nat (HEAP_BASE + span bs) + of_nat (PAGE_SIZE * k)\<rparr>"
  have fr: "byte_at ?l b = byte_at l1 b" "word_at ?l b = word_at l1 b" for b by (simp_all add: byte_at_def word_at_def)
  have hh': "has_heap (kern ?l) d p hz (h + k)" using l1(2) by simp
  note o = owned_heap [OF hh']
  have "tiles (word_at ?l) HEAP_BASE bs"
  proof -
    have "word_at ?l b = word_at l b" if "HEAP_BASE \<le> b" "b + 4 \<le> HEAP_BASE + span bs" for b
      unfolding fr using that l1(6) by (intro word_at_cong) auto
    then show ?thesis using tiles_cong [of HEAP_BASE bs "word_at ?l" "word_at l"] H(5) by simp
  qed
  moreover have "HEAP_BASE + span bs + PAGE_SIZE * k + span [] \<le> HEAP_BASE + PAGE_SIZE * (h + k)" using H(6) by simp
  moreover have "16 \<le> PAGE_SIZE * k" using k(1) by simp
  ultimately obtain l' where
    l': "write_header_footer (of_nat (HEAP_BASE + span bs)) (of_nat (PAGE_SIZE * k)) (of_bool False) ?l = Some l'"
      "but_ram l' = but_ram ?l" "tiles (word_at l') HEAP_BASE (bs @ [(PAGE_SIZE * k, False)])"
      "\<forall>b. HEAP_BASE \<le> b \<longrightarrow> b < HEAP_BASE + PAGE_SIZE * (h + k) \<longrightarrow> b < HEAP_BASE + span bs \<or>
         HEAP_BASE + span bs + PAGE_SIZE * k \<le> b \<or> HEAP_BASE + span bs + 8 \<le> b \<and> b < HEAP_BASE + span bs + PAGE_SIZE * k - 8
         \<longrightarrow> byte_at l' b = byte_at ?l b"
    using mark [OF o, of bs "PAGE_SIZE * k" "[]" _ False] by auto
  note fields = but_ram_eqD [OF l'(2)]
  have "has_heap (kern l') d p hz (h + k)" using hh' fields by (simp add: has_heap_def)
  moreover have "heap_end l' = of_nat (HEAP_BASE + PAGE_SIZE * (h + k))" "heap_start l' = of_nat HEAP_BASE"
    "span (bs @ [(PAGE_SIZE * k, False)]) = PAGE_SIZE * (h + k)"
    using fields H(3,6) l1(3) by (simp_all add: algebra_simps)
  ultimately have "heap_inv l' (h + k) (bs @ [(PAGE_SIZE * k, False)])"
    using l'(3) unfolding heap_inv_def by blast
  moreover have "byte_at l' b = byte_at l b" if "HEAP_BASE \<le> b" "b < HEAP_BASE + span bs" for b
    using l'(4) l1(6) that H(6) fr by simp
  ultimately show ?thesis using l1(1,4,5) l'(1) fields H(4) by auto
qed

lemma malloc_grow_ok:
  assumes hi: "heap_inv l h bs" and t: "0 < t" "t < 2 ^ 30" and k: "k = (t + 4095) div PAGE_SIZE"
    and room: "k \<le> card (avail (mm (kern l)))"
  shows "\<exists>l'. malloc_grow (of_nat t) l = Some (of_nat (HEAP_BASE + span bs + 8), l') \<and>
     heap_inv l' (h + k) (bs @ [(PAGE_SIZE * k, False)]) \<and>
     card (avail (mm (kern l'))) = card (avail (mm (kern l))) - k \<and>
     (\<forall>b. HEAP_BASE \<le> b \<longrightarrow> b < HEAP_BASE + span bs \<longrightarrow> byte_at l' b = byte_at l b)"
proof -
  have "0 < k" using t k by (simp add: div_greater_zero_iff)
  from grow_block [OF hi this room] obtain l1 l' where
    g: "dyn_mem (int k) l = Some (of_nat (HEAP_BASE + span bs), l1)" "heap_end l1 = heap_end l"
     "write_header_footer (heap_end l1) (of_nat (PAGE_SIZE * k)) 0
       (l1\<lparr>heap_end := of_nat (HEAP_BASE + span bs) + of_nat (PAGE_SIZE * k)\<rparr>) = Some l'"
     "heap_inv l' (h + k) (bs @ [(PAGE_SIZE * k, False)])"
     "card (avail (mm (kern l'))) = card (avail (mm (kern l))) - k"
     "\<forall>b. HEAP_BASE \<le> b \<longrightarrow> b < HEAP_BASE + span bs \<longrightarrow> byte_at l' b = byte_at l b" by blast
  have s: "sint (of_nat t :: u32) = int t" using t by (intro sint_nat) simp
  have c: "cint (int t + int PAGE_SIZE) = Some (int t + int PAGE_SIZE)" using t by (intro cint_ok) simp_all
  have pages: "(int t + int PAGE_SIZE - 1) sdiv int PAGE_SIZE = int k"
    using t by (simp add: k signed_divide_int_def zdiv_int)
  have bytes: "(word_of_int (int k * int PAGE_SIZE) :: u32) = of_nat (PAGE_SIZE * k)" by (simp add: mult.commute)
  have e: "heap_end l1 + 8 = of_nat (HEAP_BASE + span bs + 8)"
    using g(2) heap_invD(4) [OF hi] by (simp add: add.assoc)
  have "malloc_grow (of_nat t) l = Some (of_nat (HEAP_BASE + span bs + 8), l')"
    by (simp only: malloc_grow_def s c pages bytes g(1,3) e Let_def Option.bind.simps prod.case)
  with g(4-6) show ?thesis by blast
qed

lemma first_fit_payload:
  "first_fit t bs = Some (k, bs') \<Longrightarrow>
   {a + k + 8..<a + k + t - 8} \<subseteq> payload a bs' \<and> payload a bs \<subseteq> payload a bs' \<and>
   {a + k + 8..<a + k + t - 8} \<inter> payload a bs = {} \<and> k + t \<le> span bs"
proof (induction bs arbitrary: a k bs')
  case (Cons b bs)
  obtain n f where b: "b = (n, f)" by (cases b)
  show ?case
  proof (cases "f \<and> t \<le> n")
    case True
    then have k: "k = 0" "bs' = (if 16 < n - t then (t, False) # (n - t, True) # bs else (n, False) # bs)"
      using Cons.prems b by auto
    have "x \<notin> payload (a + n) bs" if "x < a + t - 8" for x
      using payload_bounds [of x "a + n" bs] that True by auto
    then show ?thesis using True k b by (auto simp: add.assoc)
  next
    case False
    then obtain k1 bs1 where 1: "first_fit t bs = Some (k1, bs1)" "k = n + k1" "bs' = (n, f) # bs1"
      using Cons.prems b by (auto split: if_splits)
    have "x \<notin> {a + 8..<a + n - 8}" if "a + n + k1 + 8 \<le> x" for x using that by auto
    then show ?thesis using Cons.IH [OF 1(1), of "a + n"] 1(2,3) b by (auto simp: add.assoc)
  qed
qed simp

text \<open>\<open>malloc\<close> on the list of blocks: the place of the block, and the blocks afterwards.\<close>

definition malloc_spec :: "nat \<Rightarrow> blocks \<Rightarrow> nat \<times> blocks" where
  "malloc_spec n bs = (case first_fit (n + 16) bs of
     Some (k, bs') \<Rightarrow> (k, bs')
   | None \<Rightarrow> (span bs, bs @ [(PAGE_SIZE * ((n + 4111) div PAGE_SIZE), False)]))"

lemma malloc_spec_payload:
  assumes "malloc_spec n bs = (k, bs')"
  shows "{a + k + 8..<a + k + 8 + n} \<subseteq> payload a bs'" "payload a bs \<subseteq> payload a bs'"
    "{a + k + 8..<a + k + 8 + n} \<inter> payload a bs = {}"
proof -
  have e: "a + k + (n + 16) - 8 = a + k + 8 + n" by simp
  have "{a + k + 8..<a + k + 8 + n} \<subseteq> payload a bs' \<and> payload a bs \<subseteq> payload a bs' \<and>
    {a + k + 8..<a + k + 8 + n} \<inter> payload a bs = {}"
  proof (cases "first_fit (n + 16) bs")
    case None
    then have k: "k = span bs" "bs' = bs @ [(PAGE_SIZE * ((n + 4111) div PAGE_SIZE), False)]"
      using assms by (auto simp: malloc_spec_def)
    have "n + 16 \<le> PAGE_SIZE * ((n + 4111) div PAGE_SIZE)"
      using div_mult_mod_eq [of "n + 4111" PAGE_SIZE] mod_less_divisor [of PAGE_SIZE "n + 4111"] by linarith
    then show ?thesis using payload_bounds [of _ a bs] unfolding k by (fastforce simp: disjoint_iff)
  next
    case (Some r)
    then show ?thesis using first_fit_payload [of "n + 16" bs k bs' a] assms
      unfolding e by (cases r) (simp add: malloc_spec_def)
  qed
  then show "{a + k + 8..<a + k + 8 + n} \<subseteq> payload a bs'" "payload a bs \<subseteq> payload a bs'"
    "{a + k + 8..<a + k + 8 + n} \<inter> payload a bs = {}" by blast+
qed

lemma payload_range: "heap_inv l h bs \<Longrightarrow> b \<in> payload HEAP_BASE bs \<Longrightarrow> HEAP_BASE \<le> b \<and> b < HEAP_BASE + span bs"
  using payload_bounds by blast

lemma HEAP_BASE_ptr: "(of_nat HEAP_BASE :: u32) \<noteq> 0"
  by (simp add: HEAP_BASE_def)

lemma malloc_spec_ok:
  assumes hi: "heap_inv l h bs" and n: "0 < n" "n < 2 ^ 29"
    and room: "first_fit (n + 16) bs = None \<Longrightarrow> (n + 4111) div PAGE_SIZE \<le> card (avail (mm (kern l)))"
    and spec: "malloc_spec n bs = (k, bs')"
  shows "\<exists>l' h'. malloc (int n) l = Some (of_nat (HEAP_BASE + k + 8), l') \<and> heap_inv l' h' bs' \<and>
     (\<forall>b \<in> payload HEAP_BASE bs. byte_at l' b = byte_at l b)"
proof -
  let ?t = "n + 16"
  have t: "16 < ?t" "?t < 2 ^ 31" "?t < 2 ^ 30" using n by simp_all
  note H = heap_invD [OF hi]
  have tot: "word_of_int (int n) + 2 * 8 = (of_nat ?t :: u32)" by simp
  have ini: "malloc_init l = Some l" using H(3) HEAP_BASE_ptr by (simp add: malloc_init_def)
  have loop: "case first_fit ?t bs of
       None \<Rightarrow> malloc_loop (of_nat ?t) (heap_start l) l = Some (None, l)
     | Some (k, ys') \<Rightarrow> \<exists>l'. malloc_loop (of_nat ?t) (heap_start l) l =
           Some (Some (of_nat (HEAP_BASE + k + 8)), l') \<and> heap_inv l' h ys' \<and>
           (\<forall>b \<in> payload HEAP_BASE bs. byte_at l' b = byte_at l b)"
    using malloc_loop_ok [OF t(1,2), of l h "[]" bs] hi
    unfolding H(3) span_simps(1) append_Nil add_0_right by blast
  have pos: "\<not> int n \<le> 0" using n by simp
  show ?thesis
  proof (cases "first_fit ?t bs")
    case (Some r)
    then have r: "r = (k, bs')" using spec by (cases r) (simp add: malloc_spec_def)
    with loop Some obtain l' where l': "malloc_loop (of_nat ?t) (heap_start l) l = Some (Some (of_nat (HEAP_BASE + k + 8)), l')"
      "heap_inv l' h bs'" "\<forall>b \<in> payload HEAP_BASE bs. byte_at l' b = byte_at l b" by auto
    have "malloc (int n) l = Some (of_nat (HEAP_BASE + k + 8), l')"
      by (simp only: malloc_def pos if_False Let_def tot ini l'(1) Option.bind.simps prod.case option.case)
    with l'(2,3) show ?thesis by blast
  next
    case None
    let ?p = "(n + 4111) div PAGE_SIZE"
    have p: "?p = (?t + 4095) div PAGE_SIZE" by (simp add: add.assoc)
    note g = room [OF None]
    have s: "k = span bs" "bs' = bs @ [(PAGE_SIZE * ?p, False)]" using spec None by (auto simp: malloc_spec_def)
    from malloc_grow_ok [OF hi _ t(3) p g] obtain l' where
      l': "malloc_grow (of_nat ?t) l = Some (of_nat (HEAP_BASE + k + 8), l')" "heap_inv l' (h + ?p) bs'"
        "\<forall>b. HEAP_BASE \<le> b \<longrightarrow> b < HEAP_BASE + span bs \<longrightarrow> byte_at l' b = byte_at l b"
      unfolding s by auto
    have lp: "malloc_loop (of_nat ?t) (heap_start l) l = Some (None, l)" using loop None by simp
    have "malloc (int n) l = Some (of_nat (HEAP_BASE + k + 8), l')"
      by (simp only: malloc_def pos if_False Let_def tot ini lp l'(1) Option.bind.simps prod.case option.case)
    moreover have "\<forall>b \<in> payload HEAP_BASE bs. byte_at l' b = byte_at l b"
      using l'(3) payload_range [OF hi] by blast
    ultimately show ?thesis using l'(2) by blast
  qed
qed

text \<open>The first call takes one page.\<close>

lemma malloc_init_ok:
  assumes hh: "has_heap (kern l) d p hz 0" and st: "heap_start l = 0" and room: "avail (mm (kern l)) \<noteq> {}"
  shows "\<exists>l'. malloc_init l = Some l' \<and> heap_inv l' 1 [(PAGE_SIZE, True)]"
proof -
  have k: "0 < (1::nat)" "1 \<le> card (avail (mm (kern l)))"
    using room by (simp_all add: Suc_le_eq card_gt_0_iff)
  from dyn_mem_grow_lib [OF hh k] obtain l1 where
    l1: "dyn_mem 1 l = Some (of_nat HEAP_BASE, l1)" "has_heap (kern l1) d p hz 1" by auto
  let ?l = "l1\<lparr>heap_start := of_nat HEAP_BASE, heap_end := of_nat HEAP_BASE + of_nat PAGE_SIZE\<rparr>"
  have hh': "has_heap (kern ?l) d p hz 1" using l1(2) by simp
  from mark [OF owned_heap [OF hh'], of "[]" PAGE_SIZE "[]" HEAP_BASE True] obtain l' where
    l': "write_header_footer (of_nat HEAP_BASE) (of_nat PAGE_SIZE) 1 ?l = Some l'" "but_ram l' = but_ram ?l"
      "tiles (word_at l') HEAP_BASE [(PAGE_SIZE, True)]" by auto
  note fields = but_ram_eqD [OF l'(2)]
  have "has_heap (kern l') d p hz 1" using hh' fields by (simp add: has_heap_def)
  moreover have "heap_end l' = of_nat (HEAP_BASE + PAGE_SIZE * 1)" "heap_start l' = of_nat HEAP_BASE"
    using fields by simp_all
  ultimately have "heap_inv l' 1 [(PAGE_SIZE, True)]" using l'(3) unfolding heap_inv_def by auto
  moreover have "malloc_init l = Some l'" by (simp only: malloc_init_def st if_True refl l1(1) Option.bind.simps prod.case l'(1))
  ultimately show ?thesis by blast
qed

lemma malloc_after_init: "malloc_init l = Some l' \<Longrightarrow> heap_start l' \<noteq> 0 \<Longrightarrow> 0 < n \<Longrightarrow> malloc n l = malloc n l'"
  by (simp add: malloc_def malloc_init_def [of l'])

text \<open>With no frame left the block behind the end of the heap is not mapped: a fault.\<close>

lemma malloc_no_memory_spec:
  assumes hi: "heap_inv l h bs" and n: "0 < n" "n < 2 ^ 29" and none: "first_fit (n + 16) bs = None"
    and short: "card (avail (mm (kern l))) < (n + 4111) div PAGE_SIZE"
  shows "malloc (int n) l = None"
proof -
  let ?t = "n + 16" and ?k = "(n + 4111) div PAGE_SIZE"
  note H = heap_invD [OF hi]
  obtain d p hz where hh: "has_heap (kern l) d p hz h" using hi by (auto simp: heap_inv_def)
  from dyn_mem_short_spec [OF hh short] obtain m' where
    m': "sys_dyn_mem (int ?k) (kern l) = Some (Ret (- 12), (kern l)\<lparr>mm := m'\<rparr>)"
      "has_heap ((kern l)\<lparr>mm := m'\<rparr>) d p hz h" by blast
  let ?l = "l\<lparr>kern := (kern l)\<lparr>mm := m'\<rparr>, errno := 12\<rparr>"
  have dm: "dyn_mem (int ?k) l = Some (-1, ?l)" unfolding dyn_mem_def m'(1) by simp
  have unmapped: "translate m' (HEAP_BASE + span bs) = None"
  proof -
    have r: "cr3 m' = Some d" "row_of m' d p" "heap_map m' p h" using m'(2) by (simp_all add: has_heap_def)
    have e: "HEAP_BASE + span bs = (PAG_LOG_INIT_HEAP + h) * PAGE_SIZE + 0" using H(6) by (simp add: HEAP_BASE_def)
    have i: "PAG_LOG_INIT_HEAP + h < TOTAL_PAGES" using heap_map_room [OF r(3)] by simp
    then have z: "pagusr_table m' p (PAG_LOG_INIT_HEAP + h) = 0" using r(3) by (simp add: heap_map_def)
    show ?thesis unfolding e using translate_row [OF r(1,2), of "PAG_LOG_INIT_HEAP + h" 0] z i
      by (simp add: present_def get_bits_def)
  qed
  have s: "sint (of_nat ?t :: u32) = int ?t" using n by (intro sint_nat) simp
  have c: "cint (int ?t + int PAGE_SIZE) = Some (int ?t + int PAGE_SIZE)" using n by (intro cint_ok) simp_all
  have pages: "(int ?t + int PAGE_SIZE - 1) sdiv int PAGE_SIZE = int ?k"
    by (simp add: signed_divide_int_def zdiv_int algebra_simps)
  have u: "unat (of_nat (HEAP_BASE + span bs) :: u32) = HEAP_BASE + span bs" by (rule unat_ptr) (use H(2) in simp)
  have "write_header_footer (of_nat (HEAP_BASE + span bs)) b 0 (?l\<lparr>heap_end := e\<rparr>) = None" for b e
    using unmapped by (simp add: write_header_footer_def wr_def u st32_def st8_def del: of_nat_add)
  moreover have he: "heap_end ?l = of_nat (HEAP_BASE + span bs)" using H(4) by simp
  ultimately have g: "malloc_grow (of_nat ?t) l = None"
    by (simp only: malloc_grow_def s c pages dm he Let_def Option.bind.simps prod.case)
  have lp: "malloc_loop (of_nat ?t) (heap_start l) l = Some (None, l)"
    using malloc_loop_ok [of ?t l h "[]" bs] n hi none H(3) by simp
  have ini: "malloc_init l = Some l" using H(3) HEAP_BASE_ptr by (simp add: malloc_init_def)
  have tot: "word_of_int (int n) + 2 * 8 = (of_nat ?t :: u32)" by simp
  have pos: "\<not> int n \<le> 0" using n by simp
  show ?thesis
    by (simp only: malloc_def pos if_False Let_def tot ini lp g Option.bind.simps prod.case option.case)
qed

section \<open>free joins neighbours\<close>

text \<open>The words and bytes that marking a block may change.\<close>

definition same_outside :: "nat \<Rightarrow> nat \<Rightarrow> nat \<Rightarrow> libc \<Rightarrow> libc \<Rightarrow> bool" where
  "same_outside a n E l l' \<longleftrightarrow>
     (\<forall>b. HEAP_BASE \<le> b \<longrightarrow> b + 4 \<le> E \<longrightarrow> b + 4 \<le> a \<or> a + n \<le> b \<or> a + 8 \<le> b \<and> b + 4 \<le> a + n - 8 \<longrightarrow> word_at l' b = word_at l b) \<and>
     (\<forall>b. HEAP_BASE \<le> b \<longrightarrow> b < E \<longrightarrow> b < a \<or> a + n \<le> b \<or> a + 8 \<le> b \<and> b < a + n - 8 \<longrightarrow> byte_at l' b = byte_at l b)"

lemma remark:
  assumes hi: "heap_inv l h (xs @ old @ ys)" and n: "span old = n" "16 \<le> n"
  shows "\<exists>l'. write_header_footer (of_nat (HEAP_BASE + span xs)) (of_nat n) (of_bool f) l = Some l' \<and>
     heap_inv l' h (xs @ (n, f) # ys) \<and> same_outside (HEAP_BASE + span xs) n (HEAP_BASE + span (xs @ old @ ys)) l l'"
proof -
  note H = heap_invD [OF hi]
  have T: "tiles (word_at l) HEAP_BASE xs" "tiles (word_at l) (HEAP_BASE + span xs + n) ys" using H(5) n by (simp_all add: add.assoc)
  have E: "HEAP_BASE + span xs + n + span ys \<le> HEAP_BASE + span (xs @ old @ ys)" using n by simp
  from mark [OF H(1) T E n(2) refl, of f] obtain l' where
    l': "write_header_footer (of_nat (HEAP_BASE + span xs)) (of_nat n) (of_bool f) l = Some l'" "but_ram l' = but_ram l"
      "tiles (word_at l') HEAP_BASE (xs @ (n, f) # ys)"
      "same_outside (HEAP_BASE + span xs) n (HEAP_BASE + span (xs @ old @ ys)) l l'"
    unfolding same_outside_def by blast
  have "heap_inv l' h (xs @ (n, f) # ys)" by (rule heap_inv_cong [OF hi l'(2) _ l'(3)]) (use n in simp)
  then show ?thesis using l' by blast
qed

text \<open>Reading the tags.\<close>

lemma block_tags:
  assumes hi: "heap_inv l h (xs @ (n, f) # ys)"
  shows "blk_size (of_nat (HEAP_BASE + span xs)) l = Some (of_nat n)"
    "blk_free (of_nat (HEAP_BASE + span xs)) l = Some (of_bool f)"
    "next_block (of_nat (HEAP_BASE + span xs)) l = Some (of_nat (HEAP_BASE + span xs + n))"
    "prev_block (of_nat (HEAP_BASE + span xs + n)) l = Some (of_nat (HEAP_BASE + span xs))"
    "16 \<le> n" "HEAP_BASE + span xs + n + span ys \<le> 4194304"
proof -
  note H = heap_invD [OF hi]
  let ?a = "HEAP_BASE + span xs"
  have T: "tagged (word_at l) ?a n (of_bool f)" "16 \<le> n" using H(5) by simp_all
  show b: "?a + n + span ys \<le> 4194304" using H(2) by simp
  show n: "16 \<le> n" by fact
  show sz: "blk_size (of_nat ?a) l = Some (of_nat n)" "blk_free (of_nat ?a) l = Some (of_bool f)"
    using header_ptr [of ?a l] b T by (simp_all add: tagged_def)
  show "next_block (of_nat ?a) l = Some (of_nat (?a + n))" using sz by (simp add: next_block_def)
  have f: "(of_nat (?a + n) :: u32) - 8 = of_nat (?a + n - 8)" using ptr_diff [of 8 "?a + n"] n by simp
  have "blk_size (of_nat (?a + n - 8)) l = Some (of_nat n)"
    using header_ptr(1) [of "?a + n - 8" l] b T(1) by (simp add: tagged_def)
  moreover have "(of_nat (?a + n) :: u32) - of_nat n = of_nat ?a" by simp
  ultimately show "prev_block (of_nat (?a + n)) l = Some (of_nat ?a)"
    unfolding prev_block_def Let_def f by simp
qed

fun join_right :: "nat \<Rightarrow> blocks \<Rightarrow> blocks" where
  "join_right n ((m, True) # ys) = (n + m, True) # ys"
| "join_right n ys = (n, True) # ys"

lemma join_right_span: "span (join_right n ys) = n + span ys"
  by (cases "(n, ys)" rule: join_right.cases) auto

lemma join_next_ok:
  assumes hi: "heap_inv l h (xs @ (n, True) # ys)"
  shows "\<exists>l'. join_next (of_nat (HEAP_BASE + span xs)) l = Some l' \<and> heap_inv l' h (xs @ join_right n ys) \<and>
     same_outside (HEAP_BASE + span xs) (n + (case ys of (m, True) # zs \<Rightarrow> m | _ \<Rightarrow> 0))
       (HEAP_BASE + span (xs @ (n, True) # ys)) l l'"
proof -
  let ?a = "HEAP_BASE + span xs" and ?E = "HEAP_BASE + span (xs @ (n, True) # ys)"
  note H = heap_invD [OF hi] and B = block_tags [OF hi]
  have same: "same_outside ?a k ?E l l" for k by (simp add: same_outside_def)
  show ?thesis
  proof (cases ys)
    case Nil
    then have "\<not> (of_nat (?a + n) :: u32) < heap_end l" using H(4) by (simp add: add.assoc)
    then have "join_next (of_nat ?a) l = Some l" by (simp only: join_next_def B(3) Option.bind.simps if_False)
    then show ?thesis using Nil hi same by auto
  next
    case (Cons y zs)
    obtain m g where y: "y = (m, g)" by (cases y)
    have hi': "heap_inv l h ((xs @ [(n, True)]) @ (m, g) # zs)" using hi Cons y by simp
    have a': "HEAP_BASE + span (xs @ [(n, True)]) = ?a + n" by simp
    note B' = block_tags [OF hi', unfolded a']
    have lt: "(of_nat (?a + n) :: u32) < heap_end l"
      using less_ptr [of "?a + n" ?E] H(2) B'(5) unfolding H(4) by (simp add: Cons y del: of_nat_add)
    show ?thesis
    proof (cases g)
      case False
      then have "join_next (of_nat ?a) l = Some l"
        by (simp only: join_next_def B(3) lt B'(2) Option.bind.simps if_True) simp
      then show ?thesis using Cons y False hi same by auto
    next
      case True
      have "heap_inv l h (xs @ [(n, True), (m, True)] @ zs)" using hi Cons y True by simp
      moreover have "span [(n, True), (m, True)] = n + m" "16 \<le> n + m" using B(5) by simp_all
      ultimately obtain l' where
        l': "write_header_footer (of_nat ?a) (of_nat (n + m)) 1 l = Some l'" "heap_inv l' h (xs @ (n + m, True) # zs)"
          "same_outside ?a (n + m) (HEAP_BASE + span (xs @ [(n, True), (m, True)] @ zs)) l l'"
        using remark [of l h xs "[(n, True), (m, True)]" zs "n + m" True] by auto
      have "join_next (of_nat ?a) l = Some l'"
        using True by (simp only: join_next_def B(1,3) lt B'(1,2) Option.bind.simps if_True)
          (use l'(1) in simp)
      then show ?thesis using l'(2,3) Cons y True by auto
    qed
  qed
qed

lemma join_prev_ok:
  assumes hi: "heap_inv l h (zs @ (m, g) # (n, True) # ys)"
  shows "\<exists>l'. join_prev (of_nat (HEAP_BASE + span zs + m)) l = Some l' \<and>
     heap_inv l' h (zs @ (if g then (m + n, True) # ys else (m, g) # (n, True) # ys)) \<and>
     same_outside (HEAP_BASE + span zs) (m + n) (HEAP_BASE + span (zs @ (m, g) # (n, True) # ys)) l l' \<and> (\<not> g \<longrightarrow> l' = l)"
proof -
  let ?a = "HEAP_BASE + span zs"
  note H = heap_invD [OF hi] and B = block_tags [OF hi]
  have hi': "heap_inv l h ((zs @ [(m, g)]) @ (n, True) # ys)" using hi by simp
  have a': "HEAP_BASE + span (zs @ [(m, g)]) = ?a + m" by simp
  note B' = block_tags [OF hi', unfolded a']
  have lt: "heap_start l < of_nat (?a + m)"
    using less_ptr [of HEAP_BASE "?a + m"] B(5,6) unfolding H(3) by (simp del: of_nat_add)
  show ?thesis
  proof (cases g)
    case False
    then have "join_prev (of_nat (?a + m)) l = Some l"
      by (simp only: join_prev_def lt B(2,4) Option.bind.simps if_True) simp
    then show ?thesis using False hi by (auto simp: same_outside_def)
  next
    case True
    have "heap_inv l h (zs @ [(m, True), (n, True)] @ ys)" using hi True by simp
    moreover have "span [(m, True), (n, True)] = m + n" "16 \<le> m + n" using B(5) by simp_all
    ultimately obtain l' where
      l': "write_header_footer (of_nat ?a) (of_nat (m + n)) 1 l = Some l'" "heap_inv l' h (zs @ (m + n, True) # ys)"
        "same_outside ?a (m + n) (HEAP_BASE + span (zs @ [(m, True), (n, True)] @ ys)) l l'"
      using remark [of l h zs "[(m, True), (n, True)]" ys "m + n" True] by auto
    have "join_prev (of_nat (?a + m)) l = Some l'"
      using True by (simp only: join_prev_def lt B(1,2,4) B'(1) Option.bind.simps if_True)
        (use l'(1) in \<open>simp add: add.commute\<close>)
    then show ?thesis using l'(2,3) True by auto
  qed
qed

lemma join_prev_first: "heap_inv l h bs \<Longrightarrow> join_prev (of_nat HEAP_BASE) l = Some l"
  using heap_invD(3) [of l h bs] by (simp add: join_prev_def)

section \<open>Giving pages back\<close>

lemma dyn_mem_shrink_lib:
  assumes hh: "has_heap (kern l) d p hz (h + k)" and k: "0 < k"
  shows "\<exists>v l'. dyn_mem (- int k) l = Some (v, l') \<and> has_heap (kern l') d p hz h \<and>
     heap_start l' = heap_start l \<and> heap_end l' = heap_end l \<and>
     (\<forall>b. HEAP_BASE \<le> b \<longrightarrow> b < HEAP_BASE + PAGE_SIZE * h \<longrightarrow> byte_at l' b = byte_at l b)"
proof -
  obtain m' where m': "sys_dyn_mem (- int k) (kern l) = Some (Ret (heap_addr (int h)), (kern l)\<lparr>mm := m'\<rparr>)"
     "has_heap ((kern l)\<lparr>mm := m'\<rparr>) d p hz h"
     "\<forall>q i. q \<noteq> p \<or> i < PAG_LOG_INIT_HEAP + h \<longrightarrow> pagusr_table m' q i = pagusr_table (mm (kern l)) q i"
    using dyn_mem_shrink_spec [OF hh k] by blast
  let ?l = "l\<lparr>kern := (kern l)\<lparr>mm := m'\<rparr>\<rparr>"
  have "0 \<le> heap_addr (int h)" by (simp add: heap_addr_def)
  then have "dyn_mem (- int k) l = Some (word_of_int (heap_addr (int h)), ?l)"
    unfolding dyn_mem_def m'(1) by simp
  moreover have "byte_at ?l b = byte_at l b" if b: "HEAP_BASE \<le> b" "b < HEAP_BASE + PAGE_SIZE * h" for b
  proof -
    have h': "has_heap (kern ?l) d p hz h" using m'(2) by simp
    have b': "b < HEAP_BASE + PAGE_SIZE * (h + k)" using b by simp
    have "frame_no m' p (b div PAGE_SIZE) = frame_no (mm (kern l)) p (b div PAGE_SIZE)"
      using m'(3) translate_heap(3) [OF h' b] by (simp add: get_frame_def)
    then have "translate m' b = translate (mm (kern l)) b"
      using translate_heap(1) [OF hh b(1) b'] translate_heap(1) [OF h' b] by simp
    then show ?thesis by (simp add: byte_at_def ld8_def)
  qed
  ultimately show ?thesis using m'(2) by (intro exI [of _ "word_of_int (heap_addr (int h))"] exI [of _ ?l]) simp
qed

lemma shrink_nothing:
  assumes hi: "heap_inv l h (zs @ [(m, g)])" and keep: "\<not> g \<or> m < PAGE_SIZE"
  shows "shrink l = Some l"
proof -
  note H = heap_invD [OF hi] and B = block_tags [OF hi]
  let ?a = "HEAP_BASE + span zs"
  have he: "heap_end l = of_nat (?a + m)" using H(4) by (simp add: add.assoc)
  have fb: "sint (of_nat (?a + m) - of_nat ?a :: u32) = int m" using B(6) sint_nat [of m] by simp
  show ?thesis
  proof (cases g)
    case False
    then show ?thesis by (simp only: shrink_def he B(2,4) Option.bind.simps) simp
  next
    case True
    then have "int m sdiv int PAGE_SIZE = 0" using keep by (simp add: signed_divide_int_def)
    with True show ?thesis by (simp only: shrink_def he B(1,2,4) fb Option.bind.simps Let_def) simp
  qed
qed

text \<open>A free block at the end of at least a page: \<open>k\<close> pages go, \<open>r\<close> bytes stay, with a header only.\<close>

lemma shrink_pages:
  assumes hi: "heap_inv l (h + k) (zs @ [(PAGE_SIZE * k + r, True)])" and k: "0 < k" and r: "r < PAGE_SIZE"
  shows "\<exists>l'. shrink l = Some l' \<and> (\<exists>d p hz. has_heap (kern l') d p hz h) \<and> heap_start l' = of_nat HEAP_BASE \<and>
     heap_end l' = of_nat (HEAP_BASE + PAGE_SIZE * h) \<and> span zs + r = PAGE_SIZE * h \<and>
     (4 \<le> r \<longrightarrow> word_at l' (HEAP_BASE + span zs) = Some (of_nat r)) \<and>
     (\<forall>b. HEAP_BASE \<le> b \<longrightarrow> b < HEAP_BASE + PAGE_SIZE * h \<longrightarrow> b < HEAP_BASE + span zs \<or> HEAP_BASE + span zs + 4 \<le> b
        \<longrightarrow> byte_at l' b = byte_at l b)"
proof -
  note H = heap_invD [OF hi] and B = block_tags [OF hi]
  let ?a = "HEAP_BASE + span zs" and ?m = "PAGE_SIZE * k + r"
  let ?E = "HEAP_BASE + span (zs @ [(?m, True)])"
  have he: "heap_end l = of_nat (?a + ?m)" using H(4) by (simp add: add.assoc)
  have fb: "sint (of_nat (?a + ?m) - of_nat ?a :: u32) = int ?m" using B(6) sint_nat [of ?m] by simp
  have "?m div PAGE_SIZE = k" using r by simp
  then have fp: "int ?m sdiv int PAGE_SIZE = int k" by (simp only: sdiv_nat)
  have bg: "(word_of_int (int k * int PAGE_SIZE) :: u32) = of_nat (PAGE_SIZE * k)" by (simp add: mult.commute)
  have be: "(of_nat ?a :: u32) + of_nat ?m = of_nat (?a + ?m)" by simp
  have sp: "span zs + r = PAGE_SIZE * h" using H(6) by simp
  let ?l = "l\<lparr>heap_end := of_nat (?a + ?m) - of_nat (PAGE_SIZE * k)\<rparr>"
  have o: "owned (but_ram ?l) HEAP_BASE ?E" using H(1) by (simp add: owned_def)
  have "HEAP_BASE \<le> ?a" "?a + 4 \<le> ?E" using k by simp_all
  from hm.store_ok [OF o this, of "of_nat ?m - of_nat (PAGE_SIZE * k)"] obtain l1 where
    l1: "wr (of_nat ?a) (of_nat ?m - of_nat (PAGE_SIZE * k)) ?l = Some l1" "but_ram l1 = but_ram ?l"
      "word_at l1 ?a = Some (of_nat ?m - of_nat (PAGE_SIZE * k))"
      "\<forall>b. HEAP_BASE \<le> b \<longrightarrow> b < ?E \<longrightarrow> b < ?a \<or> ?a + 4 \<le> b \<longrightarrow> byte_at l1 b = byte_at ?l b" by blast
  note fields = but_ram_eqD [OF l1(2)]
  obtain d p hz where "has_heap (kern l) d p hz (h + k)" using hi by (auto simp: heap_inv_def)
  then have hh: "has_heap (kern l1) d p hz (h + k)" using fields by (simp add: has_heap_def)
  from dyn_mem_shrink_lib [OF hh k] obtain v l' where
    l': "dyn_mem (- int k) l1 = Some (v, l')" "has_heap (kern l') d p hz h" "heap_start l' = heap_start l1" "heap_end l' = heap_end l1"
      "\<And>b. HEAP_BASE \<le> b \<Longrightarrow> b < HEAP_BASE + PAGE_SIZE * h \<Longrightarrow> byte_at l' b = byte_at l1 b" by blast
  have pos: "0 < int k \<and> of_nat (?a + ?m) = (of_nat (?a + ?m) :: u32)" using k by simp
  have t: "(of_bool True :: u32) \<noteq> 0" by simp
  have "shrink l = Some l'"
    unfolding shrink_def he B(4) Option.bind.simps B(2) unfolding B(1) Option.bind.simps Let_def fb fp bg be l1(1)
    using k by (simp add: l'(1))
  moreover have "heap_end l' = of_nat (HEAP_BASE + PAGE_SIZE * h)"
  proof -
    have "PAGE_SIZE * k \<le> ?a + ?m" "?a + ?m - PAGE_SIZE * k = HEAP_BASE + PAGE_SIZE * h" using sp by linarith+
    then have "(of_nat (?a + ?m) :: u32) - of_nat (PAGE_SIZE * k) = of_nat (HEAP_BASE + PAGE_SIZE * h)"
      by (simp only: ptr_diff)
    moreover have "heap_end l1 = of_nat (?a + ?m) - of_nat (PAGE_SIZE * k)" using fields by simp
    ultimately show ?thesis by (simp only: l'(4))
  qed
  moreover have "word_at l' ?a = Some (of_nat r)" if "4 \<le> r"
  proof -
    have "word_at l' ?a = word_at l1 ?a"
      by (rule word_at_cong, rule l'(5)) (use sp that in linarith)+
    then show ?thesis using l1(3) by simp
  qed
  moreover have "byte_at l' b = byte_at l b" if "HEAP_BASE \<le> b" "b < HEAP_BASE + PAGE_SIZE * h" "b < ?a \<or> ?a + 4 \<le> b" for b
  proof -
    have "b < ?E" using that(2) sp by simp
    then have "byte_at l1 b = byte_at ?l b" using l1(4) that by blast
    also have "\<dots> = byte_at l b" by (simp add: byte_at_def)
    finally show ?thesis using l'(5) [OF that(1,2)] by simp
  qed
  ultimately show ?thesis using l'(2,3) fields H(3) sp by auto
qed

lemma shrink_whole:
  assumes hi: "heap_inv l (h + k) (zs @ [(PAGE_SIZE * k, True)])" and k: "0 < k"
  shows "\<exists>l'. shrink l = Some l' \<and> heap_inv l' h zs \<and>
     (\<forall>b. HEAP_BASE \<le> b \<longrightarrow> b < HEAP_BASE + span zs \<longrightarrow> byte_at l' b = byte_at l b)"
proof -
  have hi': "heap_inv l (h + k) (zs @ [(PAGE_SIZE * k + 0, True)])" using hi by simp
  from shrink_pages [OF hi' k] obtain l' d p hz where
    l': "shrink l = Some l'" "has_heap (kern l') d p hz h" "heap_start l' = of_nat HEAP_BASE"
      "heap_end l' = of_nat (HEAP_BASE + PAGE_SIZE * h)" "span zs = PAGE_SIZE * h"
      "\<And>b. HEAP_BASE \<le> b \<Longrightarrow> b < HEAP_BASE + span zs \<Longrightarrow> byte_at l' b = byte_at l b" by auto
  have "word_at l' b = word_at l b" if "HEAP_BASE \<le> b" "b + 4 \<le> HEAP_BASE + span zs" for b
    using that l'(6) by (intro word_at_cong) simp
  then have "tiles (word_at l') HEAP_BASE zs"
    using tiles_cong [of HEAP_BASE zs "word_at l'" "word_at l"] heap_invD(5) [OF hi] by simp
  then have "heap_inv l' h zs" using l'(2-5) unfolding heap_inv_def by blast
  then show ?thesis using l'(1,6) by blast
qed

section \<open>free\<close>

definition freed :: "blocks \<Rightarrow> nat \<Rightarrow> blocks \<Rightarrow> blocks" where
  "freed xs n ys = (let r = join_right n ys in
     if xs \<noteq> [] \<and> snd (last xs) then butlast xs @ (fst (last xs) + fst (hd r), True) # tl r else xs @ r)"

lemma join_right_hd: "join_right n ys = (fst (hd (join_right n ys)), True) # tl (join_right n ys)"
  by (cases "(n, ys)" rule: join_right.cases) auto

lemma outside_payload:
  assumes "same_outside a n E l l'" "HEAP_BASE \<le> b" "b < E" "b < a \<or> a + n \<le> b \<or> a + 8 \<le> b \<and> b < a + n - 8"
  shows "byte_at l' b = byte_at l b"
  using assms unfolding same_outside_def by blast

text \<open>The inside of all blocks, free or not: no tag is there.\<close>

definition inside :: "nat \<Rightarrow> blocks \<Rightarrow> nat set" where
  "inside a bs = payload a (List.map (\<lambda>(n, f). (n, False)) bs)"

lemma inside_simps [simp]:
  "inside a [] = {}" "inside a ((n, f) # bs) = {a + 8..<a + n - 8} \<union> inside (a + n) bs"
  by (simp_all add: inside_def)

lemma span_unmark: "span (List.map (\<lambda>(n, f). (n, False)) bs) = span bs"
  by (induction bs) auto

lemma inside_append [simp]: "inside a (xs @ ys) = inside a xs \<union> inside (a + span xs) ys"
  by (simp add: inside_def span_unmark)

lemma inside_bounds: "b \<in> inside a bs \<Longrightarrow> a \<le> b \<and> b < a + span bs"
  unfolding inside_def using payload_bounds [of b a] span_unmark by metis

lemma payload_inside: "payload a bs \<subseteq> inside a bs"
proof (induction bs arbitrary: a)
  case (Cons b bs)
  then show ?case by (cases b) auto
qed simp

lemma free_joins:
  assumes hi: "heap_inv l h (xs @ (n, False) # ys)"
  shows "\<exists>l'. free (of_nat (HEAP_BASE + span xs + 8)) l = Option.bind (shrink l') (\<lambda>l4. Some (0, l4)) \<and>
     heap_inv l' h (freed xs n ys) \<and>
     (\<forall>b \<in> inside HEAP_BASE (xs @ (n, False) # ys). byte_at l' b = byte_at l b)"
proof -
  let ?a = "HEAP_BASE + span xs" and ?bs = "xs @ (n, False) # ys"
  let ?E = "HEAP_BASE + span ?bs"
  let ?P = "inside HEAP_BASE ?bs"
  note H = heap_invD [OF hi] and B = block_tags [OF hi]
  have ptrs: "(of_nat (?a + 8) :: u32) \<noteq> 0" "heap_start l \<noteq> 0" "\<not> (of_nat (?a + 8) :: u32) < heap_start l + 8"
    "\<not> heap_end l \<le> of_nat (?a + 8)" "(of_nat (?a + 8) :: u32) - 8 = of_nat ?a"
  proof -
    have u: "unat (of_nat (?a + 8) :: u32) = ?a + 8" by (rule unat_ptr) (use B(5,6) in simp)
    then show "(of_nat (?a + 8) :: u32) \<noteq> 0" by (metis add_is_0 unat_0 zero_neq_numeral)
    show "heap_start l \<noteq> 0" using H(3) HEAP_BASE_ptr by simp
    have "heap_start l + 8 = of_nat (HEAP_BASE + 8)" using H(3) by simp
    then show "\<not> (of_nat (?a + 8) :: u32) < heap_start l + 8"
      using less_ptr [of "?a + 8" "HEAP_BASE + 8"] B(5,6) by (simp del: of_nat_add)
    show "\<not> heap_end l \<le> of_nat (?a + 8)"
      using less_ptr [of "?a + 8" ?E] B(5,6) unfolding H(4) by (simp add: not_le del: of_nat_add)
    show "(of_nat (?a + 8) :: u32) - 8 = of_nat ?a" using ptr_diff [of 8 "?a + 8"] by simp
  qed
  have hi1: "heap_inv l h (xs @ [(n, False)] @ ys)" using hi by simp
  from remark [OF hi1 _ B(5), of True] obtain l1 where
    l1: "write_header_footer (of_nat ?a) (of_nat n) 1 l = Some l1" "heap_inv l1 h (xs @ (n, True) # ys)"
      "same_outside ?a n ?E l l1" by auto
  from join_next_ok [OF l1(2)] obtain l2 where
    l2: "join_next (of_nat ?a) l1 = Some l2" "heap_inv l2 h (xs @ join_right n ys)"
      "same_outside ?a (n + (case ys of (m, True) # zs \<Rightarrow> m | _ \<Rightarrow> 0)) ?E l1 l2" by auto
  obtain N rs where r: "join_right n ys = (N, True) # rs" using join_right_hd by blast
  have two: "byte_at l2 b = byte_at l b" if b: "b \<in> ?P" for b
  proof -
    have e: "HEAP_BASE \<le> b" "b < ?E" and c: "b < ?a \<or> ?a + n \<le> b \<or> ?a + 8 \<le> b \<and> b < ?a + n - 8"
      using b inside_bounds [of b HEAP_BASE xs] inside_bounds [of b "?a + n" ys] by auto
    have "b < ?a \<or> ?a + (n + (case ys of (m, True) # zs \<Rightarrow> m | _ \<Rightarrow> 0)) \<le> b \<or>
        ?a + 8 \<le> b \<and> b < ?a + (n + (case ys of (m, True) # zs \<Rightarrow> m | _ \<Rightarrow> 0)) - 8"
      using b inside_bounds [of b HEAP_BASE xs]
      by (cases "(n, ys)" rule: join_right.cases) (auto simp: add.assoc dest!: inside_bounds)
    then show ?thesis using outside_payload [OF l1(3) e c] outside_payload [OF l2(3) e] by simp
  qed
  have fr: "free (of_nat (?a + 8)) l = Option.bind (join_prev (of_nat ?a) l2) (\<lambda>l3. Option.bind (shrink l3) (\<lambda>l4. Some (0, l4)))"
    by (simp only: free_def ptrs B(1,2) l1(1) l2(1) Let_def Option.bind.simps) simp
  show ?thesis
  proof (cases "xs = []")
    case True
    then have "join_prev (of_nat ?a) l2 = Some l2" using join_prev_first [OF l2(2)] by simp
    then show ?thesis using fr l2(2) two True by (auto simp: freed_def Let_def)
  next
    case False
    then obtain zs m g where xs: "xs = zs @ [(m, g)]" by (metis append_butlast_last_id surj_pair)
    have "heap_inv l2 h (zs @ (m, g) # (N, True) # rs)" using l2(2) r xs by simp
    from join_prev_ok [OF this] obtain l3 where
      l3: "join_prev (of_nat (HEAP_BASE + span zs + m)) l2 = Some l3"
        "heap_inv l3 h (zs @ (if g then (m + N, True) # rs else (m, g) # (N, True) # rs))"
        "same_outside (HEAP_BASE + span zs) (m + N) (HEAP_BASE + span (zs @ (m, g) # (N, True) # rs)) l2 l3" "\<not> g \<longrightarrow> l3 = l2"
      by blast
    have a: "?a = HEAP_BASE + span zs + m" by (simp add: xs)
    have fd: "freed xs n ys = zs @ (if g then (m + N, True) # rs else (m, g) # (N, True) # rs)"
      by (simp add: freed_def r xs)
    have "byte_at l3 b = byte_at l2 b" if b: "b \<in> ?P" for b
    proof (cases g)
      case True
      have E: "HEAP_BASE + span (zs @ (m, g) # (N, True) # rs) = ?E"
        using join_right_span [of n ys] by (simp add: r xs)
      have e: "HEAP_BASE \<le> b" "b < ?E"
        using b inside_bounds [of b HEAP_BASE xs] inside_bounds [of b "?a + n" ys] by auto
      have "b < HEAP_BASE + span zs \<or> HEAP_BASE + span zs + (m + N) \<le> b \<or>
          HEAP_BASE + span zs + 8 \<le> b \<and> b < HEAP_BASE + span zs + (m + N) - 8"
        using b r inside_bounds [of b HEAP_BASE zs]
        by (cases "(n, ys)" rule: join_right.cases) (auto simp: xs add.assoc dest!: inside_bounds)
      then show ?thesis using outside_payload [OF l3(3) e(1)] e(2) unfolding E by blast
    next
      case False
      then show ?thesis using l3(4) by simp
    qed
    then have "\<forall>b \<in> ?P. byte_at l3 b = byte_at l b" using two by simp
    moreover have "free (of_nat (?a + 8)) l = Option.bind (shrink l3) (\<lambda>l4. Some (0, l4))"
      unfolding fr unfolding a l3(1) by (simp only: Option.bind.simps)
    ultimately show ?thesis using l3(2) unfolding fd by blast
  qed
qed

end
