(* ===== verification/Allocator.thy ===== *)
theory Allocator
  imports Heap
begin

text \<open>
  The properties of \<open>malloc\<close> and \<open>free\<close> of \<^verbatim>\<open>libc.c\<close>, and of the system call \<open>dyn_mem\<close> below
  them. \<open>heap_inv l h bs\<close> says that the \<open>h\<close> pages of the heap are tiled by the blocks \<open>bs\<close>, each
  a size and whether it is free.
\<close>

section \<open>Concrete heaps\<close>

text \<open>Every list of blocks of 16 bytes and more that fills the pages is the state of some heap.\<close>

lemma lay_out_prefix:
  assumes o: "owned l HEAP_BASE E"
  shows "HEAP_BASE + span bs \<le> E \<Longrightarrow> \<forall>(n, f) \<in> set bs. 16 \<le> n \<Longrightarrow>
     \<exists>l'. but_ram l' = but_ram l \<and> tiles (word_at l') HEAP_BASE bs"
proof (induction bs rule: rev_induct)
  case Nil
  then show ?case by auto
next
  case (snoc b bs)
  obtain n f where b: "b = (n, f)" by (cases b)
  from snoc obtain l1 where l1: "but_ram l1 = but_ram l" "tiles (word_at l1) HEAP_BASE bs" by auto
  have "owned l1 HEAP_BASE E" using o owned_cong [OF l1(1)] by simp
  from mark [OF this l1(2), of n "[]" _ f] snoc.prems show ?case
    unfolding b l1(1) by fastforce
qed

definition fresh_lib :: libc where
  "fresh_lib = \<lparr>heap_start = 0, heap_end = 0, errno = 0, kern = forker\<rparr>"

lemma fresh_heap: "has_heap (kern fresh_lib) 2 2 2 0" "heap_start fresh_lib = 0" "20 \<le> card (avail (mm (kern fresh_lib)))"
proof -
  have "heap_map fork_mm 2 0" unfolding heap_map_def by auto (simp_all add: fork_mm_def)
  then show "has_heap (kern fresh_lib) 2 2 2 0"
    using forker_ok(4) forker_ok(2) unfolding has_heap_def can_fork_def cpu_inv_def
    by (simp add: fresh_lib_def) (simp add: forker_def)
  show "heap_start fresh_lib = 0" by (simp add: fresh_lib_def)
  show "20 \<le> card (avail (mm (kern fresh_lib)))" using forker_avail by (simp add: fresh_lib_def forker_def)
qed

lemma lay_out:
  assumes h: "0 < h" "h \<le> 20" and bs: "span bs = PAGE_SIZE * h" "\<forall>(n, f) \<in> set bs. 16 \<le> n"
  shows "\<exists>l. heap_inv l h bs"
proof -
  have "h \<le> card (avail (mm (kern fresh_lib)))" using h(2) fresh_heap(3) by linarith
  from dyn_mem_grow_lib [OF fresh_heap(1) h(1) this] obtain l0 :: libc where
    l0: "has_heap (kern l0) 2 2 2 h" by auto
  let ?l = "l0\<lparr>heap_start := of_nat HEAP_BASE, heap_end := of_nat (HEAP_BASE + PAGE_SIZE * h)\<rparr>"
  have hh: "has_heap (kern ?l) 2 2 2 h" using l0 by simp
  from lay_out_prefix [OF owned_heap [OF hh], of bs] bs obtain l' where
    l': "but_ram l' = but_ram ?l" "tiles (word_at l') HEAP_BASE bs" by auto
  note fields = but_ram_eqD [OF l'(1)]
  have "has_heap (kern l') 2 2 2 h" using hh fields by (simp add: has_heap_def)
  moreover have "heap_start l' = of_nat HEAP_BASE" "heap_end l' = of_nat (HEAP_BASE + PAGE_SIZE * h)"
    using fields by simp_all
  ultimately show ?thesis using l'(2) bs(1) unfolding heap_inv_def by blast
qed

section \<open>dyn_mem\<close>

text \<open>C25. \<open>dyn_mem n\<close> for a positive \<open>n\<close>: with enough free frames it maps \<open>n\<close> more pages behind the
  heap, in frames of their own, and returns their address; the other pages keep their frames.
  With too few it returns \<open>-ENOMEM\<close>, and the heap and the tables are as before; the frames it had
  taken are free again, except frame 256.\<close>
theorem sys_dyn_mem_ok:
  assumes "has_heap s d p hz h" and "0 < n"
  shows "\<exists>m'. (if n \<le> card (avail (mm s))
     then sys_dyn_mem (int n) s = Some (Ret (heap_addr (int h)), s\<lparr>mm := m'\<rparr>) \<and> has_heap (s\<lparr>mm := m'\<rparr>) d p hz (h + n) \<and>
       card (avail m') = card (avail (mm s)) - n \<and>
       (\<forall>q i. q \<noteq> p \<or> i < PAG_LOG_INIT_HEAP + h \<longrightarrow> pagusr_table m' q i = pagusr_table (mm s) q i)
     else sys_dyn_mem (int n) s = Some (Ret (- ENOMEM), s\<lparr>mm := m'\<rparr>) \<and> has_heap (s\<lparr>mm := m'\<rparr>) d p hz h \<and>
       avail m' = avail (mm s) - {NUM_PAG_KERNEL} \<and> pagusr_table m' = pagusr_table (mm s))"
proof (cases "n \<le> card (avail (mm s))")
  case True
  with dyn_mem_grow_spec [OF assms True] show ?thesis by auto
next
  case False
  then have "card (avail (mm s)) < n" by simp
  from dyn_mem_short_spec [OF assms(1) this] False show ?thesis by auto
qed

lemma sys_dyn_mem_ok_witness:
  "\<exists>m'. sys_dyn_mem 20 forker = Some (Ret 0x11C000, forker\<lparr>mm := m'\<rparr>) \<and> has_heap (forker\<lparr>mm := m'\<rparr>) 2 2 2 20"
  using sys_dyn_mem_ok [of forker 2 2 2 0 20] fresh_heap
  by (auto simp: fresh_lib_def heap_addr_def)

section \<open>malloc\<close>

text \<open>C19. \<open>malloc n\<close> is first fit on the blocks: when a free block of \<open>n + 16\<close> bytes exists, or there
  are frames for a new block, it returns the address of \<open>n\<close> bytes that belong to a block in use
  afterwards and to none before; the blocks in use stay in use and keep their contents, and the
  blocks tile the heap again. The search ends.\<close>
theorem malloc_ok:
  assumes "heap_inv l h bs" and "0 < n" and "n < 2 ^ 29"
    and "first_fit (n + 16) bs = None \<Longrightarrow> (n + 4111) div PAGE_SIZE \<le> card (avail (mm (kern l)))"
    and "malloc_spec n bs = (k, bs')"
  shows "\<exists>l' h'. malloc (int n) l = Some (of_nat (HEAP_BASE + k + 8), l') \<and> heap_inv l' h' bs' \<and>
     {HEAP_BASE + k + 8..<HEAP_BASE + k + 8 + n} \<subseteq> payload HEAP_BASE bs' \<and>
     {HEAP_BASE + k + 8..<HEAP_BASE + k + 8 + n} \<inter> payload HEAP_BASE bs = {} \<and>
     payload HEAP_BASE bs \<subseteq> payload HEAP_BASE bs' \<and> (\<forall>b \<in> payload HEAP_BASE bs. byte_at l' b = byte_at l b)"
  using malloc_spec_ok [OF assms] malloc_spec_payload [OF assms(5), of HEAP_BASE] by blast

lemma malloc_ok_witness:
  "\<exists>l l' h'. heap_inv l 1 [(100, False), (3996, True)] \<and> malloc 200 l = Some (0x11C06C, l') \<and>
     heap_inv l' h' [(100, False), (216, False), (3780, True)]"
proof -
  obtain l where l: "heap_inv l 1 [(100, False), (3996, True)]" using lay_out [of 1 "[(100, False), (3996, True)]"] by auto
  have s: "malloc_spec 200 [(100, False), (3996, True)] = (100, [(100, False), (216, False), (3780, True)])"
    by (simp add: malloc_spec_def)
  show ?thesis using malloc_ok [OF l _ _ _ s] l by (auto simp: HEAP_BASE_def)
qed

text \<open>C24. When no block fits and the frames are short, \<open>malloc\<close> does not return an error: it ignores
  the failure of \<open>dyn_mem\<close> and faults at the page behind the heap.\<close>
theorem malloc_no_memory:
  assumes "heap_inv l h bs" and "0 < n" and "n < 2 ^ 29" and "first_fit (n + 16) bs = None"
    and "card (avail (mm (kern l))) < (n + 4111) div PAGE_SIZE"
  shows "malloc (int n) l = None"
  by (rule malloc_no_memory_spec [OF assms])

lemma malloc_no_memory_witness:
  "\<exists>l. heap_inv l 1 [(100, False), (3996, True)] \<and> malloc 2000000 l = None"
proof -
  obtain l where l: "heap_inv l 1 [(100, False), (3996, True)]" using lay_out [of 1 "[(100, False), (3996, True)]"] by auto
  obtain d p hz where "has_heap (kern l) d p hz 1" using l by (auto simp: heap_inv_def)
  then have "card (avail (mm (kern l))) \<le> 384" using heap_map_room by (auto simp: has_heap_def dest: heap_map_room)
  then show ?thesis using malloc_no_memory [OF l, of 2000000] l by auto
qed

text \<open>The first call, on a process without heap: one page, then first fit on it.\<close>

lemma malloc_first:
  assumes hh: "has_heap (kern l) d p hz 0" and st: "heap_start l = 0" and room: "avail (mm (kern l)) \<noteq> {}"
    and n: "0 < n" "n \<le> 4080" and spec: "malloc_spec n [(PAGE_SIZE, True)] = (k, bs')"
  shows "\<exists>l' h'. malloc (int n) l = Some (of_nat (HEAP_BASE + k + 8), l') \<and> heap_inv l' h' bs'"
proof -
  obtain l1 where l1: "malloc_init l = Some l1" "heap_inv l1 1 [(PAGE_SIZE, True)]"
    using malloc_init_ok [OF hh st room] by blast
  have "heap_start l1 \<noteq> 0" using heap_invD(3) [OF l1(2)] HEAP_BASE_ptr by simp
  then have eq: "malloc (int n) l = malloc (int n) l1" using malloc_after_init [OF l1(1)] n by simp
  have "first_fit (n + 16) [(PAGE_SIZE, True)] = None \<Longrightarrow> (n + 4111) div PAGE_SIZE \<le> card (avail (mm (kern l1)))"
    using n by simp
  from malloc_spec_ok [OF l1(2) n(1) _ this spec] n(2) show ?thesis unfolding eq by auto
qed

section \<open>The search for a block\<close>

text \<open>A block in use whose header says size 0 is its own successor.\<close>

lemma malloc_loop_stuck:
  assumes "c < heap_end l" "blk_free c l = Some 0" "blk_size c l = Some 0"
  shows "malloc_loop t c l = None"
proof (rule ccontr)
  assume "malloc_loop t c l \<noteq> None"
  then obtain r where "malloc_loop t c l = Some r" by blast
  then have "\<not> (c < heap_end l \<and> blk_free c l = Some 0 \<and> blk_size c l = Some 0)"
  proof (rule malloc_loop.raw_induct [rotated])
    fix f t c l r
    assume IH: "\<And>t c l r. f t c l = Some r \<Longrightarrow> \<not> (c < heap_end l \<and> blk_free c l = Some 0 \<and> blk_size c l = Some 0)"
      and run: "(if c < heap_end l then block_fits t c l \<bind> (\<lambda>ok. if ok then take_block t c l \<bind> (\<lambda>(p, l1). Some (Some p, l1))
          else next_block c l \<bind> (\<lambda>nxt. f t nxt l)) else Some (None, l)) = Some r"
    show "\<not> (c < heap_end l \<and> blk_free c l = Some 0 \<and> blk_size c l = Some 0)"
    proof
      assume h: "c < heap_end l \<and> blk_free c l = Some 0 \<and> blk_size c l = Some 0"
      then have "f t c l = Some r" using run by (simp add: block_fits_def next_block_def)
      with IH h show False by blast
    qed
  qed
  with assms show False by blast
qed

text \<open>C23. The search of \<open>malloc\<close> ends on every heap that blocks tile, from every block on, with a block
  or with the end of the heap. On a heap whose program has overwritten the header of the first block
  with zeros it never ends.\<close>
theorem malloc_search_ends:
  assumes "16 < t" and "t < 2 ^ 31"
  shows "(heap_inv l h (xs @ ys) \<longrightarrow> malloc_loop (of_nat t) (of_nat (HEAP_BASE + span xs)) l \<noteq> None) \<and>
    (heap_start l' < heap_end l' \<and> blk_free (heap_start l') l' = Some 0 \<and> blk_size (heap_start l') l' = Some 0 \<longrightarrow>
      malloc_loop (of_nat t) (heap_start l') l' = None)"
  using malloc_loop_ok [OF assms, of l h xs ys] malloc_loop_stuck [of "heap_start l'" l' "of_nat t"]
  by (auto split: option.splits)

lemma zeroed_header:
  assumes hi: "heap_inv l h bs" and bs: "0 < h"
  shows "\<exists>l'. heap_start l' < heap_end l' \<and> blk_free (heap_start l') l' = Some 0 \<and> blk_size (heap_start l') l' = Some 0"
proof -
  note H = heap_invD [OF hi]
  have E: "HEAP_BASE + 8 \<le> HEAP_BASE + span bs" using H(6) bs by simp
  have o: "owned (but_ram l) HEAP_BASE (HEAP_BASE + span bs)" using H(1) by simp
  from hm.store_ok [OF o, of HEAP_BASE 0] E obtain l1 where
    l1: "but_ram l1 = but_ram l" "word_at l1 HEAP_BASE = Some 0" by auto
  have o1: "owned (but_ram l1) HEAP_BASE (HEAP_BASE + span bs)" using o l1(1) by simp
  from hm.store_ok [OF o1, of "HEAP_BASE + 4" 0] E obtain l2 where
    l2: "but_ram l2 = but_ram l1" "word_at l2 (HEAP_BASE + 4) = Some 0" "word_at l2 HEAP_BASE = word_at l1 HEAP_BASE" by auto
  have "heap_start l2 = of_nat HEAP_BASE" "heap_end l2 = of_nat (HEAP_BASE + span bs)"
    using but_ram_eqD [of l2 l] l1(1) l2(1) H(3,4) by simp_all
  then show ?thesis
    using header_ptr [of HEAP_BASE l2] l1(2) l2(2,3) less_ptr [of HEAP_BASE "HEAP_BASE + span bs"] E H(2)
    by (intro exI [of _ l2]) (simp del: of_nat_add)
qed

lemma malloc_search_ends_witness:
  "\<exists>l l'. heap_inv l 1 [(4096, False)] \<and> malloc_loop 100 (of_nat HEAP_BASE) l \<noteq> None \<and>
     heap_start l' < heap_end l' \<and> malloc_loop 100 (heap_start l') l' = None"
proof -
  obtain l where l: "heap_inv l 1 [(4096, False)]" using lay_out [of 1 "[(4096, False)]"] by auto
  obtain l' where l': "heap_start l' < heap_end l'" "blk_free (heap_start l') l' = Some 0" "blk_size (heap_start l') l' = Some 0"
    using zeroed_header [OF l] by auto
  show ?thesis using malloc_search_ends [of 100 l 1 "[]" "[(4096, False)]" l'] l l' by auto
qed

section \<open>free\<close>

lemma payload_freed: "payload a (freed xs n ys) = payload a (xs @ (n, True) # ys)"
proof -
  have j: "payload b (join_right n ys) = payload (b + n) ys" for b
    by (cases "(n, ys)" rule: join_right.cases) (auto simp: add.assoc)
  obtain N rs where r: "join_right n ys = (N, True) # rs" using join_right_hd by blast
  have p: "payload (b + N) rs = payload (b + n) ys" for b using j [of b] by (simp add: r)
  show ?thesis
  proof (cases "xs \<noteq> [] \<and> snd (last xs)")
    case True
    then obtain zs m where xs: "xs = zs @ [(m, True)]" by (metis append_butlast_last_id prod.collapse)
    then show ?thesis using p [of "a + span zs + m"] by (simp add: freed_def r add.assoc)
  next
    case False
    then show ?thesis using p [of "a + span xs"] by (auto simp: freed_def r Let_def)
  qed
qed

lemma free_keeps:
  assumes hi: "heap_inv l h (xs @ (n, False) # ys)" and bs: "freed xs n ys = zs @ [(m, g)]"
    and whole: "\<not> g \<or> m < PAGE_SIZE \<or> PAGE_SIZE dvd m"
  shows "\<exists>l' h'. free (of_nat (HEAP_BASE + span xs + 8)) l = Some (0, l') \<and>
     heap_inv l' h' (if g \<and> PAGE_SIZE \<le> m then zs else zs @ [(m, g)]) \<and>
     (\<forall>b \<in> payload HEAP_BASE (xs @ (n, True) # ys). byte_at l' b = byte_at l b)"
proof -
  from free_joins [OF hi] obtain l1 where
    l1: "free (of_nat (HEAP_BASE + span xs + 8)) l = Option.bind (shrink l1) (\<lambda>l4. Some (0, l4))"
      "heap_inv l1 h (zs @ [(m, g)])" "\<forall>b \<in> inside HEAP_BASE (xs @ (n, False) # ys). byte_at l1 b = byte_at l b"
    unfolding bs by blast
  have sub: "payload HEAP_BASE (xs @ (n, True) # ys) \<subseteq> inside HEAP_BASE (xs @ (n, False) # ys)"
    using payload_inside [of HEAP_BASE xs] payload_inside [of "HEAP_BASE + span xs + n" ys] by auto
  show ?thesis
  proof (cases "g \<and> PAGE_SIZE \<le> m")
    case False
    then have "shrink l1 = Some l1" using shrink_nothing [OF l1(2)] by fastforce
    then show ?thesis using l1 sub False by auto
  next
    case True
    then obtain k where k: "m = PAGE_SIZE * k" "0 < k" using whole by (auto simp: dvd_def)
    have h: "span zs + m = PAGE_SIZE * h" using heap_invD(6) [OF l1(2)] by simp
    then have "k \<le> h" using k(1) by simp
    then obtain h' where h': "h = h' + k" by (metis add.commute le_Suc_ex)
    have "heap_inv l1 (h' + k) (zs @ [(PAGE_SIZE * k, True)])" using l1(2) True k h' by simp
    from shrink_whole [OF this k(2)] obtain l' where
      l': "shrink l1 = Some l'" "heap_inv l' h' zs" "\<forall>b. HEAP_BASE \<le> b \<longrightarrow> b < HEAP_BASE + span zs \<longrightarrow> byte_at l' b = byte_at l1 b"
      by blast
    have "byte_at l' b = byte_at l b" if b: "b \<in> payload HEAP_BASE (xs @ (n, True) # ys)" for b
    proof -
      have "b \<in> payload HEAP_BASE zs" using b payload_freed [of HEAP_BASE xs n ys] True by (simp add: bs)
      then have "HEAP_BASE \<le> b" "b < HEAP_BASE + span zs" using payload_bounds by blast+
      then show ?thesis using l'(3) l1(3) sub b by (metis subsetD)
    qed
    then show ?thesis using l1(1) l' True by auto
  qed
qed

text \<open>C20. \<open>free\<close> of a block in use makes it free and joins it with a free block on each side; if the
  last block is then free and is a whole number of pages, these pages go back to the kernel. The
  other blocks in use keep their contents, and the blocks tile the heap again.\<close>
theorem free_ok:
  assumes "heap_inv l h (xs @ (n, False) # ys)" and "freed xs n ys = zs @ [(m, g)]"
    and "\<not> g \<or> m < PAGE_SIZE \<or> PAGE_SIZE dvd m"
  shows "\<exists>l' h'. free (of_nat (HEAP_BASE + span xs + 8)) l = Some (0, l') \<and>
     heap_inv l' h' (if g \<and> PAGE_SIZE \<le> m then zs else zs @ [(m, g)]) \<and>
     (\<forall>b \<in> payload HEAP_BASE (xs @ (n, True) # ys). byte_at l' b = byte_at l b)"
  by (rule free_keeps [OF assms])

lemma free_ok_witness:
  "\<exists>l l' h'. heap_inv l 1 [(100, True), (200, False), (3796, True)] \<and> free 0x11C06C l = Some (0, l') \<and> heap_inv l' h' []"
proof -
  obtain l where l: "heap_inv l 1 ([(100, True)] @ (200, False) # [(3796, True)])"
    using lay_out [of 1 "[(100, True), (200, False), (3796, True)]"] by auto
  have f: "freed [(100, True)] 200 [(3796, True)] = [] @ [(4096, True)]" by (simp add: freed_def)
  show ?thesis using free_ok [OF l f] l by (auto simp: HEAP_BASE_def)
qed

text \<open>The place where first fit finds a block.\<close>

lemma first_fit_split:
  "first_fit t bs = Some (k, bs') \<Longrightarrow> \<exists>xs n ys. bs = xs @ (n, True) # ys \<and> span xs = k \<and> t \<le> n \<and>
     bs' = xs @ (if 16 < n - t then (t, False) # (n - t, True) # ys else (n, False) # ys)"
proof (induction bs arbitrary: k bs')
  case (Cons b bs)
  obtain n f where b: "b = (n, f)" by (cases b)
  show ?case
  proof (cases "f \<and> t \<le> n")
    case True
    then show ?thesis using Cons.prems b by (intro exI [of _ "[]"] exI [of _ n] exI [of _ bs]) auto
  next
    case False
    then obtain k1 bs1 where 1: "first_fit t bs = Some (k1, bs1)" "k = n + k1" "bs' = b # bs1"
      using Cons.prems b by (auto split: if_splits)
    from Cons.IH [OF 1(1)] obtain xs m ys where
      "bs = xs @ (m, True) # ys" "span xs = k1" "t \<le> m"
      "bs1 = xs @ (if 16 < m - t then (t, False) # (m - t, True) # ys else (m, False) # ys)" by blast
    then show ?thesis using 1 b by (intro exI [of _ "b # xs"] exI [of _ m] exI [of _ ys]) simp
  qed
qed simp

text \<open>No two neighbours are free.\<close>

definition joined :: "blocks \<Rightarrow> bool" where
  "joined bs \<longleftrightarrow> (\<forall>xs n m ys. bs \<noteq> xs @ (n, True) # (m, True) # ys)"

lemma freed_first_fit:
  assumes "first_fit t bs = Some (k, bs')" "joined bs"
  shows "\<exists>xs m ys. bs' = xs @ (m, False) # ys \<and> span xs = k \<and> freed xs m ys = bs"
proof -
  obtain xs n ys where s: "bs = xs @ (n, True) # ys" "span xs = k" "t \<le> n"
    "bs' = xs @ (if 16 < n - t then (t, False) # (n - t, True) # ys else (n, False) # ys)"
    using first_fit_split [OF assms(1)] by blast
  have left: "\<not> (xs \<noteq> [] \<and> snd (last xs))"
  proof
    assume "xs \<noteq> [] \<and> snd (last xs)"
    then have "xs = butlast xs @ [(fst (last xs), True)]" by (metis append_butlast_last_id prod.collapse)
    then have "bs = butlast xs @ (fst (last xs), True) # (n, True) # ys" unfolding s(1)
      by (metis append.assoc append_Cons append_Nil)
    then show False using assms(2) unfolding joined_def by blast
  qed
  have right: "join_right n ys = (n, True) # ys"
    using assms(2) unfolding joined_def s(1) by (cases "(n, ys)" rule: join_right.cases) auto
  show ?thesis
  proof (cases "16 < n - t")
    case True
    have "freed xs t ((n - t, True) # ys) = bs" using left s(1,3) by (auto simp: freed_def)
    then show ?thesis using True s(2,4) by (intro exI [of _ xs] exI [of _ t] exI [of _ "(n - t, True) # ys"]) simp
  next
    case False
    have "freed xs n ys = bs" using left right s(1) by (auto simp: freed_def Let_def)
    then show ?thesis using False s(2,4) by (intro exI [of _ xs] exI [of _ n] exI [of _ ys]) simp
  qed
qed

text \<open>C21. On a heap whose last block is not a free block of a page or more, \<open>malloc\<close> from a free block
  followed by \<open>free\<close> of the result gives the blocks back as they were, and the contents of every
  block in use.\<close>
theorem malloc_free_roundtrip:
  assumes "heap_inv l h bs" and "joined bs" and "bs = zs @ [(m, g)]" and "\<not> g \<or> m < PAGE_SIZE"
    and "0 < n" and "n < 2 ^ 29" and "first_fit (n + 16) bs \<noteq> None"
  shows "\<exists>p l1 l2. malloc (int n) l = Some (p, l1) \<and> free p l1 = Some (0, l2) \<and> heap_inv l2 h bs \<and>
     (\<forall>b \<in> payload HEAP_BASE bs. byte_at l2 b = byte_at l b)"
proof -
  obtain k bs' where ff: "first_fit (n + 16) bs = Some (k, bs')" using assms(7) by auto
  then have sp: "malloc_spec n bs = (k, bs')" by (simp add: malloc_spec_def)
  have "first_fit (n + 16) bs = None \<Longrightarrow> (n + 4111) div PAGE_SIZE \<le> card (avail (mm (kern l)))" using ff by simp
  from malloc_spec_ok [OF assms(1,5,6) this sp] obtain l1 h1 where
    l1: "malloc (int n) l = Some (of_nat (HEAP_BASE + k + 8), l1)" "heap_inv l1 h1 bs'"
      "\<forall>b \<in> payload HEAP_BASE bs. byte_at l1 b = byte_at l b" by blast
  obtain xs i ys where f: "bs' = xs @ (i, False) # ys" "span xs = k" "freed xs i ys = bs"
    using freed_first_fit [OF ff assms(2)] by blast
  have hi: "heap_inv l1 h1 (xs @ (i, False) # ys)" using l1(2) f(1) by simp
  have fd: "freed xs i ys = zs @ [(m, g)]" using f(3) assms(3) by simp
  have "\<not> g \<or> m < PAGE_SIZE \<or> PAGE_SIZE dvd m" using assms(4) by blast
  from free_keeps [OF hi fd this] obtain l2 h2 where
    l2: "free (of_nat (HEAP_BASE + span xs + 8)) l1 = Some (0, l2)"
      "heap_inv l2 h2 (if g \<and> PAGE_SIZE \<le> m then zs else zs @ [(m, g)])"
      "\<forall>b \<in> payload HEAP_BASE (xs @ (i, True) # ys). byte_at l2 b = byte_at l1 b" by blast
  have "(if g \<and> PAGE_SIZE \<le> m then zs else zs @ [(m, g)]) = bs" using assms(3,4) by auto
  with l2(2) have h2: "heap_inv l2 h2 bs" by simp
  then have "h2 = h" using heap_invD(6) [OF h2] heap_invD(6) [OF assms(1)] by simp
  moreover have "payload HEAP_BASE (xs @ (i, True) # ys) = payload HEAP_BASE bs"
    using payload_freed [of HEAP_BASE xs i ys] f(3) by simp
  ultimately show ?thesis using l1(1,3) l2(1,3) h2 f(2) by auto
qed

lemma malloc_free_roundtrip_witness:
  "\<exists>l p l1 l2. heap_inv l 1 [(500, True), (3596, False)] \<and> malloc 40 l = Some (p, l1) \<and> free p l1 = Some (0, l2) \<and>
     heap_inv l2 1 [(500, True), (3596, False)]"
proof -
  obtain l where l: "heap_inv l 1 [(500, True), (3596, False)]"
    using lay_out [of 1 "[(500, True), (3596, False)]"] by auto
  have "joined [(500, True), (3596, False)]" by (auto simp: joined_def Cons_eq_append_conv)
  then show ?thesis using malloc_free_roundtrip [OF l _, of "[(500, True)]" 3596 False 40] l by fastforce
qed

section \<open>The footer that is not written\<close>

text \<open>Reading the mark of a block that starts at the end of the heap is a fault.\<close>

lemma heap_end_unmapped:
  assumes "has_heap (kern l) d p hz h" "heap_end l = of_nat (HEAP_BASE + PAGE_SIZE * h)"
  shows "blk_free (heap_end l) l = None"
proof -
  have r: "cr3 (mm (kern l)) = Some d" "row_of (mm (kern l)) d p" "heap_map (mm (kern l)) p h"
    using assms(1) by (simp_all add: has_heap_def)
  have i: "PAG_LOG_INIT_HEAP + h < TOTAL_PAGES" using heap_map_room [OF r(3)] by simp
  have z: "pagusr_table (mm (kern l)) p (PAG_LOG_INIT_HEAP + h) = 0" using r(3) i by (simp add: heap_map_def)
  have e: "HEAP_BASE + PAGE_SIZE * h + 4 = (PAG_LOG_INIT_HEAP + h) * PAGE_SIZE + 4" by (simp add: HEAP_BASE_def)
  have "translate (mm (kern l)) (HEAP_BASE + PAGE_SIZE * h + 4) = None"
    unfolding e using translate_row [OF r(1,2) i, of 4] z by (simp add: present_def get_bits_def)
  then have "word_at l (HEAP_BASE + PAGE_SIZE * h + 4) = None" by (simp add: word_at_def ld32_def ld8_def)
  moreover have "HEAP_BASE + PAGE_SIZE * h + 4 \<le> PAGE_SIZE * TOTAL_PAGES" using i by (simp add: HEAP_BASE_def)
  ultimately show ?thesis unfolding assms(2)
    using header_ptr(2) [of "HEAP_BASE + PAGE_SIZE * h" l] by (simp del: of_nat_add of_nat_mult)
qed

text \<open>C22. When \<open>free\<close> cuts a free block at the end of the heap to the remainder \<open>r\<close> of its size by
  whole pages, it writes the new size into the header only: the place of the footer keeps the word
  \<open>w\<close> that was inside of the block before. The next search for the last block goes back by \<open>w\<close>
  instead of \<open>r\<close>; if \<open>w\<close> is 0, that step of a later \<open>free\<close> faults.\<close>
theorem free_stale_footer:
  assumes "heap_inv l h (xs @ [(m, True), (n, False)])" and "m + n = PAGE_SIZE * k + r" and "r < PAGE_SIZE"
    and "0 < k" and "16 \<le> r" and "r + 8 \<le> m" and "word_at l (HEAP_BASE + span xs + r - 8) = Some w"
  shows "\<exists>l'. free (of_nat (HEAP_BASE + span xs + m + 8)) l = Some (0, l') \<and>
     heap_end l' = of_nat (HEAP_BASE + span xs + r) \<and> blk_size (of_nat (HEAP_BASE + span xs)) l' = Some (of_nat r) \<and>
     prev_block (heap_end l') l' = Some (heap_end l' - w) \<and> (w = 0 \<longrightarrow> shrink l' = None)"
proof -
  let ?a = "HEAP_BASE + span xs"
  have hi: "heap_inv l h ((xs @ [(m, True)]) @ (n, False) # [])" using assms(1) by simp
  have fd: "freed (xs @ [(m, True)]) n [] = xs @ [(m + n, True)]" by (simp add: freed_def)
  from free_joins [OF hi] obtain l1 where
    l1: "free (of_nat (HEAP_BASE + span (xs @ [(m, True)]) + 8)) l = Option.bind (shrink l1) (\<lambda>l4. Some (0, l4))"
      "heap_inv l1 h (xs @ [(m + n, True)])"
      "\<forall>b \<in> inside HEAP_BASE ((xs @ [(m, True)]) @ (n, False) # []). byte_at l1 b = byte_at l b"
    unfolding fd by blast
  have E: "span xs + (m + n) = PAGE_SIZE * h" using heap_invD(6) [OF l1(2)] by simp
  then have "k \<le> h" using assms(2) by simp
  then obtain h' where h': "h = h' + k" by (metis add.commute le_Suc_ex)
  have "heap_inv l1 (h' + k) (xs @ [(PAGE_SIZE * k + r, True)])" using l1(2) assms(2) h' by simp
  from shrink_pages [OF this assms(4,3)] obtain l' d p hz where
    l': "shrink l1 = Some l'" "has_heap (kern l') d p hz h'" "heap_end l' = of_nat (HEAP_BASE + PAGE_SIZE * h')"
      "span xs + r = PAGE_SIZE * h'" "4 \<le> r \<longrightarrow> word_at l' ?a = Some (of_nat r)"
      "\<forall>b. HEAP_BASE \<le> b \<longrightarrow> b < HEAP_BASE + PAGE_SIZE * h' \<longrightarrow> b < ?a \<or> ?a + 4 \<le> b \<longrightarrow> byte_at l' b = byte_at l1 b"
    by blast
  have ee: "HEAP_BASE + PAGE_SIZE * h' = ?a + r" using l'(4) by simp
  have he: "heap_end l' = of_nat (?a + r)" using l'(3) unfolding ee .
  have b: "?a + r + 8 \<le> PAGE_SIZE * TOTAL_PAGES"
    using heap_invD(2) [OF assms(1)] assms(6) by simp
  have "word_at l' (?a + r - 8) = word_at l (?a + r - 8)"
  proof (rule word_at_cong)
    fix i :: nat assume i: "i < 4"
    have "?a + r - 8 + i \<in> inside HEAP_BASE ((xs @ [(m, True)]) @ (n, False) # [])"
    proof -
      have "?a + 8 \<le> ?a + r - 8 + i" "?a + r - 8 + i < ?a + m - 8" using i assms(5,6) by linarith+
      then show ?thesis by simp
    qed
    then have "byte_at l1 (?a + r - 8 + i) = byte_at l (?a + r - 8 + i)" using l1(3) by blast
    moreover have "HEAP_BASE \<le> ?a + r - 8 + i" "?a + r - 8 + i < HEAP_BASE + PAGE_SIZE * h'" "?a + 4 \<le> ?a + r - 8 + i"
      using i assms(5) unfolding ee by linarith+
    ultimately show "byte_at l' (?a + r - 8 + i) = byte_at l (?a + r - 8 + i)" using l'(6) by simp
  qed
  then have w: "word_at l' (?a + r - 8) = Some w" using assms(7) by simp
  have q: "(of_nat (?a + r) :: u32) - 8 = of_nat (?a + r - 8)" using ptr_diff [of 8 "?a + r"] assms(5) by simp
  have pv: "prev_block (heap_end l') l' = Some (heap_end l' - w)"
    unfolding prev_block_def Let_def he q using header_ptr(1) [of "?a + r - 8" l'] w b by simp
  moreover have "blk_size (of_nat ?a) l' = Some (of_nat r)"
    using header_ptr(1) [of ?a l'] l'(5) assms(5) b by simp
  moreover have "shrink l' = None" if "w = 0"
    using heap_end_unmapped [OF l'(2,3)] pv that by (simp add: shrink_def)
  moreover have "free (of_nat (?a + m + 8)) l = Some (0, l')" using l1(1) l'(1) by (simp add: add.assoc)
  ultimately show ?thesis using he by blast
qed

text \<open>A heap where it happens: a free block of 5000 bytes before the last block of two pages.\<close>

lemma free_stale_footer_witness:
  "\<exists>l w l'. heap_inv l 4 [(3192, False), (5000, True), (8192, False)] \<and> free 0x11E008 l = Some (0, l') \<and>
     prev_block (heap_end l') l' = Some (heap_end l' - w) \<and> (w = 0 \<longrightarrow> shrink l' = None)"
proof -
  obtain l where l: "heap_inv l 4 ([(3192, False)] @ [(5000, True), (8192, False)])"
    using lay_out [of 4 "[(3192, False), (5000, True), (8192, False)]"] by auto
  have "translate (mm (kern l)) (HEAP_BASE + 4088 + i) \<noteq> None" if "i < 4" for i
    using heap_invD(1) [OF l] that by (simp add: owned_def)
  from this [of 0] this [of 1] this [of 2] this [of 3]
  obtain w where "word_at l (HEAP_BASE + 4088) = Some w"
    by (auto simp: word_at_def ld32_def ld8_def)
  then show ?thesis
    using free_stale_footer [OF l, of 3 904 w] l by (auto simp: HEAP_BASE_def)
qed

end

