(* ===== verification/Strings.thy ===== *)
theory Strings
  imports Libc
begin

text \<open>
  The string functions of \<^verbatim>\<open>libc.c\<close>: \<open>itoa\<close> writes the decimal digits of a number, \<open>strlen\<close> finds
  the end, and reading the digits back gives the number.
\<close>

section \<open>Digits\<close>

fun digits :: "nat \<Rightarrow> nat list" where
  "digits n = (if n = 0 then [] else n mod 10 # digits (n div 10))"

declare digits.simps [simp del]

lemma digits_0 [simp]: "digits 0 = []"
  by (simp add: digits.simps)

lemma digits_pos: "0 < n \<Longrightarrow> digits n = n mod 10 # digits (n div 10)"
  by (subst digits.simps) simp

lemma digits_less: "d \<in> set (digits n) \<Longrightarrow> d < 10"
  by (induction n rule: digits.induct) (subst (asm) (2) digits.simps, auto split: if_splits)

lemma digits_value: "foldr (\<lambda>d v. 10 * v + d) (digits n) 0 = n"
proof (induction n rule: digits.induct)
  case (1 n)
  then show ?case by (cases "n = 0") (simp_all add: digits_pos)
qed

lemma digits_length: "n < 10 ^ k \<Longrightarrow> length (digits n) \<le> k"
proof (induction n arbitrary: k rule: digits.induct)
  case (1 n)
  show ?case
  proof (cases "n = 0")
    case False
    then obtain j where k: "k = Suc j" using 1(2) by (cases k) auto
    then have "n div 10 < 10 ^ j" using 1(2) by (simp add: less_mult_imp_div_less)
    then show ?thesis using 1(1) [of j] False k by (simp add: digits_pos)
  qed simp
qed

lemma digits_last: "0 < n \<Longrightarrow> digits n \<noteq> [] \<and> last (digits n) \<noteq> 0"
proof (induction n rule: digits.induct)
  case (1 n)
  then show ?case
    by (cases "n div 10 = 0") (auto simp: digits_pos)
qed

section \<open>The two loops\<close>

definition ascii :: "nat \<Rightarrow> u8" where
  "ascii d = of_nat (d + 48)"

lemma unat_ascii: "d < 10 \<Longrightarrow> unat (ascii d) = d + 48"
  by (simp add: ascii_def unat_of_nat take_bit_nat_eq_self del: of_nat_add)

lemma itoa_digits_spec:
  "i + length (digits a) \<le> length b \<Longrightarrow>
   itoa_digits (int a) i b = Some (i + length (digits a), take i b @ List.map ascii (digits a) @ drop (i + length (digits a)) b)"
proof (induction a arbitrary: i b rule: digits.induct)
  case (1 a)
  show ?case
  proof (cases "a = 0")
    case True
    then show ?thesis by (simp add: itoa_digits.simps)
  next
    case False
    then have d: "digits a = a mod 10 # digits (a div 10)" by (simp add: digits_pos)
    have l: "i < length b" "Suc i + length (digits (a div 10)) \<le> length b" using 1(2) by (simp_all add: d)
    let ?b = "b[i := ascii (a mod 10)]"
    have w: "(word_of_int (int a mod 10 + 48) :: u8) = ascii (a mod 10)"
    proof -
      have "int a mod 10 + 48 = int (a mod 10 + 48)" by (simp add: zmod_int)
      then show ?thesis by (simp only: ascii_def of_int_of_nat_eq)
    qed
    have "itoa_digits (int a) i b = itoa_digits (int (a div 10)) (Suc i) ?b"
      using False l(1) w by (subst itoa_digits.simps) (simp add: put_at_def zdiv_int)
    also have "\<dots> = Some (Suc i + length (digits (a div 10)),
        take (Suc i) ?b @ List.map ascii (digits (a div 10)) @ drop (Suc i + length (digits (a div 10))) ?b)"
      by (rule 1(1)) (use False l(2) in simp_all)
    also have "take (Suc i) ?b = take i b @ [ascii (a mod 10)]"
      using l(1) by (simp add: take_Suc_conv_app_nth)
    finally show ?thesis by (simp add: d)
  qed
qed

lemma itoa_swap_step:
  assumes "i1 < n div 2" "n \<le> length b"
  shows "itoa_swap n i1 b = Some (b[i1 := b ! (n - 1 - i1), n - 1 - i1 := b ! i1])"
proof -
  have "i1 < length b" "n - i1 - 1 < length b" "n - i1 - 1 = n - 1 - i1" using assms by linarith+
  then show ?thesis by (simp add: itoa_swap_def get_at_def put_at_def)
qed

lemma itoa_reverse_prefix:
  "k \<le> n div 2 \<Longrightarrow> n \<le> length b \<Longrightarrow>
   \<exists>b'. foldo (itoa_swap n) [0..<k] b = Some b' \<and> length b' = length b \<and>
     (\<forall>j < length b. b' ! j = (if j < k \<or> n - k \<le> j \<and> j < n then b ! (n - 1 - j) else b ! j))"
proof (induction k)
  case (Suc k)
  then obtain b' where b': "foldo (itoa_swap n) [0..<k] b = Some b'" "length b' = length b"
    "\<forall>j < length b. b' ! j = (if j < k \<or> n - k \<le> j \<and> j < n then b ! (n - 1 - j) else b ! j)" by auto
  let ?c = "b'[k := b' ! (n - 1 - k), n - 1 - k := b' ! k]"
  have k: "k < n - 1 - k" "n - 1 - k < n" using Suc.prems(1) by linarith+
  have "foldo (itoa_swap n) [0..<Suc k] b = Some ?c"
    using b'(1,2) itoa_swap_step [of k n b'] Suc.prems by (simp add: foldo_append)
  moreover have "?c ! j = (if j < Suc k \<or> n - Suc k \<le> j \<and> j < n then b ! (n - 1 - j) else b ! j)" if j: "j < length b" for j
  proof -
    have v: "b' ! k = b ! k" "b' ! (n - 1 - k) = b ! (n - 1 - k)" using b'(3) k Suc.prems by auto
    consider "j = k" | "j = n - 1 - k" | "j \<noteq> k" "j \<noteq> n - 1 - k" by blast
    then show ?thesis
    proof cases
      case 3
      then have "j < Suc k \<longleftrightarrow> j < k" "n - Suc k \<le> j \<longleftrightarrow> n - k \<le> j" by linarith+
      then show ?thesis using 3 b'(3) j by simp
    qed (use v b'(2) k j Suc.prems in auto)
  qed
  ultimately show ?case using b'(2) by auto
qed auto

lemma itoa_reverse:
  assumes "n \<le> length b"
  shows "\<exists>b'. foldo (itoa_swap n) [0..<n div 2] b = Some b' \<and> b' = rev (take n b) @ drop n b"
proof -
  obtain b' where b': "foldo (itoa_swap n) [0..<n div 2] b = Some b'" "length b' = length b"
    "\<forall>j < length b. b' ! j = (if j < n div 2 \<or> n - n div 2 \<le> j \<and> j < n then b ! (n - 1 - j) else b ! j)"
    using itoa_reverse_prefix [of "n div 2" n b] assms by auto
  have "b' = rev (take n b) @ drop n b"
  proof (rule nth_equalityI)
    fix j assume "j < length b'"
    then have j: "j < length b" by (simp add: b'(2))
    have mid: "n - 1 - j = j" if "\<not> j < n div 2" "\<not> n - n div 2 \<le> j" using that by linarith
    show "b' ! j = (rev (take n b) @ drop n b) ! j"
      using b'(3) j assms mid by (auto simp: nth_append rev_nth)
  qed (use b'(2) assms in simp)
  with b'(1) show ?thesis by blast
qed

section \<open>Numbers to strings and back\<close>

text \<open>Reading decimal digits.\<close>

definition number :: "u8 list \<Rightarrow> nat" where
  "number cs = foldl (\<lambda>v c. 10 * v + (unat c - 48)) 0 cs"

lemma number_digits: "number (rev (List.map ascii (digits a))) = a"
proof -
  have "foldr (\<lambda>c v. 10 * v + (unat c - 48)) (List.map ascii ds) 0 = foldr (\<lambda>d v. 10 * v + d) ds 0"
    if "\<forall>d \<in> set ds. d < 10" for ds
    using that by (induction ds) (auto simp: unat_ascii)
  then show ?thesis using digits_less digits_value unfolding number_def foldl_conv_foldr rev_rev_ident by metis
qed

lemma strlen_prefix:
  "\<forall>c \<in> set cs. c \<noteq> 0 \<Longrightarrow> strlen (cs @ 0 # r) = Some (length cs)"
proof -
  assume nz: "\<forall>c \<in> set cs. c \<noteq> 0"
  have "strlen_from (xs @ cs @ 0 # r) (length xs) = Some (length xs + length cs)" if "\<forall>c \<in> set cs. c \<noteq> 0" for xs cs
    using that
  proof (induction cs arbitrary: xs)
    case Nil
    then show ?case by (subst strlen_from.simps) simp
  next
    case (Cons c cs)
    from Cons.IH [of "xs @ [c]"] Cons.prems show ?case
      by (subst strlen_from.simps) (simp add: nth_append)
  qed
  from this [of cs "[]"] nz show ?thesis by (simp add: strlen_def)
qed

lemma itoa_spec:
  assumes "0 < a" "length (digits a) < length b"
  shows "itoa (int a) b = Some (rev (List.map ascii (digits a)) @ 0 # drop (Suc (length (digits a))) b)"
proof -
  let ?n = "length (digits a)" and ?ds = "List.map ascii (digits a)"
  have d: "itoa_digits (int a) 0 b = Some (?n, ?ds @ drop ?n b)"
    using itoa_digits_spec [of 0 a b] assms by simp
  have r: "foldo (itoa_swap ?n) [0..<?n div 2] (?ds @ drop ?n b) = Some (rev ?ds @ drop ?n b)"
    using itoa_reverse [of ?n "?ds @ drop ?n b"] by auto
  have "(rev ?ds @ drop ?n b)[?n := 0] = rev ?ds @ 0 # drop (Suc ?n) b"
    using assms(2) by (cases "drop ?n b") (auto simp: list_update_append drop_Suc tl_drop [symmetric] intro: arg_cong [of _ _ tl])
  then show ?thesis using assms d r by (simp add: itoa_def put_at_def)
qed

text \<open>C27. For a number below \<open>10 ^ m\<close> and a buffer of more than \<open>m\<close> bytes, \<open>itoa\<close> stays inside of the
  buffer and leaves a string of at most \<open>m\<close> decimal digits without a leading zero, whose length
  \<open>strlen\<close> finds and whose value is the number; the rest of the buffer is as before.\<close>
theorem itoa_roundtrip:
  assumes "a < 10 ^ m" and "0 < m" and "m < length b"
  shows "\<exists>b' n. itoa (int a) b = Some b' \<and> length b' = length b \<and> strlen b' = Some n \<and> 0 < n \<and> n \<le> m \<and>
     number (take n b') = a \<and> (\<forall>c \<in> set (take n b'). 48 \<le> unat c \<and> unat c \<le> 57) \<and>
     (0 < a \<longrightarrow> b' ! 0 \<noteq> 48) \<and> drop (Suc n) b' = drop (Suc n) b"
proof (cases "a = 0")
  case True
  obtain x y b1 where b: "b = x # y # b1" using assms(2,3) by (cases b; cases "tl b") auto
  have "itoa (int a) b = Some ([48] @ 0 # b1)" using True by (simp add: itoa_def put_at_def b)
  moreover have "strlen ([48] @ 0 # b1) = Some 1" using strlen_prefix [of "[48]" b1] by simp
  ultimately show ?thesis using True assms(2)
    by (intro exI [of _ "[48] @ 0 # b1"] exI [of _ 1]) (simp add: b number_def)
next
  case False
  let ?ds = "digits a" and ?n = "length (digits a)"
  let ?cs = "rev (List.map ascii ?ds)"
  let ?b = "?cs @ 0 # drop (Suc ?n) b"
  have n: "?n \<le> m" "?n < length b" using digits_length [OF assms(1)] assms(3) by simp_all
  have dig: "48 \<le> unat c \<and> unat c \<le> 57" if "c \<in> set ?cs" for c
    using that digits_less by (fastforce simp: unat_ascii)
  then have "\<forall>c \<in> set ?cs. c \<noteq> 0" by fastforce
  then have "strlen ?b = Some ?n" using strlen_prefix [of ?cs] by simp
  moreover have "?cs ! 0 \<noteq> 48"
  proof -
    have l: "?ds \<noteq> []" "last ?ds \<noteq> 0" "last ?ds < 10" using digits_last [of a] digits_less [of "last ?ds" a] False by simp_all
    then have "?cs ! 0 = ascii (last ?ds)" by (simp add: rev_nth last_conv_nth)
    moreover have "unat (ascii (last ?ds)) \<noteq> unat (48 :: u8)" using unat_ascii [OF l(3)] l(2) by simp
    ultimately show ?thesis by metis
  qed
  moreover have "itoa (int a) b = Some ?b" by (rule itoa_spec) (use False n in simp_all)
  moreover have "0 < ?n" using digits_last [of a] False by simp
  ultimately show ?thesis using n dig number_digits [of a]
    by (intro exI [of _ ?b] exI [of _ ?n]) (simp add: nth_append)
qed

lemma itoa_roundtrip_witness:
  "\<exists>b' n. itoa 2147483647 (replicate 11 7) = Some b' \<and> strlen b' = Some n \<and> number (take n b') = 2147483647"
  using itoa_roundtrip [of 2147483647 10 "replicate 11 7"] by auto

text \<open>A negative number gives the empty string.\<close>

lemma itoa_negative: "a < 0 \<Longrightarrow> itoa a (x # b) = Some (0 # b)"
  by (simp add: itoa_def itoa_digits.simps put_at_def)

text \<open>The buffer of \<open>perror\<close> has three bytes: an error number of three digits runs out of it.\<close>

lemma perror_overflow: "perror 100 [x, y, z] cn = None" "perror 99 [x, y, z] cn \<noteq> None"
proof -
  have d: "itoa_digits 100 0 [x, y, z] = Some (3, [48, 48, 49])"
    using itoa_digits_spec [of 0 100 "[x, y, z]"] by (simp add: digits_pos ascii_def)
  show "perror 100 [x, y, z] cn = None"
    by (simp add: perror_def itoa_def d put_at_def itoa_swap_def get_at_def)
  have "itoa 99 [x, y, z] = Some ([57, 57] @ 0 # [])"
    using itoa_spec [of 99 "[x, y, z]"] by (simp add: digits_pos ascii_def)
  then show "perror 99 [x, y, z] cn \<noteq> None"
    using strlen_prefix [of "[57, 57]" "[]"] by (simp add: perror_def write1_def)
qed

end
