(* ===== verification/Sprites.thy ===== *)
theory Sprites
  imports Prelude Console
begin

text \<open>
  The drawing half of the game in \<^verbatim>\<open>user.c\<close>: two-dimensional arrays, the sprites and
  the routines that paint them through the system calls \<open>gotoxy\<close>, \<open>set_color\<close> and \<open>write\<close>.
  An array of arrays is a list of lists; an access outside of it is undefined in C and is
  \<^term>\<open>None\<close> here. The system calls act on the console of theory Console.
\<close>

abbreviation (input) ROWS :: int where "ROWS \<equiv> 25"
abbreviation (input) COLS :: int where "COLS \<equiv> 80"
abbreviation (input) NEGRO :: int where "NEGRO \<equiv> 0"
abbreviation (input) VERDE :: int where "VERDE \<equiv> 2"
abbreviation (input) CIAN :: int where "CIAN \<equiv> 3"
abbreviation (input) ROJO :: int where "ROJO \<equiv> 4"
abbreviation (input) ROSA :: int where "ROSA \<equiv> 5"
abbreviation (input) MARRON :: int where "MARRON \<equiv> 6"
abbreviation (input) BLANCO :: int where "BLANCO \<equiv> 7"

section \<open>Arrays of arrays\<close>

definition at2 :: "'a list list \<Rightarrow> int \<Rightarrow> int \<Rightarrow> 'a option" where
  "at2 m i j = (if 0 \<le> i \<and> i < int (length m) \<and> 0 \<le> j \<and> j < int (length (m ! nat i))
     then Some (m ! nat i ! nat j) else None)"

definition set2 :: "'a list list \<Rightarrow> int \<Rightarrow> int \<Rightarrow> 'a \<Rightarrow> 'a list list option" where
  "set2 m i j v = (if 0 \<le> i \<and> i < int (length m) \<and> 0 \<le> j \<and> j < int (length (m ! nat i))
     then Some (m[nat i := (m ! nat i)[nat j := v]]) else None)"

text \<open>\<open>dims h w m\<close>: an array of \<open>h\<close> rows of \<open>w\<close> elements, as the calls of \<open>malloc\<close> in \<open>main\<close>
  make it.\<close>

definition dims :: "int \<Rightarrow> int \<Rightarrow> 'a list list \<Rightarrow> bool" where
  "dims h w m \<longleftrightarrow> int (length m) = h \<and> (\<forall>r \<in> set m. int (length r) = w)"

section \<open>The sprites\<close>

record pixel =
  ch :: u8
  fg :: int
  bg :: int

type_synonym sprite = "pixel list list"

text \<open>The loops that paint a sprite black, and a block of consecutive assignments
  \<^verbatim>\<open>s[i][j] = p\<close> of the same pixel.\<close>

definition limpia :: "int \<Rightarrow> int \<Rightarrow> sprite \<Rightarrow> sprite option" where
  "limpia sizeY sizeX =
     foldo (\<lambda>i. foldo (\<lambda>j m. set2 m i j \<lparr>ch = 32, fg = NEGRO, bg = NEGRO\<rparr>) [0..sizeX - 1]) [0..sizeY - 1]"

definition asigna :: "pixel \<Rightarrow> (int \<times> int) list \<Rightarrow> sprite \<Rightarrow> sprite option" where
  "asigna p = foldo (\<lambda>(i, j) m. set2 m i j p)"

definition creaLoser :: "sprite \<Rightarrow> sprite option" where
  "creaLoser loser0 = do {
     loser \<leftarrow> limpia 5 43 loser0;
     asigna \<lparr>ch = 32, fg = NEGRO, bg = ROJO\<rparr>
       [(0,0), (0,4), (0,7), (0,8), (0,9), (0,12), (0,16), (0,20), (0,27), (0,28), (0,29),
        (0,33), (0,34), (0,35), (0,36), (0,38), (0,39), (0,40), (0,41), (0,42), (1,1), (1,3),
        (1,6), (1,10), (1,12), (1,16), (1,20), (1,26), (1,32), (1,38), (2,2), (2,6), (2,10),
        (2,12), (2,16), (2,20), (2,26), (2,30), (2,33), (2,34), (2,35), (2,38), (2,39),
        (2,40), (3,2), (3,6), (3,10), (3,12), (3,16), (3,20), (3,26), (3,30), (3,36), (3,38),
        (4,2), (4,7), (4,8), (4,9), (4,13), (4,14), (4,15), (4,20), (4,21), (4,22), (4,23),
        (4,24), (4,27), (4,28), (4,29), (4,32), (4,33), (4,34), (4,35), (4,38), (4,39),
        (4,40), (4,41), (4,42)] loser
   }"

definition creaWinner :: "sprite \<Rightarrow> sprite option" where
  "creaWinner winner0 = do {
     winner \<leftarrow> limpia 5 40 winner0;
     asigna \<lparr>ch = 32, fg = NEGRO, bg = BLANCO\<rparr>
       [(0,0), (0,4), (0,6), (0,7), (0,8), (0,9), (0,10), (0,12), (0,16), (0,18), (0,22),
        (0,24), (0,25), (0,26), (0,27), (0,28), (0,30), (0,31), (0,32), (0,33), (0,37),
        (0,38), (0,39), (1,0), (1,4), (1,8), (1,12), (1,13), (1,16), (1,18), (1,19), (1,22),
        (1,24), (1,30), (1,34), (1,37), (1,38), (1,39), (2,0), (2,2), (2,4), (2,8), (2,12),
        (2,14), (2,16), (2,18), (2,20), (2,22), (2,24), (2,25), (2,26), (2,30), (2,31),
        (2,32), (2,33), (2,37), (2,38), (2,39), (3,0), (3,1), (3,2), (3,3), (3,4), (3,8),
        (3,12), (3,15), (3,16), (3,18), (3,21), (3,22), (3,24), (3,30), (3,32), (4,0), (4,4),
        (4,6), (4,7), (4,8), (4,9), (4,10), (4,12), (4,16), (4,18), (4,22), (4,24), (4,25),
        (4,26), (4,27), (4,28), (4,30), (4,33), (4,37), (4,38), (4,39)] winner
   }"

definition creaDragon :: "sprite \<Rightarrow> sprite option" where
  "creaDragon dragon0 = do {
     dragon \<leftarrow> limpia 8 10 dragon0;
     dragon \<leftarrow> asigna \<lparr>ch = 32, fg = NEGRO, bg = ROJO\<rparr>
       [(0,2), (0,3), (0,4), (1,3), (2,1), (2,2), (3,2), (4,1), (4,3), (5,0), (5,2), (5,3),
        (5,4), (6,2), (6,3), (6,6), (7,5), (7,6), (7,7), (7,9)] dragon;
     dragon \<leftarrow> asigna \<lparr>ch = 32, fg = NEGRO, bg = VERDE\<rparr>
       [(0,5), (0,6), (0,7), (0,8), (1,4), (1,5), (1,7), (2,3), (2,4), (2,5), (2,7), (2,9),
        (3,3), (3,4), (3,5), (3,7), (3,9), (4,2), (4,4), (5,1), (5,5), (5,6), (5,7), (5,8),
        (5,9), (6,1), (6,4), (6,5), (7,0), (7,1), (7,2), (7,3), (7,4)] dragon;
     dragon \<leftarrow> asigna \<lparr>ch = 32, fg = NEGRO, bg = BLANCO\<rparr>
       [(1,6), (1,8), (3,6), (3,8)] dragon;
     dragon \<leftarrow> asigna \<lparr>ch = 86, fg = BLANCO, bg = NEGRO\<rparr>
       [(4,5), (4,6), (4,7), (4,8)] dragon;
     asigna \<lparr>ch = 32, fg = NEGRO, bg = BLANCO\<rparr>
       [(6,7), (6,8), (7,8)] dragon
   }"

definition creaEnemigo :: "sprite \<Rightarrow> sprite option" where
  "creaEnemigo enemigo0 = do {
     enemigo \<leftarrow> limpia 7 7 enemigo0;
     enemigo \<leftarrow> asigna \<lparr>ch = 32, fg = NEGRO, bg = MARRON\<rparr>
       [(0,2), (0,3), (0,4), (1,1), (1,5), (2,0), (2,3), (2,6), (3,0), (3,3), (3,6), (4,1),
        (4,2), (4,3), (4,4), (4,5)] enemigo;
     enemigo \<leftarrow> asigna \<lparr>ch = 32, fg = NEGRO, bg = BLANCO\<rparr>
       [(2,1), (2,5), (3,1), (3,2), (3,4), (3,5), (5,1), (5,2), (5,3), (5,4), (5,5), (6,3),
        (0,0), (0,1), (0,5), (0,6), (1,2), (1,3), (1,4)] enemigo;
     asigna \<lparr>ch = 32, fg = NEGRO, bg = ROJO\<rparr>
       [(6,0), (6,1), (6,2), (6,4), (6,5), (6,6)] enemigo
   }"

definition creaDiamante :: "sprite \<Rightarrow> sprite option" where
  "creaDiamante diamante0 = do {
     diamante \<leftarrow> limpia 4 5 diamante0;
     diamante \<leftarrow> asigna \<lparr>ch = 32, fg = NEGRO, bg = CIAN\<rparr>
       [(0,1), (0,2), (0,3), (1,0)] diamante;
     diamante \<leftarrow> asigna \<lparr>ch = 32, fg = NEGRO, bg = BLANCO\<rparr>
       [(1,1)] diamante;
     diamante \<leftarrow> asigna \<lparr>ch = 32, fg = NEGRO, bg = CIAN\<rparr>
       [(1,2), (1,3), (1,4), (2,1)] diamante;
     diamante \<leftarrow> asigna \<lparr>ch = 32, fg = NEGRO, bg = BLANCO\<rparr>
       [(2,2)] diamante;
     asigna \<lparr>ch = 32, fg = NEGRO, bg = CIAN\<rparr>
       [(2,3), (3,2)] diamante
   }"

section \<open>The painting routines\<close>

text \<open>\<^verbatim>\<open>write(1, buf, 1)\<close> and the three calls that paint one character cell.\<close>

definition escribe :: "u8 \<Rightarrow> console \<Rightarrow> console" where
  "escribe c con = snd (sys_write_console (\<lambda>_. c) 1 con)"

definition pintaCelda :: "int \<Rightarrow> int \<Rightarrow> pixel \<Rightarrow> console \<Rightarrow> console" where
  "pintaCelda x y p con = escribe (ch p) (snd (sys_set_color (fg p) (bg p) (snd (sys_gotoxy x y con))))"

definition pintaPixel :: "int \<Rightarrow> int \<Rightarrow> int \<Rightarrow> int \<Rightarrow> sprite \<Rightarrow> console \<Rightarrow> console option" where
  "pintaPixel x0 y0 sizeX sizeY pix =
     foldo (\<lambda>i. foldo (\<lambda>j con. do {
         p \<leftarrow> at2 pix i j;
         Some (pintaCelda (x0 + j) (y0 + i) p con)
       }) [0..sizeX - 1]) [0..sizeY - 1]"

definition pintaDragonIzquierda :: "sprite \<Rightarrow> int \<Rightarrow> int \<Rightarrow> console \<Rightarrow> console option" where
  "pintaDragonIzquierda dragon x0 y0 =
     foldo (\<lambda>i. foldo (\<lambda>j con. do {
         let espejoJ = 10 - 1 - j;
         p \<leftarrow> at2 dragon i espejoJ;
         Some (pintaCelda (x0 + j) (y0 + i) p con)
       }) [0..10 - 1]) [0..8 - 1]"

text \<open>The colour of a cell of the map: \<^verbatim>\<open>'1'\<close> is free and black, anything else is brown.\<close>

definition suelo :: "u8 \<Rightarrow> pixel" where
  "suelo c = \<lparr>ch = 32, fg = BLANCO, bg = (if c = 49 then NEGRO else MARRON)\<rparr>"

definition pintaTrozoMapa :: "u8 list list \<Rightarrow> int \<Rightarrow> int \<Rightarrow> int \<Rightarrow> int \<Rightarrow> console \<Rightarrow> console option" where
  "pintaTrozoMapa mapa x y sizeX sizeY =
     foldo (\<lambda>i. foldo (\<lambda>j con. do {
         c \<leftarrow> at2 mapa i j;
         Some (pintaCelda j i (suelo c) con)
       }) [x..min (x + sizeX) COLS - 1]) [y..min (y + sizeY) ROWS - 1]"

definition pintaMapa :: "u8 list list \<Rightarrow> console \<Rightarrow> console option" where
  "pintaMapa mapa =
     foldo (\<lambda>i. foldo (\<lambda>j con. do {
         c \<leftarrow> at2 mapa i j;
         Some (pintaCelda j i (suelo c) con)
       }) [0..COLS - 1]) [0..ROWS - 1]"


section \<open>Grids\<close>

lemma dims_at2:
  assumes "dims h w m"
  shows "at2 m i j = (if 0 \<le> i \<and> i < h \<and> 0 \<le> j \<and> j < w then Some (m ! nat i ! nat j) else None)"
  using assms by (auto simp: at2_def dims_def)

lemma set2_dims:
  assumes "dims h w m" "0 \<le> i" "i < h" "0 \<le> j" "j < w"
  shows "\<exists>m'. set2 m i j v = Some m' \<and> dims h w m' \<and> (\<forall>a b. at2 m' a b = (if a = i \<and> b = j then Some v else at2 m a b))"
proof -
  let ?m' = "m[nat i := (m ! nat i)[nat j := v]]"
  have row: "int (length (m ! nat i)) = w" using assms by (auto simp: dims_def)
  have "set2 m i j v = Some ?m'" using assms row by (auto simp: set2_def dims_def)
  moreover have d: "dims h w ?m'"
    using assms(1) row set_update_subset_insert [of m "nat i" "(m ! nat i)[nat j := v]"]
    by (fastforce simp: dims_def)
  moreover have "at2 ?m' a b = (if a = i \<and> b = j then Some v else at2 m a b)" for a b
  proof (cases "a = i")
    case True
    have "i < int (length m)" using assms by (simp add: dims_def)
    with True assms row show ?thesis by (auto simp: dims_at2 [OF d] dims_at2 [OF assms(1)] nth_list_update)
  next
    case False
    then have "0 \<le> a \<Longrightarrow> nat a \<noteq> nat i" using assms(2) by simp
    with False show ?thesis by (auto simp: dims_at2 [OF d] dims_at2 [OF assms(1)])
  qed
  ultimately show ?thesis by blast
qed

lemma dims_eqI:
  assumes "dims h w m" "dims h w m'"
    and "\<And>i j. 0 \<le> i \<Longrightarrow> i < h \<Longrightarrow> 0 \<le> j \<Longrightarrow> j < w \<Longrightarrow> at2 m i j = at2 m' i j"
  shows "m = m'"
proof (rule nth_equalityI)
  show "length m = length m'" using assms by (auto simp: dims_def)
  fix i assume i: "i < length m"
  show "m ! i = m' ! i"
  proof (rule nth_equalityI)
    have l: "int (length (m ! i)) = w" "int (length (m' ! i)) = w" "int i < h"
      using assms(1,2) i by (auto simp: dims_def)
    then show "length (m ! i) = length (m' ! i)" by simp
    fix j assume "j < length (m ! i)"
    then show "m ! i ! j = m' ! i ! j"
      using assms(3) [of "int i" "int j"] l by (simp add: dims_at2 [OF assms(1)] dims_at2 [OF assms(2)])
  qed
qed

text \<open>
  An array of arrays and the screen have the same interface: storing a value in a cell changes
  the reading of that cell only. The double loops of the program fill rectangles of either.
  \<open>good\<close> tells the values that can be stored, \<open>val\<close> what reading them back gives.
\<close>

locale grid =
  fixes h w :: int
    and ok :: "'s \<Rightarrow> bool"
    and get :: "'s \<Rightarrow> int \<Rightarrow> int \<Rightarrow> 'r"
    and put :: "int \<Rightarrow> int \<Rightarrow> 'v \<Rightarrow> 's \<Rightarrow> 's option"
    and good :: "'v \<Rightarrow> bool"
    and val :: "'v \<Rightarrow> 'r"
  assumes put: "ok s \<Longrightarrow> 0 \<le> i \<Longrightarrow> i < h \<Longrightarrow> 0 \<le> j \<Longrightarrow> j < w \<Longrightarrow> good v \<Longrightarrow>
    \<exists>s'. put i j v s = Some s' \<and> ok s' \<and> (\<forall>a b. get s' a b = (if a = i \<and> b = j then val v else get s a b))"
begin

text \<open>The loops may skip the cells that fail a test \<open>g\<close>.\<close>

lemma fill_row:
  assumes "ok s" "0 \<le> i" "i < h" "0 \<le> x0 + c" "x0 + d < w"
    and "\<And>j s. c \<le> j \<Longrightarrow> j \<le> d \<Longrightarrow> ok s \<Longrightarrow>
       f j s = (if g j then put i (x0 + j) (v j) s else Some s) \<and> good (v j)"
  shows "\<exists>s'. foldo f [c..d] s = Some s' \<and> ok s' \<and>
     (\<forall>a b. get s' a b = (if a = i \<and> x0 + c \<le> b \<and> b \<le> x0 + d \<and> g (b - x0) then val (v (b - x0)) else get s a b))"
  using assms
proof (induction "nat (d - c + 1)" arbitrary: c s)
  case (Suc n)
  then have cd: "c \<le> d" and n: "n = nat (d - (c + 1) + 1)" and c1: "0 \<le> x0 + (c + 1)" and w: "x0 + c < w"
    by simp_all
  have fc: "f c s = (if g c then put i (x0 + c) (v c) s else Some s)" "good (v c)"
    using Suc.prems(1,6) cd by simp_all
  then obtain s1 where s1: "f c s = Some s1" "ok s1"
    "\<forall>a b. get s1 a b = (if a = i \<and> b = x0 + c \<and> g c then val (v c) else get s a b)"
    using put [OF Suc.prems(1,2,3,4) w fc(2)] Suc.prems(1) by (cases "g c") auto
  have next_f: "f j s' = (if g j then put i (x0 + j) (v j) s' else Some s') \<and> good (v j)"
    if "c + 1 \<le> j" "j \<le> d" "ok s'" for j s'
    using Suc.prems(6) that by simp
  obtain s2 where "foldo f [c + 1..d] s1 = Some s2" "ok s2"
    "\<forall>a b. get s2 a b = (if a = i \<and> x0 + (c + 1) \<le> b \<and> b \<le> x0 + d \<and> g (b - x0) then val (v (b - x0)) else get s1 a b)"
    using Suc.hyps(1) [OF n s1(2) Suc.prems(2,3) c1 Suc.prems(5) next_f] by blast
  moreover have "x0 + c \<le> b \<longleftrightarrow> b = x0 + c \<or> x0 + (c + 1) \<le> b" for b by auto
  ultimately show ?case using s1 cd by (auto simp: upto_rec1 [OF cd])
qed auto

lemma fill_rect:
  assumes "ok s" "0 \<le> y0 + a" "y0 + b < h" "0 \<le> x0 + c" "x0 + d < w"
    and "\<And>i j s. a \<le> i \<Longrightarrow> i \<le> b \<Longrightarrow> c \<le> j \<Longrightarrow> j \<le> d \<Longrightarrow> ok s \<Longrightarrow>
       f i j s = (if g i j then put (y0 + i) (x0 + j) (v i j) s else Some s) \<and> good (v i j)"
  shows "\<exists>s'. foldo (\<lambda>i. foldo (f i) [c..d]) [a..b] s = Some s' \<and> ok s' \<and>
     (\<forall>k l. get s' k l = (if y0 + a \<le> k \<and> k \<le> y0 + b \<and> x0 + c \<le> l \<and> l \<le> x0 + d \<and> g (k - y0) (l - x0)
        then val (v (k - y0) (l - x0)) else get s k l))"
  using assms
proof (induction "nat (b - a + 1)" arbitrary: a s)
  case (Suc n)
  then have ab: "a \<le> b" and n: "n = nat (b - (a + 1) + 1)" and a1: "0 \<le> y0 + (a + 1)" and ah: "y0 + a < h"
    by simp_all
  have fa: "f a j s' = (if g a j then put (y0 + a) (x0 + j) (v a j) s' else Some s') \<and> good (v a j)"
    if "c \<le> j" "j \<le> d" "ok s'" for j s'
    using Suc.prems(6) that ab by simp
  obtain s1 where s1: "foldo (f a) [c..d] s = Some s1" "ok s1"
    "\<forall>k l. get s1 k l = (if k = y0 + a \<and> x0 + c \<le> l \<and> l \<le> x0 + d \<and> g a (l - x0) then val (v a (l - x0)) else get s k l)"
    using fill_row [OF Suc.prems(1,2) ah Suc.prems(4,5) fa] by blast
  have next_f: "f i j s' = (if g i j then put (y0 + i) (x0 + j) (v i j) s' else Some s') \<and> good (v i j)"
    if "a + 1 \<le> i" "i \<le> b" "c \<le> j" "j \<le> d" "ok s'" for i j s'
    using Suc.prems(6) that by simp
  obtain s2 where s2: "foldo (\<lambda>i. foldo (f i) [c..d]) [a + 1..b] s1 = Some s2" "ok s2"
    "\<forall>k l. get s2 k l = (if y0 + (a + 1) \<le> k \<and> k \<le> y0 + b \<and> x0 + c \<le> l \<and> l \<le> x0 + d \<and> g (k - y0) (l - x0)
       then val (v (k - y0) (l - x0)) else get s1 k l)"
    using Suc.hyps(1) [OF n s1(2) a1 Suc.prems(3,4,5) next_f] by blast
  have "get s2 k l = (if y0 + a \<le> k \<and> k \<le> y0 + b \<and> x0 + c \<le> l \<and> l \<le> x0 + d \<and> g (k - y0) (l - x0)
        then val (v (k - y0) (l - x0)) else get s k l)" for k l
  proof (cases "k = y0 + a")
    case True
    then show ?thesis using s1(3) s2(3) ab by simp
  next
    case False
    then have "y0 + a \<le> k \<longleftrightarrow> y0 + (a + 1) \<le> k" by auto
    with False show ?thesis using s1(3) s2(3) by simp
  qed
  with s1(1) s2 show ?case by (simp add: upto_rec1 [OF ab])
qed auto

end

interpretation arr: grid h w "dims h w" at2 "\<lambda>i j v m. set2 m i j v" "\<lambda>_. True" Some for h w
  by unfold_locales (rule set2_dims)

text \<open>The screen as a grid of 25 rows and 80 columns.\<close>

definition celda :: "console \<Rightarrow> int \<Rightarrow> int \<Rightarrow> u16 option" where
  "celda con i j = (if 0 \<le> i \<and> i < ROWS \<and> 0 \<le> j \<and> j < COLS
     then Some (screen con (nat (i * COLS + j))) else None)"

definition tinte :: "pixel \<Rightarrow> u16" where
  "tinte p = ucast (ch p) OR push_bit 8 (ucast (word_of_int (fg p) :: u8)) OR
     push_bit 12 (ucast (word_of_int (bg p) :: u8))"

text \<open>A pixel that can be painted: \<open>set_color\<close> accepts its colours and it is not a new line.\<close>

definition pintable :: "pixel \<Rightarrow> bool" where
  "pintable p \<longleftrightarrow> 0 \<le> fg p \<and> fg p \<le> 16 \<and> 0 \<le> bg p \<and> bg p \<le> 16 \<and> ch p \<noteq> 10"

definition screen_ok :: "(nat \<Rightarrow> u16) \<Rightarrow> console \<Rightarrow> bool" where
  "screen_ok mem con \<longleftrightarrow> cursor_ok con \<and> (\<forall>k \<ge> 2000. screen con k = mem k)"

lemma unat_word_of_int_u8: "0 \<le> x \<Longrightarrow> x < 256 \<Longrightarrow> unat (word_of_int x :: u8) = nat x"
  using unat_u8_of_nat [of "nat x"] by simp

lemma escribe_printc: "escribe c con = printc c con"
  by (simp add: escribe_def sys_write_console_def)

lemma pintaCelda_grid:
  assumes "screen_ok mem con" "0 \<le> i" "i < ROWS" "0 \<le> j" "j < COLS" "pintable p"
  shows "\<exists>con'. Some (pintaCelda j i p con) = Some con' \<and> screen_ok mem con' \<and>
    (\<forall>a b. celda con' a b = (if a = i \<and> b = j then Some (tinte p) else celda con a b))"
proof -
  let ?c1 = "con\<lparr>con_x := word_of_int j, con_y := word_of_int i,
    foreground := word_of_int (fg p), background := word_of_int (bg p)\<rparr>"
  have eq: "pintaCelda j i p con = printc (ch p) ?c1"
    using assms by (simp add: pintaCelda_def escribe_printc sys_gotoxy_def sys_set_color_def pintable_def)
  have xy: "unat (word_of_int j :: u8) = nat j" "unat (word_of_int i :: u8) = nat i"
    using assms by (simp_all add: unat_word_of_int_u8)
  have ok: "cursor_ok ?c1" using assms(2-5) xy by (simp add: cursor_ok_def nat_less_iff)
  have cur: "cursor ?c1 = nat (i * COLS + j)"
    using assms xy by (simp add: cursor_def nat_add_distrib nat_mult_distrib)
  have scr: "screen (printc (ch p) ?c1) = (screen con)(nat (i * COLS + j) := tinte p)"
    using assms(6) cur by (simp add: printc_screen pintable_def cell_def tinte_def)
  have "nat (a * COLS + b) \<noteq> nat (i * COLS + j)"
    if "0 \<le> a" "a < ROWS" "0 \<le> b" "b < COLS" "a \<noteq> i \<or> b \<noteq> j" for a b
  proof
    assume "nat (a * COLS + b) = nat (i * COLS + j)"
    then have eq: "a * COLS + b = i * COLS + j" using that assms(2-5) by (simp add: eq_nat_nat_iff)
    moreover have "a \<le> i" "i \<le> a" using eq that assms(2-5) by linarith+
    ultimately show False using that(5) by simp
  qed
  then have "celda (printc (ch p) ?c1) a b = (if a = i \<and> b = j then Some (tinte p) else celda con a b)" for a b
    using assms(2-5) by (auto simp: celda_def scr)
  moreover have "screen_ok mem (printc (ch p) ?c1)"
    using printc_cursor_ok [OF ok] assms(1-5) by (auto simp: screen_ok_def scr)
  ultimately show ?thesis using eq by auto
qed

interpretation scr: grid ROWS COLS "screen_ok mem" celda "\<lambda>i j p con. Some (pintaCelda j i p con)"
    pintable "\<lambda>p. Some (tinte p)" for mem
  by unfold_locales (rule pintaCelda_grid)

section \<open>What the sprites show\<close>

lemma limpia_black:
  assumes "dims (int h) (int w) m"
  shows "limpia (int h) (int w) m = Some (replicate h (replicate w \<lparr>ch = 32, fg = 0, bg = 0\<rparr>))"
proof -
  let ?p = "\<lparr>ch = 32, fg = 0, bg = 0\<rparr> :: pixel"
  obtain m' where m': "limpia (int h) (int w) m = Some m'" "dims (int h) (int w) m'"
    "\<forall>x y. at2 m' x y = (if 0 \<le> x \<and> x \<le> int h - 1 \<and> 0 \<le> y \<and> y \<le> int w - 1 then Some ?p else at2 m x y)"
    using arr.fill_rect [of "int h" "int w" m 0 0 "int h - 1" 0 0 "int w - 1"
        "\<lambda>i j m. set2 m i j ?p" "\<lambda>_ _. True" "\<lambda>_ _. ?p"] assms by (auto simp: limpia_def)
  have d: "dims (int h) (int w) (replicate h (replicate w ?p))" by (auto simp: dims_def)
  have "m' = replicate h (replicate w ?p)"
    by (rule dims_eqI [OF m'(2) d]) (use m'(3) in \<open>auto simp: dims_at2 [OF d]\<close>)
  with m'(1) show ?thesis by simp
qed

text \<open>A picture: one character per pixel, \<^verbatim>\<open>.\<close> black, \<^verbatim>\<open>r\<close> red, \<^verbatim>\<open>v\<close> green, \<^verbatim>\<open>b\<close> white,
  \<^verbatim>\<open>m\<close> brown, \<^verbatim>\<open>c\<close> cyan, and \<^verbatim>\<open>V\<close> the letter V in white on black.\<close>

definition tinta :: "char \<Rightarrow> pixel" where
  "tinta c = (if c = CHR ''V'' then \<lparr>ch = 86, fg = 7, bg = 0\<rparr>
     else \<lparr>ch = 32, fg = 0, bg = (if c = CHR ''r'' then 4 else if c = CHR ''v'' then 2
       else if c = CHR ''b'' then 7 else if c = CHR ''m'' then 6 else if c = CHR ''c'' then 3 else 0)\<rparr>)"

definition imagen :: "string list \<Rightarrow> sprite" where
  "imagen = map (map tinta)"

definition imagen_loser :: sprite where
  "imagen_loser = imagen
     [''r...r..rrr..r...r...r......rrr...rrrr.rrrrr'',
      ''.r.r..r...r.r...r...r.....r.....r.....r....'',
      ''..r...r...r.r...r...r.....r...r..rrr..rrr..'',
      ''..r...r...r.r...r...r.....r...r.....r.r....'',
      ''..r....rrr...rrr....rrrrr..rrr..rrrr..rrrrr'']"

definition imagen_winner :: sprite where
  "imagen_winner = imagen
     [''b...b.bbbbb.b...b.b...b.bbbbb.bbbb...bbb'',
      ''b...b...b...bb..b.bb..b.b.....b...b..bbb'',
      ''b.b.b...b...b.b.b.b.b.b.bbb...bbbb...bbb'',
      ''bbbbb...b...b..bb.b..bb.b.....b.b.......'',
      ''b...b.bbbbb.b...b.b...b.bbbbb.b..b...bbb'']"

definition imagen_dragon :: sprite where
  "imagen_dragon = imagen
     [''..rrrvvvv.'',
      ''...rvvbvb.'',
      ''.rrvvv.v.v'',
      ''..rvvvbvbv'',
      ''.rvrvVVVV.'',
      ''rvrrrvvvvv'',
      ''.vrrvvrbb.'',
      ''vvvvvrrrbr'']"

definition imagen_enemigo :: sprite where
  "imagen_enemigo = imagen
     [''bbmmmbb'',
      ''.mbbbm.'',
      ''mb.m.bm'',
      ''mbbmbbm'',
      ''.mmmmm.'',
      ''.bbbbb.'',
      ''rrrbrrr'']"

definition imagen_diamante :: sprite where
  "imagen_diamante = imagen
     [''.ccc.'',
      ''cbccc'',
      ''.cbc.'',
      ''..c..'']"

lemma crea_diamante: "dims 4 5 m \<Longrightarrow> creaDiamante m = Some imagen_diamante"
  using limpia_black [of 4 5 m] by (simp add: creaDiamante_def) code_simp

lemma crea_enemigo: "dims 7 7 m \<Longrightarrow> creaEnemigo m = Some imagen_enemigo"
  using limpia_black [of 7 7 m] by (simp add: creaEnemigo_def) code_simp

lemma crea_dragon: "dims 8 10 m \<Longrightarrow> creaDragon m = Some imagen_dragon"
  using limpia_black [of 8 10 m] by (simp add: creaDragon_def) code_simp

lemma crea_winner: "dims 5 40 m \<Longrightarrow> creaWinner m = Some imagen_winner"
  using limpia_black [of 5 40 m] by (simp add: creaWinner_def) code_simp

lemma crea_loser: "dims 5 43 m \<Longrightarrow> creaLoser m = Some imagen_loser"
  using limpia_black [of 5 43 m] by (simp add: creaLoser_def) code_simp

text \<open>Each of the five routines \<open>creaDragon\<close>, \<open>creaEnemigo\<close>, \<open>creaDiamante\<close>, \<open>creaWinner\<close> and
  \<open>creaLoser\<close>, given an array of the size \<open>main\<close> allocates with any contents, writes only
  inside it and leaves in it the picture \<open>imagen_...\<close>.\<close>
lemma sprites_drawn:
  assumes "dims 8 10 d" "dims 7 7 e" "dims 4 5 di" "dims 5 40 wi" "dims 5 43 lo"
  shows "creaDragon d = Some imagen_dragon \<and> creaEnemigo e = Some imagen_enemigo \<and>
    creaDiamante di = Some imagen_diamante \<and> creaWinner wi = Some imagen_winner \<and>
    creaLoser lo = Some imagen_loser"
  using crea_dragon crea_enemigo crea_diamante crea_winner crea_loser assms by simp

lemma sprites_drawn_witness:
  "creaDragon (replicate 8 (replicate 10 \<lparr>ch = 1, fg = 2, bg = 3\<rparr>)) = Some imagen_dragon \<and>
   creaEnemigo (replicate 7 (replicate 7 \<lparr>ch = 1, fg = 2, bg = 3\<rparr>)) = Some imagen_enemigo"
  using sprites_drawn [of "replicate 8 (replicate 10 \<lparr>ch = 1, fg = 2, bg = 3\<rparr>)"
    "replicate 7 (replicate 7 \<lparr>ch = 1, fg = 2, bg = 3\<rparr>)"
    "replicate 4 (replicate 5 \<lparr>ch = 1, fg = 2, bg = 3\<rparr>)"
    "replicate 5 (replicate 40 \<lparr>ch = 1, fg = 2, bg = 3\<rparr>)"
    "replicate 5 (replicate 43 \<lparr>ch = 1, fg = 2, bg = 3\<rparr>)"]
  by (simp add: dims_def)

section \<open>Painting\<close>

definition sprite_ok :: "int \<Rightarrow> int \<Rightarrow> sprite \<Rightarrow> bool" where
  "sprite_ok sizeY sizeX pix \<longleftrightarrow> dims sizeY sizeX pix \<and> (\<forall>r \<in> set pix. \<forall>p \<in> set r. pintable p)"

lemma sprite_okD:
  assumes "sprite_ok sizeY sizeX pix" "0 \<le> i" "i < sizeY" "0 \<le> j" "j < sizeX"
  shows "at2 pix i j = Some (pix ! nat i ! nat j)" "pintable (pix ! nat i ! nat j)"
proof -
  have d: "dims sizeY sizeX pix" using assms(1) by (simp add: sprite_ok_def)
  then have "nat i < length pix" "int (length (pix ! nat i)) = sizeX"
    using assms by (auto simp: dims_def)
  then have "pix ! nat i \<in> set pix" "pix ! nat i ! nat j \<in> set (pix ! nat i)" using assms by auto
  then show "pintable (pix ! nat i ! nat j)" using assms(1) by (auto simp: sprite_ok_def)
  show "at2 pix i j = Some (pix ! nat i ! nat j)" using assms by (simp add: dims_at2 [OF d])
qed

lemma pintaPixel_grid:
  assumes "screen_ok mem con" "sprite_ok sizeY sizeX pix"
    and "0 \<le> x0" "x0 + sizeX \<le> COLS" "0 \<le> y0" "y0 + sizeY \<le> ROWS"
  shows "\<exists>con'. pintaPixel x0 y0 sizeX sizeY pix con = Some con' \<and> screen_ok mem con' \<and>
    (\<forall>k l. celda con' k l = (if y0 \<le> k \<and> k < y0 + sizeY \<and> x0 \<le> l \<and> l < x0 + sizeX
       then Some (tinte (pix ! nat (k - y0) ! nat (l - x0))) else celda con k l))"
proof -
  let ?v = "\<lambda>i j. pix ! nat i ! nat j"
  have "(do { p \<leftarrow> at2 pix i j; Some (pintaCelda (x0 + j) (y0 + i) p c) }) =
      Some (pintaCelda (x0 + j) (y0 + i) (?v i j) c) \<and> pintable (?v i j)"
    if "0 \<le> i" "i \<le> sizeY - 1" "0 \<le> j" "j \<le> sizeX - 1" for i j c
    using sprite_okD [OF assms(2), of i j] that by simp
  then show ?thesis
    using scr.fill_rect [of mem con y0 0 "sizeY - 1" x0 0 "sizeX - 1"
        "\<lambda>i j con. do { p \<leftarrow> at2 pix i j; Some (pintaCelda (x0 + j) (y0 + i) p con) }" "\<lambda>_ _. True" ?v] assms
    by (simp add: pintaPixel_def zle_diff1_eq add_diff_eq)
qed

text \<open>Painting a sprite whose rectangle lies on the screen succeeds and shows it: afterwards each
  cell of the rectangle holds the character and the colours of its pixel, every other cell of
  the screen is as before, and no memory outside the screen has been written.\<close>
lemma pintaPixel_ok:
  assumes "cursor_ok con" "sprite_ok sizeY sizeX pix"
    and "0 \<le> x0" "x0 + sizeX \<le> COLS" "0 \<le> y0" "y0 + sizeY \<le> ROWS"
  shows "\<exists>con'. pintaPixel x0 y0 sizeX sizeY pix con = Some con' \<and> cursor_ok con' \<and>
    (\<forall>k l. celda con' k l = (if y0 \<le> k \<and> k < y0 + sizeY \<and> x0 \<le> l \<and> l < x0 + sizeX
       then Some (tinte (pix ! nat (k - y0) ! nat (l - x0))) else celda con k l)) \<and>
    (\<forall>k \<ge> 2000. screen con' k = screen con k)"
  using pintaPixel_grid [of "screen con" con] assms by (fastforce simp: screen_ok_def)

lemma pintaPixel_ok_witness:
  "\<exists>con'. pintaPixel 70 17 5 4 imagen_diamante init_console = Some con' \<and> celda con' 17 71 = Some 0x3020"
  using pintaPixel_ok [of init_console 4 5 imagen_diamante 70 17]
  by (force simp: sprite_ok_def dims_def imagen_diamante_def imagen_def tinta_def pintable_def tinte_def
      cursor_ok_def init_console_def)

lemma dragon_mirror:
  assumes "dims 8 10 dragon"
  shows "pintaDragonIzquierda dragon x0 y0 con = pintaPixel x0 y0 10 8 (map rev dragon) con"
proof -
  have "at2 dragon i (9 - j) = at2 (map rev dragon) i j" if "i \<in> set [0..7]" "j \<in> set [0..9]" for i j
  proof -
    have d: "dims 8 10 (map rev dragon)" using assms by (simp add: dims_def)
    have i: "nat i < length dragon" "length (dragon ! nat i) = 10" using assms that by (auto simp: dims_def)
    then have "rev (dragon ! nat i) ! nat j = dragon ! nat i ! nat (9 - j)"
      using that rev_nth [of "nat j" "dragon ! nat i"] by (simp add: nat_less_iff nat_diff_distrib)
    with i that show ?thesis by (auto simp: dims_at2 [OF d] dims_at2 [OF assms])
  qed
  then show ?thesis unfolding pintaDragonIzquierda_def pintaPixel_def
    by (auto intro!: foldo_cong simp: Let_def)
qed

text \<open>\<open>pintaDragonIzquierda\<close> paints the mirror image: it does what \<open>pintaPixel\<close> would do with
  every row of the dragon reversed.\<close>
theorem pintaDragonIzquierda_mirror:
  assumes "dims 8 10 dragon"
  shows "pintaDragonIzquierda dragon x0 y0 con = pintaPixel x0 y0 10 8 (map rev dragon) con"
  using assms by (rule dragon_mirror)

lemma pintaDragonIzquierda_mirror_witness:
  "pintaDragonIzquierda imagen_dragon 0 0 init_console = pintaPixel 0 0 10 8 (map rev imagen_dragon) init_console"
  using pintaDragonIzquierda_mirror [of imagen_dragon] by (simp add: dims_def imagen_dragon_def imagen_def)

end
