(* ===== verification/Game.thy ===== *)
theory Game
  imports Sprites
begin

text \<open>
  The game of \<^verbatim>\<open>user.c\<close>: a dragon walks over a map of 25 rows and 80 columns, shoots at two
  enemies that patrol, and wins when it touches a diamond. Three threads share the data:
  \<open>keyboardThread\<close> turns keys into moves and shots, \<open>main\<close> signals the semaphore
  \<open>semChanges\<close> for ever, and \<open>gameThread\<close> makes one round of its loop per signal. The objects
  that \<open>main\<close> allocates are fields of the record \<open>game\<close>; \<open>cambios\<close> is the counter of
  \<open>semChanges\<close>, on which only \<open>gameThread\<close> waits; \<open>tty\<close> is the console.
\<close>

section \<open>The data\<close>

datatype characterState = ST_UP | ST_DOWN | ST_LEFT | ST_RIGHT | ST_STOP

datatype characterDirection = LEFT | RIGHT

record character =
  ch_x :: int
  ch_y :: int
  ch_state :: characterState
  ch_dir :: characterDirection

record proyectil =
  pr_x :: int
  pr_y :: int
  activo :: int
  pr_dir :: characterDirection

record game =
  player :: character
  enemigo1 :: character
  enemigo2 :: character
  mapa :: "u8 list list"
  dragon :: sprite
  enemigo :: sprite
  diamante :: sprite
  winner :: sprite
  loser :: sprite
  proyectiles :: "proyectil list"
  enemigo1muerto :: int
  enemigo2muerto :: int
  gameThreadMuerto :: int
  contadorEnemigos :: int
  cambios :: int
  tty :: console

text \<open>The local variables of \<open>gameThread\<close>.\<close>

record hilo =
  xAntPlayer :: int
  yAntPlayer :: int
  xAntEnemigo1 :: int
  yAntEnemigo1 :: int
  xAntEnemigo2 :: int
  yAntEnemigo2 :: int

definition pinta :: "(console \<Rightarrow> console option) \<Rightarrow> game \<Rightarrow> game option" where
  "pinta f g = do { con \<leftarrow> f (tty g); Some (g\<lparr>tty := con\<rparr>) }"

section \<open>The map\<close>

definition creaMapa :: "u8 list list \<Rightarrow> u8 list list option" where
  "creaMapa map0 = do {
     map1 \<leftarrow> foldo (\<lambda>i. foldo (\<lambda>j m. set2 m i j 49) [0..COLS - 1]) [0..ROWS - 1] map0;
     map2 \<leftarrow> foldo (\<lambda>i. foldo (\<lambda>j m.
         if i < 1 \<or> i \<ge> ROWS - 1 \<or> j < 2 \<or> j \<ge> COLS - 2 then set2 m i j 48 else Some m)
       [0..COLS - 1]) [0..ROWS - 1] map1;
     foldo (\<lambda>i m. do {
         m \<leftarrow> set2 m (ROWS - 2) (i + 1) 48;
         m \<leftarrow> set2 m (ROWS - 2) (COLS - 2 - i) 48;
         if i < 12 then do {
           m \<leftarrow> set2 m (ROWS - 3) (i + 1) 48;
           set2 m (ROWS - 3) (COLS - 2 - i) 48
         } else Some m
       }) [0..23] map2
   }"

text \<open>\<open>posicionValida\<close> returns at the first cell of the rectangle that is \<^verbatim>\<open>'0'\<close>; the inner and
  the outer loop are \<open>valida_fila\<close> and \<open>valida_filas\<close>, whose value \<^term>\<open>Some False\<close> is the early
  return of 0.\<close>

fun valida_fila :: "u8 list list \<Rightarrow> int \<Rightarrow> int list \<Rightarrow> bool option" where
  "valida_fila m i [] = Some True"
| "valida_fila m i (j # js) = do {
     c \<leftarrow> at2 m i j;
     if c = 48 then Some False else valida_fila m i js
   }"

fun valida_filas :: "u8 list list \<Rightarrow> int list \<Rightarrow> int list \<Rightarrow> bool option" where
  "valida_filas m [] js = Some True"
| "valida_filas m (i # is) js = do {
     b \<leftarrow> valida_fila m i js;
     if b then valida_filas m is js else Some False
   }"

definition posicionValida :: "u8 list list \<Rightarrow> int \<Rightarrow> int \<Rightarrow> int \<Rightarrow> int \<Rightarrow> int option" where
  "posicionValida m x y sizeX sizeY = do {
     b \<leftarrow> valida_filas m [y..min (y + sizeY) ROWS - 1] [x..min (x + sizeX) COLS - 1];
     Some (if b then 1 else 0)
   }"

section \<open>Shots\<close>

definition creaProyectil :: "game \<Rightarrow> game" where
  "creaProyectil g = (case find_from 0 (\<lambda>i. activo (proyectiles g ! i) = 0) 0 10 of
     None \<Rightarrow> g
   | Some i \<Rightarrow> g\<lparr>proyectiles := (proyectiles g)[i :=
        \<lparr>pr_x = (if ch_dir (player g) = LEFT then ch_x (player g) - 1 else ch_x (player g) + 10),
         pr_y = ch_y (player g) + 4, activo = 1, pr_dir = ch_dir (player g)\<rparr>]\<rparr>)"

definition alcanza :: "proyectil \<Rightarrow> character \<Rightarrow> bool" where
  "alcanza p e \<longleftrightarrow> pr_x p \<ge> ch_x e \<and> pr_x p < ch_x e + 7 \<and> pr_y p \<ge> ch_y e \<and> pr_y p < ch_y e + 7"

definition golpea1 :: "proyectil \<times> game \<Rightarrow> (proyectil \<times> game) option" where
  "golpea1 = (\<lambda>(p, g).
     if alcanza p (enemigo1 g) \<and> enemigo1muerto g = 0 then do {
       g' \<leftarrow> pinta (pintaTrozoMapa (mapa g) (ch_x (enemigo1 g)) (ch_y (enemigo1 g)) 7 7) (g\<lparr>enemigo1muerto := 1\<rparr>);
       Some (p\<lparr>activo := 0\<rparr>, g')
     } else Some (p, g))"

definition golpea2 :: "proyectil \<times> game \<Rightarrow> (proyectil \<times> game) option" where
  "golpea2 = (\<lambda>(p, g).
     if alcanza p (enemigo2 g) \<and> enemigo2muerto g = 0 then do {
       g' \<leftarrow> pinta (pintaTrozoMapa (mapa g) (ch_x (enemigo2 g)) (ch_y (enemigo2 g)) 7 7) (g\<lparr>enemigo2muerto := 1\<rparr>);
       Some (p\<lparr>activo := 0\<rparr>, g')
     } else Some (p, g))"

definition avanza :: "proyectil \<times> game \<Rightarrow> (proyectil \<times> game) option" where
  "avanza = (\<lambda>(p, g). do {
     c \<leftarrow> at2 (mapa g) (pr_y p) (pr_x p);
     let g = g\<lparr>tty := pintaCelda (pr_x p) (pr_y p) (suelo c) (tty g)\<rparr>;
     let p = p\<lparr>pr_x := (if pr_dir p = LEFT then pr_x p - 1 else pr_x p + 1)\<rparr>;
     c \<leftarrow> at2 (mapa g) (pr_y p) (pr_x p);
     if c = 48 then Some (p\<lparr>activo := 0\<rparr>, g)
     else Some (p, g\<lparr>tty := pintaCelda (pr_x p) (pr_y p) \<lparr>ch = 32, fg = BLANCO, bg = ROSA\<rparr> (tty g)\<rparr>)
   })"

definition mueveProyectil :: "nat \<Rightarrow> game \<Rightarrow> game option" where
  "mueveProyectil i g =
     (if length (proyectiles g) \<le> i then None
      else if activo (proyectiles g ! i) = 0 then Some g
      else do {
        s \<leftarrow> avanza (proyectiles g ! i, g);
        s \<leftarrow> golpea1 s;
        (p, g) \<leftarrow> golpea2 s;
        Some (g\<lparr>proyectiles := (proyectiles g)[i := p]\<rparr>)
      })"

definition moverProyectiles :: "game \<Rightarrow> game option" where
  "moverProyectiles = foldo mueveProyectil [0..<10]"

section \<open>Enemies and collisions\<close>

definition vuelve :: "character \<Rightarrow> character" where
  "vuelve e = e\<lparr>ch_dir := (if ch_dir e = LEFT then RIGHT else LEFT)\<rparr>"

definition camina :: "character \<Rightarrow> character" where
  "camina e = e\<lparr>ch_x := (if ch_dir e = LEFT then ch_x e - 1 else ch_x e + 1)\<rparr>"

definition mueveEnemigos :: "game \<Rightarrow> game" where
  "mueveEnemigos g =
     (if contadorEnemigos g \<ge> 5
      then g\<lparr>contadorEnemigos := 0, enemigo1 := vuelve (enemigo1 g), enemigo2 := vuelve (enemigo2 g)\<rparr>
      else g\<lparr>contadorEnemigos := contadorEnemigos g + 1,
             enemigo1 := camina (enemigo1 g), enemigo2 := camina (enemigo2 g)\<rparr>)"

definition hayColisionEnemigo :: "int \<Rightarrow> game \<Rightarrow> int" where
  "hayColisionEnemigo numEnemigo g =
     (let px1 = ch_x (player g); py1 = ch_y (player g);
          px2 = px1 + 10 - 1; py2 = py1 + 8 - 1;
          e = (if numEnemigo = 2 then enemigo2 g else enemigo1 g);
          ex1 = ch_x e; ey1 = ch_y e;
          ex2 = ex1 + 7 - 1; ey2 = ey1 + 7 - 1
      in if px2 < ex1 \<or> px1 > ex2 \<or> py2 < ey1 \<or> py1 > ey2 then 0 else 1)"

definition hayColisionDiamante :: "int \<Rightarrow> int \<Rightarrow> game \<Rightarrow> int" where
  "hayColisionDiamante dx1 dy1 g =
     (let px1 = ch_x (player g); py1 = ch_y (player g);
          px2 = px1 + 10 - 1; py2 = py1 + 8 - 1;
          dx2 = dx1 + 5 - 1; dy2 = dy1 + 4 - 1
      in if px2 < dx1 \<or> px1 > dx2 \<or> py2 < dy1 \<or> py1 > dy2 then 0 else 1)"

section \<open>The threads\<close>

text \<open>\<open>keyboardThread\<close>, for a key \<open>c\<close> that \<open>read\<close> has returned: the switch and the signal. The test
  of \<open>gameThreadMuerto\<close> comes before the \<open>read\<close> that waits for the key.\<close>

definition tecla :: "u8 \<Rightarrow> game \<Rightarrow> game" where
  "tecla c g =
     (let p = player g in
      if c = 119 then g\<lparr>player := p\<lparr>ch_state := ST_UP\<rparr>\<rparr>
      else if c = 115 then g\<lparr>player := p\<lparr>ch_state := ST_DOWN\<rparr>\<rparr>
      else if c = 97 then g\<lparr>player := p\<lparr>ch_state := ST_LEFT, ch_dir := LEFT\<rparr>\<rparr>
      else if c = 100 then g\<lparr>player := p\<lparr>ch_state := ST_RIGHT, ch_dir := RIGHT\<rparr>\<rparr>
      else if c = 67 then creaProyectil g
      else g\<lparr>player := p\<lparr>ch_state := ST_STOP\<rparr>\<rparr>)"

definition keyboardThread :: "u8 \<Rightarrow> game \<Rightarrow> game" where
  "keyboardThread c g =
     (let g = tecla c g in g\<lparr>cambios := cambios g + 1\<rparr>)"

text \<open>The parts of a round of \<open>gameThread\<close>, in its order.\<close>

definition empieza :: "game \<Rightarrow> hilo" where
  "empieza g = \<lparr>xAntPlayer = ch_x (player g), yAntPlayer = ch_y (player g),
     xAntEnemigo1 = ch_x (enemigo1 g), yAntEnemigo1 = ch_y (enemigo1 g),
     xAntEnemigo2 = ch_x (enemigo2 g), yAntEnemigo2 = ch_y (enemigo2 g)\<rparr>"

definition pintaDiamantes :: "game \<Rightarrow> game option" where
  "pintaDiamantes g = do {
     g \<leftarrow> pinta (pintaPixel 5 (ROWS - 8) 5 4 (diamante g)) g;
     pinta (pintaPixel 70 (ROWS - 8) 5 4 (diamante g)) g
   }"

definition cursor_a :: "int \<Rightarrow> int \<Rightarrow> game \<Rightarrow> game" where
  "cursor_a x y g = g\<lparr>tty := snd (sys_gotoxy x y (tty g))\<rparr>"

definition repinta1 :: "hilo \<times> game \<Rightarrow> (hilo \<times> game) option" where
  "repinta1 = (\<lambda>(l, g).
     if enemigo1muerto g \<noteq> 0 then Some (l, g) else do {
       let g = cursor_a (xAntEnemigo1 l) (yAntEnemigo1 l) g;
       g \<leftarrow> pinta (pintaTrozoMapa (mapa g) (xAntEnemigo1 l) (yAntEnemigo1 l) 7 7) g;
       g \<leftarrow> pinta (pintaPixel (ch_x (enemigo1 g)) (ch_y (enemigo1 g)) 7 7 (enemigo g)) g;
       Some (l\<lparr>xAntEnemigo1 := ch_x (enemigo1 g), yAntEnemigo1 := ch_y (enemigo1 g)\<rparr>, g)
     })"

definition repinta2 :: "hilo \<times> game \<Rightarrow> (hilo \<times> game) option" where
  "repinta2 = (\<lambda>(l, g).
     if enemigo2muerto g \<noteq> 0 then Some (l, g) else do {
       let g = cursor_a (xAntEnemigo2 l) (yAntEnemigo2 l) g;
       g \<leftarrow> pinta (pintaTrozoMapa (mapa g) (xAntEnemigo2 l) (yAntEnemigo2 l) 7 7) g;
       g \<leftarrow> pinta (pintaPixel (ch_x (enemigo2 g)) (ch_y (enemigo2 g)) 7 7 (enemigo g)) g;
       Some (l\<lparr>xAntEnemigo2 := ch_x (enemigo2 g), yAntEnemigo2 := ch_y (enemigo2 g)\<rparr>, g)
     })"

definition faseEnemigos :: "hilo \<times> game \<Rightarrow> (hilo \<times> game) option" where
  "faseEnemigos = (\<lambda>(l, g).
     if enemigo1muerto g = 0 \<or> enemigo2muerto g = 0
     then Option.bind (repinta1 (l, mueveEnemigos g)) repinta2
     else Some (l, g))"

definition borraPlayer :: "hilo \<times> game \<Rightarrow> (hilo \<times> game) option" where
  "borraPlayer = (\<lambda>(l, g). do {
     let g = cursor_a (xAntPlayer l) (yAntPlayer l) g;
     g \<leftarrow> pinta (pintaTrozoMapa (mapa g) (xAntPlayer l) (yAntPlayer l) 10 8) g;
     Some (l, g)
   })"

definition muevePlayer :: "game \<Rightarrow> game" where
  "muevePlayer g =
     (let p = player g in
      case ch_state p of
        ST_UP \<Rightarrow> g\<lparr>player := p\<lparr>ch_y := ch_y p - 1\<rparr>\<rparr>
      | ST_DOWN \<Rightarrow> g\<lparr>player := p\<lparr>ch_y := ch_y p + 1\<rparr>\<rparr>
      | ST_LEFT \<Rightarrow> g\<lparr>player := p\<lparr>ch_x := ch_x p - 1\<rparr>\<rparr>
      | ST_RIGHT \<Rightarrow> g\<lparr>player := p\<lparr>ch_x := ch_x p + 1\<rparr>\<rparr>
      | ST_STOP \<Rightarrow> g)"

definition validaPlayer :: "hilo \<times> game \<Rightarrow> (hilo \<times> game) option" where
  "validaPlayer = (\<lambda>(l, g). do {
     v \<leftarrow> posicionValida (mapa g) (ch_x (player g)) (ch_y (player g)) 10 8;
     Some (l, if v = 0 then g\<lparr>player := (player g)\<lparr>ch_x := xAntPlayer l, ch_y := yAntPlayer l\<rparr>\<rparr> else g)
   })"

definition pintaPlayer :: "hilo \<times> game \<Rightarrow> (hilo \<times> game) option" where
  "pintaPlayer = (\<lambda>(l, g). do {
     let x = ch_x (player g); let y = ch_y (player g);
     g \<leftarrow> (if ch_dir (player g) = RIGHT then pinta (pintaPixel x y 10 8 (dragon g)) g
           else pinta (pintaDragonIzquierda (dragon g) x y) g);
     Some (l\<lparr>xAntPlayer := x, yAntPlayer := y\<rparr>, g\<lparr>player := (player g)\<lparr>ch_state := ST_STOP\<rparr>\<rparr>)
   })"

text \<open>The end of a round: the game is over after a collision, with the title painted.\<close>

definition colisiones :: "game \<Rightarrow> game option" where
  "colisiones g =
     (if hayColisionEnemigo 1 g \<noteq> 0 \<and> enemigo1muerto g = 0 \<or> hayColisionEnemigo 2 g \<noteq> 0 \<and> enemigo2muerto g = 0
      then pinta (pintaPixel 17 4 43 5 (loser g)) (g\<lparr>gameThreadMuerto := 1\<rparr>)
      else if hayColisionDiamante 5 (ROWS - 8) g \<noteq> 0 \<or> hayColisionDiamante 70 (ROWS - 8) g \<noteq> 0
      then pinta (pintaPixel 20 4 40 5 (winner g)) (g\<lparr>gameThreadMuerto := 1\<rparr>)
      else Some g)"

text \<open>\<open>fase\<close> is the place of \<open>gameThread\<close> in its loop, \<open>paso\<close> the code from there to the next
  place. \<open>Espera\<close> is \<open>semWait(semChanges)\<close>, \<open>Fin\<close> the ended thread; the move of the dragon (\<open>Mueve\<close>) and its
  check (\<open>Valida\<close>) are two steps. The code of one phase, of one shot in \<open>moverProyectiles\<close> and of one key
  in \<open>keyboardThread\<close> is one step: a switch of threads in the middle of it is not modelled.\<close>

datatype fase = Espera | Diamantes | Disparos nat | Enemigos | Borra | Mueve | Valida | Pinta | Colisiones | Fin

fun paso :: "fase \<times> hilo \<times> game \<Rightarrow> (fase \<times> hilo \<times> game) option" where
  "paso (Espera, l, g) = Some (if cambios g > 0 then (Diamantes, l, g\<lparr>cambios := cambios g - 1\<rparr>) else (Espera, l, g))"
| "paso (Diamantes, l, g) = do { g \<leftarrow> pintaDiamantes g; Some (Disparos 0, l, g) }"
| "paso (Disparos i, l, g) =
     (if i < 10 then do { g \<leftarrow> mueveProyectil i g; Some (Disparos (Suc i), l, g) }
      else Some (Enemigos, l, g))"
| "paso (Enemigos, l, g) = do { (l, g) \<leftarrow> faseEnemigos (l, g); Some (Borra, l, g) }"
| "paso (Borra, l, g) = do { (l, g) \<leftarrow> borraPlayer (l, g); Some (Mueve, l, g) }"
| "paso (Mueve, l, g) = Some (Valida, l, muevePlayer g)"
| "paso (Valida, l, g) = do { (l, g) \<leftarrow> validaPlayer (l, g); Some (Pinta, l, g) }"
| "paso (Pinta, l, g) = do { (l, g) \<leftarrow> pintaPlayer (l, g); Some (Colisiones, l, g) }"
| "paso (Colisiones, l, g) = do {
     g \<leftarrow> colisiones g;
     Some (if gameThreadMuerto g \<noteq> 0 then Fin else Espera, l, g)
   }"
| "paso (Fin, l, g) = Some (Fin, l, g)"

definition gameThread :: "hilo \<times> game \<Rightarrow> (hilo \<times> game) option" where
  "gameThread = (\<lambda>(l, g). do {
     g \<leftarrow> pintaDiamantes g;
     g \<leftarrow> moverProyectiles g;
     s \<leftarrow> faseEnemigos (l, g);
     (l, g) \<leftarrow> borraPlayer s;
     s \<leftarrow> validaPlayer (l, muevePlayer g);
     (l, g) \<leftarrow> pintaPlayer s;
     g \<leftarrow> colisiones g;
     Some (l, g)
   })"

text \<open>\<open>main\<close>, from the arrays as they are after the calls of \<open>malloc\<close> to the creation of the
  threads and the first signal.\<close>

definition iniciaJuego :: "game \<Rightarrow> game option" where
  "iniciaJuego g = do {
     let g = g\<lparr>proyectiles := map (\<lambda>p. p\<lparr>activo := 0\<rparr>) (proyectiles g)\<rparr>;
     m \<leftarrow> creaMapa (mapa g);
     g \<leftarrow> pinta (pintaMapa m) (g\<lparr>mapa := m\<rparr>);
     di \<leftarrow> creaDiamante (diamante g);
     wi \<leftarrow> creaWinner (winner g);
     lo \<leftarrow> creaLoser (loser g);
     dr \<leftarrow> creaDragon (dragon g);
     en \<leftarrow> creaEnemigo (enemigo g);
     Some (g\<lparr>diamante := di, winner := wi, loser := lo, dragon := dr, enemigo := en,
       player := \<lparr>ch_x = COLS div 2, ch_y = ROWS - 9, ch_state = ST_STOP, ch_dir = RIGHT\<rparr>,
       enemigo1 := (enemigo1 g)\<lparr>ch_x := 13, ch_y := ROWS - 9, ch_dir := RIGHT\<rparr>,
       enemigo2 := (enemigo2 g)\<lparr>ch_x := 60, ch_y := ROWS - 9, ch_dir := LEFT\<rparr>,
       cambios := 1\<rparr>)
   }"

text \<open>What can happen next: a step of \<open>gameThread\<close>, a key, a signal of \<open>main\<close>. A key finds
  \<open>keyboardThread\<close> in \<open>read\<close>, past its test of \<open>gameThreadMuerto\<close>; once \<open>gameThread\<close> has ended,
  \<open>liberaRecursos\<close> has freed the player that the key would change: an undefined access.\<close>

datatype suceso = Paso | Tecla u8 | Signal

fun juego :: "suceso \<Rightarrow> fase \<times> hilo \<times> game \<Rightarrow> (fase \<times> hilo \<times> game) option" where
  "juego Paso s = paso s"
| "juego (Tecla c) (f, l, g) = (if f = Fin then None else Some (f, l, keyboardThread c g))"
| "juego Signal (f, l, g) = Some (f, l, g\<lparr>cambios := cambios g + 1\<rparr>)"

text \<open>A run without the race between a shot and the check of the dragon's move: the key \<open>C\<close> is not handled
  while the dragon has moved to a place it cannot take and has not been put back.\<close>

fun sin_carrera :: "suceso list \<Rightarrow> fase \<times> hilo \<times> game \<Rightarrow> bool" where
  "sin_carrera [] s = True"
| "sin_carrera (e # es) (f, l, g) =
     ((e = Tecla 67 \<and> f = Valida \<longrightarrow> posicionValida (mapa g) (ch_x (player g)) (ch_y (player g)) 10 8 = Some 1) \<and>
      (case juego e (f, l, g) of None \<Rightarrow> True | Some s \<Rightarrow> sin_carrera es s))"

end
