(* ===== verification/Play.thy ===== *)
theory Play
  imports Game
begin

text \<open>
  The properties of the game: the map and the positions the dragon can take, the patrol of
  the enemies, the invariant of the game under every interleaving of its threads, and the
  rules that a round of \<open>gameThread\<close> implements.
\<close>

section \<open>The map\<close>

definition muro :: "int \<Rightarrow> int \<Rightarrow> bool" where
  "muro i j \<longleftrightarrow> i < 1 \<or> i \<ge> 24 \<or> j < 2 \<or> j \<ge> 78 \<or> (i = 23 \<and> (j \<le> 24 \<or> j \<ge> 55)) \<or>
     (i = 22 \<and> (j \<le> 12 \<or> j \<ge> 67))"

lemma escalones:
  assumes "dims 25 80 m" "\<forall>i \<in> set is. 0 \<le> i \<and> i < 24"
  shows "\<exists>m'. foldo (\<lambda>i m. do {
         m \<leftarrow> set2 m (ROWS - 2) (i + 1) 48;
         m \<leftarrow> set2 m (ROWS - 2) (COLS - 2 - i) 48;
         if i < 12 then do {
           m \<leftarrow> set2 m (ROWS - 3) (i + 1) 48;
           set2 m (ROWS - 3) (COLS - 2 - i) 48
         } else Some m
       }) is m = Some m' \<and> dims 25 80 m' \<and>
     (\<forall>a b. at2 m' a b = (if \<exists>i \<in> set is. (a = 23 \<or> a = 22 \<and> i < 12) \<and> (b = i + 1 \<or> b = 78 - i)
        then Some 48 else at2 m a b))"
  using assms
proof (induction "is" arbitrary: m)
  case (Cons i "is")
  then have i: "0 \<le> i" "i < 24" by simp_all
  obtain m1 where m1: "set2 m 23 (i + 1) 48 = Some m1" "dims 25 80 m1"
    "\<forall>a b. at2 m1 a b = (if a = 23 \<and> b = i + 1 then Some 48 else at2 m a b)"
    using set2_dims [OF Cons.prems(1), of 23 "i + 1" 48] i by auto
  obtain m2 where m2: "set2 m1 23 (78 - i) 48 = Some m2" "dims 25 80 m2"
    "\<forall>a b. at2 m2 a b = (if a = 23 \<and> b = 78 - i then Some 48 else at2 m1 a b)"
    using set2_dims [OF m1(2), of 23 "78 - i" 48] i by auto
  obtain m3 where m3: "set2 m2 22 (i + 1) 48 = Some m3" "dims 25 80 m3"
    "\<forall>a b. at2 m3 a b = (if a = 22 \<and> b = i + 1 then Some 48 else at2 m2 a b)"
    using set2_dims [OF m2(2), of 22 "i + 1" 48] i by auto
  obtain m4 where m4: "set2 m3 22 (78 - i) 48 = Some m4" "dims 25 80 m4"
    "\<forall>a b. at2 m4 a b = (if a = 22 \<and> b = 78 - i then Some 48 else at2 m3 a b)"
    using set2_dims [OF m3(2), of 22 "78 - i" 48] i by auto
  let ?m = "if i < 12 then m4 else m2"
  have d: "dims 25 80 ?m" using m4 m2 by simp
  have a: "at2 ?m a b = (if (a = 23 \<or> a = 22 \<and> i < 12) \<and> (b = i + 1 \<or> b = 78 - i) then Some 48 else at2 m a b)" for a b
    using m1(3) m2(3) m3(3) m4(3) by auto
  show ?case using Cons.IH [OF d] Cons.prems(2) m1(1) m2(1) m3(1) m4(1) a by (cases "i < 12") auto
qed simp

lemma creaMapa_spec:
  assumes "dims 25 80 m"
  shows "\<exists>m'. creaMapa m = Some m' \<and> dims 25 80 m' \<and>
    (\<forall>i j. at2 m' i j = (if 0 \<le> i \<and> i < 25 \<and> 0 \<le> j \<and> j < 80 then Some (if muro i j then 48 else 49) else None))"
proof -
  obtain m1 where m1: "foldo (\<lambda>i. foldo (\<lambda>j m. set2 m i j (49 :: u8)) [0..79]) [0..24] m = Some m1" "dims 25 80 m1"
    "\<forall>i j. at2 m1 i j = (if 0 \<le> i \<and> i \<le> 24 \<and> 0 \<le> j \<and> j \<le> 79 then Some 49 else at2 m i j)"
    using arr.fill_rect [of 25 80 m 0 0 24 0 0 79 "\<lambda>i j m. set2 m i j 49" "\<lambda>_ _. True" "\<lambda>_ _. 49"] assms
    by auto
  let ?b = "\<lambda>i j. i < 1 \<or> i \<ge> ROWS - 1 \<or> j < 2 \<or> j \<ge> COLS - 2"
  let ?f = "\<lambda>i j m. if ?b i j then set2 m i j (48 :: u8) else Some m"
  have "\<exists>s'. foldo (\<lambda>i. foldo (?f i) [0..79]) [0..24] m1 = Some s' \<and> dims 25 80 s' \<and>
      (\<forall>k l. at2 s' k l = (if 0 + 0 \<le> k \<and> k \<le> 0 + 24 \<and> 0 + 0 \<le> l \<and> l \<le> 0 + 79 \<and> ?b (k - 0) (l - 0)
         then Some 48 else at2 m1 k l))"
    by (rule arr.fill_rect) (use m1(2) in auto)
  then obtain m2 where m2: "foldo (\<lambda>i. foldo (?f i) [0..79]) [0..24] m1 = Some m2" "dims 25 80 m2"
    "\<forall>i j. at2 m2 i j = (if 0 \<le> i \<and> i \<le> 24 \<and> 0 \<le> j \<and> j \<le> 79 \<and> ?b i j then Some 48 else at2 m1 i j)"
    by auto
  obtain m3 where m3: "creaMapa m = Some m3" "dims 25 80 m3"
    "\<forall>a b. at2 m3 a b = (if \<exists>i \<in> {0..23}. (a = 23 \<or> a = 22 \<and> i < 12) \<and> (b = i + 1 \<or> b = 78 - i)
        then Some 48 else at2 m2 a b)"
    using escalones [OF m2(2), of "[0..23]"] m1(1) m2(1) by (auto simp: creaMapa_def)
  have steps: "(\<exists>i \<in> {0..23}. (a = 23 \<or> a = 22 \<and> i < 12) \<and> (b = i + 1 \<or> b = 78 - i)) \<longleftrightarrow>
     (a = 23 \<and> (1 \<le> b \<and> b \<le> 24 \<or> 55 \<le> b \<and> b \<le> 78)) \<or> (a = 22 \<and> (1 \<le> b \<and> b \<le> 12 \<or> 67 \<le> b \<and> b \<le> 78))"
    (is "?l \<longleftrightarrow> ?r") for a b :: int
  proof
    assume ?r
    then consider "a = 23" "b - 1 \<in> {0..23}" | "a = 23" "78 - b \<in> {0..23}" | "a = 22" "b - 1 \<in> {0..11}" | "a = 22" "78 - b \<in> {0..11}"
      by force
    then show ?l by cases (force intro: bexI [of _ "b - 1"] bexI [of _ "78 - b"])+
  qed auto
  have none: "at2 m i j = None" if "\<not> (0 \<le> i \<and> i < 25 \<and> 0 \<le> j \<and> j < 80)" for i j
    using that by (auto simp: dims_at2 [OF assms])
  have "at2 m3 i j = (if 0 \<le> i \<and> i < 25 \<and> 0 \<le> j \<and> j < 80 then Some (if muro i j then 48 else 49) else None)" for i j
    using m1(3) m2(3) m3(3) none [of i j] unfolding steps muro_def by auto
  with m3 show ?thesis by blast
qed

text \<open>\<open>creaMapa\<close>, on an array of 25 rows of 80 cells with any contents, writes only inside it
  and marks with \<^verbatim>\<open>'0'\<close> exactly the border and the two steps at each side of the bottom, and
  with \<^verbatim>\<open>'1'\<close> every other cell.\<close>
theorem creaMapa_ok:
  assumes "dims 25 80 m"
  shows "\<exists>m'. creaMapa m = Some m' \<and> dims 25 80 m' \<and>
    (\<forall>i j. 0 \<le> i \<and> i < 25 \<and> 0 \<le> j \<and> j < 80 \<longrightarrow> at2 m' i j = Some (if muro i j then 48 else 49))"
  using creaMapa_spec [OF assms] by fastforce

lemma creaMapa_ok_witness:
  "\<exists>m'. creaMapa (replicate 25 (replicate 80 7)) = Some m' \<and> at2 m' 12 40 = Some 49 \<and> at2 m' 23 24 = Some 48"
  using creaMapa_ok [of "replicate 25 (replicate 80 7)"] by (force simp: dims_def muro_def)

section \<open>Positions\<close>

lemma valida_fila_spec:
  assumes "\<forall>j \<in> set js. at2 m i j \<noteq> None"
  shows "valida_fila m i js = Some (\<forall>j \<in> set js. at2 m i j \<noteq> Some 48)"
  using assms by (induction js) auto

lemma valida_filas_spec:
  assumes "\<forall>i \<in> set is. \<forall>j \<in> set js. at2 m i j \<noteq> None"
  shows "valida_filas m is js = Some (\<forall>i \<in> set is. \<forall>j \<in> set js. at2 m i j \<noteq> Some 48)"
  using assms by (induction "is") (auto simp: valida_fila_spec)

definition es_mapa :: "u8 list list \<Rightarrow> bool" where
  "es_mapa m \<longleftrightarrow> dims 25 80 m \<and>
     (\<forall>i j. at2 m i j = (if 0 \<le> i \<and> i < 25 \<and> 0 \<le> j \<and> j < 80 then Some (if muro i j then 48 else 49) else None))"

lemma es_mapa_at2:
  "es_mapa m \<Longrightarrow> at2 m i j = (if 0 \<le> i \<and> i < 25 \<and> 0 \<le> j \<and> j < 80 then Some (if muro i j then 48 else 49) else None)"
  by (simp add: es_mapa_def)

lemma posicionValida_spec:
  assumes "es_mapa m" "0 \<le> x" "0 \<le> y"
  shows "posicionValida m x y sizeX sizeY = Some (if \<forall>i \<in> {y..<y + sizeY}. \<forall>j \<in> {x..<x + sizeX}.
     i < 25 \<and> j < 80 \<longrightarrow> \<not> muro i j then 1 else 0)"
proof -
  let ?is = "[y..min (y + sizeY) ROWS - 1]" and ?js = "[x..min (x + sizeX) COLS - 1]"
  have "\<forall>i \<in> set ?is. \<forall>j \<in> set ?js. at2 m i j \<noteq> None"
    using assms by (simp add: es_mapa_at2)
  then have "valida_filas m ?is ?js = Some (\<forall>i \<in> set ?is. \<forall>j \<in> set ?js. at2 m i j \<noteq> Some 48)"
    by (rule valida_filas_spec)
  moreover have "(\<forall>i \<in> set ?is. \<forall>j \<in> set ?js. at2 m i j \<noteq> Some 48) \<longleftrightarrow>
      (\<forall>i \<in> {y..<y + sizeY}. \<forall>j \<in> {x..<x + sizeX}. i < 25 \<and> j < 80 \<longrightarrow> \<not> muro i j)"
    using assms by (auto simp: es_mapa_at2 split: if_splits)
  ultimately show ?thesis by (simp add: posicionValida_def)
qed

text \<open>The places of the dragon: the upper left corners of the free rectangles of its size.\<close>

definition libre :: "int \<Rightarrow> int \<Rightarrow> bool" where
  "libre x y \<longleftrightarrow> 2 \<le> x \<and> x \<le> 68 \<and> 1 \<le> y \<and> y \<le> 16 \<and> (y = 16 \<longrightarrow> 25 \<le> x \<and> x \<le> 45) \<and> (y = 15 \<longrightarrow> 13 \<le> x \<and> x \<le> 57)"

lemma libre_iff:
  assumes "0 \<le> x" "x \<le> 78" "0 \<le> y" "y \<le> 24"
  shows "(\<forall>i \<in> {y..<y + 8}. \<forall>j \<in> {x..<x + 10}. i < 25 \<and> j < 80 \<longrightarrow> \<not> muro i j) \<longleftrightarrow> libre x y" (is "?l \<longleftrightarrow> _")
proof
  assume l: ?l
  have cell: "\<not> muro (y + a) (x + b)" if "0 \<le> a" "a < 8" "0 \<le> b" "b < 10" "y + a < 25" "x + b < 80" for a b
    using l that by force
  have "y \<le> 16" using cell [of "24 - y" 0] assms by (force simp: muro_def)
  moreover have "x \<le> 68" using cell [of 0 "78 - x"] assms by (force simp: muro_def)
  moreover have "1 \<le> y" "2 \<le> x" using cell [of 0 0] assms by (auto simp: muro_def)
  moreover have "25 \<le> x \<and> x \<le> 45" if "y = 16" using cell [of 7 0] cell [of 7 9] that assms \<open>x \<le> 68\<close> by (auto simp: muro_def)
  moreover have "13 \<le> x \<and> x \<le> 57" if "y = 15" using cell [of 7 0] cell [of 7 9] that assms \<open>x \<le> 68\<close> by (auto simp: muro_def)
  ultimately show "libre x y" by (auto simp: libre_def)
qed (auto simp: libre_def muro_def)

lemma posicionValida_dragon:
  assumes "es_mapa m" "0 \<le> x" "x \<le> 78" "0 \<le> y" "y \<le> 24"
  shows "posicionValida m x y 10 8 = Some (if libre x y then 1 else 0)"
  using posicionValida_spec [OF assms(1,2,4), of 10 8] libre_iff [OF assms(2-5)] by simp

section \<open>Collisions\<close>

text \<open>Two sprites collide exactly when their rectangles have a cell of the screen in common: the
  comparison of corners of \<open>hayColisionEnemigo\<close> and \<open>hayColisionDiamante\<close> decides it.\<close>
theorem hayColision_ok:
  "(hayColisionEnemigo n g = 1 \<longleftrightarrow> (let e = if n = 2 then enemigo2 g else enemigo1 g in
      \<exists>x y. ch_x (player g) \<le> x \<and> x < ch_x (player g) + 10 \<and> ch_y (player g) \<le> y \<and> y < ch_y (player g) + 8 \<and>
            ch_x e \<le> x \<and> x < ch_x e + 7 \<and> ch_y e \<le> y \<and> y < ch_y e + 7)) \<and>
   (hayColisionDiamante dx dy g = 1 \<longleftrightarrow>
     (\<exists>x y. ch_x (player g) \<le> x \<and> x < ch_x (player g) + 10 \<and> ch_y (player g) \<le> y \<and> y < ch_y (player g) + 8 \<and>
            dx \<le> x \<and> x < dx + 5 \<and> dy \<le> y \<and> y < dy + 4))"
proof -
  have overlap: "\<not> (a + w - 1 < b \<or> a > b + v - 1 \<or> c + h - 1 < d \<or> c > d + u - 1) \<longleftrightarrow>
      (\<exists>x y. a \<le> x \<and> x < a + w \<and> c \<le> y \<and> y < c + h \<and> b \<le> x \<and> x < b + v \<and> d \<le> y \<and> y < d + u)" (is "?l \<longleftrightarrow> _")
    if "0 < w" "0 < v" "0 < h" "0 < u" for a b c d w v h u :: int
  proof
    assume ?l
    with that show "\<exists>x y. a \<le> x \<and> x < a + w \<and> c \<le> y \<and> y < c + h \<and> b \<le> x \<and> x < b + v \<and> d \<le> y \<and> y < d + u"
      by (intro exI [of _ "max a b"] exI [of _ "max c d"]) auto
  qed auto
  show ?thesis
    using overlap [of 10 7 8 7 "ch_x (player g)" _ "ch_y (player g)"]
      overlap [of 10 5 8 4 "ch_x (player g)" dx "ch_y (player g)" dy]
    by (simp add: hayColisionEnemigo_def hayColisionDiamante_def Let_def)
qed

section \<open>Painting the map\<close>

lemma pintable_suelo [simp]: "pintable (suelo c)"
  by (simp add: pintable_def suelo_def)

lemma pintaTrozoMapa_grid:
  assumes "screen_ok mem con" "es_mapa m" "0 \<le> x" "0 \<le> y"
  shows "\<exists>con'. pintaTrozoMapa m x y sizeX sizeY con = Some con' \<and> screen_ok mem con' \<and>
    (\<forall>k l. celda con' k l = (if y \<le> k \<and> k < min (y + sizeY) ROWS \<and> x \<le> l \<and> l < min (x + sizeX) COLS
       then Some (tinte (suelo (if muro k l then 48 else 49))) else celda con k l))"
proof -
  let ?f = "\<lambda>i j con. do { c \<leftarrow> at2 m i j; Some (pintaCelda j i (suelo c) con) }"
  let ?v = "\<lambda>i j. suelo (if muro i j then 48 else 49)"
  let ?b = "min (y + sizeY) ROWS - 1" and ?d = "min (x + sizeX) COLS - 1"
  have "?f i j con' = (if True then Some (pintaCelda (0 + j) (0 + i) (?v i j) con') else Some con') \<and> pintable (?v i j)"
    if "y \<le> i" "i \<le> ?b" "x \<le> j" "j \<le> ?d" for i j con'
    using that assms(3,4) by (simp add: es_mapa_at2 [OF assms(2)])
  then have "\<exists>con'. foldo (\<lambda>i. foldo (?f i) [x..?d]) [y..?b] con = Some con' \<and> screen_ok mem con' \<and>
    (\<forall>k l. celda con' k l = (if 0 + y \<le> k \<and> k \<le> 0 + ?b \<and> 0 + x \<le> l \<and> l \<le> 0 + ?d \<and> True
       then Some (tinte (?v (k - 0) (l - 0))) else celda con k l))"
    by (intro scr.fill_rect) (use assms in auto)
  then show ?thesis by (simp add: pintaTrozoMapa_def zle_diff1_eq cong: if_cong)
qed

lemma pintaMapa_trozo: "pintaMapa m con = pintaTrozoMapa m 0 0 80 25 con"
  by (simp add: pintaMapa_def pintaTrozoMapa_def)

lemma pintaCelda_ok:
  assumes "screen_ok mem con" "0 \<le> y" "y < 25" "0 \<le> x" "x < 80" "pintable p"
  shows "screen_ok mem (pintaCelda x y p con)"
  using pintaCelda_grid [OF assms(1), of y x p] assms by auto

section \<open>The invariant\<close>

text \<open>A sprite that the painting routine accepts.\<close>

definition sprites_ok :: "game \<Rightarrow> bool" where
  "sprites_ok g \<longleftrightarrow> sprite_ok 8 10 (dragon g) \<and> sprite_ok 7 7 (enemigo g) \<and> sprite_ok 4 5 (diamante g) \<and>
     sprite_ok 5 40 (winner g) \<and> sprite_ok 5 43 (loser g)"

definition disparo_ok :: "proyectil \<Rightarrow> bool" where
  "disparo_ok p \<longleftrightarrow> (activo p \<noteq> 0 \<longrightarrow> 1 \<le> pr_x p \<and> pr_x p \<le> 78 \<and> 5 \<le> pr_y p \<and> pr_y p \<le> 20)"

text \<open>The patrol: six columns, in opposite directions, with the counter telling the place.\<close>

definition patrulla :: "int \<Rightarrow> character \<Rightarrow> character \<Rightarrow> bool" where
  "patrulla c e1 e2 \<longleftrightarrow> 0 \<le> c \<and> c \<le> 5 \<and> ch_y e1 = 16 \<and> ch_y e2 = 16 \<and>
     (ch_dir e1 = RIGHT \<and> ch_dir e2 = LEFT \<and> ch_x e1 = 13 + c \<and> ch_x e2 = 60 - c \<or>
      ch_dir e1 = LEFT \<and> ch_dir e2 = RIGHT \<and> ch_x e1 = 18 - c \<and> ch_x e2 = 55 + c)"

definition game_ok :: "(nat \<Rightarrow> u16) \<Rightarrow> game \<Rightarrow> bool" where
  "game_ok mem g \<longleftrightarrow> es_mapa (mapa g) \<and> sprites_ok g \<and> length (proyectiles g) = 10 \<and>
     (\<forall>p \<in> set (proyectiles g). disparo_ok p) \<and> screen_ok mem (tty g) \<and>
     libre (ch_x (player g)) (ch_y (player g)) \<and> patrulla (contadorEnemigos g) (enemigo1 g) (enemigo2 g)"

definition hilo_ok :: "hilo \<Rightarrow> bool" where
  "hilo_ok l \<longleftrightarrow> libre (xAntPlayer l) (yAntPlayer l) \<and>
     13 \<le> xAntEnemigo1 l \<and> xAntEnemigo1 l \<le> 18 \<and> yAntEnemigo1 l = 16 \<and>
     55 \<le> xAntEnemigo2 l \<and> xAntEnemigo2 l \<le> 60 \<and> yAntEnemigo2 l = 16"

text \<open>Between its move and the check the dragon may be one place outside of where it fits.\<close>

definition movido_ok :: "(nat \<Rightarrow> u16) \<Rightarrow> game \<Rightarrow> bool" where
  "movido_ok mem g \<longleftrightarrow> (\<exists>p. game_ok mem (g\<lparr>player := p\<rparr>)) \<and>
     0 \<le> ch_x (player g) \<and> ch_x (player g) \<le> 78 \<and> 0 \<le> ch_y (player g) \<and> ch_y (player g) \<le> 24"

definition juego_ok :: "(nat \<Rightarrow> u16) \<Rightarrow> fase \<times> hilo \<times> game \<Rightarrow> bool" where
  "juego_ok mem = (\<lambda>(f, l, g). hilo_ok l \<and> (if f = Valida then movido_ok mem g else game_ok mem g))"

text \<open>A painting action: it succeeds, and what it changes of the game is the console.\<close>

definition pinta_bien :: "(nat \<Rightarrow> u16) \<Rightarrow> (console \<Rightarrow> console option) \<Rightarrow> bool" where
  "pinta_bien mem f \<longleftrightarrow> (\<forall>con. screen_ok mem con \<longrightarrow> (\<exists>con'. f con = Some con' \<and> screen_ok mem con'))"

lemma pinta_ok:
  assumes "pinta_bien mem f" "screen_ok mem (tty g)"
  shows "\<exists>con. pinta f g = Some (g\<lparr>tty := con\<rparr>) \<and> screen_ok mem con"
  using assms by (force simp: pinta_def pinta_bien_def)

lemma pinta_bien_sprite [intro]:
  "sprite_ok sizeY sizeX pix \<Longrightarrow> 0 \<le> x0 \<Longrightarrow> x0 + sizeX \<le> 80 \<Longrightarrow> 0 \<le> y0 \<Longrightarrow> y0 + sizeY \<le> 25 \<Longrightarrow>
     pinta_bien mem (pintaPixel x0 y0 sizeX sizeY pix)"
  using pintaPixel_grid by (force simp: pinta_bien_def)

lemma pinta_bien_mapa [intro]:
  "es_mapa m \<Longrightarrow> 0 \<le> x \<Longrightarrow> 0 \<le> y \<Longrightarrow> pinta_bien mem (pintaTrozoMapa m x y sizeX sizeY)"
  using pintaTrozoMapa_grid by (force simp: pinta_bien_def)

lemma sprite_ok_rev: "sprite_ok h w s \<Longrightarrow> sprite_ok h w (map rev s)"
  by (auto simp: sprite_ok_def dims_def)

lemma pinta_bien_dragon [intro]:
  "sprite_ok 8 10 s \<Longrightarrow> libre x y \<Longrightarrow> pinta_bien mem (pintaDragonIzquierda s x y)"
  using pinta_bien_sprite [of 8 10 "map rev s" x y mem] sprite_ok_rev [of 8 10 s]
  by (simp add: pinta_bien_def dragon_mirror sprite_ok_def libre_def)

lemma gotoxy_ok: "screen_ok mem con \<Longrightarrow> screen_ok mem (snd (sys_gotoxy x y con))"
  by (auto simp: screen_ok_def sys_gotoxy_def cursor_ok_def unat_word_of_int_u8 nat_less_iff)

lemma game_ok_tty: "game_ok mem g \<Longrightarrow> screen_ok mem con \<Longrightarrow> game_ok mem (g\<lparr>tty := con\<rparr>)"
  by (simp add: game_ok_def sprites_ok_def)

lemma game_okD:
  assumes "game_ok mem g"
  shows "es_mapa (mapa g)" "sprite_ok 8 10 (dragon g)" "sprite_ok 7 7 (enemigo g)" "sprite_ok 4 5 (diamante g)"
    "sprite_ok 5 40 (winner g)" "sprite_ok 5 43 (loser g)" "length (proyectiles g) = 10"
    "screen_ok mem (tty g)" "libre (ch_x (player g)) (ch_y (player g))"
    "patrulla (contadorEnemigos g) (enemigo1 g) (enemigo2 g)"
  using assms by (simp_all add: game_ok_def sprites_ok_def)

lemma pinta_game_ok:
  assumes "pinta_bien mem f" "game_ok mem g"
  shows "\<exists>con. pinta f g = Some (g\<lparr>tty := con\<rparr>) \<and> game_ok mem (g\<lparr>tty := con\<rparr>)"
  using pinta_ok [OF assms(1) game_okD(8) [OF assms(2)]] game_ok_tty [OF assms(2)] by blast

lemma patrullaD:
  "patrulla c e1 e2 \<Longrightarrow> 13 \<le> ch_x e1 \<and> ch_x e1 \<le> 18 \<and> ch_y e1 = 16 \<and> 55 \<le> ch_x e2 \<and> ch_x e2 \<le> 60 \<and> ch_y e2 = 16"
  by (auto simp: patrulla_def)

text \<open>The phases, one by one.\<close>

lemma pintaDiamantes_ok:
  assumes "game_ok mem g"
  shows "\<exists>con. pintaDiamantes g = Some (g\<lparr>tty := con\<rparr>) \<and> game_ok mem (g\<lparr>tty := con\<rparr>)"
proof -
  obtain c1 where c1: "pinta (pintaPixel 5 17 5 4 (diamante g)) g = Some (g\<lparr>tty := c1\<rparr>)" "game_ok mem (g\<lparr>tty := c1\<rparr>)"
    using pinta_game_ok [OF pinta_bien_sprite [OF game_okD(4) [OF assms], of 5 17] assms] by auto
  then show ?thesis
    using pinta_game_ok [OF pinta_bien_sprite [OF game_okD(4) [OF assms], of 70 17] c1(2)]
    by (auto simp: pintaDiamantes_def)
qed

text \<open>A shot: one step, then the enemies it hits.\<close>

definition da :: "proyectil \<Rightarrow> character \<Rightarrow> int \<Rightarrow> bool" where
  "da p e muerto \<longleftrightarrow> alcanza p e \<and> muerto = 0"

lemma game_ok_muertos: "game_ok mem g \<Longrightarrow> game_ok mem (g\<lparr>enemigo1muerto := a\<rparr>)"
   "game_ok mem g \<Longrightarrow> game_ok mem (g\<lparr>enemigo2muerto := a\<rparr>)"
  by (simp_all add: game_ok_def sprites_ok_def)

lemma golpea1_ok:
  assumes "game_ok mem g"
  shows "\<exists>con. golpea1 (p, g) = Some (if da p (enemigo1 g) (enemigo1muerto g) then p\<lparr>activo := 0\<rparr> else p,
      g\<lparr>enemigo1muerto := (if da p (enemigo1 g) (enemigo1muerto g) then 1 else enemigo1muerto g), tty := con\<rparr>) \<and>
     screen_ok mem con"
proof (cases "da p (enemigo1 g) (enemigo1muerto g)")
  case True
  have "pinta_bien mem (pintaTrozoMapa (mapa g) (ch_x (enemigo1 g)) (ch_y (enemigo1 g)) 7 7)"
    by (rule pinta_bien_mapa) (use patrullaD [OF game_okD(10) [OF assms]] game_okD(1) [OF assms] in auto)
  from pinta_ok [OF this, of "g\<lparr>enemigo1muerto := 1\<rparr>"] True game_okD(8) [OF assms] show ?thesis
    by (auto simp: golpea1_def da_def)
next
  case False
  then have "golpea1 (p, g) = Some (p, g\<lparr>enemigo1muerto := enemigo1muerto g, tty := tty g\<rparr>)"
    by (auto simp: golpea1_def da_def)
  with False game_okD(8) [OF assms] show ?thesis by metis
qed

lemma golpea2_ok:
  assumes "game_ok mem g"
  shows "\<exists>con. golpea2 (p, g) = Some (if da p (enemigo2 g) (enemigo2muerto g) then p\<lparr>activo := 0\<rparr> else p,
      g\<lparr>enemigo2muerto := (if da p (enemigo2 g) (enemigo2muerto g) then 1 else enemigo2muerto g), tty := con\<rparr>) \<and>
     screen_ok mem con"
proof (cases "da p (enemigo2 g) (enemigo2muerto g)")
  case True
  have "pinta_bien mem (pintaTrozoMapa (mapa g) (ch_x (enemigo2 g)) (ch_y (enemigo2 g)) 7 7)"
    by (rule pinta_bien_mapa) (use patrullaD [OF game_okD(10) [OF assms]] game_okD(1) [OF assms] in auto)
  from pinta_ok [OF this, of "g\<lparr>enemigo2muerto := 1\<rparr>"] True game_okD(8) [OF assms] show ?thesis
    by (auto simp: golpea2_def da_def)
next
  case False
  then have "golpea2 (p, g) = Some (p, g\<lparr>enemigo2muerto := enemigo2muerto g, tty := tty g\<rparr>)"
    by (auto simp: golpea2_def da_def)
  with False game_okD(8) [OF assms] show ?thesis by metis
qed

lemma game_ok_shot:
  assumes "game_ok mem g" "disparo_ok p"
  shows "game_ok mem (g\<lparr>proyectiles := (proyectiles g)[i := p]\<rparr>)"
proof -
  have "\<forall>q \<in> set ((proyectiles g)[i := p]). disparo_ok q"
    using set_update_subset_insert [of "proyectiles g" i p] assms by (auto simp: game_ok_def)
  with assms show ?thesis by (simp add: game_ok_def sprites_ok_def)
qed

definition vuela :: "proyectil \<Rightarrow> proyectil" where
  "vuela p = (let p = p\<lparr>pr_x := (if pr_dir p = LEFT then pr_x p - 1 else pr_x p + 1)\<rparr> in
     if muro (pr_y p) (pr_x p) then p\<lparr>activo := 0\<rparr> else p)"

lemma avanza_ok:
  assumes "game_ok mem g" "disparo_ok p" "activo p \<noteq> 0"
  shows "\<exists>con. avanza (p, g) = Some (vuela p, g\<lparr>tty := con\<rparr>) \<and> screen_ok mem con"
proof -
  let ?x = "if pr_dir p = LEFT then pr_x p - 1 else pr_x p + 1"
  have r: "1 \<le> pr_x p" "pr_x p \<le> 78" "5 \<le> pr_y p" "pr_y p \<le> 20" using assms(2,3) by (auto simp: disparo_ok_def)
  then have x: "0 \<le> ?x" "?x < 80" by auto
  note at = es_mapa_at2 [OF game_okD(1) [OF assms(1)]]
  have c0: "at2 (mapa g) (pr_y p) (pr_x p) \<noteq> None" and c1: "at2 (mapa g) (pr_y p) ?x = Some (if muro (pr_y p) ?x then 48 else 49)"
    using r x by (simp_all add: at)
  obtain c where c: "at2 (mapa g) (pr_y p) (pr_x p) = Some c" using c0 by auto
  let ?con = "pintaCelda (pr_x p) (pr_y p) (suelo c) (tty g)"
  have s: "screen_ok mem ?con" using pintaCelda_ok [OF game_okD(8) [OF assms(1)], of "pr_y p" "pr_x p" "suelo c"] r by simp
  have s2: "screen_ok mem (pintaCelda ?x (pr_y p) \<lparr>ch = 32, fg = 7, bg = 5\<rparr> ?con)"
    using pintaCelda_ok [OF s, of "pr_y p" ?x] r x by (simp add: pintable_def)
  let ?con2 = "pintaCelda ?x (pr_y p) \<lparr>ch = 32, fg = 7, bg = 5\<rparr> ?con"
  have "avanza (p, g) = Some (vuela p, g\<lparr>tty := (if muro (pr_y p) ?x then ?con else ?con2)\<rparr>)"
    using c c1 by (simp add: avanza_def vuela_def Let_def)
  moreover have "screen_ok mem (if muro (pr_y p) ?x then ?con else ?con2)" using s s2 by simp
  ultimately show ?thesis by blast
qed

lemma vuela_ok: "disparo_ok p \<Longrightarrow> disparo_ok (vuela p)"
  by (auto simp: disparo_ok_def vuela_def muro_def Let_def)

section \<open>The rules of the game\<close>

text \<open>What the game is about, without map, sprites and screen: a round moves the shots in order,
  walks the enemies, moves the dragon where it fits, and looks for collisions.\<close>

record reglas =
  r_player :: character
  r_e1 :: character
  r_e2 :: character
  r_shots :: "proyectil list"
  r_m1 :: int
  r_m2 :: int
  r_fin :: int
  r_cont :: int

definition reglas_de :: "game \<Rightarrow> reglas" where
  "reglas_de g = \<lparr>r_player = player g, r_e1 = enemigo1 g, r_e2 = enemigo2 g, r_shots = proyectiles g,
     r_m1 = enemigo1muerto g, r_m2 = enemigo2muerto g, r_fin = gameThreadMuerto g, r_cont = contadorEnemigos g\<rparr>"

definition tira :: "nat \<Rightarrow> reglas \<Rightarrow> reglas" where
  "tira i r =
     (let p = r_shots r ! i in
      if activo p = 0 then r
      else let q = vuela p;
               h1 = da q (r_e1 r) (r_m1 r); q1 = (if h1 then q\<lparr>activo := 0\<rparr> else q);
               h2 = da q1 (r_e2 r) (r_m2 r); q2 = (if h2 then q1\<lparr>activo := 0\<rparr> else q1)
           in r\<lparr>r_shots := (r_shots r)[i := q2], r_m1 := (if h1 then 1 else r_m1 r), r_m2 := (if h2 then 1 else r_m2 r)\<rparr>)"

definition patrullar :: "reglas \<Rightarrow> reglas" where
  "patrullar r =
     (if r_m1 r \<noteq> 0 \<and> r_m2 r \<noteq> 0 then r
      else if r_cont r \<ge> 5 then r\<lparr>r_cont := 0, r_e1 := vuelve (r_e1 r), r_e2 := vuelve (r_e2 r)\<rparr>
      else r\<lparr>r_cont := r_cont r + 1, r_e1 := camina (r_e1 r), r_e2 := camina (r_e2 r)\<rparr>)"

definition destino :: "character \<Rightarrow> character" where
  "destino p = (case ch_state p of ST_UP \<Rightarrow> p\<lparr>ch_y := ch_y p - 1\<rparr> | ST_DOWN \<Rightarrow> p\<lparr>ch_y := ch_y p + 1\<rparr>
     | ST_LEFT \<Rightarrow> p\<lparr>ch_x := ch_x p - 1\<rparr> | ST_RIGHT \<Rightarrow> p\<lparr>ch_x := ch_x p + 1\<rparr> | ST_STOP \<Rightarrow> p)"

definition anda :: "reglas \<Rightarrow> reglas" where
  "anda r = r\<lparr>r_player := (let p = destino (r_player r) in
      if libre (ch_x p) (ch_y p) then p else r_player r)\<lparr>ch_state := ST_STOP\<rparr>\<rparr>"

definition toca :: "character \<Rightarrow> int \<Rightarrow> int \<Rightarrow> int \<Rightarrow> int \<Rightarrow> bool" where
  "toca p x y w h \<longleftrightarrow> ch_x p < x + w \<and> x < ch_x p + 10 \<and> ch_y p < y + h \<and> y < ch_y p + 8"

definition perdida :: "reglas \<Rightarrow> bool" where
  "perdida r \<longleftrightarrow> toca (r_player r) (ch_x (r_e1 r)) (ch_y (r_e1 r)) 7 7 \<and> r_m1 r = 0 \<or>
     toca (r_player r) (ch_x (r_e2 r)) (ch_y (r_e2 r)) 7 7 \<and> r_m2 r = 0"

definition ganada :: "reglas \<Rightarrow> bool" where
  "ganada r \<longleftrightarrow> \<not> perdida r \<and> (toca (r_player r) 5 17 5 4 \<or> toca (r_player r) 70 17 5 4)"

definition acaba :: "reglas \<Rightarrow> reglas" where
  "acaba r = (if perdida r \<or> ganada r then r\<lparr>r_fin := 1\<rparr> else r)"

definition ronda :: "reglas \<Rightarrow> reglas" where
  "ronda r = acaba (anda (patrullar (fold tira [0..<10] r)))"

lemma reglas_tty [simp]: "reglas_de (g\<lparr>tty := con\<rparr>) = reglas_de g"
  by (simp add: reglas_de_def)

text \<open>Each part of a round implements its rule, and keeps the invariant.\<close>

lemma mueveProyectil_ok:
  assumes g: "game_ok mem g" and i: "i < 10"
  shows "\<exists>g'. mueveProyectil i g = Some g' \<and> game_ok mem g' \<and> reglas_de g' = tira i (reglas_de g)"
proof (cases "activo (proyectiles g ! i) = 0")
  case True
  then show ?thesis using assms by (simp add: mueveProyectil_def game_okD tira_def reglas_de_def Let_def)
next
  case False
  let ?p = "proyectiles g ! i"
  have p: "disparo_ok ?p" using g i by (simp add: game_ok_def)
  let ?q = "vuela ?p"
  let ?h1 = "da ?q (enemigo1 g) (enemigo1muerto g)"
  let ?q1 = "if ?h1 then ?q\<lparr>activo := 0\<rparr> else ?q"
  let ?h2 = "da ?q1 (enemigo2 g) (enemigo2muerto g)"
  let ?q2 = "if ?h2 then ?q1\<lparr>activo := 0\<rparr> else ?q1"
  let ?m1 = "if ?h1 then 1 else enemigo1muerto g" and ?m2 = "if ?h2 then 1 else enemigo2muerto g"
  obtain c1 where c1: "avanza (?p, g) = Some (?q, g\<lparr>tty := c1\<rparr>)" "screen_ok mem c1"
    using avanza_ok [OF g p False] by blast
  have g1: "game_ok mem (g\<lparr>tty := c1\<rparr>)" by (rule game_ok_tty [OF g c1(2)])
  obtain c2 where c2: "golpea1 (?q, g\<lparr>tty := c1\<rparr>) = Some (?q1, g\<lparr>enemigo1muerto := ?m1, tty := c2\<rparr>)" "screen_ok mem c2"
    using golpea1_ok [OF g1, of ?q] by (auto cong: if_cong)
  have g2: "game_ok mem (g\<lparr>enemigo1muerto := ?m1, tty := c2\<rparr>)"
    by (rule game_ok_tty [OF game_ok_muertos(1) [OF g] c2(2)])
  obtain c3 where c3: "golpea2 (?q1, g\<lparr>enemigo1muerto := ?m1, tty := c2\<rparr>) =
      Some (?q2, g\<lparr>enemigo1muerto := ?m1, enemigo2muerto := ?m2, tty := c3\<rparr>)" "screen_ok mem c3"
    using golpea2_ok [OF g2, of ?q1] by (auto cong: if_cong)
  let ?g = "g\<lparr>enemigo1muerto := ?m1, enemigo2muerto := ?m2, tty := c3, proyectiles := (proyectiles g)[i := ?q2]\<rparr>"
  have eq: "mueveProyectil i g = Some ?g"
    using False i c1(1) c2(1) c3(1) game_okD(7) [OF g] by (simp add: mueveProyectil_def del: if_split)
  have q2: "disparo_ok ?q2" using vuela_ok [OF p] by (auto simp: disparo_ok_def)
  have "game_ok mem (g\<lparr>enemigo1muerto := ?m1, enemigo2muerto := ?m2, tty := c3\<rparr>)"
    by (intro game_ok_tty game_ok_muertos g c3(2))
  from game_ok_shot [OF this q2, of i] have "game_ok mem ?g" by simp
  moreover have "reglas_de ?g = tira i (reglas_de g)"
    using False by (simp add: reglas_de_def tira_def Let_def del: if_split)
  ultimately show ?thesis using eq by blast
qed

lemma moverProyectiles_ok:
  assumes "game_ok mem g"
  shows "\<exists>g'. moverProyectiles g = Some g' \<and> game_ok mem g' \<and> reglas_de g' = fold tira [0..<10] (reglas_de g)"
proof -
  have "\<exists>g'. foldo mueveProyectil is g = Some g' \<and> game_ok mem g' \<and> reglas_de g' = fold tira is (reglas_de g)"
    if "\<forall>i \<in> set is. i < 10" for "is"
    using that assms
  proof (induction "is" arbitrary: g)
    case (Cons i "is")
    then obtain g1 where "mueveProyectil i g = Some g1" "game_ok mem g1" "reglas_de g1 = tira i (reglas_de g)"
      using mueveProyectil_ok [of mem g i] by auto
    with Cons show ?case by force
  qed simp
  then show ?thesis by (auto simp: moverProyectiles_def)
qed

lemma mueveEnemigos_ok:
  assumes "game_ok mem g"
  shows "game_ok mem (mueveEnemigos g)"
proof -
  have "patrulla (contadorEnemigos (mueveEnemigos g)) (enemigo1 (mueveEnemigos g)) (enemigo2 (mueveEnemigos g))"
    using game_okD(10) [OF assms] by (auto simp: patrulla_def mueveEnemigos_def vuelve_def camina_def)
  with assms show ?thesis by (simp add: game_ok_def sprites_ok_def mueveEnemigos_def)
qed

lemma mueveEnemigos_reglas:
  "enemigo1muerto g = 0 \<or> enemigo2muerto g = 0 \<Longrightarrow> reglas_de (mueveEnemigos g) = patrullar (reglas_de g)"
  by (auto simp: reglas_de_def mueveEnemigos_def patrullar_def)

lemma cursor_a_ok: "game_ok mem g \<Longrightarrow> \<exists>con. cursor_a x y g = g\<lparr>tty := con\<rparr> \<and> screen_ok mem con"
  using gotoxy_ok [OF game_okD(8)] by (auto simp: cursor_a_def)

lemma repinta1_ok:
  assumes g: "game_ok mem g" and l: "hilo_ok l"
  shows "\<exists>l' con. repinta1 (l, g) = Some (l', g\<lparr>tty := con\<rparr>) \<and> hilo_ok l' \<and> screen_ok mem con \<and>
    xAntPlayer l' = xAntPlayer l \<and> yAntPlayer l' = yAntPlayer l"
proof (cases "enemigo1muerto g \<noteq> 0")
  case True
  then have "repinta1 (l, g) = Some (l, g\<lparr>tty := tty g\<rparr>)" by (simp add: repinta1_def)
  with l game_okD(8) [OF g] show ?thesis by blast
next
  case False
  obtain c1 where c1: "cursor_a (xAntEnemigo1 l) (yAntEnemigo1 l) g = g\<lparr>tty := c1\<rparr>" "screen_ok mem c1"
    using cursor_a_ok [OF g] by blast
  have "pinta_bien mem (pintaTrozoMapa (mapa g) (xAntEnemigo1 l) (yAntEnemigo1 l) 7 7)"
    by (rule pinta_bien_mapa [OF game_okD(1) [OF g]]) (use l in \<open>auto simp: hilo_ok_def\<close>)
  then obtain c2 where c2: "pinta (pintaTrozoMapa (mapa g) (xAntEnemigo1 l) (yAntEnemigo1 l) 7 7) (g\<lparr>tty := c1\<rparr>) =
      Some (g\<lparr>tty := c2\<rparr>)" "screen_ok mem c2" using pinta_ok [of mem _ "g\<lparr>tty := c1\<rparr>"] c1(2) by fastforce
  note p = patrullaD [OF game_okD(10) [OF g]]
  have "pinta_bien mem (pintaPixel (ch_x (enemigo1 g)) (ch_y (enemigo1 g)) 7 7 (enemigo g))"
    by (rule pinta_bien_sprite [OF game_okD(3) [OF g]]) (use p in auto)
  then obtain c3 where c3: "pinta (pintaPixel (ch_x (enemigo1 g)) (ch_y (enemigo1 g)) 7 7 (enemigo g)) (g\<lparr>tty := c2\<rparr>) =
      Some (g\<lparr>tty := c3\<rparr>)" "screen_ok mem c3" using pinta_ok [of mem _ "g\<lparr>tty := c2\<rparr>"] c2(2) by fastforce
  let ?l = "l\<lparr>xAntEnemigo1 := ch_x (enemigo1 g), yAntEnemigo1 := ch_y (enemigo1 g)\<rparr>"
  have "repinta1 (l, g) = Some (?l, g\<lparr>tty := c3\<rparr>)"
    using False c1(1) c2(1) c3(1) by (simp add: repinta1_def Let_def)
  moreover have "hilo_ok ?l" using l p by (simp add: hilo_ok_def)
  ultimately show ?thesis using c3(2) by auto
qed

lemma repinta2_ok:
  assumes g: "game_ok mem g" and l: "hilo_ok l"
  shows "\<exists>l' con. repinta2 (l, g) = Some (l', g\<lparr>tty := con\<rparr>) \<and> hilo_ok l' \<and> screen_ok mem con \<and>
    xAntPlayer l' = xAntPlayer l \<and> yAntPlayer l' = yAntPlayer l"
proof (cases "enemigo2muerto g \<noteq> 0")
  case True
  then have "repinta2 (l, g) = Some (l, g\<lparr>tty := tty g\<rparr>)" by (simp add: repinta2_def)
  with l game_okD(8) [OF g] show ?thesis by blast
next
  case False
  obtain c1 where c1: "cursor_a (xAntEnemigo2 l) (yAntEnemigo2 l) g = g\<lparr>tty := c1\<rparr>" "screen_ok mem c1"
    using cursor_a_ok [OF g] by blast
  have "pinta_bien mem (pintaTrozoMapa (mapa g) (xAntEnemigo2 l) (yAntEnemigo2 l) 7 7)"
    by (rule pinta_bien_mapa [OF game_okD(1) [OF g]]) (use l in \<open>auto simp: hilo_ok_def\<close>)
  then obtain c2 where c2: "pinta (pintaTrozoMapa (mapa g) (xAntEnemigo2 l) (yAntEnemigo2 l) 7 7) (g\<lparr>tty := c1\<rparr>) =
      Some (g\<lparr>tty := c2\<rparr>)" "screen_ok mem c2" using pinta_ok [of mem _ "g\<lparr>tty := c1\<rparr>"] c1(2) by fastforce
  note p = patrullaD [OF game_okD(10) [OF g]]
  have "pinta_bien mem (pintaPixel (ch_x (enemigo2 g)) (ch_y (enemigo2 g)) 7 7 (enemigo g))"
    by (rule pinta_bien_sprite [OF game_okD(3) [OF g]]) (use p in auto)
  then obtain c3 where c3: "pinta (pintaPixel (ch_x (enemigo2 g)) (ch_y (enemigo2 g)) 7 7 (enemigo g)) (g\<lparr>tty := c2\<rparr>) =
      Some (g\<lparr>tty := c3\<rparr>)" "screen_ok mem c3" using pinta_ok [of mem _ "g\<lparr>tty := c2\<rparr>"] c2(2) by fastforce
  let ?l = "l\<lparr>xAntEnemigo2 := ch_x (enemigo2 g), yAntEnemigo2 := ch_y (enemigo2 g)\<rparr>"
  have "repinta2 (l, g) = Some (?l, g\<lparr>tty := c3\<rparr>)"
    using False c1(1) c2(1) c3(1) by (simp add: repinta2_def Let_def)
  moreover have "hilo_ok ?l" using l p by (simp add: hilo_ok_def)
  ultimately show ?thesis using c3(2) by auto
qed

lemma faseEnemigos_ok:
  assumes "game_ok mem g" "hilo_ok l"
  shows "\<exists>l' g'. faseEnemigos (l, g) = Some (l', g') \<and> hilo_ok l' \<and> game_ok mem g' \<and>
    xAntPlayer l' = xAntPlayer l \<and> yAntPlayer l' = yAntPlayer l \<and> reglas_de g' = patrullar (reglas_de g)"
proof (cases "enemigo1muerto g = 0 \<or> enemigo2muerto g = 0")
  case True
  let ?g = "mueveEnemigos g"
  note g = mueveEnemigos_ok [OF assms(1)]
  obtain l1 c1 where 1: "repinta1 (l, ?g) = Some (l1, ?g\<lparr>tty := c1\<rparr>)" "hilo_ok l1" "screen_ok mem c1"
    "xAntPlayer l1 = xAntPlayer l" "yAntPlayer l1 = yAntPlayer l" using repinta1_ok [OF g assms(2)] by blast
  note g1 = game_ok_tty [OF g 1(3)]
  obtain l2 c2 where 2: "repinta2 (l1, ?g\<lparr>tty := c1\<rparr>) = Some (l2, ?g\<lparr>tty := c2\<rparr>)" "hilo_ok l2" "screen_ok mem c2"
    "xAntPlayer l2 = xAntPlayer l1" "yAntPlayer l2 = yAntPlayer l1" using repinta2_ok [OF g1 1(2)] by auto
  have "faseEnemigos (l, g) = Some (l2, ?g\<lparr>tty := c2\<rparr>)" using True 1(1) 2(1) by (auto simp: faseEnemigos_def)
  with 1 2 game_ok_tty [OF g 2(3)] mueveEnemigos_reglas [OF True] show ?thesis by auto
next
  case False
  with assms show ?thesis by (simp add: faseEnemigos_def patrullar_def reglas_de_def)
qed

lemma borraPlayer_ok:
  assumes "game_ok mem g" "hilo_ok l"
  shows "\<exists>con. borraPlayer (l, g) = Some (l, g\<lparr>tty := con\<rparr>) \<and> game_ok mem (g\<lparr>tty := con\<rparr>)"
proof -
  obtain c1 where c1: "cursor_a (xAntPlayer l) (yAntPlayer l) g = g\<lparr>tty := c1\<rparr>" "screen_ok mem c1"
    using cursor_a_ok [OF assms(1)] by blast
  have "pinta_bien mem (pintaTrozoMapa (mapa g) (xAntPlayer l) (yAntPlayer l) 10 8)"
    by (rule pinta_bien_mapa [OF game_okD(1) [OF assms(1)]]) (use assms(2) in \<open>auto simp: hilo_ok_def libre_def\<close>)
  from pinta_game_ok [OF this game_ok_tty [OF assms(1) c1(2)]] c1(1) show ?thesis
    by (auto simp: borraPlayer_def Let_def)
qed

lemma muevePlayer_eq: "muevePlayer g = g\<lparr>player := destino (player g)\<rparr>"
  by (simp add: muevePlayer_def destino_def Let_def split: characterState.split)

lemma libre_destino:
  "libre (ch_x p) (ch_y p) \<Longrightarrow> 0 \<le> ch_x (destino p) \<and> ch_x (destino p) \<le> 78 \<and> 0 \<le> ch_y (destino p) \<and> ch_y (destino p) \<le> 24"
  by (auto simp: libre_def destino_def split: characterState.split)

lemma destino_same [simp]: "ch_state (destino p) = ch_state p" "ch_dir (destino p) = ch_dir p"
  by (simp_all add: destino_def split: characterState.split)

lemma game_ok_player: "game_ok mem (g\<lparr>player := p\<rparr>) \<Longrightarrow> libre (ch_x q) (ch_y q) \<Longrightarrow> game_ok mem (g\<lparr>player := q\<rparr>)"
  by (simp add: game_ok_def sprites_ok_def)

lemma movido_okD:
  assumes "movido_ok mem g"
  shows "libre (ch_x (player g)) (ch_y (player g)) \<Longrightarrow> game_ok mem g"
    "posicionValida (mapa g) (ch_x (player g)) (ch_y (player g)) 10 8 = Some (if libre (ch_x (player g)) (ch_y (player g)) then 1 else 0)"
proof -
  obtain p where p: "game_ok mem (g\<lparr>player := p\<rparr>)" using assms by (auto simp: movido_ok_def)
  show "game_ok mem g" if "libre (ch_x (player g)) (ch_y (player g))" using game_ok_player [OF p that] by simp
  show "posicionValida (mapa g) (ch_x (player g)) (ch_y (player g)) 10 8 = Some (if libre (ch_x (player g)) (ch_y (player g)) then 1 else 0)"
    by (rule posicionValida_dragon) (use assms game_okD(1) [OF p] in \<open>simp_all add: movido_ok_def\<close>)
qed

lemma movido_muevePlayer:
  assumes "game_ok mem g"
  shows "movido_ok mem (muevePlayer g)"
proof -
  have "game_ok mem ((muevePlayer g)\<lparr>player := player g\<rparr>)" using assms by (simp add: muevePlayer_eq)
  then have "\<exists>p. game_ok mem ((muevePlayer g)\<lparr>player := p\<rparr>)" by blast
  then show ?thesis using libre_destino [OF game_okD(9) [OF assms]] by (simp add: movido_ok_def muevePlayer_eq)
qed

lemma valida_ok:
  assumes g: "movido_ok mem g" and l: "hilo_ok l"
  shows "\<exists>p. validaPlayer (l, g) = Some (l, g\<lparr>player := p\<rparr>) \<and> game_ok mem (g\<lparr>player := p\<rparr>) \<and>
    p = (if libre (ch_x (player g)) (ch_y (player g)) then player g
         else (player g)\<lparr>ch_x := xAntPlayer l, ch_y := yAntPlayer l\<rparr>)"
proof -
  let ?p = "if libre (ch_x (player g)) (ch_y (player g)) then player g else (player g)\<lparr>ch_x := xAntPlayer l, ch_y := yAntPlayer l\<rparr>"
  have "validaPlayer (l, g) = Some (l, g\<lparr>player := ?p\<rparr>)" using movido_okD(2) [OF g] by (simp add: validaPlayer_def)
  moreover have "game_ok mem (g\<lparr>player := ?p\<rparr>)"
  proof -
    have "libre (ch_x ?p) (ch_y ?p)" using l by (simp add: hilo_ok_def)
    then show ?thesis using g game_ok_player unfolding movido_ok_def by blast
  qed
  ultimately show ?thesis by blast
qed

lemma validaPlayer_ok:
  assumes g: "game_ok mem g" and l: "hilo_ok l"
  shows "\<exists>p. validaPlayer (l, muevePlayer g) = Some (l, g\<lparr>player := p\<rparr>) \<and> game_ok mem (g\<lparr>player := p\<rparr>) \<and>
    p = (if libre (ch_x (destino (player g))) (ch_y (destino (player g))) then destino (player g)
         else (destino (player g))\<lparr>ch_x := xAntPlayer l, ch_y := yAntPlayer l\<rparr>)"
proof -
  have "player (muevePlayer g) = destino (player g)" "(muevePlayer g)\<lparr>player := p\<rparr> = g\<lparr>player := p\<rparr>" for p
    by (simp_all add: muevePlayer_eq)
  then show ?thesis using valida_ok [OF movido_muevePlayer [OF g] l] by (simp cong: if_cong)
qed

lemma pintaPlayer_ok:
  assumes g: "game_ok mem g" and l: "hilo_ok l"
  shows "\<exists>con. pintaPlayer (l, g) = Some (l\<lparr>xAntPlayer := ch_x (player g), yAntPlayer := ch_y (player g)\<rparr>,
      g\<lparr>tty := con, player := (player g)\<lparr>ch_state := ST_STOP\<rparr>\<rparr>) \<and> screen_ok mem con"
proof -
  note s = game_okD(2) [OF g] and lib = game_okD(9) [OF g]
  have b1: "pinta_bien mem (pintaPixel (ch_x (player g)) (ch_y (player g)) 10 8 (dragon g))"
    by (rule pinta_bien_sprite [OF s]) (use lib in \<open>auto simp: libre_def\<close>)
  have b2: "pinta_bien mem (pintaDragonIzquierda (dragon g) (ch_x (player g)) (ch_y (player g)))"
    by (rule pinta_bien_dragon [OF s lib])
  obtain con1 where "pinta (pintaPixel (ch_x (player g)) (ch_y (player g)) 10 8 (dragon g)) g = Some (g\<lparr>tty := con1\<rparr>)"
    "screen_ok mem con1" using pinta_ok [OF b1 game_okD(8) [OF g]] by blast
  moreover obtain con2 where "pinta (pintaDragonIzquierda (dragon g) (ch_x (player g)) (ch_y (player g))) g =
      Some (g\<lparr>tty := con2\<rparr>)" "screen_ok mem con2" using pinta_ok [OF b2 game_okD(8) [OF g]] by blast
  ultimately show ?thesis by (cases "ch_dir (player g) = RIGHT") (auto simp: pintaPlayer_def Let_def)
qed

lemma toca_enemigo:
  "hayColisionEnemigo n g \<noteq> 0 \<longleftrightarrow> toca (player g) (ch_x (if n = 2 then enemigo2 g else enemigo1 g))
     (ch_y (if n = 2 then enemigo2 g else enemigo1 g)) 7 7"
  by (auto simp: hayColisionEnemigo_def toca_def Let_def)

lemma toca_diamante: "hayColisionDiamante x y g \<noteq> 0 \<longleftrightarrow> toca (player g) x y 5 4"
  by (auto simp: hayColisionDiamante_def toca_def Let_def)

lemma game_ok_fin: "game_ok mem g \<Longrightarrow> game_ok mem (g\<lparr>gameThreadMuerto := a\<rparr>)"
  by (simp add: game_ok_def sprites_ok_def)

lemma colisiones_ok:
  assumes "game_ok mem g"
  shows "\<exists>g'. colisiones g = Some g' \<and> game_ok mem g' \<and> reglas_de g' = acaba (reglas_de g)"
proof -
  let ?g = "g\<lparr>gameThreadMuerto := 1\<rparr>"
  note g1 = game_ok_fin [OF assms, of 1]
  have "pinta_bien mem (pintaPixel 17 4 43 5 (loser g))" "pinta_bien mem (pintaPixel 20 4 40 5 (winner g))"
    using game_okD(5,6) [OF assms] by auto
  from pinta_game_ok [OF this(1) g1] pinta_game_ok [OF this(2) g1]
  obtain c1 c2 where p: "pinta (pintaPixel 17 4 43 5 (loser g)) ?g = Some (?g\<lparr>tty := c1\<rparr>)" "game_ok mem (?g\<lparr>tty := c1\<rparr>)"
    "pinta (pintaPixel 20 4 40 5 (winner g)) ?g = Some (?g\<lparr>tty := c2\<rparr>)" "game_ok mem (?g\<lparr>tty := c2\<rparr>)" by blast
  have l: "hayColisionEnemigo 1 g \<noteq> 0 \<and> enemigo1muerto g = 0 \<or> hayColisionEnemigo 2 g \<noteq> 0 \<and> enemigo2muerto g = 0
      \<longleftrightarrow> perdida (reglas_de g)"
    by (simp add: toca_enemigo perdida_def reglas_de_def)
  have w: "hayColisionDiamante 5 17 g \<noteq> 0 \<or> hayColisionDiamante 70 17 g \<noteq> 0 \<longleftrightarrow>
      toca (r_player (reglas_de g)) 5 17 5 4 \<or> toca (r_player (reglas_de g)) 70 17 5 4"
    by (simp add: toca_diamante reglas_de_def)
  have c: "colisiones g = (if perdida (reglas_de g) then Some (?g\<lparr>tty := c1\<rparr>)
     else if ganada (reglas_de g) then Some (?g\<lparr>tty := c2\<rparr>) else Some g)"
    using w p(1,3) unfolding colisiones_def l ganada_def by simp
  have "reglas_de ?g = (reglas_de g)\<lparr>r_fin := 1\<rparr>" by (simp add: reglas_de_def)
  then show ?thesis using c p(2,4) assms by (simp add: acaba_def)
qed

lemma gameThread_ok:
  assumes g: "game_ok mem g" and l: "hilo_ok l"
    and pos: "xAntPlayer l = ch_x (player g)" "yAntPlayer l = ch_y (player g)"
  shows "\<exists>l' g'. gameThread (l, g) = Some (l', g') \<and> game_ok mem g' \<and> hilo_ok l' \<and>
    xAntPlayer l' = ch_x (player g') \<and> yAntPlayer l' = ch_y (player g') \<and> reglas_de g' = ronda (reglas_de g)"
proof -
  obtain c1 where 1: "pintaDiamantes g = Some (g\<lparr>tty := c1\<rparr>)" "game_ok mem (g\<lparr>tty := c1\<rparr>)"
    using pintaDiamantes_ok [OF g] by blast
  obtain g2 where 2: "moverProyectiles (g\<lparr>tty := c1\<rparr>) = Some g2" "game_ok mem g2"
    "reglas_de g2 = fold tira [0..<10] (reglas_de g)" using moverProyectiles_ok [OF 1(2)] by auto
  obtain l3 g3 where 3: "faseEnemigos (l, g2) = Some (l3, g3)" "hilo_ok l3" "game_ok mem g3"
    "xAntPlayer l3 = xAntPlayer l" "yAntPlayer l3 = yAntPlayer l" "reglas_de g3 = patrullar (reglas_de g2)"
    using faseEnemigos_ok [OF 2(2) l] by blast
  obtain c4 where 4: "borraPlayer (l3, g3) = Some (l3, g3\<lparr>tty := c4\<rparr>)" "game_ok mem (g3\<lparr>tty := c4\<rparr>)"
    using borraPlayer_ok [OF 3(3,2)] by blast
  let ?g4 = "g3\<lparr>tty := c4\<rparr>"
  obtain p where 5: "validaPlayer (l3, muevePlayer ?g4) = Some (l3, ?g4\<lparr>player := p\<rparr>)" "game_ok mem (?g4\<lparr>player := p\<rparr>)"
    "p = (if libre (ch_x (destino (player g3))) (ch_y (destino (player g3))) then destino (player g3)
         else (destino (player g3))\<lparr>ch_x := xAntPlayer l3, ch_y := yAntPlayer l3\<rparr>)"
    using validaPlayer_ok [OF 4(2) 3(2)] by (auto cong: if_cong)
  let ?g5 = "?g4\<lparr>player := p\<rparr>"
  let ?l6 = "l3\<lparr>xAntPlayer := ch_x p, yAntPlayer := ch_y p\<rparr>"
  obtain c6 where 6: "pintaPlayer (l3, ?g5) = Some (?l6, ?g5\<lparr>tty := c6, player := p\<lparr>ch_state := ST_STOP\<rparr>\<rparr>)" "screen_ok mem c6"
    using pintaPlayer_ok [OF 5(2) 3(2)] by auto
  let ?g6 = "?g5\<lparr>tty := c6, player := p\<lparr>ch_state := ST_STOP\<rparr>\<rparr>"
  have g6: "game_ok mem ?g6" using game_ok_tty [OF 5(2) 6(2)] by (simp add: game_ok_def sprites_ok_def)
  obtain g7 where 7: "colisiones ?g6 = Some g7" "game_ok mem g7" "reglas_de g7 = acaba (reglas_de ?g6)"
    using colisiones_ok [OF g6] by blast
  have pl: "player g3 = player g"
  proof -
    have same: "r_player (tira i r) = r_player r" for i r by (simp add: tira_def Let_def)
    have "r_player (fold tira is r) = r_player r" for "is" r by (induction "is" arbitrary: r) (simp_all add: same)
    then have "r_player (reglas_de g3) = r_player (reglas_de g)" using 3(6) 2(3) by (simp add: patrullar_def)
    then show ?thesis by (simp add: reglas_de_def)
  qed
  have home: "(destino (player g))\<lparr>ch_x := ch_x (player g), ch_y := ch_y (player g)\<rparr> = player g"
    by (simp add: destino_def split: characterState.split)
  have p: "p = (let d = destino (player g3) in if libre (ch_x d) (ch_y d) then d else player g3)"
    using 5(3) 3(4,5) pos home by (simp add: pl Let_def)
  have "reglas_de ?g6 = anda (reglas_de g3)"
    unfolding p by (simp add: reglas_de_def anda_def Let_def del: if_split)
  then have r: "reglas_de g7 = ronda (reglas_de g)" using 7(3) 3(6) 2(3) by (simp add: ronda_def)
  have "player g7 = player ?g6"
    using 7(3) by (auto simp: acaba_def reglas_de_def split: if_splits)
  then have x: "xAntPlayer ?l6 = ch_x (player g7)" "yAntPlayer ?l6 = ch_y (player g7)" by simp_all
  have "hilo_ok ?l6" using 3(2) game_okD(9) [OF 5(2)] by (simp add: hilo_ok_def)
  moreover have "gameThread (l, g) = Some (?l6, g7)"
    using 1(1) 2(1) 3(1) 4(1) 5(1) 6(1) 7(1) by (simp add: gameThread_def)
  ultimately show ?thesis using 7(2) r x by blast
qed

section \<open>The start of the game\<close>

definition reservado :: "(nat \<Rightarrow> u16) \<Rightarrow> game \<Rightarrow> bool" where
  "reservado mem g \<longleftrightarrow> dims 25 80 (mapa g) \<and> dims 8 10 (dragon g) \<and> dims 7 7 (enemigo g) \<and>
     dims 4 5 (diamante g) \<and> dims 5 40 (winner g) \<and> dims 5 43 (loser g) \<and> length (proyectiles g) = 10 \<and>
     screen_ok mem (tty g) \<and> enemigo1muerto g = 0 \<and> enemigo2muerto g = 0 \<and> gameThreadMuerto g = 0 \<and>
     contadorEnemigos g = 0"

lemma pintable_tinta [simp]: "pintable (tinta c)"
  by (simp add: tinta_def pintable_def)

lemma imagen_ok: "dims h w (imagen rows) \<Longrightarrow> sprite_ok h w (imagen rows)"
  by (auto simp: sprite_ok_def imagen_def)

lemma imagenes_ok:
  "sprite_ok 8 10 imagen_dragon" "sprite_ok 7 7 imagen_enemigo" "sprite_ok 4 5 imagen_diamante"
  "sprite_ok 5 40 imagen_winner" "sprite_ok 5 43 imagen_loser"
  unfolding imagen_dragon_def imagen_enemigo_def imagen_diamante_def imagen_winner_def imagen_loser_def
  by (rule imagen_ok, simp add: dims_def imagen_def)+

definition inicial :: "game \<Rightarrow> reglas" where
  "inicial g = \<lparr>r_player = \<lparr>ch_x = 40, ch_y = 16, ch_state = ST_STOP, ch_dir = RIGHT\<rparr>,
     r_e1 = (enemigo1 g)\<lparr>ch_x := 13, ch_y := 16, ch_dir := RIGHT\<rparr>,
     r_e2 = (enemigo2 g)\<lparr>ch_x := 60, ch_y := 16, ch_dir := LEFT\<rparr>,
     r_shots = map (\<lambda>p. p\<lparr>activo := 0\<rparr>) (proyectiles g), r_m1 = 0, r_m2 = 0, r_fin = 0, r_cont = 0\<rparr>"

lemma iniciaJuego_spec:
  assumes "reservado mem g"
  shows "\<exists>g'. iniciaJuego g = Some g' \<and> game_ok mem g' \<and> hilo_ok (empieza g') \<and> cambios g' = 1 \<and>
    reglas_de g' = inicial g"
proof -
  obtain m where m: "creaMapa (mapa g) = Some m" "es_mapa m"
    using creaMapa_spec [of "mapa g"] assms by (auto simp: reservado_def es_mapa_def)
  obtain con where con: "pintaTrozoMapa m 0 0 80 25 (tty g) = Some con" "screen_ok mem con"
    using pintaTrozoMapa_grid [OF _ m(2), of mem "tty g" 0 0 80 25] assms by (auto simp: reservado_def)
  let ?g = "g\<lparr>proyectiles := map (\<lambda>p. p\<lparr>activo := 0\<rparr>) (proyectiles g), mapa := m, tty := con,
       diamante := imagen_diamante, winner := imagen_winner, loser := imagen_loser, dragon := imagen_dragon,
       enemigo := imagen_enemigo, player := \<lparr>ch_x = 40, ch_y = 16, ch_state = ST_STOP, ch_dir = RIGHT\<rparr>,
       enemigo1 := (enemigo1 g)\<lparr>ch_x := 13, ch_y := 16, ch_dir := RIGHT\<rparr>,
       enemigo2 := (enemigo2 g)\<lparr>ch_x := 60, ch_y := 16, ch_dir := LEFT\<rparr>, cambios := 1\<rparr>"
  have "iniciaJuego g = Some ?g"
    using assms m(1) con(1)
    by (simp add: iniciaJuego_def Let_def pinta_def pintaMapa_trozo reservado_def crea_dragon crea_enemigo
        crea_diamante crea_winner crea_loser)
  moreover have "game_ok mem ?g"
    using assms m(2) con(2) imagenes_ok
    by (auto simp: game_ok_def sprites_ok_def reservado_def disparo_ok_def libre_def patrulla_def)
  moreover have "hilo_ok (empieza ?g)" by (simp add: hilo_ok_def empieza_def libre_def)
  moreover have "reglas_de ?g = inicial g"
    using assms by (simp add: reglas_de_def inicial_def reservado_def)
  ultimately show ?thesis by (intro exI [of _ ?g]) simp
qed

section \<open>Every interleaving\<close>

lemma creaProyectil_ok:
  assumes "game_ok mem g"
  shows "game_ok mem (creaProyectil g)"
proof -
  have "disparo_ok \<lparr>pr_x = (if ch_dir (player g) = LEFT then ch_x (player g) - 1 else ch_x (player g) + 10),
         pr_y = ch_y (player g) + 4, activo = 1, pr_dir = ch_dir (player g)\<rparr>"
    using game_okD(9) [OF assms] by (auto simp: disparo_ok_def libre_def)
  from game_ok_shot [OF assms this] assms show ?thesis
    by (auto simp: creaProyectil_def split: option.split)
qed

lemma keyboardThread_ok: "game_ok mem g \<Longrightarrow> game_ok mem (keyboardThread c g)"
proof -
  have c: "game_ok mem (g'\<lparr>cambios := n\<rparr>) = game_ok mem g'" for g' n by (simp add: game_ok_def sprites_ok_def)
  assume "game_ok mem g"
  moreover from this have "game_ok mem (tecla c g)"
    by (simp add: tecla_def Let_def creaProyectil_ok) (auto simp: game_ok_def sprites_ok_def)
  ultimately show ?thesis by (simp add: keyboardThread_def c Let_def)
qed

lemma keyboard_place [simp]:
  "ch_x (player (keyboardThread c g)) = ch_x (player g)" "ch_y (player (keyboardThread c g)) = ch_y (player g)"
  by (simp_all add: keyboardThread_def tecla_def creaProyectil_def Let_def split: option.split)

text \<open>A key that is no shot, and a shot from where the dragon fits, between the move and its check.\<close>

lemma movido_key:
  assumes "movido_ok mem g" and "c = 67 \<longrightarrow> libre (ch_x (player g)) (ch_y (player g))"
  shows "movido_ok mem (keyboardThread c g)"
proof (cases "libre (ch_x (player g)) (ch_y (player g))")
  case True
  then have "game_ok mem (keyboardThread c g)" using movido_okD(1) [OF assms(1)] keyboardThread_ok by blast
  then have "game_ok mem ((keyboardThread c g)\<lparr>player := player (keyboardThread c g)\<rparr>)" by simp
  then have "\<exists>p. game_ok mem ((keyboardThread c g)\<lparr>player := p\<rparr>)" by blast
  then show ?thesis using assms(1) by (simp add: movido_ok_def)
next
  case False
  then have c: "c \<noteq> 67" using assms(2) by blast
  obtain p where p: "game_ok mem (g\<lparr>player := p\<rparr>)" using assms(1) by (auto simp: movido_ok_def)
  have "(keyboardThread c g)\<lparr>player := p\<rparr> = g\<lparr>player := p, cambios := cambios g + 1\<rparr>"
    using c by (simp add: keyboardThread_def tecla_def Let_def)
  then have "game_ok mem ((keyboardThread c g)\<lparr>player := p\<rparr>)" using p by (simp add: game_ok_def sprites_ok_def)
  then have "\<exists>p. game_ok mem ((keyboardThread c g)\<lparr>player := p\<rparr>)" by blast
  then show ?thesis using assms(1) by (simp add: movido_ok_def)
qed

lemma paso_ok:
  assumes "juego_ok mem s"
  shows "\<exists>s'. paso s = Some s' \<and> juego_ok mem s'"
proof -
  obtain f l g where s: "s = (f, l, g)" by (cases s)
  have l: "hilo_ok l" using assms by (auto simp: juego_ok_def s)
  show ?thesis
  proof (cases "f = Valida")
    case True
    then have "movido_ok mem g" using assms by (simp add: s juego_ok_def)
    from valida_ok [OF this l] show ?thesis using True l by (auto simp: s juego_ok_def)
  next
    case nv: False
    then have g: "game_ok mem g" using assms by (simp add: s juego_ok_def)
    show ?thesis
    proof (cases f)
      case Espera
      then show ?thesis using g l by (auto simp: s juego_ok_def game_ok_def sprites_ok_def)
    next
      case Diamantes
      then show ?thesis using pintaDiamantes_ok [OF g] l by (auto simp: s juego_ok_def)
    next
      case (Disparos i)
      then show ?thesis using mueveProyectil_ok [OF g, of i] g l by (cases "i < 10") (auto simp: s juego_ok_def)
    next
      case Enemigos
      then show ?thesis using faseEnemigos_ok [OF g l] by (auto simp: s juego_ok_def)
    next
      case Borra
      then show ?thesis using borraPlayer_ok [OF g l] l by (auto simp: s juego_ok_def)
    next
      case Mueve
      then show ?thesis using movido_muevePlayer [OF g] l by (auto simp: s juego_ok_def)
    next
      case Valida
      then show ?thesis using nv by simp
    next
      case Pinta
      obtain con where p: "pintaPlayer (l, g) = Some (l\<lparr>xAntPlayer := ch_x (player g), yAntPlayer := ch_y (player g)\<rparr>,
        g\<lparr>tty := con, player := (player g)\<lparr>ch_state := ST_STOP\<rparr>\<rparr>)" "screen_ok mem con"
        using pintaPlayer_ok [OF g l] by blast
      have "game_ok mem (g\<lparr>tty := con, player := (player g)\<lparr>ch_state := ST_STOP\<rparr>\<rparr>)"
        using game_ok_tty [OF g p(2)] by (simp add: game_ok_def sprites_ok_def)
      then show ?thesis using Pinta p l game_okD(9) [OF g] by (auto simp: s juego_ok_def hilo_ok_def)
    next
      case Colisiones
      then show ?thesis using colisiones_ok [OF g] l by (auto simp: s juego_ok_def)
    next
      case Fin
      then show ?thesis using g l by (auto simp: s juego_ok_def)
    qed
  qed
qed

lemma juego_step_ok:
  assumes ok: "juego_ok mem (f, l, g)" and st: "juego e (f, l, g) = Some s'"
    and nr: "e = Tecla 67 \<and> f = Valida \<longrightarrow> posicionValida (mapa g) (ch_x (player g)) (ch_y (player g)) 10 8 = Some 1"
  shows "juego_ok mem s'"
proof (cases e)
  case Paso
  then show ?thesis using paso_ok [OF ok] st by auto
next
  case (Tecla c)
  then have s': "s' = (f, l, keyboardThread c g)" using st by (auto split: if_splits)
  show ?thesis
  proof (cases "f = Valida")
    case True
    then have m: "movido_ok mem g" using ok by (simp add: juego_ok_def)
    have "c = 67 \<longrightarrow> libre (ch_x (player g)) (ch_y (player g))"
      using nr Tecla True movido_okD(2) [OF m] by (auto split: if_splits)
    from movido_key [OF m this] show ?thesis using ok True by (simp add: s' juego_ok_def)
  next
    case False
    then show ?thesis using ok keyboardThread_ok by (simp add: s' juego_ok_def)
  qed
next
  case Signal
  have "game_ok mem (g'\<lparr>cambios := n\<rparr>) = game_ok mem g'" for g' n by (simp add: game_ok_def sprites_ok_def)
  moreover from this have "movido_ok mem g \<Longrightarrow> movido_ok mem (g\<lparr>cambios := n\<rparr>)" for n
    unfolding movido_ok_def by (metis game.select_convs(1) game.surjective game.update_convs(1,15))
  ultimately show ?thesis using ok st Signal by (auto simp: juego_ok_def)
qed

lemma juego_run_ok:
  "juego_ok mem s \<Longrightarrow> sin_carrera es s \<Longrightarrow> foldo juego es s = Some s' \<Longrightarrow> juego_ok mem s'"
proof (induction es arbitrary: s)
  case (Cons e es)
  obtain f l g where s: "s = (f, l, g)" by (cases s)
  obtain s1 where s1: "juego e (f, l, g) = Some s1" "foldo juego es s1 = Some s'"
    using Cons.prems(3) by (auto simp: s split: bind_split_asm)
  have "juego_ok mem s1" by (rule juego_step_ok [OF Cons.prems(1) [unfolded s] s1(1)]) (use Cons.prems(2) in \<open>simp add: s\<close>)
  then show ?case using Cons.IH s1 Cons.prems(2) by (simp add: s)
qed simp

lemma juego_total:
  assumes "juego_ok mem (f, l, g)"
  shows "juego e (f, l, g) = None \<longleftrightarrow> f = Fin \<and> (\<exists>c. e = Tecla c)"
  using paso_ok [OF assms] by (cases e) auto

text \<open>C37. Whatever the order of the steps of \<open>gameThread\<close>, the keys and the signals since \<open>main\<close>
  started the game, keys between the move of the dragon and its check included, if no shot is fired
  between them while the dragon is at a place it cannot take (the race of C40): the dragon is at a free
  place, or has moved and is not checked yet and still inside the map; the enemies are on their patrols, the shots in
  flight are inside the map and all that was painted fell on the screen; and the next step makes an
  access outside of the map, a sprite or the shots, or to freed memory, only when it is a key
  after the end of the game. A step is one phase of the round, one shot, or one key with its signal, and
  runs without interruption.\<close>
theorem game_safe:
  assumes "reservado (screen (tty g)) g" and "iniciaJuego g = Some g0"
    and "sin_carrera es (Espera, empieza g0, g0)" and "foldo juego es (Espera, empieza g0, g0) = Some (f, l, g')"
  shows "(if f = Valida then 0 \<le> ch_x (player g') \<and> ch_x (player g') < 79 \<and> 0 \<le> ch_y (player g') \<and> ch_y (player g') < 25
      else libre (ch_x (player g')) (ch_y (player g'))) \<and>
    patrulla (contadorEnemigos g') (enemigo1 g') (enemigo2 g') \<and>
    (\<forall>p \<in> set (proyectiles g'). disparo_ok p) \<and> cursor_ok (tty g') \<and>
    (\<forall>k \<ge> 2000. screen (tty g') k = screen (tty g) k) \<and>
    (juego e (f, l, g') = None \<longleftrightarrow> f = Fin \<and> (\<exists>c. e = Tecla c))"
proof -
  have "juego_ok (screen (tty g)) (Espera, empieza g0, g0)"
    using iniciaJuego_spec [OF assms(1)] assms(2) by (auto simp: juego_ok_def)
  then have s: "juego_ok (screen (tty g)) (f, l, g')" by (rule juego_run_ok [OF _ assms(3,4)])
  then show ?thesis using juego_total [OF s]
    by (auto simp: juego_ok_def movido_ok_def game_ok_def screen_ok_def split: if_splits)
qed

text \<open>A sample: arrays as \<open>malloc\<close> could leave them.\<close>

definition sample_game :: game where
  "sample_game = (let e = \<lparr>ch_x = 5, ch_y = 6, ch_state = ST_UP, ch_dir = LEFT\<rparr>; p = \<lparr>ch = 1, fg = 99, bg = -1\<rparr> in
     \<lparr>player = e, enemigo1 = e, enemigo2 = e, mapa = replicate 25 (replicate 80 7),
      dragon = replicate 8 (replicate 10 p), enemigo = replicate 7 (replicate 7 p),
      diamante = replicate 4 (replicate 5 p), winner = replicate 5 (replicate 40 p),
      loser = replicate 5 (replicate 43 p),
      proyectiles = replicate 10 \<lparr>pr_x = 1000, pr_y = 1000, activo = 3, pr_dir = LEFT\<rparr>,
      enemigo1muerto = 0, enemigo2muerto = 0, gameThreadMuerto = 0, contadorEnemigos = 0, cambios = 0,
      tty = init_console\<rparr>)"

lemma reservado_sample: "reservado (screen (tty sample_game)) sample_game"
  by (simp add: reservado_def sample_game_def Let_def dims_def screen_ok_def cursor_ok_def init_console_def)

definition started_game :: game where
  "started_game = the (iniciaJuego sample_game)"

lemma started: "game_ok (screen (tty sample_game)) started_game" "hilo_ok (empieza started_game)"
  "reglas_de started_game = inicial sample_game"
  using iniciaJuego_spec [OF reservado_sample] by (auto simp: started_game_def)

lemma game_safe_witness:
  "juego Paso (Diamantes, empieza started_game, started_game\<lparr>cambios := 0\<rparr>) \<noteq> None"
proof -
  have i: "iniciaJuego sample_game = Some started_game" and c: "cambios started_game = 1"
    using iniciaJuego_spec [OF reservado_sample] by (auto simp: started_game_def)
  have r: "sin_carrera [Paso] (Espera, empieza started_game, started_game)"
    "foldo juego [Paso] (Espera, empieza started_game, started_game) =
      Some (Diamantes, empieza started_game, started_game\<lparr>cambios := 0\<rparr>)"
    using c by simp_all
  show ?thesis using game_safe [OF reservado_sample i r, of Paso] by simp
qed

text \<open>C38. A round of \<open>gameThread\<close> that no key interrupts implements the rules of the game: the shots
  move one column and die at walls and enemies, the enemies walk their patrol, the dragon
  moves where it fits, and the game ends when the dragon meets an enemy alive, or a diamond.\<close>
theorem gameThread_refines:
  assumes "game_ok mem g" and "hilo_ok l"
    and "xAntPlayer l = ch_x (player g)" and "yAntPlayer l = ch_y (player g)"
  shows "\<exists>l' g'. gameThread (l, g) = Some (l', g') \<and> game_ok mem g' \<and> hilo_ok l' \<and>
    xAntPlayer l' = ch_x (player g') \<and> yAntPlayer l' = ch_y (player g') \<and> reglas_de g' = ronda (reglas_de g)"
  using assms by (rule gameThread_ok)

lemma gameThread_refines_witness:
  "\<exists>l' g'. gameThread (empieza started_game, started_game) = Some (l', g') \<and> ch_x (enemigo1 g') = 14"
proof -
  obtain l' g' where g': "gameThread (empieza started_game, started_game) = Some (l', g')"
    "reglas_de g' = ronda (reglas_de started_game)"
    using gameThread_refines [OF started(1,2)] by (auto simp: empieza_def)
  have "ch_x (r_e1 (ronda (inicial sample_game))) = 14"
    by (simp add: inicial_def sample_game_def Let_def ronda_def acaba_def anda_def patrullar_def camina_def tira_def
        upt_rec numeral_eq_Suc)
  moreover have "enemigo1 g' = r_e1 (reglas_de g')" by (simp add: reglas_de_def)
  ultimately have "ch_x (enemigo1 g') = 14" using g'(2) by (simp add: started(3))
  with g'(1) show ?thesis by blast
qed

lemma paso_pairs:
  "paso (Borra, s) = Option.bind (borraPlayer s) (\<lambda>s. Some (Mueve, s))"
  "paso (Mueve, s) = Some (Valida, fst s, muevePlayer (snd s))"
  "paso (Valida, s) = Option.bind (validaPlayer s) (\<lambda>s. Some (Pinta, s))"
  "paso (Pinta, s) = Option.bind (pintaPlayer s) (\<lambda>s. Some (Colisiones, s))"
  "paso (Colisiones, s) = Option.bind (colisiones (snd s)) (\<lambda>g.
     Some (if gameThreadMuerto g \<noteq> 0 then Fin else Espera, fst s, g))"
  by (cases s; simp add: split_def)+

text \<open>The steps of \<open>gameThread\<close> make the same round: from \<open>Diamantes\<close>, eighteen steps reach
  \<open>Espera\<close>, or \<open>Fin\<close> when the game is over, in the state of the whole round.\<close>
theorem paso_round:
  "foldo (\<lambda>_. paso) [0..<18] (Diamantes, l, g) =
     map_option (\<lambda>(l, g). (if gameThreadMuerto g \<noteq> 0 then Fin else Espera, l, g)) (gameThread (l, g))"
proof -
  have "[0..<18] = [0,1,2,3,4,5,6,7,8,9,10,11,12,13,14,15,16,17]" by code_simp
  moreover have "[0..<10] = [0,1,2,3,4,5,6,7,8,9]" by code_simp
  ultimately show ?thesis
    by (simp add: gameThread_def moverProyectiles_def map_conv_bind_option Option.bind_assoc split_def comp_def
        paso_pairs eval_nat_numeral del: upt_Suc)
qed

section \<open>The game can be won\<close>

text \<open>Rounds with one key before each.\<close>

definition turnos :: "u8 list \<Rightarrow> hilo \<times> game \<Rightarrow> (hilo \<times> game) option" where
  "turnos = foldo (\<lambda>c (l, g). gameThread (l, keyboardThread c g))"

definition pulsa :: "u8 \<Rightarrow> reglas \<Rightarrow> reglas" where
  "pulsa c r = (let p = r_player r in r\<lparr>r_player :=
      (if c = 119 then p\<lparr>ch_state := ST_UP\<rparr> else if c = 115 then p\<lparr>ch_state := ST_DOWN\<rparr>
       else if c = 97 then p\<lparr>ch_state := ST_LEFT, ch_dir := LEFT\<rparr>
       else if c = 100 then p\<lparr>ch_state := ST_RIGHT, ch_dir := RIGHT\<rparr> else p\<lparr>ch_state := ST_STOP\<rparr>)\<rparr>)"

lemma pulsa_refines:
  "c \<noteq> 67 \<Longrightarrow> reglas_de (keyboardThread c g) = pulsa c (reglas_de g)"
  by (simp add: keyboardThread_def tecla_def pulsa_def reglas_de_def Let_def)

fun viva :: "u8 list \<Rightarrow> reglas \<Rightarrow> bool" where
  "viva [] r = True"
| "viva (c # cs) r = (r_fin r = 0 \<and> viva cs (ronda (pulsa c r)))"

lemma turnos_refines:
  assumes "game_ok mem g" "hilo_ok l" "xAntPlayer l = ch_x (player g)" "yAntPlayer l = ch_y (player g)"
    and "67 \<notin> set cs" "viva cs (reglas_de g)"
  shows "\<exists>l' g'. turnos cs (l, g) = Some (l', g') \<and> reglas_de g' = fold (\<lambda>c r. ronda (pulsa c r)) cs (reglas_de g)"
  using assms
proof (induction cs arbitrary: l g)
  case Nil
  then show ?case by (simp add: turnos_def)
next
  case (Cons c cs)
  have r: "reglas_de (keyboardThread c g) = pulsa c (reglas_de g)" using Cons.prems(5) by (intro pulsa_refines) auto
  obtain l1 g1 where g1: "gameThread (l, keyboardThread c g) = Some (l1, g1)" "game_ok mem g1" "hilo_ok l1"
    "xAntPlayer l1 = ch_x (player g1)" "yAntPlayer l1 = ch_y (player g1)" "reglas_de g1 = ronda (pulsa c (reglas_de g))"
    using gameThread_ok [OF keyboardThread_ok [OF Cons.prems(1)] Cons.prems(2)] Cons.prems(3,4) r by fastforce
  show ?case using Cons.IH [OF g1(2-5)] Cons.prems(5,6) g1(1,6) by (simp add: turnos_def)
qed

text \<open>Without shots in flight a round moves the enemies and the dragon only. The state that matters
  is then the counter with the direction of the first enemy, and the place of the dragon.\<close>

lemma tira_idle: "\<forall>p \<in> set (r_shots r). activo p = 0 \<Longrightarrow> \<forall>i \<in> set is. i < length (r_shots r) \<Longrightarrow> fold tira is r = r"
  by (induction "is") (simp_all add: tira_def Let_def)

lemma ronda_idle:
  "\<forall>p \<in> set (r_shots r). activo p = 0 \<Longrightarrow> length (r_shots r) = 10 \<Longrightarrow> ronda r = acaba (anda (patrullar r))"
  by (simp add: ronda_def tira_idle)

definition camino :: "u8 list" where
  "camino = replicate 8 119 @ replicate 27 100 @ replicate 2 115"

definition quieta :: "reglas \<Rightarrow> bool" where
  "quieta r \<longleftrightarrow> (\<forall>p \<in> set (r_shots r). activo p = 0) \<and> length (r_shots r) = 10 \<and> r_m1 r = 0 \<and> r_m2 r = 0"

definition lugar :: "reglas \<Rightarrow> int \<times> int \<Rightarrow> bool" where
  "lugar r xy \<longleftrightarrow> quieta r \<and> r_fin r = 0 \<and> ch_x (r_player r) = fst xy \<and> ch_y (r_player r) = snd xy \<and>
     patrulla (r_cont r) (r_e1 r) (r_e2 r)"

text \<open>One move over a free place away from enemies and diamonds.\<close>

definition lejos :: "int \<Rightarrow> int \<Rightarrow> bool" where
  "lejos x y \<longleftrightarrow> (y \<le> 8 \<or> 25 \<le> x \<and> x \<le> 44 \<or> 67 \<le> x) \<and> (10 \<le> x \<and> x \<le> 60 \<or> y \<le> 9)"

lemma patrullar_ok:
  "patrulla (r_cont r) (r_e1 r) (r_e2 r) \<Longrightarrow> patrulla (r_cont (patrullar r)) (r_e1 (patrullar r)) (r_e2 (patrullar r))"
  by (auto simp: patrulla_def patrullar_def vuelve_def camina_def)

lemma patrullar_frame [simp]:
  "r_player (patrullar r) = r_player r" "r_shots (patrullar r) = r_shots r" "r_m1 (patrullar r) = r_m1 r"
  "r_m2 (patrullar r) = r_m2 r" "r_fin (patrullar r) = r_fin r"
  by (simp_all add: patrullar_def)

definition sigue :: "u8 \<Rightarrow> int \<times> int \<Rightarrow> int \<times> int" where
  "sigue c = (\<lambda>(x, y). if c = 119 then (x, y - 1) else if c = 115 then (x, y + 1)
     else if c = 97 then (x - 1, y) else if c = 100 then (x + 1, y) else (x, y))"

lemma ronda_move:
  assumes r: "lugar r xy" and n: "sigue c xy = (x, y)" "libre x y"
  shows "\<exists>r'. ronda (pulsa c r) = acaba r' \<and> lugar r' (x, y)"
proof -
  let ?r = "patrullar (pulsa c r)"
  have q: "quieta (pulsa c r)" using r by (simp add: lugar_def quieta_def pulsa_def Let_def)
  then have "ronda (pulsa c r) = acaba (anda ?r)" by (intro ronda_idle) (auto simp: quieta_def)
  moreover have "lugar (anda ?r) (x, y)"
  proof -
    have d: "ch_x (destino (r_player (pulsa c r))) = x" "ch_y (destino (r_player (pulsa c r))) = y"
      using r n(1) by (auto simp: lugar_def pulsa_def sigue_def destino_def Let_def split: if_splits prod.splits)
    have "patrulla (r_cont (pulsa c r)) (r_e1 (pulsa c r)) (r_e2 (pulsa c r))"
      using r by (simp add: lugar_def pulsa_def Let_def)
    then show ?thesis using d n(2) q patrullar_ok [of "pulsa c r"] r
      by (simp add: lugar_def anda_def quieta_def Let_def) (simp add: pulsa_def Let_def)
  qed
  ultimately show ?thesis by blast
qed

lemma no_end:
  assumes "lugar r (x, y)" "lejos x y"
  shows "acaba r = r"
proof -
  have p: "ch_x (r_player r) = x" "ch_y (r_player r) = y" and "patrulla (r_cont r) (r_e1 r) (r_e2 r)"
    using assms(1) by (simp_all add: lugar_def)
  then have "\<not> toca (r_player r) (ch_x (r_e1 r)) (ch_y (r_e1 r)) 7 7" "\<not> toca (r_player r) (ch_x (r_e2 r)) (ch_y (r_e2 r)) 7 7"
    using patrullaD assms(2) unfolding toca_def lejos_def by fastforce+
  moreover have "\<not> toca (r_player r) 5 17 5 4" "\<not> toca (r_player r) 70 17 5 4"
    using assms(2) unfolding toca_def lejos_def p by auto
  ultimately show ?thesis by (simp add: acaba_def perdida_def ganada_def)
qed

fun ruta_ok :: "u8 list \<Rightarrow> int \<times> int \<Rightarrow> bool" where
  "ruta_ok [] xy = True"
| "ruta_ok (c # cs) xy = (let xy' = sigue c xy in
     libre (fst xy') (snd xy') \<and> lejos (fst xy') (snd xy') \<and> ruta_ok cs xy')"

lemma ruta:
  assumes "lugar r xy" "ruta_ok cs xy"
  shows "viva cs r \<and> lugar (fold (\<lambda>c r. ronda (pulsa c r)) cs r) (fold sigue cs xy)"
  using assms
proof (induction cs arbitrary: r xy)
  case (Cons c cs)
  obtain x y where n: "sigue c xy = (x, y)" by force
  obtain r' where r': "ronda (pulsa c r) = acaba r'" "lugar r' (x, y)"
    using ronda_move [OF Cons.prems(1) n] Cons.prems(2) n by (auto simp: Let_def)
  have "acaba r' = r'" using no_end [OF r'(2)] Cons.prems(2) n by (simp add: Let_def)
  with r' have l: "lugar (ronda (pulsa c r)) (x, y)" by simp
  have "r_fin r = 0" using Cons.prems(1) by (simp add: lugar_def)
  moreover have "ruta_ok cs (x, y)" using Cons.prems(2) n by (simp add: Let_def)
  ultimately show ?case using Cons.IH [OF l] by (simp add: n)
qed simp

text \<open>C39. The game can be won: eight moves up, twenty-seven to the right and two down end it, the
  dragon on a diamond and both enemies alive, without a shot; and it was not over before.\<close>
theorem game_winnable:
  assumes "reservado mem g"
  shows "\<exists>g0 l' g'. iniciaJuego g = Some g0 \<and> turnos camino (empieza g0, g0) = Some (l', g') \<and>
    gameThreadMuerto g' = 1 \<and> ganada (reglas_de g') \<and> enemigo1muerto g' = 0 \<and>
    (\<exists>l1 g1. turnos (butlast camino) (empieza g0, g0) = Some (l1, g1) \<and> gameThreadMuerto g1 = 0)"
proof -
  obtain g0 where g0: "iniciaJuego g = Some g0" "game_ok mem g0" "hilo_ok (empieza g0)" "reglas_de g0 = inicial g"
    using iniciaJuego_spec [OF assms] by blast
  let ?cs = "replicate 8 119 @ replicate 27 100 @ [115] :: u8 list"
  have cs: "butlast camino = ?cs" "camino = ?cs @ [115]" by (simp_all add: camino_def numeral_eq_Suc)
  have start: "lugar (reglas_de g0) (40, 16)"
    using assms by (auto simp: g0(4) lugar_def inicial_def quieta_def patrulla_def reservado_def)
  have way: "ruta_ok ?cs (40, 16)" "fold sigue ?cs (40, 16) = (67, 9)"
    by code_simp+
  let ?r1 = "fold (\<lambda>c r. ronda (pulsa c r)) ?cs (reglas_de g0)"
  have r1: "viva ?cs (reglas_de g0)" "lugar ?r1 (67, 9)" using ruta [OF start way(1)] unfolding way(2) by simp_all
  have "xAntPlayer (empieza g0) = ch_x (player g0)" "yAntPlayer (empieza g0) = ch_y (player g0)"
    by (simp_all add: empieza_def)
  note t = turnos_refines [OF g0(2,3) this]
  have f2: "fold (\<lambda>c r. ronda (pulsa c r)) camino (reglas_de g0) = ronda (pulsa 115 ?r1)" unfolding cs(2) by simp
  have no_shot: "67 \<notin> set camino" by (simp add: camino_def)
  obtain l1 g1 where g1: "turnos ?cs (empieza g0, g0) = Some (l1, g1)" "reglas_de g1 = ?r1"
    using t [of ?cs] r1(1) by auto
  have fin1: "r_fin ?r1 = 0" using r1(2) by (simp add: lugar_def)
  have v2: "viva camino (reglas_de g0)"
  proof -
    have "viva (xs @ [c]) r \<longleftrightarrow> viva xs r \<and> r_fin (fold (\<lambda>c r. ronda (pulsa c r)) xs r) = 0" for xs c r
      by (induction xs arbitrary: r) auto
    then show ?thesis using r1(1) fin1 unfolding cs(2) by blast
  qed
  obtain l2 g2 where g2: "turnos camino (empieza g0, g0) = Some (l2, g2)" "reglas_de g2 = ronda (pulsa 115 ?r1)"
    using t [OF no_shot v2] unfolding f2 by blast
  obtain r2 where r2: "ronda (pulsa 115 ?r1) = acaba r2" "lugar r2 (67, 10)"
    using ronda_move [OF r1(2), of 115 67 10] by (auto simp: sigue_def libre_def)
  have w: "ganada r2" using r2(2) by (auto simp: ganada_def perdida_def toca_def lugar_def patrulla_def)
  have e: "reglas_de g2 = r2\<lparr>r_fin := 1\<rparr>" using g2(2) r2(1) w by (simp add: acaba_def)
  have "ganada (r2\<lparr>r_fin := 1\<rparr>)" using w by (simp add: ganada_def perdida_def)
  moreover have "gameThreadMuerto g2 = 1" "enemigo1muerto g2 = 0"
    using arg_cong [OF e, of r_fin] arg_cong [OF e, of r_m1] r2(2) by (simp_all add: reglas_de_def lugar_def quieta_def)
  moreover have "gameThreadMuerto g1 = 0" using arg_cong [OF g1(2), of r_fin] fin1 by (simp add: reglas_de_def)
  ultimately show ?thesis using g0(1) g1(1) g2(1) cs(1) e by auto
qed

lemma game_winnable_witness:
  "\<exists>g0 l' g'. iniciaJuego sample_game = Some g0 \<and> turnos camino (empieza g0, g0) = Some (l', g') \<and>
    gameThreadMuerto g' = 1"
  using game_winnable [OF reservado_sample] by blast

section \<open>A key between the move and its check\<close>

text \<open>C40. The move of the dragon and its check are two steps of \<open>gameThread\<close>, and a shot fired
  between them starts from a place the dragon cannot take: at the left border of the map the
  shot appears in column 0, and moving it reads \<^verbatim>\<open>mapa[y][-1]\<close>, outside of the map.\<close>
theorem shot_race:
  assumes "es_mapa (mapa g)" and "length (proyectiles g) = 10" and "\<forall>p \<in> set (proyectiles g). activo p = 0"
    and "ch_x (player g) = 2" and "libre (ch_x (player g)) (ch_y (player g))"
    and "ch_state (player g) = ST_LEFT" and "ch_dir (player g) = LEFT"
  shows "mueveProyectil 0 (tecla 67 (muevePlayer g)) = None"
proof -
  have f: "find_from 0 (\<lambda>i. activo (proyectiles g ! i) = 0) 0 10 = Some 0"
    using assms(2,3) by (simp add: find_from.simps)
  have y: "0 \<le> ch_y (player g) + 4" "ch_y (player g) + 4 < 25" using assms(5) by (auto simp: libre_def)
  have t: "tecla 67 (muevePlayer g) = g\<lparr>player := destino (player g), proyectiles := (proyectiles g)[0 :=
      \<lparr>pr_x = 0, pr_y = ch_y (player g) + 4, activo = 1, pr_dir = LEFT\<rparr>]\<rparr>"
    using f assms(4,6,7) by (simp add: tecla_def creaProyectil_def muevePlayer_eq destino_def Let_def)
  show ?thesis using assms(1,2) y unfolding t
    by (simp add: mueveProyectil_def avanza_def Let_def es_mapa_at2)
qed

lemma shot_race_witness:
  "mueveProyectil 0 (tecla 67 (muevePlayer (started_game\<lparr>player := \<lparr>ch_x = 2, ch_y = 10, ch_state = ST_LEFT, ch_dir = LEFT\<rparr>\<rparr>))) = None"
proof (rule shot_race)
  have "r_shots (reglas_de started_game) = r_shots (inicial sample_game)" using started(3) by simp
  then show "\<forall>p \<in> set (proyectiles (started_game\<lparr>player := \<lparr>ch_x = 2, ch_y = 10, ch_state = ST_LEFT, ch_dir = LEFT\<rparr>\<rparr>)). activo p = 0"
    by (simp add: reglas_de_def inicial_def)
qed (use started(1) in \<open>simp_all add: game_ok_def libre_def\<close>)

end
