(* ===== verification/Reading.thy ===== *)
theory Reading
  imports Threads
begin

text \<open>
  \<open>sys_read\<close> of \<^verbatim>\<open>sys.c\<close>: the caller joins the queue of readers, runs on when it is the only one
  and the keyboard buffer holds enough characters, and is suspended otherwise; the keyboard interrupt
  gives the CPU to the first reader, which is still on the queue when it runs.
\<close>

section \<open>Copies that do not fault\<close>

lemma copy_bytes_total:
  "\<forall>i < n. tr (p + i) \<noteq> None \<and> tr (q + i) \<noteq> None \<Longrightarrow> \<exists>m'. copy_bytes tr p q n m = Some m'"
proof (induction n arbitrary: p q m)
  case (Suc n)
  have "\<forall>i < n. tr (Suc p + i) \<noteq> None \<and> tr (Suc q + i) \<noteq> None"
    using Suc.prems by (metis Suc_less_eq add_Suc_shift)
  from Suc.IH [OF this] show ?case using Suc.prems [rule_format, of 0] by (auto simp: ld8_def st8_def)
qed simp

lemma ld32_mapped:
  assumes "\<forall>i < 4. tr (a + i) \<noteq> None"
  shows "\<exists>w. ld32 tr a m = Some w"
  using assms [rule_format, of 0] assms [rule_format, of 1] assms [rule_format, of 2] assms [rule_format, of 3]
  by (auto simp: ld32_def ld8_def)

lemma copy_words_total:
  "\<forall>i < nat sz. tr (p + i) \<noteq> None \<and> tr (q + i) \<noteq> None \<Longrightarrow>
     \<exists>k m'. copy_words tr p q sz m = Some (p + k, q + k, sz - int k, m') \<and> k \<le> nat sz"
proof (induction "nat sz" arbitrary: p q sz m rule: less_induct)
  case less
  show ?case
  proof (cases "sz > 4")
    case True
    have 4: "\<forall>i < 4. tr (p + i) \<noteq> None" "\<forall>i < 4. tr (q + i) \<noteq> None" using less.prems True by simp_all
    obtain w where w: "ld32 tr p m = Some w" using ld32_mapped [OF 4(1)] by blast
    obtain m1 where m1: "st32 tr q w m = Some m1" using st32_mapped [OF 4(2)] by blast
    have "\<forall>i < nat (sz - 4). tr (p + 4 + i) \<noteq> None \<and> tr (q + 4 + i) \<noteq> None"
      using less.prems by (auto simp: add.assoc)
    from less.hyps [OF _ this, of m1] True obtain k m' where
      "copy_words tr (p + 4) (q + 4) (sz - 4) m1 = Some (p + 4 + k, q + 4 + k, sz - 4 - int k, m')" "k \<le> nat (sz - 4)"
      by auto
    then show ?thesis using True w m1
      by (intro exI [of _ "4 + k"] exI [of _ m']) (subst copy_words.simps, auto simp: add.assoc)
  next
    case False
    then show ?thesis by (intro exI [of _ 0]) (subst copy_words.simps, simp)
  qed
qed

lemma copy_data_total:
  assumes "\<forall>i < nat sz. tr (p + i) \<noteq> None \<and> tr (q + i) \<noteq> None"
  shows "\<exists>m'. copy_data tr p q sz m = Some m'"
proof -
  obtain k m1 where k: "copy_words tr p q sz m = Some (p + k, q + k, sz - int k, m1)" "k \<le> nat sz"
    using copy_words_total [OF assms] by blast
  have "\<forall>i < nat (sz - int k). tr (p + k + i) \<noteq> None \<and> tr (q + k + i) \<noteq> None"
    using assms k(2) by (auto simp: add.assoc)
  from copy_bytes_total [OF this] k(1) show ?thesis by (simp add: copy_data_def)
qed

section \<open>A reader that has the CPU\<close>

text \<open>A thread that waits for characters gets the CPU from the keyboard interrupt while it is still
  on the queue of readers; in \<open>sys_read\<close> the caller is in the same state.\<close>

definition reading :: "kstate \<Rightarrow> lnode lists \<Rightarrow> bool" where
  "reading s Q \<longleftrightarrow> yieldable s Q \<and> cur s \<in> set (tasks_on Q ReadBlocked)"

lemma reading_fields:
  assumes "sched_inv s Q" "reading s Q"
  shows "cur s < NR_TASKS" "cur s \<noteq> idle_task s" "live Q (cur s)" "current_state (task s (cur s)) = ST_READBLOCKED"
    "cr3 (mm s) = dir_pages_baseAddr (task s (cur s))" "cur s \<notin> set (tasks_on Q Readyqueue)"
    "cur s \<notin> set (tasks_on Q Blocked)" "on_list Q ReadBlocked (TList (cur s))"
proof -
  have r: "reps (links s) Q" and ty: "typed Q" using assms(1) by (simp_all add: sched_inv_def)
  show l: "on_list Q ReadBlocked (TList (cur s))"
    using assms(2) on_queue_iff [OF ty, of ReadBlocked] by (simp add: reading_def)
  show t: "cur s < NR_TASKS" "cur s \<noteq> idle_task s" using assms(1) l unfolding sched_inv_def by blast+
  show lv: "live Q (cur s)" using dl.on_list_unique [OF r l, of Freequeue] by (auto simp: live_def)
  show "current_state (task s (cur s)) = ST_READBLOCKED"
    using sched_inv_state [OF assms(1) t] l by (auto simp: state_ok_def)
  show "cr3 (mm s) = dir_pages_baseAddr (task s (cur s))"
    using assms(2) lv by (simp add: reading_def yieldable_def)
  show "cur s \<notin> set (tasks_on Q Readyqueue)" "cur s \<notin> set (tasks_on Q Blocked)"
    using dl.on_list_unique [OF r l, of Readyqueue] dl.on_list_unique [OF r l, of Blocked]
      on_queue_iff [OF ty, of Readyqueue "cur s"] on_queue_iff [OF ty, of Blocked "cur s"] by auto
qed

text \<open>It leaves the queue and runs when its characters are copied.\<close>

lemma read_finish_spec:
  assumes inv: "sched_inv s Q" and rd: "reading s Q"
    and cp: "copy_data (translate (mm s)) (tmpbuff s) b n
      (store_bytes (tmpbuff s) (fst (pop_loop kb_buffer_pop (nat n) (kb s))) (ram s)) = Some r"
  shows "\<exists>s' Q'. read_finish b n s = Some (Ret n, s') \<and> sched_inv s' Q' \<and> cpu_inv s' Q' \<and>
     tasks_on Q' ReadBlocked = remove1 (cur s) (tasks_on Q ReadBlocked) \<and> (\<forall>a. a \<noteq> ReadBlocked \<longrightarrow> Q' a = Q a) \<and>
     cur s' = cur s \<and> kb s' = snd (pop_loop kb_buffer_pop (nat n) (kb s)) \<and> ram s' = r \<and>
     (\<forall>t. k_ctx (task s' t) = k_ctx (task s t)) \<and>
     sched_frame (s\<lparr>kb := snd (pop_loop kb_buffer_pop (nat n) (kb s)), ram := r\<rparr>) s'"
proof -
  note f = reading_fields [OF inv rd]
  have r0: "reps (links s) Q" and ty: "typed Q" using inv by (simp_all add: sched_inv_def)
  let ?s = "s\<lparr>kb := snd (pop_loop kb_buffer_pop (nat n) (kb s)), ram := r\<rparr>"
  have inv1: "sched_inv ?s Q" by (rule sched_inv_cong [OF inv]) simp_all
  obtain h where h: "update_process_state_rr (cur s) None ?s = Some (moved (cur s) None h ?s)"
    "sched_inv (moved (cur s) None h ?s) (requeue (cur s) None Q)"
    using sched_inv_moved [OF inv1, of "cur s" None] f by auto
  let ?s' = "moved (cur s) None h ?s" and ?Q = "requeue (cur s) None Q"
  have lv: "live ?Q t = live Q t" for t by (rule live_requeue [OF r0 _ f(3)]) simp
  have y: "\<forall>t < NR_TASKS. live Q t \<longrightarrow> current_state (task s t) = ST_RUN \<longrightarrow> t = cur s" "esp0 s = cur s"
    using rd by (simp_all add: reading_def yieldable_def)
  have "current_state (task ?s' t) = ST_RUN \<longleftrightarrow> t = cur ?s'" if "t < NR_TASKS" "live ?Q t" for t
  proof (cases "t = cur s")
    case False
    then have "current_state (task s t) \<noteq> ST_RUN" using y(1) that lv by blast
    then show ?thesis using False by simp
  qed simp
  then have "cpu_inv ?s' ?Q" unfolding cpu_inv_def using y(2) f(1,3,5) by (simp add: lv)
  moreover have "?Q a = Q a" if "a \<noteq> ReadBlocked" for a
  proof -
    have "\<not> on_list Q a (TList (cur s))" using dl.on_list_unique [OF r0 f(8), of a] that by auto
    then show ?thesis by (cases "Q a") (simp_all add: requeue_def unlink_def on_list_def remove1_absent)
  qed
  moreover have "tasks_on ?Q ReadBlocked = remove1 (cur s) (tasks_on Q ReadBlocked)"
    using tasks_on_requeue [OF ty, of ReadBlocked "cur s" None] by simp
  moreover have "read_finish b n s = Some (Ret n, ?s')"
    using cp h(1) by (simp add: read_finish_def case_prod_beta copy_user_eq)
  ultimately show ?thesis using h(2)
    by (intro exI [of _ ?s'] exI [of _ ?Q]) (simp add: sched_frame_moved)
qed

text \<open>While characters are missing it gives the CPU to the next ready thread.\<close>

lemma reader_yields:
  assumes inv: "sched_inv s Q" and rd: "reading s Q"
  shows "\<exists>s' Q'. sched_next_rr kc s = Some (True, s') \<and> sched_inv s' Q' \<and> cpu_inv s' Q' \<and>
     (cur s', tasks_on Q' Readyqueue) = rr_next (idle_task s) False (cur s, tasks_on Q Readyqueue) \<and>
     (\<forall>a. a \<noteq> Readyqueue \<longrightarrow> Q' a = Q a) \<and> cur s' \<noteq> cur s \<and> k_ctx (task s' (cur s)) = kc \<and>
     (\<forall>t. t \<noteq> cur s \<longrightarrow> k_ctx (task s' t) = k_ctx (task s t)) \<and> sched_frame s s'"
proof -
  note f = reading_fields [OF inv rd]
  have y: "yieldable s Q" using rd by (simp add: reading_def)
  obtain sw s' Q' where s': "sched_next_rr kc s = Some (sw, s')" "sched_inv s' Q'" "cpu_inv s' Q'"
     "(cur s', tasks_on Q' Readyqueue) = rr_next (idle_task s) False (cur s, tasks_on Q Readyqueue)"
     "\<forall>a. a \<noteq> Readyqueue \<longrightarrow> Q' a = Q a" "sw = (cur s' \<noteq> cur s)" "sw \<longrightarrow> k_ctx (task s' (cur s)) = kc"
     "sched_frame s s'" "\<forall>t. t \<noteq> cur s \<longrightarrow> k_ctx (task s' t) = k_ctx (task s t)"
    using sched_next_rr_spec [OF inv y, of kc] f(4) by auto
  have "cur s' \<noteq> cur s" using s'(4) f(2,6) by (cases "tasks_on Q Readyqueue") auto
  with s' show ?thesis by (intro exI [of _ s'] exI [of _ Q']) simp
qed

section \<open>read\<close>

text \<open>The arguments \<open>sys_read\<close> accepts.\<close>

definition readable :: "u32 \<Rightarrow> int \<Rightarrow> bool" where
  "readable b n \<longleftrightarrow> b \<noteq> 0 \<and> 0 \<le> n \<and> access_ok VERIFY_WRITE b (word_of_int n) \<noteq> 0"

lemma sys_read_joins:
  assumes inv: "sched_inv s Q" and cpu: "cpu_inv s Q" and ni: "cur s \<noteq> idle_task s" and ok: "readable b n"
  shows "\<exists>s1 Q1. update_process_state_rr (cur s) (Some ReadBlocked) s = Some s1 \<and> sched_inv s1 Q1 \<and> reading s1 Q1 \<and>
     tasks_on Q1 ReadBlocked = tasks_on Q ReadBlocked @ [cur s] \<and> (\<forall>a. a \<noteq> ReadBlocked \<longrightarrow> Q1 a = Q a) \<and>
     cur s1 = cur s \<and> (\<forall>t. k_ctx (task s1 t) = k_ctx (task s t)) \<and> sched_frame s s1 \<and> mm s1 = mm s \<and>
     sys_read b n s = (if tasks_on Q ReadBlocked \<noteq> [] then sched_then (KRead (unat b) n) (read_loop (unat b) n) s1
                       else read_loop (unat b) n s1)"
proof -
  have r: "reps (links s) Q" and ty: "typed Q" using inv by (simp_all add: sched_inv_def)
  have c: "cur s < NR_TASKS" "live Q (cur s)" using cpu by (simp_all add: cpu_inv_def)
  have n: "\<forall>a. \<not> on_list Q a (TList (cur s))" using live_linked [OF inv c(1) ni c(2)] cpu_running [OF cpu] by blast
  obtain h where h: "update_process_state_rr (cur s) (Some ReadBlocked) s = Some (moved (cur s) (Some ReadBlocked) h s)"
    "sched_inv (moved (cur s) (Some ReadBlocked) h s) (requeue (cur s) (Some ReadBlocked) Q)"
    using sched_inv_moved [OF inv c(1) ni c(2), of "Some ReadBlocked"] by auto
  let ?s1 = "moved (cur s) (Some ReadBlocked) h s" and ?Q1 = "requeue (cur s) (Some ReadBlocked) Q"
  have ty1: "typed ?Q1" and r1: "reps (links ?s1) ?Q1" using h(2) by (simp_all add: sched_inv_def)
  have lv: "live ?Q1 t = live Q t" for t by (rule live_requeue [OF r _ c(2)]) simp
  have "cur s \<notin> set (tasks_on Q ReadBlocked)" using n on_queue_iff [OF ty, of ReadBlocked "cur s"] by simp
  then have q: "tasks_on ?Q1 ReadBlocked = tasks_on Q ReadBlocked @ [cur s]"
    using tasks_on_requeue [OF ty, of ReadBlocked "cur s" "Some ReadBlocked"] by (simp add: remove1_absent)
  have "yieldable ?s1 ?Q1" using cpu unfolding yieldable_def cpu_inv_def by (auto simp: lv)
  then have rd: "reading ?s1 ?Q1" by (simp add: reading_def q)
  have o: "?Q1 a = Q a" if "a \<noteq> ReadBlocked" for a
    using that unlink_id [OF n] by (simp add: requeue_def enqueue_def)
  have Q1: "?Q1 ReadBlocked = Some (map TList (tasks_on Q ReadBlocked @ [cur s]))"
    using tasks_on_queue [OF ty1, of ReadBlocked] q by simp
  define f where "f = hd (tasks_on Q ReadBlocked @ [cur s])"
  obtain rest where fr: "tasks_on Q ReadBlocked @ [cur s] = f # rest" unfolding f_def by (cases "tasks_on Q ReadBlocked") auto
  have first: "list_empty ReadBlocked h = False" "list_first ReadBlocked h = Some (TList f)"
    using dl.rep_empty [OF r1 Q1] dl.rep_first [OF r1 Q1] fr by simp_all
  have "PID (task s f) = PID (task s (cur s)) \<longleftrightarrow> tasks_on Q ReadBlocked = []"
  proof (cases "tasks_on Q ReadBlocked")
    case (Cons u us)
    then have "on_list Q ReadBlocked (TList f)" using on_queue_iff [OF ty, of ReadBlocked f] by (simp add: f_def)
    then have u: "f < NR_TASKS" "f \<noteq> cur s" "live Q f"
      using n inv dl.on_list_unique [OF r, of ReadBlocked "TList f" Freequeue]
      unfolding sched_inv_def live_def by blast+
    have "PID (task s f) \<noteq> PID (task s (cur s))" using inv u c unfolding sched_inv_def by blast
    with Cons show ?thesis by simp
  qed (simp add: f_def)
  then have "sys_read b n s = (if tasks_on Q ReadBlocked \<noteq> [] then sched_then (KRead (unat b) n) (read_loop (unat b) n) ?s1
                       else read_loop (unat b) n ?s1)"
    using ok h(1) first by (simp add: sys_read_def readable_def list_owner_def)
  then show ?thesis using h rd q o by (intro exI [of _ ?s1] exI [of _ ?Q1]) (simp add: sched_frame_moved)
qed

text \<open>\<open>read_dest s b n P\<close>: the \<open>n\<close> bytes at the user address \<open>b\<close> are mapped to the places \<open>P\<close>, outside of
  the kernel's buffer, which is mapped to itself.\<close>

definition read_dest :: "kstate \<Rightarrow> nat \<Rightarrow> nat \<Rightarrow> (nat \<Rightarrow> nat) \<Rightarrow> bool" where
  "read_dest s b n P \<longleftrightarrow> inj_on P {..<n} \<and>
     (\<forall>i < n. translate (mm s) (tmpbuff s + i) = Some (tmpbuff s + i) \<and> translate (mm s) (b + i) = Some (P i) \<and>
        P i \<notin> {tmpbuff s..<tmpbuff s + n})"

text \<open>The first \<open>n\<close> characters of the keyboard are at the places \<open>P\<close>, and gone from the buffer.\<close>

definition received :: "kstate \<Rightarrow> nat \<Rightarrow> (nat \<Rightarrow> nat) \<Rightarrow> kstate \<Rightarrow> bool" where
  "received s n P s' \<longleftrightarrow> map (\<lambda>i. ram s' (P i)) [0..<n] = take n (kb_list (kb s)) \<and>
     kb_list (kb s') = drop n (kb_list (kb s)) \<and> kb_inv (kb s') \<and>
     (\<forall>x. x \<notin> P ` {..<n} \<union> {tmpbuff s..<tmpbuff s + n} \<longrightarrow> ram s' x = ram s x)"

lemma read_enough:
  assumes inv: "sched_inv s Q" and rd: "reading s Q" and kb: "kb_inv (kb s)" and n: "n \<le> length (kb_list (kb s))"
    and dst: "read_dest s b n P"
  shows "\<exists>s' Q'. read_loop b (int n) s = Some (Ret (int n), s') \<and> sched_inv s' Q' \<and> cpu_inv s' Q' \<and>
     tasks_on Q' ReadBlocked = remove1 (cur s) (tasks_on Q ReadBlocked) \<and> (\<forall>a. a \<noteq> ReadBlocked \<longrightarrow> Q' a = Q a) \<and>
     cur s' = cur s \<and> received s n P s'"
proof -
  let ?cs = "fst (pop_loop kb_buffer_pop n (kb s))" and ?k = "snd (pop_loop kb_buffer_pop n (kb s))"
  have p: "?cs = take n (kb_list (kb s))" "kb_list ?k = drop n (kb_list (kb s))" "kb_inv ?k"
    using kbq.pop_loop_spec [OF kb n] by simp_all
  let ?m = "store_bytes (tmpbuff s) ?cs (ram s)"
  have m: "?m (tmpbuff s + i) = ?cs ! i" if "i < n" for i using that p(1) n by (simp add: store_bytes_def)
  have away: "tmpbuff s + i \<noteq> P j" if "i < n" "j < n" for i j
  proof -
    have "P j \<notin> {tmpbuff s..<tmpbuff s + n}" using dst that(2) by (simp add: read_dest_def)
    then show ?thesis using that(1) by auto
  qed
  obtain r where r: "copy_data (translate (mm s)) (tmpbuff s) b (int n) ?m = Some r"
    "\<forall>i < n. r (P i) = ?m (tmpbuff s + i)" "\<forall>x. x \<notin> P ` {..<n} \<longrightarrow> r x = ?m x"
    using copy_data_blit [of "int n" "translate (mm s)" "tmpbuff s" "(+) (tmpbuff s)" b P ?m] dst away
    by (auto simp: read_dest_def)
  obtain s' Q' where s': "read_finish b (int n) s = Some (Ret (int n), s')" "sched_inv s' Q'" "cpu_inv s' Q'"
     "tasks_on Q' ReadBlocked = remove1 (cur s) (tasks_on Q ReadBlocked)" "\<forall>a. a \<noteq> ReadBlocked \<longrightarrow> Q' a = Q a"
     "cur s' = cur s" "kb s' = ?k" "ram s' = r"
    using read_finish_spec [OF inv rd, of b "int n" r] r(1) by auto
  have "map (\<lambda>i. r (P i)) [0..<n] = take n (kb_list (kb s))"
    by (rule nth_equalityI) (use r(2) m p(1) n in simp_all)
  moreover have "r x = ram s x" if "x \<notin> P ` {..<n} \<union> {tmpbuff s..<tmpbuff s + n}" for x
    using r(3) that p(1) n by (auto simp: store_bytes_def)
  ultimately have "received s n P s'" using p s'(7,8) by (simp add: received_def)
  moreover have "read_loop b (int n) s = read_finish b (int n) s"
    using n kbq.count [OF kb] by (subst read_loop.simps) simp
  ultimately show ?thesis using s' by (intro exI [of _ s'] exI [of _ Q']) simp
qed

text \<open>Otherwise the caller is suspended in \<open>read\<close>, whatever comes behind the call of \<open>sched_next_rr\<close>.\<close>

lemma reader_suspended:
  assumes inv: "sched_inv s Q" and rd: "reading s Q"
  shows "\<exists>s' Q'. sched_then kc rest s = Some (Switched, s') \<and> sched_inv s' Q' \<and> cpu_inv s' Q' \<and>
     (cur s', tasks_on Q' Readyqueue) = rr_next (idle_task s) False (cur s, tasks_on Q Readyqueue) \<and>
     (\<forall>a. a \<noteq> Readyqueue \<longrightarrow> Q' a = Q a) \<and> cur s' \<noteq> cur s \<and> k_ctx (task s' (cur s)) = kc \<and>
     (\<forall>t. t \<noteq> cur s \<longrightarrow> k_ctx (task s' t) = k_ctx (task s t)) \<and> sched_frame s s'"
  using reader_yields [OF assms, of kc] unfolding sched_then_def by fastforce

lemma read_loop_waits:
  "int (kb_buffer_size (kb s)) < n \<Longrightarrow> read_loop b n s = sched_then (KRead b n) (read_loop b n) s"
  by (subst read_loop.simps) (simp add: sched_then_def case_prod_beta)

lemma sys_read_suspends:
  assumes inv: "sched_inv s Q" and cpu: "cpu_inv s Q" and ni: "cur s \<noteq> idle_task s" and ok: "readable b n"
    and w: "tasks_on Q ReadBlocked \<noteq> [] \<or> int (kb_buffer_size (kb s)) < n"
  shows "\<exists>s' Q'. sys_read b n s = Some (Switched, s') \<and> sched_inv s' Q' \<and> cpu_inv s' Q' \<and>
     (cur s', tasks_on Q' Readyqueue) = rr_next (idle_task s) False (cur s, tasks_on Q Readyqueue) \<and>
     tasks_on Q' ReadBlocked = tasks_on Q ReadBlocked @ [cur s] \<and>
     (\<forall>a. a \<noteq> Readyqueue \<longrightarrow> a \<noteq> ReadBlocked \<longrightarrow> Q' a = Q a) \<and> cur s' \<noteq> cur s \<and>
     k_ctx (task s' (cur s)) = KRead (unat b) n \<and>
     (\<forall>t. t \<noteq> cur s \<longrightarrow> k_ctx (task s' t) = k_ctx (task s t)) \<and> sched_frame s s'"
proof -
  let ?rest = "read_loop (unat b) n"
  obtain s1 Q1 where s1: "sched_inv s1 Q1" "reading s1 Q1" "tasks_on Q1 ReadBlocked = tasks_on Q ReadBlocked @ [cur s]"
     "\<forall>a. a \<noteq> ReadBlocked \<longrightarrow> Q1 a = Q a" "cur s1 = cur s" "\<forall>t. k_ctx (task s1 t) = k_ctx (task s t)" "sched_frame s s1"
     "sys_read b n s = (if tasks_on Q ReadBlocked \<noteq> [] then sched_then (KRead (unat b) n) ?rest s1 else ?rest s1)"
    using sys_read_joins [OF inv cpu ni ok] by blast
  have "kb s1 = kb s" using s1(7) by (simp add: sched_frame_def)
  then have e: "sys_read b n s = sched_then (KRead (unat b) n) ?rest s1"
    using s1(8) w read_loop_waits [of s1 n "unat b"] by (cases "tasks_on Q ReadBlocked = []") simp_all
  obtain s' Q' where s': "sched_then (KRead (unat b) n) ?rest s1 = Some (Switched, s')" "sched_inv s' Q'" "cpu_inv s' Q'"
     "(cur s', tasks_on Q' Readyqueue) = rr_next (idle_task s1) False (cur s1, tasks_on Q1 Readyqueue)"
     "\<forall>a. a \<noteq> Readyqueue \<longrightarrow> Q' a = Q1 a" "cur s' \<noteq> cur s1" "k_ctx (task s' (cur s1)) = KRead (unat b) n"
     "\<forall>t. t \<noteq> cur s1 \<longrightarrow> k_ctx (task s' t) = k_ctx (task s1 t)" "sched_frame s1 s'"
    using reader_suspended [OF s1(1,2), of "KRead (unat b) n" ?rest] by blast
  have "tasks_on Q1 Readyqueue = tasks_on Q Readyqueue" "tasks_on Q' ReadBlocked = tasks_on Q1 ReadBlocked"
    using s1(4) s'(5) by (simp_all add: tasks_on_def)
  moreover have "idle_task s1 = idle_task s" using sched_frame_fields(6) [OF s1(7)] .
  ultimately show ?thesis using e s' s1(3-6) sched_frame_trans [OF s1(7) s'(9)]
    by (intro exI [of _ s'] exI [of _ Q']) simp
qed

section \<open>The keyboard interrupt\<close>

lemma keyboard_routine_eq:
  assumes "decode_key b = Some c"
    and "s1 = (if kb_buffer_size (kb s) < KB_BUFFER_SIZE then s\<lparr>kb := kb_buffer_push c (kb s)\<rparr> else s)"
  shows "keyboard_routine b s = (if list_empty ReadBlocked (links s1) then Some (RetVoid, s1)
     else do {
       e \<leftarrow> list_first ReadBlocked (links s1);
       s2 \<leftarrow> (if current_state (task s1 (cur s1)) = ST_RUN
              then update_process_state_rr (cur s1) (Some Readyqueue) s1 else Some s1);
       nt \<leftarrow> list_head_to_task_struct e;
       Some (Switched, inner_task_switch nt KInterrupt s2) })"
  unfolding keyboard_routine_def assms by (simp add: Let_def)

lemma keyboard_routine_spec:
  assumes inv: "sched_inv s Q" and cpu: "cpu_inv s Q" and c: "decode_key b = Some c"
    and q: "tasks_on Q ReadBlocked = t # ts"
    and s1: "s1 = (if kb_buffer_size (kb s) < KB_BUFFER_SIZE then s\<lparr>kb := kb_buffer_push c (kb s)\<rparr> else s)"
  shows "\<exists>s' Q'. keyboard_routine b s = Some (Switched, s') \<and> sched_inv s' Q' \<and> reading s' Q' \<and> cur s' = t \<and>
     tasks_on Q' Readyqueue = tasks_on Q Readyqueue @ (if cur s \<noteq> idle_task s then [cur s] else []) \<and>
     (\<forall>a. a \<noteq> Readyqueue \<longrightarrow> Q' a = Q a) \<and> t \<noteq> cur s \<and> k_ctx (task s' (cur s)) = KInterrupt \<and>
     (\<forall>t. t \<noteq> cur s \<longrightarrow> k_ctx (task s' t) = k_ctx (task s t)) \<and> sched_frame s1 s'"
proof -
  have r: "reps (links s) Q" and ty: "typed Q" using inv by (simp_all add: sched_inv_def)
  have f: "links s1 = links s" "task s1 = task s" "idle_task s1 = idle_task s" "cur s1 = cur s" "mm s1 = mm s" "esp0 s1 = esp0 s"
    by (simp_all add: s1)
  have inv1: "sched_inv s1 Q" by (rule sched_inv_cong [OF inv]) (simp_all add: f)
  have cpu1: "cpu_inv s1 Q" by (rule cpu_inv_cong [OF cpu]) (simp_all add: f)
  have Qr: "Q ReadBlocked = Some (TList t # map TList ts)" using tasks_on_queue [OF ty, of ReadBlocked] q by simp
  have l: "on_list Q ReadBlocked (TList t)" using Qr by (simp add: on_list_def)
  have tn: "t < NR_TASKS" "t \<noteq> idle_task s" "live Q t"
    using inv l dl.on_list_unique [OF r l, of Freequeue] unfolding sched_inv_def live_def by blast+
  have ne: "t \<noteq> cur s"
    using live_linked [OF inv tn] cpu_running [OF cpu] l by auto
  have first: "\<not> list_empty ReadBlocked (links s1)" "list_first ReadBlocked (links s1) = Some (TList t)"
    using dl.rep_empty [OF r Qr] dl.rep_first [OF r Qr] f(1) by simp_all
  have run: "current_state (task s1 (cur s1)) = ST_RUN" using cpu_running [OF cpu1] .
  obtain s2 Q2 where s2: "(if current_state (task s1 (cur s1)) = ST_RUN
       then update_process_state_rr (cur s1) (Some Readyqueue) s1 else Some s1) = Some s2" "sched_inv s2 Q2"
     "\<forall>t < NR_TASKS. live Q2 t \<longrightarrow> current_state (task s2 t) \<noteq> ST_RUN"
     "tasks_on Q2 Readyqueue = tasks_on Q Readyqueue @
       (if current_state (task s1 (cur s1)) = ST_RUN \<and> cur s1 \<noteq> idle_task s1 then [cur s1] else [])"
     "\<forall>d. d \<noteq> Readyqueue \<longrightarrow> Q2 d = Q d" "\<forall>t. k_ctx (task s2 t) = k_ctx (task s1 t)"
     "sched_frame s1 s2" "cur s2 = cur s1" "mm s2 = mm s1" "esp0 s2 = esp0 s1"
    using preempt [OF inv1 cpu_inv_yieldable [OF cpu1]] by blast
  let ?s' = "inner_task_switch t KInterrupt s2"
  have lv: "live Q2 t" using s2(5) tn(3) by (simp add: live_def on_list_def)
  have "keyboard_routine b s = Some (Switched, ?s')"
    using s2(1) first run keyboard_routine_eq [OF c s1] by simp
  moreover have "sched_inv ?s' Q2" by (rule sched_inv_cong [OF s2(2)]) simp_all
  moreover have "reading ?s' Q2"
  proof -
    have "cr3 (mm s2) = dir_pages_baseAddr (task s2 (cur s2))"
      using cpu1 s2(8,9) sched_frame_fields(3) [OF s2(7)] by (simp add: cpu_inv_def)
    then have "cr3 (mm ?s') = dir_pages_baseAddr (task s2 t)" using inner_task_switch_cr3 by blast
    moreover have "tasks_on Q2 ReadBlocked = t # ts" using s2(5) q by (simp add: tasks_on_def)
    ultimately show ?thesis using s2(3) tn(1) lv by (simp add: reading_def yieldable_def)
  qed
  ultimately show ?thesis using s2 ne run f sched_frame_trans [OF s2(7) inner_task_switch_simps(11)]
    by (intro exI [of _ ?s'] exI [of _ Q2]) simp
qed

section \<open>The properties\<close>

text \<open>C6. \<open>read\<close> of \<open>n\<close> characters: when nobody else waits and the keyboard buffer holds \<open>n\<close>, the caller
  goes on with exactly the first \<open>n\<close> characters in its buffer, they are gone from the keyboard
  buffer, no queue is changed and no other memory but the kernel's buffer; otherwise the caller
  joins the end of the queue of readers, suspended in \<open>read\<close>, the next ready thread runs, and
  no character is lost.\<close>
theorem sys_read_ok:
  assumes "sched_inv s Q" and "cpu_inv s Q" and "cur s \<noteq> idle_task s" and "kb_inv (kb s)"
    and "readable b (int n)" and "read_dest s (unat b) n P"
  shows "if tasks_on Q ReadBlocked = [] \<and> n \<le> length (kb_list (kb s))
     then \<exists>s' Q'. sys_read b (int n) s = Some (Ret (int n), s') \<and> sched_inv s' Q' \<and> cpu_inv s' Q' \<and>
       cur s' = cur s \<and> tasks_on Q' ReadBlocked = [] \<and> (\<forall>a. a \<noteq> ReadBlocked \<longrightarrow> Q' a = Q a) \<and> received s n P s'
     else \<exists>s' Q'. sys_read b (int n) s = Some (Switched, s') \<and> sched_inv s' Q' \<and> cpu_inv s' Q' \<and>
       (cur s', tasks_on Q' Readyqueue) = rr_next (idle_task s) False (cur s, tasks_on Q Readyqueue) \<and>
       tasks_on Q' ReadBlocked = tasks_on Q ReadBlocked @ [cur s] \<and>
       k_ctx (task s' (cur s)) = KRead (unat b) (int n) \<and> ram s' = ram s \<and> kb s' = kb s"
proof (cases "tasks_on Q ReadBlocked = [] \<and> n \<le> length (kb_list (kb s))")
  case True
  obtain s1 Q1 where s1: "sched_inv s1 Q1" "reading s1 Q1" "tasks_on Q1 ReadBlocked = tasks_on Q ReadBlocked @ [cur s]"
     "\<forall>a. a \<noteq> ReadBlocked \<longrightarrow> Q1 a = Q a" "cur s1 = cur s" "sched_frame s s1" "mm s1 = mm s"
     "sys_read b (int n) s = (if tasks_on Q ReadBlocked \<noteq> []
       then sched_then (KRead (unat b) (int n)) (read_loop (unat b) (int n)) s1 else read_loop (unat b) (int n) s1)"
    using sys_read_joins [OF assms(1-3,5)] by blast
  have f: "kb s1 = kb s" "ram s1 = ram s" "tmpbuff s1 = tmpbuff s" using s1(6) by (simp_all add: sched_frame_def)
  have "\<exists>s' Q'. read_loop (unat b) (int n) s1 = Some (Ret (int n), s') \<and> sched_inv s' Q' \<and> cpu_inv s' Q' \<and>
     tasks_on Q' ReadBlocked = remove1 (cur s1) (tasks_on Q1 ReadBlocked) \<and> (\<forall>a. a \<noteq> ReadBlocked \<longrightarrow> Q' a = Q1 a) \<and>
     cur s' = cur s1 \<and> received s1 n P s'"
    by (rule read_enough [OF s1(1,2)]) (use assms(4,6) True f s1(7) in \<open>simp_all add: read_dest_def\<close>)
  with True s1(3-5,8) f show ?thesis by (auto simp: received_def)
next
  case False
  then have "tasks_on Q ReadBlocked \<noteq> [] \<or> int (kb_buffer_size (kb s)) < int n" using kbq.count [OF assms(4)] by auto
  from sys_read_suspends [OF assms(1-3,5) this] False show ?thesis
    by (auto simp: sched_frame_def)
qed

text \<open>A user that reads while two characters are in the keyboard buffer.\<close>

definition listener :: kstate where
  "listener = spawner\<lparr>tmpbuff := 0x21000, kb := fold kb_buffer_push [104, 105] init_kb\<rparr>"

lemma listener_inv:
  "sched_inv listener boot_queues" "cpu_inv listener boot_queues" "cur listener = 1" "idle_task listener = 0"
  "kb_inv (kb listener)" "kb_list (kb listener) = [104, 105]" "tmpbuff listener = 0x21000"
  "\<exists>d. dir_pages_baseAddr (task listener 1) = Some d \<and> mm listener = flat_mm (Some d)"
proof -
  show "sched_inv listener boot_queues"
    by (rule sched_inv_cong [OF spawner_inv(1)]) (simp_all add: listener_def)
  show "cpu_inv listener boot_queues"
    by (rule cpu_inv_cong [OF spawner_inv(2)]) (simp_all add: listener_def)
  have "kb_inv init_kb" "kb_list init_kb = []"
    by (simp_all add: kb_inv_def init_kb_def kb_list_def kb_buffer_size_def)
  then show "kb_inv (kb listener)" "kb_list (kb listener) = [104, 105]"
    using kbq.push_pop_order [of init_kb "[104, 105]"] by (simp_all add: listener_def)
  show "\<exists>d. dir_pages_baseAddr (task listener 1) = Some d \<and> mm listener = flat_mm (Some d)"
    using spawner_inv(4) by (simp add: listener_def spawner_fields del: One_nat_def)
qed (simp_all add: listener_def spawner_fields del: One_nat_def)

lemma flat_dest:
  assumes "mm s = flat_mm (Some d)" "tmpbuff s = 0x21000" "n \<le> 16"
  shows "read_dest s 0x101000 n (\<lambda>i. 0x101000 + i)"
  using assms by (simp add: read_dest_def translate_flat inj_on_def)

lemma listener_readable: "readable 0x101000 2" "readable 0x101000 3"
  by (simp_all add: readable_def access_ok_def Let_def)

lemma sys_read_ok_witness:
  "\<exists>s'. sys_read 0x101000 2 listener = Some (Ret 2, s') \<and> ram s' 0x101000 = 104 \<and> ram s' 0x101001 = 105 \<and>
     kb_list (kb s') = []"
proof -
  obtain d where d: "mm listener = flat_mm (Some d)" using listener_inv(8) by blast
  have "cur listener \<noteq> idle_task listener" "unat (0x101000 :: u32) = 0x101000" by (simp_all add: listener_inv(3,4))
  moreover have "readable 0x101000 (int 2)" using listener_readable(1) by simp
  ultimately show ?thesis
    using sys_read_ok [OF listener_inv(1,2) _ listener_inv(5), of "0x101000" 2 "\<lambda>i. 0x101000 + i"]
      flat_dest [OF d listener_inv(7), of 2]
    by (auto simp: tasks_on_boot listener_inv(6) received_def upt_rec)
qed

text \<open>C7. A key that completes what the first reader waits for: the interrupt gives it the CPU at
  once, before every ready thread; it returns from \<open>read\<close> with its characters, the new one
  last if it asked for all of them, and the interrupted thread waits at the end of the ready queue.\<close>
theorem key_feeds_reader:
  assumes "sched_inv s Q" and "cpu_inv s Q" and "kb_inv (kb s)" and "length (kb_list (kb s)) < 254"
    and "decode_key b = Some c" and "tasks_on Q ReadBlocked = t # ts" and "k_ctx (task s t) = KRead a (int n)"
    and "n \<le> Suc (length (kb_list (kb s)))"
    and "read_dest (set_cr3 (get_DIR t s) s) a n P"
  shows "\<exists>s1 s2 Q2. keyboard_routine b s = Some (Switched, s1) \<and> resume s1 = Some (Ret (int n), s2) \<and>
     sched_inv s2 Q2 \<and> cpu_inv s2 Q2 \<and> cur s2 = t \<and> tasks_on Q2 ReadBlocked = ts \<and>
     tasks_on Q2 Readyqueue = tasks_on Q Readyqueue @ (if cur s \<noteq> idle_task s then [cur s] else []) \<and>
     map (\<lambda>i. ram s2 (P i)) [0..<n] = take n (kb_list (kb s) @ [c]) \<and>
     kb_list (kb s2) = drop n (kb_list (kb s) @ [c])"
proof -
  let ?s = "if kb_buffer_size (kb s) < KB_BUFFER_SIZE then s\<lparr>kb := kb_buffer_push c (kb s)\<rparr> else s"
  have sz: "kb_buffer_size (kb s) < KB_BUFFER_SIZE" using kb_size_bound [OF assms(3)] by simp
  have kb: "kb_inv (kb ?s)" "kb_list (kb ?s) = kb_list (kb s) @ [c]"
    using kbq.push [OF assms(3,4), of c] sz by simp_all
  obtain s1 Q1 where s1: "keyboard_routine b s = Some (Switched, s1)" "sched_inv s1 Q1" "reading s1 Q1" "cur s1 = t"
     "tasks_on Q1 Readyqueue = tasks_on Q Readyqueue @ (if cur s \<noteq> idle_task s then [cur s] else [])"
     "\<forall>a. a \<noteq> Readyqueue \<longrightarrow> Q1 a = Q a" "t \<noteq> cur s" "\<forall>t. t \<noteq> cur s \<longrightarrow> k_ctx (task s1 t) = k_ctx (task s t)"
     "sched_frame ?s s1"
    using keyboard_routine_spec [OF assms(1,2,5,6) refl] by blast
  have q: "mm ?s = mm s" "tmpbuff ?s = tmpbuff s" "task ?s = task s" by simp_all
  have f: "kb s1 = kb ?s" "tmpbuff s1 = tmpbuff s" and m: "(mm s1)\<lparr>cr3 := cr3 (mm s)\<rparr> = mm s"
    using s1(9) unfolding sched_frame_def q by blast+
  have d: "dir_pages_baseAddr (task s1 t) = dir_pages_baseAddr (task s t)"
    using sched_frame_fields(3) [OF s1(9), of t] unfolding q .
  have "translate (mm s1) = translate (mm (set_cr3 (get_DIR t s) s))"
  proof (rule translate_cong)
    show "cr3 (mm s1) = cr3 (mm (set_cr3 (get_DIR t s) s))"
      using reading_fields(5) [OF s1(2,3)] s1(4) d by (simp add: set_cr3_def upd_mm_def get_DIR_def)
  qed (simp_all add: set_cr3_def upd_mm_def, (subst m [symmetric], simp)+)
  then have dst: "read_dest s1 a n P" using assms(9) f(2) by (simp add: read_dest_def set_cr3_def upd_mm_def)
  have k: "k_ctx (task s1 (cur s1)) = KRead a (int n)" using s1(4,7,8) assms(7) by simp
  have "n \<le> length (kb_list (kb s1))" "kb_inv (kb s1)" using assms(8) kb f(1) by simp_all
  from read_enough [OF s1(2,3) this(2,1) dst] obtain s2 Q2 where
    s2: "read_loop a (int n) s1 = Some (Ret (int n), s2)" "sched_inv s2 Q2" "cpu_inv s2 Q2"
     "tasks_on Q2 ReadBlocked = remove1 (cur s1) (tasks_on Q1 ReadBlocked)" "\<forall>a. a \<noteq> ReadBlocked \<longrightarrow> Q2 a = Q1 a"
     "cur s2 = cur s1" "received s1 n P s2" by blast
  have "resume s1 = Some (Ret (int n), s2)" using k s2(1) by (simp add: resume_def)
  moreover have "tasks_on Q2 Readyqueue = tasks_on Q1 Readyqueue" "tasks_on Q1 ReadBlocked = t # ts"
    using s2(5) s1(6) assms(6) by (simp_all add: tasks_on_def)
  ultimately show ?thesis using s1 s2 f(1) kb(2)
    by (intro exI [of _ s1] exI [of _ s2] exI [of _ Q2]) (simp add: received_def)
qed

text \<open>The user asks for three characters, and the idle task runs until the third is typed.\<close>

lemma key_feeds_reader_witness:
  "\<exists>s s1 s2. sys_read 0x101000 3 listener = Some (Switched, s) \<and> cur s = 0 \<and>
     keyboard_routine 0x10 s = Some (Switched, s1) \<and> resume s1 = Some (Ret 3, s2) \<and> cur s2 = 1 \<and>
     map (\<lambda>i. ram s2 (0x101000 + i)) [0..<3] = [104, 105, 113]"
proof -
  obtain d where d: "dir_pages_baseAddr (task listener 1) = Some d" "mm listener = flat_mm (Some d)" using listener_inv(8) by blast
  have ni: "cur listener \<noteq> idle_task listener" and a: "unat (0x101000 :: u32) = 0x101000" by (simp_all add: listener_inv(3,4))
  have "int (kb_buffer_size (kb listener)) < 3" using kbq.count [OF listener_inv(5)] by (simp add: listener_inv(6))
  then obtain s Q where s: "sys_read 0x101000 3 listener = Some (Switched, s)" "sched_inv s Q" "cpu_inv s Q"
     "(cur s, tasks_on Q Readyqueue) = rr_next 0 False (1, [])" "tasks_on Q ReadBlocked = [1]"
     "k_ctx (task s 1) = KRead 0x101000 3" "sched_frame listener s"
    using sys_read_suspends [OF listener_inv(1,2) ni listener_readable(2)] unfolding a
    by (auto simp: tasks_on_boot listener_inv(3,4) simp del: One_nat_def)
  have f: "kb s = kb listener" "tmpbuff s = 0x21000" "(mm s)\<lparr>cr3 := cr3 (mm listener)\<rparr> = mm listener"
    "dir_pages_baseAddr (task s 1) = Some d"
    using s(7) sched_frame_fields(3) [OF s(7), of 1] d(1) listener_inv(7) by (simp_all add: sched_frame_def)
  have "(mm s)\<lparr>cr3 := Some d\<rparr> = (mm s)\<lparr>cr3 := cr3 (mm listener), cr3 := Some d\<rparr>" by simp
  then have "mm (set_cr3 (get_DIR 1 s) s) = flat_mm (Some d)"
    using f(3,4) d(2) by (simp add: set_cr3_def upd_mm_def get_DIR_def flat_mm_def)
  then have "read_dest (set_cr3 (get_DIR 1 s) s) 0x101000 3 (\<lambda>i. 0x101000 + i)"
    by (rule flat_dest) (simp_all add: set_cr3_def upd_mm_def f(2))
  moreover have "decode_key 0x10 = Some 113"
    by (simp add: decode_key_def Let_def char_map_def key_index break_zero)
  ultimately show ?thesis
    using key_feeds_reader [OF s(2,3), of "0x10" 113 1 "[]" "0x101000" 3 "\<lambda>i. 0x101000 + i"] s(1,4-6) f(1) listener_inv(5,6)
    by auto
qed

end
