(* ===== verification/Loading.thy ===== *)
theory Loading
  imports Fork Scheduling
begin

text \<open>
  The start of the whole system, \<open>main\<close> of \<^verbatim>\<open>system.c\<close>: the page tables of the first process, the
  copy of the user's program from the image of the kernel, and what user code can write after it.
\<close>

section \<open>The pages of the first process\<close>

text \<open>The frames of the pool are handed out in order.\<close>

definition used_upto :: "nat \<Rightarrow> mm_state \<Rightarrow> bool" where
  "used_upto n m \<longleftrightarrow> avail m = {f \<in> pool. 256 + 2 * n \<le> f}"

lemma alloc_next:
  assumes u: "used_upto n m" and n: "n < 384"
  shows "fst (alloc_frame m) = int (256 + 2 * n)" "used_upto (Suc n) (snd (alloc_frame m))"
    "dir_pages (snd (alloc_frame m)) = dir_pages m" "pagusr_page (snd (alloc_frame m)) = pagusr_page m"
    "pagusr_table (snd (alloc_frame m)) = pagusr_table m"
proof -
  have i: "256 + 2 * n \<in> avail m" using u n by (simp add: used_upto_def pool_def)
  have "fst (alloc_frame m) = int (256 + 2 * n) \<and> used_upto (Suc n) (snd (alloc_frame m)) \<and>
    dir_pages (snd (alloc_frame m)) = dir_pages m \<and> pagusr_page (snd (alloc_frame m)) = pagusr_page m \<and>
    pagusr_table (snd (alloc_frame m)) = pagusr_table m"
  proof (cases rule: alloc_frame_cases [of m])
    case (some f)
    have f: "f = 256 + 2 * n" using some(1,2) i u by (auto simp: used_upto_def intro: le_antisym)
    have "{g \<in> pool. 256 + 2 * n \<le> g} - {256 + 2 * n} = {g \<in> pool. 256 + 2 * Suc n \<le> g}"
      by (auto simp: pool_def elim!: evenE) presburger
    then show ?thesis using some(3) f u by (simp add: used_upto_def avail_mark_used)
  qed (use i in simp)
  then show "fst (alloc_frame m) = int (256 + 2 * n)" "used_upto (Suc n) (snd (alloc_frame m))"
    "dir_pages (snd (alloc_frame m)) = dir_pages m" "pagusr_page (snd (alloc_frame m)) = pagusr_page m"
    "pagusr_table (snd (alloc_frame m)) = pagusr_table m" by blast+
qed

lemma map_user_pages:
  assumes pg: "\<And>i m. pg i m = upd_PT p (\<lambda>PT. PT(b + i := ent (word_of_int (fst (alloc_frame m))))) (snd (alloc_frame m))"
    and u: "used_upto n m" and k: "n + k \<le> 384"
  shows "used_upto (n + k) (fold pg [0..<k] m) \<and> dir_pages (fold pg [0..<k] m) = dir_pages m \<and>
     pagusr_page (fold pg [0..<k] m) = pagusr_page m \<and>
     (\<forall>q. q \<noteq> p \<longrightarrow> pagusr_table (fold pg [0..<k] m) q = pagusr_table m q) \<and>
     (\<forall>i. pagusr_table (fold pg [0..<k] m) p i =
        (if b \<le> i \<and> i < b + k then ent (of_nat (256 + 2 * (n + (i - b)))) else pagusr_table m p i))"
  using k
proof (induction k)
  case 0
  then show ?case using u by auto
next
  case (Suc k)
  let ?m = "fold pg [0..<k] m"
  have ih: "used_upto (n + k) ?m" "dir_pages ?m = dir_pages m" "pagusr_page ?m = pagusr_page m"
    "\<And>i. pagusr_table ?m p i = (if b \<le> i \<and> i < b + k then ent (of_nat (256 + 2 * (n + (i - b)))) else pagusr_table m p i)"
    "\<And>q. q \<noteq> p \<Longrightarrow> pagusr_table ?m q = pagusr_table m q"
    using Suc by simp_all
  have l: "n + k < 384" using Suc.prems by simp
  note a = alloc_next [OF ih(1) l]
  have e: "fold pg [0..<Suc k] m = upd_PT p (\<lambda>PT. PT(b + k := ent (of_nat (256 + 2 * (n + k))))) (snd (alloc_frame ?m))"
    using a(1) by (simp add: pg)
  have "used_upto (n + Suc k) (upd_PT p f (snd (alloc_frame ?m)))" for f
    using a(2) by (simp add: used_upto_def avail_def)
  moreover have "pagusr_table (upd_PT p (\<lambda>PT. PT(b + k := ent (of_nat (256 + 2 * (n + k))))) (snd (alloc_frame ?m))) p i =
      (if b \<le> i \<and> i < b + Suc k then ent (of_nat (256 + 2 * (n + (i - b)))) else pagusr_table m p i)" for i
    using a(5) ih(4) [of i] by (cases "i = b + k") (auto simp: less_Suc_eq)
  ultimately show ?case unfolding e using a(3-5) ih(2,3,5) by simp
qed

text \<open>The table of the first process: the kernel mapped to itself but for page 0, the data and the code of the
  user in the first frames of the pool, the code first.\<close>

definition user_frame :: "nat \<Rightarrow> nat" where
  "user_frame i = (if i < NUM_PAG_DATA then 256 + 2 * (NUM_PAG_CODE + i) else 256 + 2 * (i - NUM_PAG_DATA))"

definition start_pte :: "nat \<Rightarrow> page_table_entry" where
  "start_pte i =
     (if i = 0 \<or> PAG_LOG_INIT_HEAP \<le> i then 0
      else if i < PAG_LOG_INIT_DATA then set_present 1 (set_rw 1 (set_pbase_addr (of_nat i) 0))
      else if i < PAG_LOG_INIT_CODE then user_pte (of_nat (user_frame (i - PAG_LOG_INIT_DATA)))
      else set_present 1 (set_user 1 (set_pbase_addr (of_nat (user_frame (i - PAG_LOG_INIT_DATA))) 0)))"

lemma start_pte_user:
  "PAG_LOG_INIT_DATA \<le> i \<Longrightarrow> i < PAG_LOG_INIT_CODE \<Longrightarrow>
     start_pte i = user_pte (of_nat (256 + 2 * (NUM_PAG_CODE + (i - PAG_LOG_INIT_DATA))))"
  "PAG_LOG_INIT_CODE \<le> i \<Longrightarrow> i < PAG_LOG_INIT_HEAP \<Longrightarrow>
     start_pte i = set_present 1 (set_user 1 (set_pbase_addr (of_nat (256 + 2 * (i - PAG_LOG_INIT_CODE))) 0))"
proof -
  show "start_pte i = user_pte (of_nat (256 + 2 * (NUM_PAG_CODE + (i - PAG_LOG_INIT_DATA))))"
    if "PAG_LOG_INIT_DATA \<le> i" "i < PAG_LOG_INIT_CODE"
  proof -
    have "user_frame (i - PAG_LOG_INIT_DATA) = 256 + 2 * (NUM_PAG_CODE + (i - PAG_LOG_INIT_DATA))"
      using that by (auto simp: user_frame_def)
    then show ?thesis using that by (simp add: start_pte_def del: of_nat_add of_nat_mult)
  qed
  show "start_pte i = set_present 1 (set_user 1 (set_pbase_addr (of_nat (256 + 2 * (i - PAG_LOG_INIT_CODE))) 0))"
    if "PAG_LOG_INIT_CODE \<le> i" "i < PAG_LOG_INIT_HEAP"
  proof -
    have "user_frame (i - PAG_LOG_INIT_DATA) = 256 + 2 * (i - PAG_LOG_INIT_CODE)"
      using that by (auto simp: user_frame_def)
    then show ?thesis using that by (simp add: start_pte_def del: of_nat_add of_nat_mult)
  qed
qed

lemma set_user_pages_table:
  assumes u: "used_upto 0 m"
  shows "dir_pages (set_user_pages p m) = dir_pages m" "pagusr_page (set_user_pages p m) = pagusr_page m"
    "pagusr_table (set_user_pages p m) p i =
       (if PAG_LOG_INIT_DATA \<le> i \<and> i < PAG_LOG_INIT_HEAP then start_pte i else pagusr_table m p i)"
    "q \<noteq> p \<Longrightarrow> pagusr_table (set_user_pages p m) q = pagusr_table m q" "used_upto 28 (set_user_pages p m)"
proof -
  let ?m = "fold (set_user_code_page p) [0..<NUM_PAG_CODE] m"
  have "used_upto (0 + NUM_PAG_CODE) ?m \<and> dir_pages ?m = dir_pages m \<and> pagusr_page ?m = pagusr_page m \<and>
     (\<forall>q. q \<noteq> p \<longrightarrow> pagusr_table ?m q = pagusr_table m q) \<and>
     (\<forall>i. pagusr_table ?m p i = (if PAG_LOG_INIT_CODE \<le> i \<and> i < PAG_LOG_INIT_CODE + NUM_PAG_CODE
       then set_present 1 (set_user 1 (set_pbase_addr (of_nat (256 + 2 * (0 + (i - PAG_LOG_INIT_CODE)))) 0)) else pagusr_table m p i))"
    by (rule map_user_pages [OF _ u]) (simp_all add: set_user_code_page_def case_prod_beta)
  then have c: "used_upto NUM_PAG_CODE ?m" "dir_pages ?m = dir_pages m" "pagusr_page ?m = pagusr_page m"
    "\<And>i. pagusr_table ?m p i = (if PAG_LOG_INIT_CODE \<le> i \<and> i < PAG_LOG_INIT_HEAP
       then set_present 1 (set_user 1 (set_pbase_addr (of_nat (256 + 2 * (i - PAG_LOG_INIT_CODE))) 0)) else pagusr_table m p i)"
    "\<And>q. q \<noteq> p \<Longrightarrow> pagusr_table ?m q = pagusr_table m q"
    by simp_all
  have d: "used_upto (NUM_PAG_CODE + NUM_PAG_DATA) (set_user_pages p m) \<and> dir_pages (set_user_pages p m) = dir_pages ?m \<and>
     pagusr_page (set_user_pages p m) = pagusr_page ?m \<and>
     (\<forall>q. q \<noteq> p \<longrightarrow> pagusr_table (set_user_pages p m) q = pagusr_table ?m q) \<and>
     (\<forall>i. pagusr_table (set_user_pages p m) p i = (if PAG_LOG_INIT_DATA \<le> i \<and> i < PAG_LOG_INIT_DATA + NUM_PAG_DATA
       then user_pte (of_nat (256 + 2 * (NUM_PAG_CODE + (i - PAG_LOG_INIT_DATA)))) else pagusr_table ?m p i))"
    unfolding set_user_pages_def
    by (rule map_user_pages [OF _ c(1)]) (simp_all add: set_user_data_page_def case_prod_beta user_pte_def)
  then show "dir_pages (set_user_pages p m) = dir_pages m" "pagusr_page (set_user_pages p m) = pagusr_page m"
    using c(2,3) by simp_all
  show "pagusr_table (set_user_pages p m) p i =
       (if PAG_LOG_INIT_DATA \<le> i \<and> i < PAG_LOG_INIT_HEAP then start_pte i else pagusr_table m p i)"
    using d c(4) [of i] start_pte_user [of i] by (simp del: of_nat_add of_nat_mult)
  show "q \<noteq> p \<Longrightarrow> pagusr_table (set_user_pages p m) q = pagusr_table m q" "used_upto 28 (set_user_pages p m)"
    using d c(5) by simp_all
qed

text \<open>The tables of the other directories map the kernel only.\<close>

definition kernel_pte :: "nat \<Rightarrow> page_table_entry" where
  "kernel_pte i = (if i = 0 \<or> PAG_LOG_INIT_DATA \<le> i then 0 else set_present 1 (set_rw 1 (set_pbase_addr (of_nat i) 0)))"

lemma start_tables:
  assumes st: "start_tasks s = Some s'" and pp: "pagusr_page (mm s) + NR_TASKS \<le> 2 ^ 20"
  shows "cr3 (mm s') = Some 2" "used_upto 28 (mm s')"
    "d < NR_TASKS \<Longrightarrow> row_of (mm s') d d \<and> rw (dir_pages (mm s') d ENTRY_DIR_PAGES) \<and> user (dir_pages (mm s') d ENTRY_DIR_PAGES)"
    "d < NR_TASKS \<Longrightarrow> i < TOTAL_PAGES \<Longrightarrow> pagusr_table (mm s') d i = (if d = 2 then start_pte i else kernel_pte i)"
proof -
  let ?m0 = "init_dir_pages (init_frames (init_table_pages (mm s)))"
  obtain m where m: "same_tables ?m0 m" "same_tables (set_user_pages (dir_PT m 2) m) (mm s')" "cr3 (mm s') = Some 2"
    using start_tasks_spec [of s] st by auto
  show "cr3 (mm s') = Some 2" by (rule m(3))
  have pp': "pagusr_page (init_frames (init_table_pages (mm s))) + NR_TASKS \<le> 2 ^ 20"
    using pp by (simp add: init_frames_def init_table_pages_def)
  have d: "dir_PT m e = e" if "e < NR_TASKS" for e
    using dir_PT_init_dir_pages [OF pp' that] m(1) by (simp add: dir_PT_def same_tables_def)
  have d2: "dir_PT m 2 = 2" by (rule d) simp
  note i = init_dir_pages_upto [of NR_TASKS "init_frames (init_table_pages (mm s))", folded init_dir_pages_def]
  have "avail m = avail (init_frames (init_table_pages (mm s)))"
    using m(1) i [of 0] by (simp add: same_tables_def avail_def)
  then have u: "used_upto 0 m" using avail_init by (auto simp: used_upto_def pool_def)
  note t = set_user_pages_table [OF u, where p = 2]
  have dp: "dir_pages (mm s') = dir_pages ?m0" "pagusr_page (mm s') = pagusr_page m"
    using m(1,2) d2 t(1,2) by (simp_all add: same_tables_def)
  show "used_upto 28 (mm s')" using m(2) d2 t(5) by (simp add: same_tables_def used_upto_def avail_def)
  show "row_of (mm s') d d \<and> rw (dir_pages (mm s') d ENTRY_DIR_PAGES) \<and> user (dir_pages (mm s') d ENTRY_DIR_PAGES)"
    if n: "d < NR_TASKS"
  proof -
    have e: "dir_pages ?m0 d ENTRY_DIR_PAGES = set_present 1 (set_rw 1 (set_user 1
                (set_pbase_addr (of_nat (pagusr_page (init_frames (init_table_pages (mm s))) + d)) 0)))"
      using i [of d] n by simp
    have "dir_PT (mm s') d = dir_PT m d" using dp m(1) by (simp add: dir_PT_def same_tables_def)
    then show ?thesis unfolding row_of_def dp(1) e using d [OF n] by simp
  qed
  show "pagusr_table (mm s') d i = (if d = 2 then start_pte i else kernel_pte i)" if n: "d < NR_TASKS" "i < TOTAL_PAGES"
  proof -
    have k: "pagusr_table m d i = map_kernel_pages (clear_table (pagusr_table (mm s) d)) i"
      using m(1) i init_table_pages_eq [of "mm s" d] n by (simp add: same_tables_def init_frames_def)
    have "pagusr_table (mm s') d i = pagusr_table (set_user_pages 2 m) d i" using m(2) d2 by (simp add: same_tables_def)
    also have "\<dots> = (if d = 2 then start_pte i else kernel_pte i)"
    proof (cases "d = 2")
      case True
      then show ?thesis using n t(3) [of i] k
        by (cases "i = 0") (simp_all add: map_kernel_pages_eq clear_table_eq start_pte_def)
    next
      case False
      then show ?thesis using n t(4) [OF False] k by (simp add: map_kernel_pages_eq clear_table_eq kernel_pte_def)
    qed
    finally show ?thesis .
  qed
qed

section \<open>What the addresses mean\<close>

text \<open>\<open>first_space m\<close>: the tables of \<open>m\<close> are those of the first process, and they are loaded.\<close>

definition first_space :: "mm_state \<Rightarrow> bool" where
  "first_space m \<longleftrightarrow> cr3 m = Some 2 \<and> row_of m 2 2 \<and> rw (dir_pages m 2 ENTRY_DIR_PAGES) \<and>
     user (dir_pages m 2 ENTRY_DIR_PAGES) \<and> (\<forall>i < TOTAL_PAGES. pagusr_table m 2 i = start_pte i)"

lemma start_space: "start_tasks s = Some s' \<Longrightarrow> pagusr_page (mm s) + NR_TASKS \<le> 2 ^ 20 \<Longrightarrow> first_space (mm s')"
  using start_tables [of s s'] by (simp add: first_space_def)

lemma user_frame_bounds: "i < 28 \<Longrightarrow> 256 \<le> user_frame i \<and> user_frame i < TOTAL_PAGES"
  by (auto simp: user_frame_def)

lemma user_frame_inj: "i < 28 \<Longrightarrow> j < 28 \<Longrightarrow> user_frame i = user_frame j \<longleftrightarrow> i = j"
  by (auto simp: user_frame_def)

lemma start_pte_frame:
  assumes "1 \<le> i" "i < PAG_LOG_INIT_HEAP"
  shows "present (start_pte i) \<and> unat (pbase_addr (start_pte i)) =
     (if i < PAG_LOG_INIT_DATA then i else user_frame (i - PAG_LOG_INIT_DATA))"
proof -
  have "i - PAG_LOG_INIT_DATA < 28" using assms by simp
  from user_frame_bounds [OF this] have "unat (word_of_nat (user_frame (i - PAG_LOG_INIT_DATA)) AND mask 20 :: u32) = user_frame (i - PAG_LOG_INIT_DATA)"
    by simp
  then show ?thesis using assms by (auto simp: start_pte_def)
qed

lemma first_space_translate:
  assumes "first_space m" "PAGE_SIZE \<le> a" "a < PAG_LOG_INIT_HEAP * PAGE_SIZE"
  shows "translate m a = Some (if a < PAG_LOG_INIT_DATA * PAGE_SIZE then a
     else user_frame (a div PAGE_SIZE - PAG_LOG_INIT_DATA) * PAGE_SIZE + a mod PAGE_SIZE)"
proof -
  define i k where "i = a div PAGE_SIZE" and "k = a mod PAGE_SIZE"
  have a: "a = i * PAGE_SIZE + k" "k < PAGE_SIZE" by (simp_all add: i_def k_def div_mult_mod_eq)
  have i: "1 \<le> i" "i < PAG_LOG_INIT_HEAP" "i < PAG_LOG_INIT_DATA \<longleftrightarrow> a < PAG_LOG_INIT_DATA * PAGE_SIZE"
    using assms(2,3) unfolding i_def by (simp_all add: div_less_iff_less_mult Suc_le_eq div_greater_zero_iff)
  note f = assms(1) [unfolded first_space_def]
  have t: "translate m (i * PAGE_SIZE + k) = (if present (pagusr_table m 2 i) then Some (frame_no m 2 i * PAGE_SIZE + k) else None)"
    by (rule translate_row [OF f [THEN conjunct1] f [THEN conjunct2, THEN conjunct1] _ a(2)]) (use i(2) in simp)
  have "pagusr_table m 2 i = start_pte i" using f i(2) by simp
  then show ?thesis using start_pte_frame [OF i(1,2)] t i(3) unfolding a(1) [symmetric] get_frame_def
    by (simp add: a(1) [symmetric] flip: i_def k_def)
qed

text \<open>The user reads its 28 pages and writes the first 20, and nothing of the kernel.\<close>

lemma first_space_writable:
  assumes "first_space m" "a < PAG_LOG_INIT_HEAP * PAGE_SIZE"
  shows "user_writable m a \<longleftrightarrow> PAG_LOG_INIT_DATA * PAGE_SIZE \<le> a \<and> a < PAG_LOG_INIT_CODE * PAGE_SIZE"
proof -
  define i where "i = a div PAGE_SIZE"
  have i: "i < PAG_LOG_INIT_HEAP" "PAG_LOG_INIT_DATA \<le> i \<longleftrightarrow> PAG_LOG_INIT_DATA * PAGE_SIZE \<le> a"
    "i < PAG_LOG_INIT_CODE \<longleftrightarrow> a < PAG_LOG_INIT_CODE * PAGE_SIZE"
    using assms(2) unfolding i_def by (simp_all add: div_less_iff_less_mult less_eq_div_iff_mult_less_eq)
  note f = assms(1) [unfolded first_space_def]
  have "a div (PAGE_SIZE * TOTAL_PAGES) = 0" "i mod TOTAL_PAGES = i" using assms(2) i(1) by simp_all
  moreover have "present (dir_pages m 2 ENTRY_DIR_PAGES)" "unat (pbase_addr (dir_pages m 2 ENTRY_DIR_PAGES)) - pagusr_page m = 2"
    using f by (simp_all add: row_of_def dir_PT_def)
  ultimately have "user_writable m a \<longleftrightarrow> present (start_pte i) \<and> rw (start_pte i) \<and> user (start_pte i)"
    using f i(1) unfolding user_writable_def i_def by (simp add: Let_def)
  then show ?thesis using i by (auto simp: start_pte_def)
qed

section \<open>main\<close>

definition ram_word :: "ram \<Rightarrow> nat \<Rightarrow> u32" where
  "ram_word r a = le32 (r a) (r (a + 1)) (r (a + 2)) (r (a + 3))"

lemma ld32_same: "\<forall>i < 4. tr (a + i) = Some (a + i) \<Longrightarrow> ld32 tr a r = Some (ram_word r a)"
  using spec [of _ "0::nat"] by (simp add: ld32_def ld8_def ram_word_def numeral_eq_Suc All_less_Suc)

text \<open>The place of byte \<open>i\<close> of the user's pages.\<close>

definition user_place :: "nat \<Rightarrow> nat" where
  "user_place i = user_frame (i div PAGE_SIZE) * PAGE_SIZE + i mod PAGE_SIZE"

lemma user_place_translate:
  assumes "first_space m" "i < 28 * PAGE_SIZE"
  shows "translate m (L_USER_START + i) = Some (user_place i)"
proof -
  have "(L_USER_START + i) div PAGE_SIZE = PAG_LOG_INIT_DATA + i div PAGE_SIZE" "(L_USER_START + i) mod PAGE_SIZE = i mod PAGE_SIZE"
    using div_mult_self1 [of PAGE_SIZE i 256] mod_mult_self1 [of i 256 PAGE_SIZE] by (simp_all add: add.commute)
  then show ?thesis using first_space_translate [OF assms(1), of "L_USER_START + i"] assms(2) by (simp add: user_place_def)
qed

lemma user_place_above: "i < 28 * PAGE_SIZE \<Longrightarrow> L_USER_START \<le> user_place i"
proof -
  assume "i < 28 * PAGE_SIZE"
  then have "i div PAGE_SIZE < 28" by simp
  from user_frame_bounds [OF this] show ?thesis by (simp add: user_place_def)
qed

lemma user_place_inj: "inj_on user_place {..<28 * PAGE_SIZE}"
proof (rule inj_onI)
  fix i j assume b: "i \<in> {..<28 * PAGE_SIZE}" "j \<in> {..<28 * PAGE_SIZE}" and e: "user_place i = user_place j"
  have d: "i div PAGE_SIZE < 28" "j div PAGE_SIZE < 28" using b by simp_all
  have "user_place i div PAGE_SIZE = user_frame (i div PAGE_SIZE)" "user_place i mod PAGE_SIZE = i mod PAGE_SIZE" for i
    by (simp_all add: user_place_def)
  then have "i mod PAGE_SIZE = j mod PAGE_SIZE" "user_frame (i div PAGE_SIZE) = user_frame (j div PAGE_SIZE)" using e by metis+
  then show "i = j" using user_frame_inj [OF d] by (metis div_mult_mod_eq)
qed

text \<open>Where \<open>return_gate\<close> stores: the last word of the user's pages of data.\<close>

abbreviation (input) GATE_WORD :: nat where "GATE_WORD \<equiv> 0x13FFC"

lemma return_gate_spec:
  assumes "first_space m"
  shows "\<exists>r'. return_gate (translate m) (unat USER_ESP) w r = Some r' \<and>
     (\<forall>j < 4. r' (user_place (GATE_WORD + j)) = byte_of j w) \<and>
     (\<forall>x. x \<notin> user_place ` {GATE_WORD..<GATE_WORD + 4} \<longrightarrow> r' x = r x)"
proof -
  have a: "unat USER_ESP + 12 = L_USER_START + GATE_WORD" by (simp add: USER_ESP_def)
  have t: "translate m (L_USER_START + GATE_WORD + j) = Some (user_place (GATE_WORD + j))" if "j < 4" for j
    using user_place_translate [OF assms, of "GATE_WORD + j"] that by (simp add: add.assoc)
  have i: "inj_on (\<lambda>j. user_place (GATE_WORD + j)) {..<4}"
    by (rule inj_onI) (use inj_onD [OF user_place_inj] in fastforce)
  have "(\<lambda>j. user_place (GATE_WORD + j)) ` {..<4} = user_place ` ((+) GATE_WORD ` {..<4})" by (simp only: image_image)
  also have "(+) GATE_WORD ` {..<4} = {GATE_WORD..<GATE_WORD + 4}" by (simp add: lessThan_atLeast0)
  finally show ?thesis using st32_places [of "translate m" "L_USER_START + GATE_WORD" "\<lambda>j. user_place (GATE_WORD + j)" w r] t i
    unfolding return_gate_def a by simp
qed

lemma boot_spec:
  assumes "pagusr_page (mm s) + NR_TASKS \<le> 2 ^ 20"
    and "n = nat (sint (ram_word (ram s) (KERNEL_START + 4)))" and "n \<le> 28 * PAGE_SIZE"
    and "b = KERNEL_START + unat (ram_word (ram s) KERNEL_START)" and "b + n \<le> 0xA0000"
  shows "\<exists>s'. boot s = Some s' \<and> sched_inv s' boot_queues \<and> cpu_inv s' boot_queues \<and> cur s' = 1 \<and>
     inj_on user_place {..<28 * PAGE_SIZE} \<and>
     (\<forall>i < 28 * PAGE_SIZE. translate (mm s') (L_USER_START + i) = Some (user_place i) \<and> L_USER_START \<le> user_place i) \<and>
     (\<forall>i < 28 * PAGE_SIZE. i \<notin> {GATE_WORD..<GATE_WORD + 4} \<longrightarrow>
        ram s' (user_place i) = (if i < n then ram s (b + i) else ram s (user_place i))) \<and>
     (\<forall>j < 4. ram s' (user_place (GATE_WORD + j)) = ram s (KERNEL_START + 8 + j)) \<and>
     (\<forall>x \<ge> L_USER_START. x \<notin> user_place ` {..<28 * PAGE_SIZE} \<longrightarrow> ram s' x = ram s x) \<and>
     (\<forall>x < PAG_LOG_INIT_HEAP * PAGE_SIZE.
        user_writable (mm s') x \<longleftrightarrow> L_USER_START \<le> x \<and> x < L_USER_START + 20 * PAGE_SIZE)"
proof -
  let ?s0 = "s\<lparr>con := printk (bytes (''Kernel Loaded!    '' @ [CHR 0x0A])) (printk (bytes banner) (con s)), zeos_tick := 0\<rparr>"
  obtain s1 where s1: "start_tasks ?s0 = Some s1" "sched_inv s1 boot_queues" "cpu_inv s1 boot_queues" "cur s1 = 1" "ram s1 = ram s"
    using start_tasks_spec [of ?s0] by auto
  obtain s2 s3 s4 where i: "init_sched (init_mm ?s0) = Some s2" "init_idle s2 = Some s3" "init_task1 s3 = Some s4"
    "s1 = s4\<lparr>cur := task1 s4\<rparr>" using s1(1) by (auto simp: start_tasks_def)
  have f: "mm s4 = mm s1" "ram s4 = ram s" "task1 s4 = 1" using i(4) s1(4,5) by simp_all
  have sp: "first_space (mm s1)" by (rule start_space [OF s1(1)]) (use assms(1) in simp)
  let ?tr = "translate (mm s1)"
  have k: "?tr a = Some a" if "PAGE_SIZE \<le> a" "a < L_USER_START" for a
    using first_space_translate [OF sp that(1)] that(2) by simp
  have ld: "ld32 ?tr KERNEL_START (ram s) = Some (ram_word (ram s) KERNEL_START)"
    "ld32 ?tr (KERNEL_START + 4) (ram s) = Some (ram_word (ram s) (KERNEL_START + 4))"
    by (rule ld32_same; use k in simp)+
  have in_user: "i < 28 * PAGE_SIZE" if "i < n" for i using that assms(3) by simp
  have "\<exists>r. copy_data ?tr b L_USER_START (sint (ram_word (ram s) (KERNEL_START + 4))) (ram s) = Some r \<and>
     (\<forall>i < nat (sint (ram_word (ram s) (KERNEL_START + 4))). r (user_place i) = ram s (b + i)) \<and>
     (\<forall>x. x \<notin> user_place ` {..<nat (sint (ram_word (ram s) (KERNEL_START + 4)))} \<longrightarrow> r x = ram s x)"
  proof (rule copy_data_blit)
    show "?tr (b + i) = Some (b + i) \<and> ?tr (L_USER_START + i) = Some (user_place i)" if "i < nat (sint (ram_word (ram s) (KERNEL_START + 4)))" for i
      using that k [of "b + i"] user_place_translate [OF sp in_user, of i] assms(4,5) unfolding assms(2) [symmetric] by simp
    show "b + i \<noteq> user_place j" if "i < nat (sint (ram_word (ram s) (KERNEL_START + 4)))" "j < nat (sint (ram_word (ram s) (KERNEL_START + 4)))" for i j
      using that user_place_above [OF in_user, of j] assms(5) unfolding assms(2) [symmetric] by simp
    show "inj_on user_place {..<nat (sint (ram_word (ram s) (KERNEL_START + 4)))}"
      unfolding assms(2) [symmetric] by (rule inj_on_subset [OF user_place_inj]) (use assms(3) in auto)
  qed
  then obtain r where r: "copy_data ?tr b L_USER_START (sint (ram_word (ram s) (KERNEL_START + 4))) (ram s) = Some r"
    "\<forall>i < n. r (user_place i) = ram s (b + i)" "\<forall>x. x \<notin> user_place ` {..<n} \<longrightarrow> r x = ram s x"
    unfolding assms(2) [symmetric] by blast
  have low: "r x = ram s x" if "x < L_USER_START" for x
    using r(3) that user_place_above [OF in_user] by force
  let ?w = "ram_word (ram s) (KERNEL_START + 8)"
  have "ld32 ?tr (KERNEL_START + 8) r = Some (ram_word r (KERNEL_START + 8))"
    by (rule ld32_same) (use k in simp)
  moreover have "ram_word r (KERNEL_START + 8) = ?w" by (simp add: ram_word_def low)
  ultimately have rdtr: "ld32 ?tr (KERNEL_START + 8) r = Some ?w" by simp
  obtain r2 where r2: "return_gate ?tr (unat USER_ESP) ?w r = Some r2" "\<forall>j < 4. r2 (user_place (GATE_WORD + j)) = byte_of j ?w"
    "\<forall>x. x \<notin> user_place ` {GATE_WORD..<GATE_WORD + 4} \<longrightarrow> r2 x = r x"
    using return_gate_spec [OF sp] by blast
  let ?s' = "s4\<lparr>ram := r2, con := printk (bytes ''Entering user mode...'') (con s4), cur := task1 s4\<rparr>"
  have "boot s = Some ?s'"
    unfolding boot_def Let_def by (simp only: i(1-3) f ld r(1) rdtr r2(1) assms(4) [symmetric] Option.bind.simps)
  moreover have "sched_inv ?s' boot_queues" by (rule sched_inv_cong [OF s1(2)]) (simp_all add: i(4))
  moreover have "cpu_inv ?s' boot_queues" by (rule cpu_inv_cong [OF s1(3)]) (simp_all add: i(4))
  moreover have "r2 (user_place i) = (if i < n then ram s (b + i) else ram s (user_place i))"
    if "i < 28 * PAGE_SIZE" "i \<notin> {GATE_WORD..<GATE_WORD + 4}" for i
  proof -
    have "{GATE_WORD..<GATE_WORD + 4} \<subseteq> {..<28 * PAGE_SIZE}" "{..<n} \<subseteq> {..<28 * PAGE_SIZE}" using assms(3) by (simp_all add: subset_eq)
    then have e: "user_place i \<notin> user_place ` {GATE_WORD..<GATE_WORD + 4}" "user_place i \<in> user_place ` {..<n} \<longleftrightarrow> i < n"
      using that inj_on_image_mem_iff [OF user_place_inj, of i] by simp_all
    then have "r2 (user_place i) = r (user_place i)" using r2(3) by blast
    moreover have "user_place i \<notin> user_place ` {..<n}" if "\<not> i < n" using that e(2) by simp
    ultimately show ?thesis using r(2,3) by simp
  qed
  moreover have "r2 (user_place (GATE_WORD + j)) = ram s (KERNEL_START + 8 + j)" if "j < 4" for j
  proof -
    have "j = 0 \<or> j = 1 \<or> j = 2 \<or> j = 3" using that by linarith
    then have "byte_of j ?w = ram s (KERNEL_START + 8 + j)" by (auto simp: ram_word_def)
    then show ?thesis using r2(2) that by simp
  qed
  moreover have "r2 x = ram s x" if "L_USER_START \<le> x" "x \<notin> user_place ` {..<28 * PAGE_SIZE}" for x
  proof -
    have "x \<notin> user_place ` {GATE_WORD..<GATE_WORD + 4}" "x \<notin> user_place ` {..<n}" using that(2) assms(3) by auto
    then show ?thesis using r2(3) r(3) by simp
  qed
  moreover have "user_writable (mm s1) x \<longleftrightarrow> L_USER_START \<le> x \<and> x < L_USER_START + 20 * PAGE_SIZE"
    if "x < PAG_LOG_INIT_HEAP * PAGE_SIZE" for x using first_space_writable [OF sp that] by simp
  ultimately show ?thesis using user_place_inj user_place_translate [OF sp] user_place_above
    by (intro exI [of _ ?s']) (simp add: f)
qed

text \<open>C3. The start of the system, for every memory that holds an image whose user program fits in its pages and lies
  below the memory of the screen: \<open>main\<close> succeeds, the invariant of the scheduler holds and task 1
  runs; the 28 pages of the user are mapped to different frames above the kernel and hold the program of the image,
  byte by byte, but for the four bytes from \<open>0x113FFC\<close> on, the last word of the data, where \<open>return_gate\<close> has
  stored the third word of the kernel's image; above the first megabyte nothing else is written; and of the first 284
  pages the user can write exactly its 20 pages of data.\<close>
theorem boot_ok:
  assumes "pagusr_page (mm s) + NR_TASKS \<le> 2 ^ 20"
    and "n = nat (sint (ram_word (ram s) (KERNEL_START + 4)))" and "n \<le> 28 * PAGE_SIZE"
    and "b = KERNEL_START + unat (ram_word (ram s) KERNEL_START)" and "b + n \<le> 0xA0000"
  shows "\<exists>s'. boot s = Some s' \<and> sched_inv s' boot_queues \<and> cpu_inv s' boot_queues \<and> cur s' = 1 \<and>
     inj_on user_place {..<28 * PAGE_SIZE} \<and>
     (\<forall>i < 28 * PAGE_SIZE. translate (mm s') (L_USER_START + i) = Some (user_place i) \<and> L_USER_START \<le> user_place i) \<and>
     (\<forall>i < 28 * PAGE_SIZE. i \<notin> {GATE_WORD..<GATE_WORD + 4} \<longrightarrow>
        ram s' (user_place i) = (if i < n then ram s (b + i) else ram s (user_place i))) \<and>
     (\<forall>j < 4. ram s' (user_place (GATE_WORD + j)) = ram s (KERNEL_START + 8 + j)) \<and>
     (\<forall>x \<ge> L_USER_START. x \<notin> user_place ` {..<28 * PAGE_SIZE} \<longrightarrow> ram s' x = ram s x) \<and>
     (\<forall>x < PAG_LOG_INIT_HEAP * PAGE_SIZE.
        user_writable (mm s') x \<longleftrightarrow> L_USER_START \<le> x \<and> x < L_USER_START + 20 * PAGE_SIZE)"
  by (rule boot_spec [OF assms])

text \<open>An image with a program of two bytes behind a kernel of eight.\<close>

definition disk_image :: kstate where
  "disk_image = sample_kernel\<lparr>ram := (\<lambda>_. 0)(0x10000 := 8, 0x10004 := 2, 0x10008 := 0x90, 0x10009 := 0xC3)\<rparr>"

lemma image_words: "ram_word (ram disk_image) KERNEL_START = 8" "ram_word (ram disk_image) (KERNEL_START + 4) = 2"
  by (simp_all add: disk_image_def ram_word_def le32_def)

lemma image_pages: "pagusr_page (mm disk_image) + NR_TASKS \<le> 2 ^ 20"
  by (simp add: disk_image_def sample_kernel_def sample_mm_def init_frames_def)

lemma boot_ok_witness:
  "\<exists>s'. boot disk_image = Some s' \<and> ram s' (user_place 0) = 0x90 \<and> ram s' (user_place 1) = 0xC3 \<and>
     ram s' (user_place 0x13FFC) = 0x90 \<and>
     user_writable (mm s') 0x100000 \<and> \<not> user_writable (mm s') 0x114000 \<and> \<not> user_writable (mm s') 0x10000"
proof -
  have n: "2 = nat (sint (ram_word (ram disk_image) (KERNEL_START + 4)))" "0x10008 = KERNEL_START + unat (ram_word (ram disk_image) KERNEL_START)"
    unfolding image_words by simp_all
  obtain s' where s': "boot disk_image = Some s'"
    "\<forall>i < 28 * PAGE_SIZE. i \<notin> {GATE_WORD..<GATE_WORD + 4} \<longrightarrow>
       ram s' (user_place i) = (if i < 2 then ram disk_image (0x10008 + i) else ram disk_image (user_place i))"
    "\<forall>j < 4. ram s' (user_place (GATE_WORD + j)) = ram disk_image (KERNEL_START + 8 + j)"
    "\<forall>x < PAG_LOG_INIT_HEAP * PAGE_SIZE. user_writable (mm s') x \<longleftrightarrow> L_USER_START \<le> x \<and> x < L_USER_START + 20 * PAGE_SIZE"
    using boot_ok [OF image_pages n(1) _ n(2)] by auto
  have "ram disk_image 0x10008 = 0x90" "ram disk_image 0x10009 = 0xC3" by (simp_all add: disk_image_def)
  then show ?thesis using s'(1) s'(2) [rule_format, of 0] s'(2) [rule_format, of 1] s'(3) [rule_format, of 0] s'(4)
    by (simp del: One_nat_def)
qed

end
