(* ===== verification/Kernel_State.thy ===== *)
theory Kernel_State
  imports Exit Writing Reading
begin

text \<open>
  The invariant of the whole kernel. Besides the invariants of the scheduler and of the
  semaphores it says at which point of the kernel code every thread that is not running is
  suspended (\<open>ctx_inv\<close>), that families and identifiers are consistent, and how the semaphore
  table is used. A call that \<open>proceeds\<close> does not fault and leaves a state in which it holds again.
\<close>

section \<open>The invariant\<close>

text \<open>Where a thread that is ready, blocked or waiting for characters can be suspended. A blocked
  thread is on the list of what it waits for.\<close>

fun ready_ctx :: "kcont \<Rightarrow> bool" where
  "ready_ctx KNone = False"
| "ready_ctx KExited = False"
| "ready_ctx (KRead b n) = False"
| "ready_ctx (KSemDestroy i k e) = False"
| "ready_ctx _ = True"

fun blocked_ctx :: "lnode lists \<Rightarrow> nat \<Rightarrow> kcont \<Rightarrow> bool" where
  "blocked_ctx Q t KBlock = True"
| "blocked_ctx Q t (KSemWait i) = on_list Q (SemBlocked i) (TSemList t)"
| "blocked_ctx Q t (KWaitThread p) = on_list Q (TWaitList p) (TWaitAnchor t)"
| "blocked_ctx Q t _ = False"

fun reader_ctx :: "kcont \<Rightarrow> bool" where
  "reader_ctx (KRead b n) = (0 \<le> n)"
| "reader_ctx _ = False"

definition ctx_inv :: "kstate \<Rightarrow> lnode lists \<Rightarrow> bool" where
  "ctx_inv s Q \<longleftrightarrow>
     (\<forall>t \<in> set (tasks_on Q Readyqueue). ready_ctx (k_ctx (task s t))) \<and>
     (cur s \<noteq> idle_task s \<longrightarrow> ready_ctx (k_ctx (task s (idle_task s)))) \<and>
     (\<forall>t \<in> set (tasks_on Q Blocked). blocked_ctx Q t (k_ctx (task s t))) \<and>
     (\<forall>t \<in> set (tasks_on Q ReadBlocked). reader_ctx (k_ctx (task s t))) \<and>
     (\<forall>i t. on_list Q (SemBlocked i) (TSemList t) \<longrightarrow> t \<in> set (tasks_on Q Blocked) \<and> k_ctx (task s t) = KSemWait i) \<and>
     (\<forall>p t. on_list Q (TWaitList p) (TWaitAnchor t) \<longrightarrow> t \<in> set (tasks_on Q Blocked) \<and> k_ctx (task s t) = KWaitThread p)"

lemma ctx_invD:
  assumes "ctx_inv s Q"
  shows "t \<in> set (tasks_on Q Readyqueue) \<Longrightarrow> ready_ctx (k_ctx (task s t))"
    "cur s \<noteq> idle_task s \<Longrightarrow> ready_ctx (k_ctx (task s (idle_task s)))"
    "t \<in> set (tasks_on Q Blocked) \<Longrightarrow> blocked_ctx Q t (k_ctx (task s t))"
    "t \<in> set (tasks_on Q ReadBlocked) \<Longrightarrow> reader_ctx (k_ctx (task s t))"
    "on_list Q (SemBlocked i) (TSemList t) \<Longrightarrow> t \<in> set (tasks_on Q Blocked)"
    "on_list Q (SemBlocked i) (TSemList t) \<Longrightarrow> k_ctx (task s t) = KSemWait i"
    "on_list Q (TWaitList p) (TWaitAnchor t) \<Longrightarrow> t \<in> set (tasks_on Q Blocked)"
    "on_list Q (TWaitList p) (TWaitAnchor t) \<Longrightarrow> k_ctx (task s t) = KWaitThread p"
  using assms unfolding ctx_inv_def by blast+

text \<open>Every thread but the first two is on the list of children of another.\<close>

definition families_inv :: "kstate \<Rightarrow> lnode lists \<Rightarrow> bool" where
  "families_inv s Q \<longleftrightarrow>
     (\<forall>p < NR_TASKS. live Q p \<longrightarrow> Q (TFills p) \<noteq> None \<and> Q (TWaitList p) \<noteq> None) \<and>
     (\<forall>p c. on_list Q (TFills p) (TParentAnchor c) \<longrightarrow> c < NR_TASKS \<and> live Q c \<and> c \<noteq> p \<and> c \<noteq> idle_task s \<and> live Q p) \<and>
     (\<forall>c < NR_TASKS. live Q c \<longrightarrow> c \<noteq> idle_task s \<longrightarrow> c \<noteq> task1 s \<longrightarrow> (\<exists>p. on_list Q (TFills p) (TParentAnchor c))) \<and>
     (\<forall>p n. on_list Q (TWaitList p) n \<longrightarrow> live Q p)"

lemma families_invD:
  assumes "families_inv s Q"
  shows "p < NR_TASKS \<Longrightarrow> live Q p \<Longrightarrow> Q (TFills p) \<noteq> None" "p < NR_TASKS \<Longrightarrow> live Q p \<Longrightarrow> Q (TWaitList p) \<noteq> None"
    "on_list Q (TFills p) (TParentAnchor c) \<Longrightarrow> c < NR_TASKS \<and> live Q c \<and> c \<noteq> p \<and> c \<noteq> idle_task s \<and> live Q p"
    "c < NR_TASKS \<Longrightarrow> live Q c \<Longrightarrow> c \<noteq> idle_task s \<Longrightarrow> c \<noteq> task1 s \<Longrightarrow> \<exists>p. on_list Q (TFills p) (TParentAnchor c)"
    "on_list Q (TWaitList p) n \<Longrightarrow> live Q p"
proof -
  note f = assms [unfolded families_inv_def]
  show "p < NR_TASKS \<Longrightarrow> live Q p \<Longrightarrow> Q (TFills p) \<noteq> None" "p < NR_TASKS \<Longrightarrow> live Q p \<Longrightarrow> Q (TWaitList p) \<noteq> None"
    using f by simp_all
  show "on_list Q (TFills p) (TParentAnchor c) \<Longrightarrow> c < NR_TASKS \<and> live Q c \<and> c \<noteq> p \<and> c \<noteq> idle_task s \<and> live Q p"
    by (rule f [THEN conjunct2, THEN conjunct1, rule_format])
  show "c < NR_TASKS \<Longrightarrow> live Q c \<Longrightarrow> c \<noteq> idle_task s \<Longrightarrow> c \<noteq> task1 s \<Longrightarrow> \<exists>p. on_list Q (TFills p) (TParentAnchor c)"
    by (rule f [THEN conjunct2, THEN conjunct2, THEN conjunct1, rule_format])
  show "on_list Q (TWaitList p) n \<Longrightarrow> live Q p"
    by (rule f [THEN conjunct2, THEN conjunct2, THEN conjunct2, rule_format])
qed

definition ident_inv :: "kstate \<Rightarrow> lnode lists \<Rightarrow> bool" where
  "ident_inv s Q \<longleftrightarrow> 0 < pidGlobal s \<and>
     (\<forall>t < NR_TASKS. if live Q t then PID (task s t) < pidGlobal s else PID (task s t) < 0)"

lemma ident_invD:
  assumes "ident_inv s Q" "t < NR_TASKS"
  shows "live Q t \<Longrightarrow> PID (task s t) < pidGlobal s" "\<not> live Q t \<Longrightarrow> PID (task s t) < 0"
  using assms unfolding ident_inv_def by (metis (full_types))+

text \<open>The counter of a heap that ends inside the page table.\<close>

definition heap_fits :: "int \<Rightarrow> bool" where
  "heap_fits h \<longleftrightarrow> 0 \<le> h \<and> int PAG_LOG_INIT_HEAP + h \<le> int TOTAL_PAGES"

definition heaps_inv :: "kstate \<Rightarrow> lnode lists \<Rightarrow> bool" where
  "heaps_inv s Q \<longleftrightarrow> (\<forall>t < NR_TASKS. live Q t \<longrightarrow> t \<noteq> idle_task s \<longrightarrow>
     (\<exists>hz. my_heap (task s t) = Some hz \<and> heap_fits (heap_zones (mm s) hz)))"

definition sem_use :: "kstate \<Rightarrow> bool" where
  "sem_use s \<longleftrightarrow> sem_ids s \<and>
     (\<forall>i < NUM_SEMS. \<not> sem_free (semaphores s i) \<longrightarrow> 100000 \<le> sem_id (semaphores s i)) \<and>
     (\<forall>i < NUM_SEMS. \<forall>j < NUM_SEMS. sem_id (semaphores s i) = sem_id (semaphores s j) \<longrightarrow>
        100000 \<le> sem_id (semaphores s i) \<longrightarrow> i = j)"

definition kernel_inv :: "kstate \<Rightarrow> lnode lists \<Rightarrow> bool" where
  "kernel_inv s Q \<longleftrightarrow> sched_inv s Q \<and> sem_inv s Q \<and> sem_use s \<and> ctx_inv s Q \<and> families_inv s Q \<and>
     ident_inv s Q \<and> heaps_inv s Q"

definition mode_inv :: "mode \<Rightarrow> kstate \<Rightarrow> lnode lists \<Rightarrow> bool" where
  "mode_inv m s Q = (case m of User \<Rightarrow> cpu_inv s Q
     | Resuming \<Rightarrow> cpu_inv s Q \<and> ready_ctx (k_ctx (task s (cur s))) \<or> reading s Q
     | Halted \<Rightarrow> True)"

definition kernel_ok :: "mode \<Rightarrow> kstate \<Rightarrow> lnode lists \<Rightarrow> bool" where
  "kernel_ok m s Q \<longleftrightarrow> kernel_inv s Q \<and> mode_inv m s Q"

definition proceeds :: "(outcome \<times> kstate) option \<Rightarrow> bool" where
  "proceeds res \<longleftrightarrow> (\<exists>r s' Q'. res = Some (r, s') \<and> kernel_ok (if r = Switched then Resuming else User) s' Q')"

lemma kernel_invD:
  assumes "kernel_inv s Q"
  shows "sched_inv s Q" "sem_inv s Q" "sem_use s" "ctx_inv s Q" "families_inv s Q" "ident_inv s Q" "heaps_inv s Q"
    "reps (links s) Q" "typed Q"
  using assms by (simp_all add: kernel_inv_def sched_inv_def)

lemma proceeds_return: "kernel_inv s Q \<Longrightarrow> cpu_inv s Q \<Longrightarrow> r \<noteq> Switched \<Longrightarrow> proceeds (Some (r, s))"
  unfolding proceeds_def kernel_ok_def mode_inv_def by auto

lemma proceeds_switch:
  "kernel_inv s Q \<Longrightarrow> cpu_inv s Q \<Longrightarrow> ready_ctx (k_ctx (task s (cur s))) \<Longrightarrow> proceeds (Some (Switched, s))"
  unfolding proceeds_def kernel_ok_def mode_inv_def by auto

lemma proceeds_reading: "kernel_inv s Q \<Longrightarrow> reading s Q \<Longrightarrow> proceeds (Some (Switched, s))"
  unfolding proceeds_def kernel_ok_def mode_inv_def by auto

section \<open>Steps that keep the lists\<close>

text \<open>What the invariant looks at.\<close>

definition same_kernel :: "kstate \<Rightarrow> kstate \<Rightarrow> bool" where
  "same_kernel s s' \<longleftrightarrow> links s' = links s \<and> cur s' = cur s \<and> esp0 s' = esp0 s \<and> idle_task s' = idle_task s \<and>
     task1 s' = task1 s \<and> pidGlobal s' = pidGlobal s \<and> semIDglobal s' = semIDglobal s \<and>
     semaphores s' = semaphores s \<and> cr3 (mm s') = cr3 (mm s) \<and>
     (\<forall>hz. heap_fits (heap_zones (mm s) hz) \<longrightarrow> heap_fits (heap_zones (mm s') hz)) \<and>
     (\<forall>t. PID (task s' t) = PID (task s t) \<and> current_state (task s' t) = current_state (task s t) \<and>
        dir_pages_baseAddr (task s' t) = dir_pages_baseAddr (task s t) \<and> my_heap (task s' t) = my_heap (task s t) \<and>
        k_ctx (task s' t) = k_ctx (task s t))"

lemma sem_inv_cong: "sem_inv s Q \<Longrightarrow> semaphores s' = semaphores s \<Longrightarrow> sem_inv s' Q"
  by (simp add: sem_inv_def)

lemma sem_use_cong: "sem_use s \<Longrightarrow> semaphores s' = semaphores s \<Longrightarrow> semIDglobal s' = semIDglobal s \<Longrightarrow> sem_use s'"
  by (simp add: sem_use_def sem_ids_def)

lemma kernel_inv_cong:
  assumes "same_kernel s s'" "kernel_inv s Q"
  shows "kernel_inv s' Q"
proof -
  note e = assms(1) [unfolded same_kernel_def]
  have "sched_inv s' Q" by (rule sched_inv_cong [OF kernel_invD(1) [OF assms(2)]]) (use e in simp_all)
  moreover have "sem_inv s' Q" by (rule sem_inv_cong [OF kernel_invD(2) [OF assms(2)]]) (use e in simp)
  moreover have "sem_use s'" by (rule sem_use_cong [OF kernel_invD(3) [OF assms(2)]]) (use e in simp_all)
  moreover have "ctx_inv s' Q" using kernel_invD(4) [OF assms(2)] e by (simp add: ctx_inv_def)
  moreover have "families_inv s' Q" "ident_inv s' Q"
    using kernel_invD(5,6) [OF assms(2)] e by (simp_all add: families_inv_def ident_inv_def)
  moreover have "heaps_inv s' Q"
    using kernel_invD(7) [OF assms(2)] e unfolding heaps_inv_def by fastforce
  ultimately show ?thesis by (simp add: kernel_inv_def)
qed

lemma same_kernel_cpu: "same_kernel s s' \<Longrightarrow> cpu_inv s Q \<Longrightarrow> cpu_inv s' Q"
  by (erule cpu_inv_cong) (simp_all add: same_kernel_def)

lemma same_kernel_refl [simp]: "same_kernel s s"
  by (simp add: same_kernel_def)

lemma same_kernel_return:
  "kernel_inv s Q \<Longrightarrow> cpu_inv s Q \<Longrightarrow> same_kernel s s' \<Longrightarrow> r \<noteq> Switched \<Longrightarrow> proceeds (Some (r, s'))"
  by (rule proceeds_return [of _ Q]) (auto intro: kernel_inv_cong same_kernel_cpu)

lemma same_kernel_mode: "same_kernel s s' \<Longrightarrow> mode_inv m s Q \<Longrightarrow> mode_inv m s' Q"
proof -
  assume e: "same_kernel s s'" and m: "mode_inv m s Q"
  have "yieldable s' Q" if "yieldable s Q" using that e unfolding yieldable_def same_kernel_def by simp
  then show "mode_inv m s' Q"
    using m e same_kernel_cpu [OF e] by (auto simp: mode_inv_def reading_def same_kernel_def split: mode.splits)
qed

section \<open>Steps that move threads\<close>

lemma blocked_ready: "blocked_ctx Q t k \<Longrightarrow> ready_ctx k"
  by (cases k) simp_all

text \<open>Threads move to the ready queue from where they were blocked, the current one moves anywhere,
  and the anchors of those that stay blocked stay where they are.\<close>

lemma ctx_inv_step:
  assumes c: "ctx_inv s Q" and i: "idle_task s' = idle_task s"
    and k: "\<And>t. t \<noteq> cur s \<Longrightarrow> k_ctx (task s' t) = k_ctx (task s t)"
    and n: "cur s \<notin> set (tasks_on Q Readyqueue)" "cur s \<notin> set (tasks_on Q Blocked)"
    and rdy: "\<And>t. t \<in> set (tasks_on Q' Readyqueue) \<Longrightarrow>
       t \<in> set (tasks_on Q Readyqueue) \<or> t \<in> set (tasks_on Q Blocked) \<or> t = cur s \<and> ready_ctx (k_ctx (task s' t))"
    and idle: "cur s = idle_task s \<Longrightarrow> cur s' \<noteq> cur s \<Longrightarrow> ready_ctx (k_ctx (task s' (cur s)))"
    and blk: "\<And>t. t \<in> set (tasks_on Q' Blocked) \<Longrightarrow> t \<in> set (tasks_on Q Blocked) \<or> t = cur s \<and> blocked_ctx Q' t (k_ctx (task s' t))"
    and stay: "\<And>a m t. t \<in> set (tasks_on Q' Blocked) \<Longrightarrow> t \<noteq> cur s \<Longrightarrow> m = TSemList t \<or> m = TWaitAnchor t \<Longrightarrow> on_list Q a m \<Longrightarrow> on_list Q' a m"
    and rb: "\<And>t. t \<in> set (tasks_on Q' ReadBlocked) \<Longrightarrow> t \<in> set (tasks_on Q ReadBlocked) \<and> t \<noteq> cur s \<or> reader_ctx (k_ctx (task s' t))"
    and sem: "\<And>i t. on_list Q' (SemBlocked i) (TSemList t) \<Longrightarrow> t \<in> set (tasks_on Q' Blocked) \<and>
       (on_list Q (SemBlocked i) (TSemList t) \<or> t = cur s \<and> k_ctx (task s' t) = KSemWait i)"
    and wait: "\<And>p t. on_list Q' (TWaitList p) (TWaitAnchor t) \<Longrightarrow> t \<in> set (tasks_on Q' Blocked) \<and>
       (on_list Q (TWaitList p) (TWaitAnchor t) \<or> t = cur s \<and> k_ctx (task s' t) = KWaitThread p)"
  shows "ctx_inv s' Q'"
proof -
  have r: "ready_ctx (k_ctx (task s' t))" if "t \<in> set (tasks_on Q' Readyqueue)" for t
    using rdy [OF that] n ctx_invD(1,3) [OF c] k [of t] blocked_ready by metis
  have id: "ready_ctx (k_ctx (task s' (idle_task s)))" if "cur s' \<noteq> idle_task s"
    using ctx_invD(2) [OF c] k [of "idle_task s"] idle that by (cases "cur s = idle_task s") auto
  have b: "blocked_ctx Q' t (k_ctx (task s' t))" if t: "t \<in> set (tasks_on Q' Blocked)" for t
  proof (cases "t = cur s")
    case True
    then show ?thesis using blk [OF t] n by auto
  next
    case False
    then have "blocked_ctx Q t (k_ctx (task s' t))" using blk [OF t] ctx_invD(3) [OF c] k [OF False] by auto
    then show ?thesis using stay [OF t False] by (cases "k_ctx (task s' t)") auto
  qed
  have s: "t \<in> set (tasks_on Q' Blocked) \<and> k_ctx (task s' t) = KSemWait i" if o: "on_list Q' (SemBlocked i) (TSemList t)" for i t
    using sem [OF o] ctx_invD(5,6) [OF c, of i t] k [of t] n by (cases "t = cur s") auto
  have w: "t \<in> set (tasks_on Q' Blocked) \<and> k_ctx (task s' t) = KWaitThread p" if o: "on_list Q' (TWaitList p) (TWaitAnchor t)" for p t
    using wait [OF o] ctx_invD(7,8) [OF c, of p t] k [of t] n by (cases "t = cur s") auto
  have rd: "reader_ctx (k_ctx (task s' t))" if o: "t \<in> set (tasks_on Q' ReadBlocked)" for t
    using rb [OF o] ctx_invD(4) [OF c, of t] k [of t] by auto
  show "ctx_inv s' Q'" unfolding ctx_inv_def i using r id b s w rd by blast
qed

text \<open>The thread that gets the CPU.\<close>

lemma next_ctx:
  assumes c: "ctx_inv s Q" and k: "\<And>t. t \<noteq> cur s \<Longrightarrow> k_ctx (task s' t) = k_ctx (task s t)" and ne: "cur s' \<noteq> cur s"
    and nx: "cur s' = idle_task s \<or> cur s' \<in> set (tasks_on Q Readyqueue) \<or> cur s' \<in> set (tasks_on Q Blocked)"
  shows "ready_ctx (k_ctx (task s' (cur s')))"
  using nx ctx_invD(1,2,3) [OF c] k [OF ne] ne blocked_ready by metis

text \<open>The rest of the invariant does not see a thread move between queues.\<close>

definition keeps :: "kstate \<Rightarrow> kstate \<Rightarrow> bool" where
  "keeps s s' \<longleftrightarrow> idle_task s' = idle_task s \<and> task1 s' = task1 s \<and> pidGlobal s' = pidGlobal s \<and>
     semIDglobal s' = semIDglobal s \<and> heap_zones (mm s') = heap_zones (mm s) \<and>
     (\<forall>t. PID (task s' t) = PID (task s t) \<and> my_heap (task s' t) = my_heap (task s t))"

lemma sched_frame_keeps: "sched_frame s s' \<Longrightarrow> keeps s s'"
  using sched_frame_fields [of s s'] sched_frame_rest [of s s'] by (simp add: keeps_def)

definition same_families :: "lnode lists \<Rightarrow> lnode lists \<Rightarrow> bool" where
  "same_families Q Q' \<longleftrightarrow> Q' Freequeue = Q Freequeue \<and> (\<forall>p. Q' (TFills p) = Q (TFills p)) \<and>
     (\<forall>p. Q' (TWaitList p) = None \<longleftrightarrow> Q (TWaitList p) = None) \<and>
     (\<forall>p n. on_list Q' (TWaitList p) n \<longrightarrow> on_list Q (TWaitList p) n \<or> live Q p)"

lemma same_familiesI:
  "Q' Freequeue = Q Freequeue \<Longrightarrow> (\<And>p. Q' (TFills p) = Q (TFills p)) \<Longrightarrow> (\<And>p. Q' (TWaitList p) = Q (TWaitList p)) \<Longrightarrow>
     same_families Q Q'"
  by (simp add: same_families_def on_list_def)

lemma rest_inv:
  assumes k: "kernel_inv s Q" and e: "keeps s s'" "same_families Q Q'"
  shows "families_inv s' Q'" "ident_inv s' Q'" "heaps_inv s' Q'"
proof -
  have l: "live Q' t \<longleftrightarrow> live Q t" for t using e(2) by (simp add: live_def on_list_def same_families_def)
  have f: "on_list Q' (TFills p) n \<longleftrightarrow> on_list Q (TFills p) n" for p n
    using e(2) by (simp add: on_list_def same_families_def)
  note i = kernel_invD(5-7) [OF k]
  have w: "on_list Q' (TWaitList p) n \<Longrightarrow> live Q p" for p n
    using e(2) families_invD(5) [OF i(1), of p n] by (auto simp: same_families_def)
  show "families_inv s' Q'" using i(1) e w unfolding families_inv_def l f by (simp add: keeps_def same_families_def)
  show "ident_inv s' Q'" "heaps_inv s' Q'" using i(2,3) e(1) unfolding ident_inv_def heaps_inv_def l by (simp_all add: keeps_def)
qed

lemma kernel_step:
  assumes "kernel_inv s Q" "keeps s s'" "same_families Q Q'" "sched_inv s' Q'" "sem_inv s' Q'" "sem_use s'" "ctx_inv s' Q'"
  shows "kernel_inv s' Q'"
  using assms rest_inv [OF assms(1-3)] by (simp add: kernel_inv_def)

text \<open>The running thread is on no queue.\<close>

lemma running_off:
  assumes "sched_inv s Q" "cpu_inv s Q"
  shows "\<not> on_list Q a (TList (cur s))" "d \<in> sched_queues \<Longrightarrow> cur s \<notin> set (tasks_on Q d)"
proof -
  have ty: "typed Q" using assms(1) by (simp add: sched_inv_def)
  have c: "cur s < NR_TASKS" "live Q (cur s)" using assms(2) by (simp_all add: cpu_inv_def)
  show n: "\<not> on_list Q a (TList (cur s))" for a
    using live_linked [OF assms(1) c(1) _ c(2)] idle_live [OF assms(1)] cpu_running [OF assms(2)]
    by (cases "cur s = idle_task s") auto
  show "cur s \<notin> set (tasks_on Q d)" if "d \<in> sched_queues" using n on_queue_iff [OF ty that, of "cur s"] by simp
qed

lemma next_ready:
  assumes "(c', rs') = rr_next i run (c, rs)"
  shows "t \<in> set rs' \<or> t = c' \<Longrightarrow> t = i \<or> t \<in> set rs \<or> run \<and> t = c"
  using assms by (cases rs) (auto split: if_splits)

lemma sem_anchor: "on_list Q (SemBlocked i) (TSemList t) \<Longrightarrow> kernel_inv s Q \<Longrightarrow> t \<in> set (tasks_on Q Blocked)"
  using kernel_invD(4) by (auto simp: ctx_inv_def)

end
