(* ===== verification/Kernel_Calls.thy ===== *)
theory Kernel_Calls
  imports Kernel_State
begin

text \<open>
  Every system call that can block or wake a thread proceeds. What a call needs beyond the
  invariant is a premise of its lemma.
\<close>

section \<open>Suspending the caller\<close>

lemma rr_next_other:
  assumes "(c', rs') = rr_next i run (c, rs)"
  shows "t \<in> set rs' \<Longrightarrow> t \<in> set rs \<or> run \<and> t = c" "c' = i \<or> c' \<in> set rs"
  using assms by (cases rs; auto split: if_splits)+

lemma suspended_proceeds:
  assumes ki: "kernel_inv s Q" and cpu: "cpu_inv s Q" and ni: "cur s \<noteq> idle_task s"
    and s': "sched_inv s' Q'" "cpu_inv s' Q'" "sem_inv s' Q'" "sem_use s'" and kp: "keeps s s'"
    and k: "\<forall>t. t \<noteq> cur s \<longrightarrow> k_ctx (task s' t) = k_ctx (task s t)" and ne: "cur s' \<noteq> cur s"
    and rr: "(cur s', tasks_on Q' Readyqueue) = rr_next (idle_task s) False (cur s, tasks_on Q Readyqueue)"
    and b: "tasks_on Q' Blocked = tasks_on Q Blocked @ [cur s]" "blocked_ctx Q' (cur s) (k_ctx (task s' (cur s)))"
    and fam: "same_families Q Q'" "Q' ReadBlocked = Q ReadBlocked"
    and stay: "\<And>a m. on_list Q a m \<Longrightarrow> a \<notin> sched_queues \<Longrightarrow> on_list Q' a m"
    and sem: "\<And>i t. on_list Q' (SemBlocked i) (TSemList t) \<Longrightarrow>
       on_list Q (SemBlocked i) (TSemList t) \<or> t = cur s \<and> k_ctx (task s' t) = KSemWait i"
    and wait: "\<And>p t. on_list Q' (TWaitList p) (TWaitAnchor t) \<Longrightarrow>
       on_list Q (TWaitList p) (TWaitAnchor t) \<or> t = cur s \<and> k_ctx (task s' t) = KWaitThread p"
  shows "proceeds (Some (Switched, s'))"
proof -
  note i = kernel_invD [OF ki]
  have n: "cur s \<notin> set (tasks_on Q d)" if "d \<in> sched_queues" for d using running_off(2) [OF i(1) cpu that] .
  have anchor: "a \<notin> sched_queues" if "on_list Q a m" "m = TSemList t \<or> m = TWaitAnchor t" for a m t
    using typed_sched [OF i(9) that(1)] that(2) by auto
  have rb: "tasks_on Q' ReadBlocked = tasks_on Q ReadBlocked" using fam(2) by (simp add: tasks_on_def)
  have idle: "idle_task s' = idle_task s" using kp by (simp add: keeps_def)
  have "ctx_inv s' Q'"
  proof (rule ctx_inv_step [OF i(4) idle])
    show "t \<in> set (tasks_on Q' Blocked) \<and> (on_list Q (SemBlocked j) (TSemList t) \<or> t = cur s \<and> k_ctx (task s' t) = KSemWait j)"
      if o: "on_list Q' (SemBlocked j) (TSemList t)" for j t
      using sem [OF o] ctx_invD(5) [OF i(4)] b(1) by auto
    show "t \<in> set (tasks_on Q' Blocked) \<and> (on_list Q (TWaitList p) (TWaitAnchor t) \<or> t = cur s \<and> k_ctx (task s' t) = KWaitThread p)"
      if o: "on_list Q' (TWaitList p) (TWaitAnchor t)" for p t
      using wait [OF o] ctx_invD(7) [OF i(4)] b(1) by auto
    show "on_list Q' a m" if "m = TSemList t \<or> m = TWaitAnchor t" "on_list Q a m" for a m t
      using stay [OF that(2)] anchor [OF that(2,1)] by blast
  qed (use k n ni b rb rr_next_other(1) [OF rr] in auto)
  then have "kernel_inv s' Q'" using kernel_step [OF ki kp fam(1)] s' by blast
  moreover have "ready_ctx (k_ctx (task s' (cur s')))"
    by (rule next_ctx [OF i(4)]) (use k ne rr_next_other(2) [OF rr] in auto)
  ultimately show ?thesis using proceeds_switch s'(2) by blast
qed

lemma sched_frame_sem: "sched_frame s s' \<Longrightarrow> sem_use s \<Longrightarrow> sem_use s'"
  by (rule sem_use_cong) (simp_all add: sched_frame_rest)

lemma sem_inv_lists:
  assumes "sem_inv s Q" "semaphores s' = semaphores s" "\<And>i. Q' (SemBlocked i) = Q (SemBlocked i)"
    and "set (tasks_on Q Blocked) \<subseteq> set (tasks_on Q' Blocked)"
  shows "sem_inv s' Q'"
  using assms unfolding sem_inv_def waiters_def tasks_on_def on_list_def by fastforce

lemma block_proceeds:
  assumes ki: "kernel_inv s Q" and cpu: "cpu_inv s Q" and ni: "cur s \<noteq> idle_task s"
  shows "proceeds (sys_block s)"
proof (cases "pending_unblocks (task s (cur s)) > 0")
  case True
  then show ?thesis
    by (simp add: sys_block_def) (rule same_kernel_return [OF ki cpu]; simp add: same_kernel_def upd_task_def)
next
  case False
  note i = kernel_invD [OF ki]
  obtain s1 s' Q' where s': "update_process_state_rr (cur s) (Some Blocked) s = Some s1"
     "sched_then KBlock (\<lambda>s. Some (RetVoid, s)) s1 = Some (Switched, s')" "sched_inv s' Q'" "cpu_inv s' Q'"
     "(cur s', tasks_on Q' Readyqueue) = rr_next (idle_task s) False (cur s, tasks_on Q Readyqueue)"
     "cur s' \<noteq> cur s" "tasks_on Q' Blocked = tasks_on Q Blocked @ [cur s]"
     "\<forall>a. a \<noteq> Readyqueue \<longrightarrow> a \<noteq> Blocked \<longrightarrow> Q' a = Q a" "k_ctx (task s' (cur s)) = KBlock" "sched_frame s s'"
     "\<forall>t. t \<noteq> cur s \<longrightarrow> k_ctx (task s' t) = k_ctx (task s t)"
    using suspend [OF i(1) cpu ni, of Blocked KBlock "\<lambda>s. Some (RetVoid, s)"] by blast
  have o: "on_list Q' a m = on_list Q a m" if "a \<noteq> Readyqueue" "a \<noteq> Blocked" for a m
    using s'(8) that by (simp add: on_list_def)
  have "sem_inv s' Q'"
    by (rule sem_inv_lists [OF i(2)]) (use s'(7,8) sched_frame_rest(2) [OF s'(10)] in auto)
  then have "proceeds (Some (Switched, s'))"
    by (rule suspended_proceeds [OF ki cpu ni s'(3,4) _ sched_frame_sem [OF s'(10) i(3)] sched_frame_keeps [OF s'(10)]
          s'(11,6,5,7)]) (use s'(8,9) o in \<open>auto intro: same_familiesI\<close>)
  then show ?thesis using False s'(1,2) by (simp add: sys_block_def)
qed

section \<open>semWait and wait\<close>

lemma sem_use_upd:
  assumes "sem_use s" "semaphores s' = semaphores (upd_sem i f s)" "semIDglobal s' = semIDglobal s"
    and "sem_id (f (semaphores s i)) = sem_id (semaphores s i)" "sem_free (semaphores s i) \<longrightarrow> sem_free (f (semaphores s i))"
  shows "sem_use s'"
proof -
  have "sem_id (semaphores s' j) = sem_id (semaphores s j)" "sem_free (semaphores s j) \<longrightarrow> sem_free (semaphores s' j)" for j
    using assms(2,4,5) by simp_all
  then show ?thesis using assms(1,3) unfolding sem_use_def sem_ids_def by metis
qed

lemma keeps_upd_sem: "keeps (upd_sem i f s) s' \<longleftrightarrow> keeps s s'"
  by (simp add: keeps_def upd_sem_def)

lemma not_usable: "100000 \<le> semid \<Longrightarrow> sem_find semid s = Some i \<Longrightarrow> \<not> sem_free (semaphores s i) \<Longrightarrow> usable s semid i"
  by (simp add: usable_def)

lemma semWait_proceeds:
  assumes ki: "kernel_inv s Q" and cpu: "cpu_inv s Q" and ni: "cur s \<noteq> idle_task s"
  shows "proceeds (sys_semWait semid s)"
proof (cases "\<exists>i. usable s semid i")
  case False
  then have "\<exists>r. sys_semWait semid s = Some (Ret r, s)"
    using not_usable [of semid s] by (auto simp: sys_semWait_def sys_semWait_extended_def split: option.split)
  then show ?thesis using proceeds_return [OF ki cpu] by auto
next
  case True
  then obtain i where u: "usable s semid i" by blast
  let ?f = "\<lambda>sm. sm\<lparr>sem_value := sem_value sm - 1\<rparr>"
  note v = kernel_invD [OF ki]
  note spec = sys_semWait_spec [OF v(1) cpu v(2) ni u]
  show ?thesis
  proof (cases "sem_value (semaphores s i) > 0")
    case True
    then have s': "sys_semWait semid s = Some (Ret (creatorPID (semaphores s i)), upd_sem i ?f s)"
      "sched_inv (upd_sem i ?f s) Q" "cpu_inv (upd_sem i ?f s) Q" "sem_inv (upd_sem i ?f s) Q" using spec by auto
    have "kernel_inv (upd_sem i ?f s) Q"
      by (rule kernel_step [OF ki _ _ s'(2,4) sem_use_upd [OF v(3), of _ i ?f]])
        (use v(4) in \<open>simp_all add: keeps_def same_families_def ctx_inv_def upd_sem_def\<close>)
    then show ?thesis using proceeds_return s'(1,3) by auto
  next
    case False
    then obtain s' Q' where s': "sys_semWait semid s = Some (Switched, s')" "sched_inv s' Q'" "cpu_inv s' Q'" "sem_inv s' Q'"
      "(cur s', tasks_on Q' Readyqueue) = rr_next (idle_task s) False (cur s, tasks_on Q Readyqueue)"
      "tasks_on Q' Blocked = tasks_on Q Blocked @ [cur s]" "waiters Q' i = waiters Q i @ [cur s]"
      "k_ctx (task s' (cur s)) = KSemWait i" "\<forall>a. a \<notin> {Readyqueue, Blocked, SemBlocked i} \<longrightarrow> Q' a = Q a"
      "sched_frame (upd_sem i ?f s) s'" "\<forall>t. t \<noteq> cur s \<longrightarrow> k_ctx (task s' t) = k_ctx (task s t)"
      using spec by (simp only: if_False) blast
    have ui: "i < NUM_SEMS" "\<not> sem_free (semaphores s i)" using u usable_slot by (auto simp: usable_def)
    have sems: "semaphores s' = semaphores (upd_sem i ?f s)" using s'(10) by (simp add: sched_frame_rest)
    have kp: "keeps s s'" using sched_frame_keeps [OF s'(10)] by (simp add: keeps_upd_sem)
    have q: "Q (SemBlocked i) \<noteq> None" "Q' (SemBlocked i) \<noteq> None"
      using v(2) s'(4) ui sems by (simp_all add: sem_inv_def)
    have ty': "typed Q'" using s'(2) by (simp add: sched_inv_def)
    have Qi: "Q' (SemBlocked i) = Some (map TSemList (waiters Q i @ [cur s]))" "Q (SemBlocked i) = Some (map TSemList (waiters Q i))"
      using sem_queue [OF ty' q(2)] sem_queue [OF v(9) q(1)] s'(7) by simp_all
    have ne: "cur s' \<noteq> cur s"
      using rr_next_other(2) [OF s'(5)] ni running_off(2) [OF v(1) cpu, of Readyqueue] by auto
    have o: "on_list Q' a m \<longleftrightarrow> on_list Q a m \<or> a = SemBlocked i \<and> m = TSemList (cur s)" if "a \<notin> sched_queues" for a m
      using s'(9) that Qi by (cases "a = SemBlocked i") (auto simp: on_list_def)
    have "sem_use s'" by (rule sem_use_upd [OF v(3) sems]) (use kp in \<open>simp_all add: keeps_def\<close>)
    then have "proceeds (Some (Switched, s'))"
      by (rule suspended_proceeds [OF ki cpu ni s'(2-4) _ kp s'(11) ne s'(5,6)])
        (use s'(8,9) o in \<open>auto intro: same_familiesI\<close>)
    then show ?thesis using s'(1) by simp
  qed
qed

text \<open>The nodes on the lists of a task.\<close>

lemma family_queues:
  assumes "typed Q"
  shows "Q (TWaitList p) \<noteq> None \<Longrightarrow> \<exists>ws. Q (TWaitList p) = Some (map TWaitAnchor ws)"
    "Q (TFills p) \<noteq> None \<Longrightarrow> \<exists>cs. Q (TFills p) = Some (map TParentAnchor cs)"
proof -
  have fit: "fits a n" if "Q a = Some xs" "n \<in> set xs" for a n xs
    using assms that by (auto simp: typed_def on_list_def)
  have wait: "\<exists>t. n = TWaitAnchor t" if "fits (TWaitList p) n" for n using that by (cases n) auto
  have fills: "\<exists>t. n = TParentAnchor t" if "fits (TFills p) n" for n using that by (cases n) auto
  show "\<exists>ws. Q (TWaitList p) = Some (map TWaitAnchor ws)" if "Q (TWaitList p) \<noteq> None"
    using that fit [of "TWaitList p"] wait by (auto simp: ex_map_conv)
  show "\<exists>cs. Q (TFills p) = Some (map TParentAnchor cs)" if "Q (TFills p) \<noteq> None"
    using that fit [of "TFills p"] fills by (auto simp: ex_map_conv)
qed

lemma wait_proceeds:
  assumes ki: "kernel_inv s Q" and cpu: "cpu_inv s Q" and ni: "cur s \<noteq> idle_task s" and p: "0 \<le> pid"
  shows "proceeds (sys_wait_thread pid s)"
proof (cases "find_from 0 (\<lambda>i. PID (task s i) = pid) 0 NR_TASKS")
  case None
  then show ?thesis using proceeds_return [OF ki cpu] by (simp add: sys_wait_thread_def)
next
  case (Some bt)
  note v = kernel_invD [OF ki]
  have bt: "bt < NR_TASKS" "PID (task s bt) = pid" using find_from_unit_Some [OF Some] by auto
  then have "live Q bt" using v(6) p unfolding ident_inv_def by (metis not_less)
  then have "Q (TWaitList bt) \<noteq> None" using v(5) bt(1) by (simp add: families_inv_def)
  then obtain ws where ws: "Q (TWaitList bt) = Some (map TWaitAnchor ws)" using family_queues(1) [OF v(9)] by blast
  have na: "\<not> on_list Q a (TWaitAnchor (cur s))" for a
  proof
    assume l: "on_list Q a (TWaitAnchor (cur s))"
    then have "fits a (TWaitAnchor (cur s))" using v(9) unfolding typed_def by blast
    then obtain p where "a = TWaitList p" by auto
    then show False using l ctx_invD(7) [OF v(4)] running_off(2) [OF v(1) cpu, of Blocked] by auto
  qed
  obtain s' Q' where s': "sys_wait_thread pid s = Some (Switched, s')" "sched_inv s' Q'" "cpu_inv s' Q'"
     "(cur s', tasks_on Q' Readyqueue) = rr_next (idle_task s) False (cur s, tasks_on Q Readyqueue)"
     "tasks_on Q' Blocked = tasks_on Q Blocked @ [cur s]" "Q' (TWaitList bt) = Some (map TWaitAnchor (ws @ [cur s]))"
     "\<forall>a. a \<noteq> Readyqueue \<longrightarrow> a \<noteq> Blocked \<longrightarrow> a \<noteq> TWaitList bt \<longrightarrow> Q' a = Q a"
     "k_ctx (task s' (cur s)) = KWaitThread bt" "sched_frame s s'"
     "\<forall>t. t \<noteq> cur s \<longrightarrow> k_ctx (task s' t) = k_ctx (task s t)"
    using sys_wait_thread_spec [OF v(1) cpu ni Some ws] na by blast
  have o: "on_list Q' a m \<longleftrightarrow> on_list Q a m \<or> a = TWaitList bt \<and> m = TWaitAnchor (cur s)" if "a \<notin> sched_queues" for a m
    using s'(6,7) that ws by (cases "a = TWaitList bt") (auto simp: on_list_def)
  have ne: "cur s' \<noteq> cur s"
    using rr_next_other(2) [OF s'(4)] ni running_off(2) [OF v(1) cpu, of Readyqueue] by auto
  have fam: "same_families Q Q'"
  proof -
    have "Q' (TWaitList p) = None \<longleftrightarrow> Q (TWaitList p) = None" for p using s'(6,7) ws by (cases "p = bt") auto
    moreover have "on_list Q' (TWaitList p) n \<longrightarrow> on_list Q (TWaitList p) n \<or> live Q p" for p n
      using s'(7) \<open>live Q bt\<close> by (cases "p = bt") (simp_all add: on_list_def)
    ultimately show ?thesis using s'(7) by (simp add: same_families_def)
  qed
  have "sem_inv s' Q'"
    by (rule sem_inv_lists [OF v(2)]) (use s'(5,7) sched_frame_rest(2) [OF s'(9)] in auto)
  then have "proceeds (Some (Switched, s'))"
    by (rule suspended_proceeds [OF ki cpu ni s'(2,3) _ sched_frame_sem [OF s'(9) v(3)] sched_frame_keeps [OF s'(9)]
          s'(10) ne s'(4,5) _ fam]) (use s'(6-8) o in auto)
  then show ?thesis using s'(1) by simp
qed


section \<open>Waking threads\<close>

text \<open>The running thread, or the idle task, gives the CPU away and stays ready.\<close>

lemma yield_inv:
  assumes ki: "kernel_inv s Q" and cpu: "cpu_inv s Q" and kc: "ready_ctx kc"
  shows "\<exists>s' Q'. sched_then kc rest s = (if cur s' \<noteq> cur s then Some (Switched, s') else rest s') \<and>
     kernel_inv s' Q' \<and> cpu_inv s' Q' \<and> (cur s' \<noteq> cur s \<longrightarrow> ready_ctx (k_ctx (task s' (cur s')))) \<and>
     (cur s \<noteq> idle_task s \<longrightarrow> cur s' \<noteq> cur s)"
proof -
  note v = kernel_invD [OF ki]
  have n: "cur s \<notin> set (tasks_on Q d)" if "d \<in> sched_queues" for d using running_off(2) [OF v(1) cpu that] .
  obtain s' Q' where s': "sched_then kc rest s = (if cur s' \<noteq> cur s then Some (Switched, s') else rest s')"
    "sched_inv s' Q'" "cpu_inv s' Q'"
    "(cur s', tasks_on Q' Readyqueue) = rr_next (idle_task s) (cur s \<noteq> idle_task s) (cur s, tasks_on Q Readyqueue)"
    "\<forall>d. d \<noteq> Readyqueue \<longrightarrow> Q' d = Q d" "sched_frame s s'" "cur s' \<noteq> cur s \<longrightarrow> k_ctx (task s' (cur s)) = kc"
    "\<forall>t. t \<noteq> cur s \<longrightarrow> k_ctx (task s' t) = k_ctx (task s t)"
    using sched_then_spec [OF v(1) cpu_inv_yieldable [OF cpu], of kc rest] cpu_running [OF cpu] by auto
  have ne: "cur s \<noteq> idle_task s \<longrightarrow> cur s' \<noteq> cur s" using rr_next_other(2) [OF s'(4)] n [of Readyqueue] by auto
  have q: "tasks_on Q' d = tasks_on Q d" if "d \<noteq> Readyqueue" for d using s'(5) that by (simp add: tasks_on_def)
  have o: "on_list Q' a m \<longleftrightarrow> on_list Q a m" if "a \<noteq> Readyqueue" for a m using s'(5) that by (simp add: on_list_def)
  have anchor: "a \<noteq> Readyqueue" if "on_list Q a m" "m = TSemList t \<or> m = TWaitAnchor t" for a m t
    using typed_sched [OF v(9) that(1)] that(2) by auto
  have kp: "keeps s s'" by (rule sched_frame_keeps [OF s'(6)])
  have idle: "idle_task s' = idle_task s" using kp by (simp add: keeps_def)
  have "ctx_inv s' Q'"
  proof (rule ctx_inv_step [OF v(4) idle])
    show "t \<in> set (tasks_on Q Readyqueue) \<or> t \<in> set (tasks_on Q Blocked) \<or> t = cur s \<and> ready_ctx (k_ctx (task s' t))"
      if "t \<in> set (tasks_on Q' Readyqueue)" for t
      using rr_next_other(1) [OF s'(4) that] s'(7) ne kc by auto
    show "on_list Q' a m" if "m = TSemList t \<or> m = TWaitAnchor t" "on_list Q a m" for a m t
      using o anchor [OF that(2,1)] that(2) by blast
    show "t \<in> set (tasks_on Q ReadBlocked) \<and> t \<noteq> cur s \<or> reader_ctx (k_ctx (task s' t))"
      if "t \<in> set (tasks_on Q' ReadBlocked)" for t using that n [of ReadBlocked] by (auto simp: q)
    show "t \<in> set (tasks_on Q' Blocked) \<and> (on_list Q (SemBlocked j) (TSemList t) \<or> t = cur s \<and> k_ctx (task s' t) = KSemWait j)"
      if "on_list Q' (SemBlocked j) (TSemList t)" for j t using that ctx_invD(5) [OF v(4)] by (simp add: o q)
    show "t \<in> set (tasks_on Q' Blocked) \<and> (on_list Q (TWaitList p) (TWaitAnchor t) \<or> t = cur s \<and> k_ctx (task s' t) = KWaitThread p)"
      if "on_list Q' (TWaitList p) (TWaitAnchor t)" for p t using that ctx_invD(7) [OF v(4)] by (simp add: o q)
  qed (use s'(7,8) n kc in \<open>auto simp: q\<close>)
  moreover have "sem_inv s' Q'"
    by (rule sem_inv_lists [OF v(2)]) (use s'(5) q sched_frame_rest(2) [OF s'(6)] in auto)
  moreover have "same_families Q Q'" using s'(5) by (simp add: same_families_def on_list_def)
  ultimately have "kernel_inv s' Q'" using kernel_step [OF ki kp] s'(2) sched_frame_sem [OF s'(6) v(3)] by blast
  moreover have "ready_ctx (k_ctx (task s' (cur s')))" if "cur s' \<noteq> cur s"
    by (rule next_ctx [OF v(4)]) (use s'(8) that rr_next_other(2) [OF s'(4)] in auto)
  ultimately show ?thesis using s'(1,3) ne by blast
qed

lemma yield_proceeds:
  assumes "kernel_inv s Q" "cpu_inv s Q" "cur s \<noteq> idle_task s" "ready_ctx kc"
  shows "\<exists>s'. sched_then kc rest s = Some (Switched, s') \<and> proceeds (Some (Switched, s'))"
proof -
  obtain s' Q' where "sched_then kc rest s = (if cur s' \<noteq> cur s then Some (Switched, s') else rest s')"
    "kernel_inv s' Q'" "cpu_inv s' Q'" "ready_ctx (k_ctx (task s' (cur s')))" "cur s' \<noteq> cur s"
    using yield_inv [OF assms(1,2,4), of rest] assms(3) by blast
  then show ?thesis using proceeds_switch by (intro exI [of _ s']) simp
qed

text \<open>The clock may find the idle task running and nobody ready: then it goes on.\<close>

lemma clock_proceeds:
  assumes ki: "kernel_inv s Q" and cpu: "cpu_inv s Q"
  shows "proceeds (clock_routine show_clk s)"
proof -
  let ?s = "update_sched_data_rr (s\<lparr>con := show_clk (zeos_tick s) (con s), zeos_tick := zeos_tick s + 10\<rparr>)"
  have e: "same_kernel s ?s" by (simp add: same_kernel_def update_sched_data_rr_def)
  note k = kernel_inv_cong [OF e ki] same_kernel_cpu [OF e cpu]
  obtain s' Q' where s': "sched_then KInterrupt (\<lambda>s. Some (RetVoid, s)) ?s =
      (if cur s' \<noteq> cur ?s then Some (Switched, s') else Some (RetVoid, s'))"
    "kernel_inv s' Q'" "cpu_inv s' Q'" "cur s' \<noteq> cur ?s \<longrightarrow> ready_ctx (k_ctx (task s' (cur s')))"
    using yield_inv [OF k, of KInterrupt "\<lambda>s. Some (RetVoid, s)"] by auto
  then have "proceeds (sched_then KInterrupt (\<lambda>s. Some (RetVoid, s)) ?s)"
    using proceeds_switch proceeds_return by simp
  then show ?thesis using proceeds_return [OF k, of RetVoid] by (simp add: clock_routine_def Let_def)
qed

text \<open>A blocked thread is made ready; its anchor, if it has one, was taken off before.\<close>

lemma woken_inv:
  assumes ki: "kernel_inv s Q" and cpu: "cpu_inv s Q"
    and s': "sched_inv s' Q'" "sem_inv s' Q'" "sem_use s'" and kp: "keeps s s'" "cur s' = cur s" "same_families Q Q'"
    and k: "\<forall>t. k_ctx (task s' t) = k_ctx (task s t)" and w: "w \<in> set (tasks_on Q Blocked)"
    and q: "set (tasks_on Q' Readyqueue) \<subseteq> insert w (set (tasks_on Q Readyqueue))"
      "set (tasks_on Q' Blocked) = set (tasks_on Q Blocked) - {w}" "Q' ReadBlocked = Q ReadBlocked"
    and o: "\<And>a t m. m = TSemList t \<or> m = TWaitAnchor t \<Longrightarrow> on_list Q' a m \<longleftrightarrow> on_list Q a m \<and> t \<noteq> w"
  shows "kernel_inv s' Q'"
proof -
  note v = kernel_invD [OF ki]
  have rb: "tasks_on Q' ReadBlocked = tasks_on Q ReadBlocked" using q(3) by (simp add: tasks_on_def)
  have n: "cur s \<notin> set (tasks_on Q d)" if "d \<in> sched_queues" for d using running_off(2) [OF v(1) cpu that] .
  have idle: "idle_task s' = idle_task s" using kp(1) by (simp add: keeps_def)
  have "ctx_inv s' Q'"
  proof (rule ctx_inv_step [OF v(4) idle])
    show "t \<in> set (tasks_on Q' Blocked) \<and> (on_list Q (SemBlocked j) (TSemList t) \<or> t = cur s \<and> k_ctx (task s' t) = KSemWait j)"
      if "on_list Q' (SemBlocked j) (TSemList t)" for j t
      using that o [of "TSemList t" t] ctx_invD(5) [OF v(4)] by (auto simp: q(2))
    show "t \<in> set (tasks_on Q' Blocked) \<and> (on_list Q (TWaitList p) (TWaitAnchor t) \<or> t = cur s \<and> k_ctx (task s' t) = KWaitThread p)"
      if "on_list Q' (TWaitList p) (TWaitAnchor t)" for p t
      using that o [of "TWaitAnchor t" t] ctx_invD(7) [OF v(4)] by (auto simp: q(2))
    show "on_list Q' a m" if "t \<in> set (tasks_on Q' Blocked)" "m = TSemList t \<or> m = TWaitAnchor t" "on_list Q a m" for a m t
      using that o [OF that(2)] by (simp add: q(2))
  qed (use k n q w kp(2) rb in auto)
  then show ?thesis using kernel_step [OF ki kp(1,3)] s' by blast
qed

text \<open>\<open>unblock\<close> of a thread that is blocked in \<open>block\<close>.\<close>

lemma unblock_one:
  assumes ki: "kernel_inv s Q" and cpu: "cpu_inv s Q" and w: "w \<in> set (tasks_on Q Blocked)" "k_ctx (task s w) = KBlock"
  shows "\<exists>s1 Q1. update_process_state_rr w (Some Readyqueue) s = Some s1 \<and> kernel_inv s1 Q1 \<and> cpu_inv s1 Q1 \<and>
     cur s1 = cur s \<and> sched_frame s s1 \<and> set (tasks_on Q1 Blocked) = set (tasks_on Q Blocked) - {w} \<and>
     (\<forall>t. k_ctx (task s1 t) = k_ctx (task s t)) \<and> (\<forall>p. Q1 (TFills p) = Q (TFills p))"
proof -
  note v = kernel_invD [OF ki]
  obtain s1 Q1 where s1: "update_process_state_rr w (Some Readyqueue) s = Some s1" "sched_inv s1 Q1" "cpu_inv s1 Q1"
     "tasks_on Q1 Readyqueue = tasks_on Q Readyqueue @ [w]" "tasks_on Q1 Blocked = remove1 w (tasks_on Q Blocked)"
     "\<forall>a. a \<noteq> Readyqueue \<longrightarrow> a \<noteq> Blocked \<longrightarrow> Q1 a = Q a" "cur s1 = cur s"
     "\<forall>u. k_ctx (task s1 u) = k_ctx (task s u)" "sched_frame s s1"
    using wake [OF v(1) cpu w(1)] by blast
  have b: "set (tasks_on Q1 Blocked) = set (tasks_on Q Blocked) - {w}"
    using s1(5) distinct_tasks_on [OF v(8,9), of Blocked] by (simp add: set_remove1_eq)
  have no: "\<not> on_list Q a m" if "m = TSemList w \<or> m = TWaitAnchor w" for a m
  proof
    assume l: "on_list Q a m"
    then have "fits a m" using v(9) unfolding typed_def by blast
    then show False using that l ctx_invD(6,8) [OF v(4)] w(2) by auto
  qed
  have o: "on_list Q1 a m \<longleftrightarrow> on_list Q a m \<and> t \<noteq> w" if m: "m = TSemList t \<or> m = TWaitAnchor t" for a t m
  proof (cases "a \<in> sched_queues")
    case True
    have "typed Q1" using s1(2) by (simp add: sched_inv_def)
    from typed_sched [OF this, of a m] typed_sched [OF v(9), of a m] True m show ?thesis by blast
  next
    case False
    then have "Q1 a = Q a" using s1(6) by simp
    then show ?thesis using no [of m a] m by (auto simp: on_list_def)
  qed
  have "sem_inv s1 Q1"
    unfolding sem_inv_def waiters_def
  proof (intro conjI allI impI)
    show "t \<in> set (tasks_on Q1 Blocked)" if "on_list Q1 (SemBlocked i) (TSemList t)" for i t
      using that o [of "TSemList t" t] ctx_invD(5) [OF v(4)] b by auto
  qed (use v(2) s1(6) sched_frame_rest(2) [OF s1(9)] in \<open>simp_all add: sem_inv_def waiters_def tasks_on_def\<close>)
  then have "kernel_inv s1 Q1"
    by (rule woken_inv [OF ki cpu s1(2) _ sched_frame_sem [OF s1(9) v(3)] sched_frame_keeps [OF s1(9)] s1(7) _ s1(8) w(1)])
      (use s1(4,6) b o in \<open>auto intro: same_familiesI\<close>)
  then show ?thesis using s1 b by (intro exI [of _ s1] exI [of _ Q1]) simp
qed


lemma queue_state:
  assumes "sched_inv s Q" "t \<in> set (tasks_on Q d)" "d \<in> {Readyqueue, Blocked, ReadBlocked}"
  shows "t < NR_TASKS" "t \<noteq> idle_task s" "live Q t" "dest_state d = Some (current_state (task s t))"
proof -
  have r: "reps (links s) Q" and ty: "typed Q" using assms(1) by (simp_all add: sched_inv_def)
  have l: "on_list Q d (TList t)" using assms(2,3) on_queue_iff [OF ty, of d] by auto
  then show t: "t < NR_TASKS" "t \<noteq> idle_task s" using assms(1) unfolding sched_inv_def by blast+
  show "live Q t" using dl.on_list_unique [OF r l, of Freequeue] assms(3) by (auto simp: live_def)
  show "dest_state d = Some (current_state (task s t))"
    using sched_inv_state [OF assms(1) t] l assms(3) by (auto simp: state_ok_def)
qed

lemma unblock_proceeds:
  assumes ki: "kernel_inv s Q" and cpu: "cpu_inv s Q" and ni: "cur s \<noteq> idle_task s"
    and safe: "\<forall>t < NR_TASKS. PID (task s t) = pid \<longrightarrow> current_state (task s t) = ST_BLOCKED \<longrightarrow> k_ctx (task s t) = KBlock"
  shows "proceeds (sys_unblock pid s)"
proof -
  note v = kernel_invD [OF ki]
  have "Q (TFills (cur s)) \<noteq> None" using v(5) cpu by (simp add: families_inv_def cpu_inv_def)
  then obtain cs where cs: "Q (TFills (cur s)) = Some (map TParentAnchor cs)" using family_queues(2) [OF v(9)] by blast
  have lt: "c < NR_TASKS" if "c \<in> set cs" for c
    using families_invD(3) [OF v(5), of "cur s" c] cs that by (simp add: on_list_def)
  let ?J = "\<lambda>t Q1. kernel_inv t Q1 \<and> cpu_inv t Q1 \<and> cur t = cur s \<and> idle_task t = idle_task s \<and>
     Q1 (TFills (cur s)) = Some (map TParentAnchor cs) \<and> (\<forall>u. PID (task t u) = PID (task s u)) \<and>
     (\<forall>u. k_ctx (task t u) = k_ctx (task s u)) \<and> set (tasks_on Q1 Blocked) \<subseteq> set (tasks_on Q Blocked)"
  let ?I = "\<lambda>(ret, t). \<exists>Q1. ?J t Q1"
  have body: "\<exists>p. unblock_body pid (TParentAnchor c) (ret, t) = Some p \<and> ?I p" if J: "?J t Q1" and c: "c < NR_TASKS" for ret c t Q1
  proof -
    have inv: "sched_inv t Q1" using kernel_invD(1) J by blast
    consider (other) "PID (task t c) \<noteq> pid" | (woken) "PID (task t c) = pid" "current_state (task t c) = ST_BLOCKED"
      | (permit) "PID (task t c) = pid" "current_state (task t c) \<noteq> ST_BLOCKED" by blast
    then show ?thesis
    proof cases
      case other
      then have "unblock_body pid (TParentAnchor c) (ret, t) = Some (ret, t)" by (simp add: unblock_body_def)
      then show ?thesis using J by auto
    next
      case woken
      have b: "c \<in> set (tasks_on Q1 Blocked)" by (rule blocked_on_queue [OF inv c woken(2)])
      then have "current_state (task s c) = ST_BLOCKED" using queue_state(4) [OF v(1), of c Blocked] J by auto
      then have kb: "k_ctx (task t c) = KBlock" using safe c J woken(1) by auto
      obtain s1 Q2 where s1: "update_process_state_rr c (Some Readyqueue) t = Some s1" "kernel_inv s1 Q2" "cpu_inv s1 Q2"
        "cur s1 = cur t" "sched_frame t s1" "set (tasks_on Q2 Blocked) = set (tasks_on Q1 Blocked) - {c}"
        "\<forall>u. k_ctx (task s1 u) = k_ctx (task t u)" "\<forall>p. Q2 (TFills p) = Q1 (TFills p)"
        using unblock_one [OF _ _ b kb] J by blast
      have "?J s1 Q2" using J s1 sched_frame_fields(1,6) [OF s1(5)] by auto
      moreover have "unblock_body pid (TParentAnchor c) (ret, t) = Some (0, s1)" using woken s1(1) by (simp add: unblock_body_def)
      ultimately show ?thesis by auto
    next
      case permit
      let ?s1 = "upd_task c (\<lambda>ts. ts\<lparr>pending_unblocks := pending_unblocks ts + 1\<rparr>) t"
      have e: "same_kernel t ?s1" by (simp add: same_kernel_def upd_task_def)
      then have "?J ?s1 Q1" using J kernel_inv_cong [OF e] same_kernel_cpu [OF e] by (auto simp: upd_task_def)
      moreover have "unblock_body pid (TParentAnchor c) (ret, t) = Some (0, ?s1)" using permit by (simp add: unblock_body_def)
      ultimately show ?thesis by auto
    qed
  qed
  have "list_for_each (links \<circ> snd) (unblock_body pid) (TFills (cur s)) (-1, s) =
     foldo (unblock_body pid) (map TParentAnchor cs) (-1, s) \<and>
     (\<exists>p. foldo (unblock_body pid) (map TParentAnchor cs) (-1, s) = Some p \<and> ?I p)"
  proof (rule list_for_each_fold [of ?I])
    show "?I (-1, s)" using ki cpu cs by auto
    show "\<exists>Q1. reps ((links \<circ> snd) p) Q1 \<and> Q1 (TFills (cur s)) = Some (map TParentAnchor cs)" if "?I p" for p
      using that kernel_invD(8) by (cases p) auto
    show "\<exists>p'. unblock_body pid n p = Some p' \<and> ?I p'" if n: "n \<in> set (map TParentAnchor cs)" and I: "?I p" for n p
    proof -
      obtain c where c: "n = TParentAnchor c" "c < NR_TASKS" using n lt by auto
      obtain ret t Q1 where p: "p = (ret, t)" "?J t Q1" using I by (cases p) auto
      show ?thesis using body [OF p(2) c(2), of ret] unfolding p(1) c(1) .
    qed
  qed
  then obtain ret t Q1 where l: "list_for_each (links \<circ> snd) (unblock_body pid) (TFills (cur s)) (-1, s) = Some (ret, t)"
    "?J t Q1" by auto
  have kt: "kernel_inv t Q1" "cpu_inv t Q1" "cur t \<noteq> idle_task t" using l(2) ni by simp_all
  obtain s' where "sched_then (KUnblock ret) (\<lambda>s. Some (Ret ret, s)) t = Some (Switched, s')" "proceeds (Some (Switched, s'))"
    using yield_proceeds [OF kt, of "KUnblock ret" "\<lambda>s. Some (Ret ret, s)"] by auto
  then show ?thesis using l(1) by (simp add: sys_unblock_def)
qed

section \<open>semSignal, semCreate and semDestroy\<close>

lemma semSignal_proceeds:
  assumes ki: "kernel_inv s Q" and cpu: "cpu_inv s Q" and ni: "cur s \<noteq> idle_task s"
    and max: "\<forall>i. usable s semid i \<longrightarrow> sem_value (semaphores s i) < 2 ^ 31 - 1"
  shows "proceeds (sys_semSignal semid s)"
proof (cases "\<exists>i. usable s semid i")
  case False
  then have "\<exists>r. sys_semSignal semid s = Some (Ret r, s)"
    using not_usable [of semid s] by (auto simp: sys_semSignal_def sys_semSignal_extended_def split: option.split)
  then show ?thesis using proceeds_return [OF ki cpu] by auto
next
  case True
  then obtain i where u: "usable s semid i" by blast
  let ?f = "\<lambda>sm. sm\<lparr>sem_value := sem_value sm + 1\<rparr>"
  note v = kernel_invD [OF ki]
  note spec = sys_semSignal_spec [OF v(1) cpu v(2) ni u max [rule_format, OF u]]
  have ui: "i < NUM_SEMS" "\<not> sem_free (semaphores s i)" using u usable_slot by (auto simp: usable_def)
  have q: "Q (SemBlocked i) \<noteq> None" using v(2) ui by (simp add: sem_inv_def)
  show ?thesis
  proof (cases "waiters Q i")
    case Nil
    then have s': "sys_semSignal semid s = Some (Ret (sem_value (semaphores s i) + 1), upd_sem i ?f s)"
      "sched_inv (upd_sem i ?f s) Q" "cpu_inv (upd_sem i ?f s) Q" "sem_inv (upd_sem i ?f s) Q" using spec by auto
    have "kernel_inv (upd_sem i ?f s) Q"
      by (rule kernel_step [OF ki _ _ s'(2,4) sem_use_upd [OF v(3), of _ i ?f]])
        (use v(4) in \<open>simp_all add: keeps_def same_families_def ctx_inv_def upd_sem_def\<close>)
    then show ?thesis using proceeds_return s'(1,3) by auto
  next
    case (Cons t ts)
    then obtain s' Q' where s': "sys_semSignal semid s = Some (Switched, s')" "sched_inv s' Q'" "cpu_inv s' Q'" "sem_inv s' Q'"
      "(cur s', tasks_on Q' Readyqueue) = rr_next (idle_task s) True (cur s, tasks_on Q Readyqueue @ [t])"
      "tasks_on Q' Blocked = remove1 t (tasks_on Q Blocked)" "waiters Q' i = ts"
      "k_ctx (task s' (cur s)) = KSemSignal i" "\<forall>a. a \<notin> {Readyqueue, Blocked, SemBlocked i} \<longrightarrow> Q' a = Q a"
      "sched_frame (upd_sem i ?f s) s'" "\<forall>t. t \<noteq> cur s \<longrightarrow> k_ctx (task s' t) = k_ctx (task s t)"
      using spec by (simp only: list.case) blast
    note n = running_off(2) [OF v(1) cpu]
    have sems: "semaphores s' = semaphores (upd_sem i ?f s)" using s'(10) by (simp add: sched_frame_rest)
    have kp: "keeps s s'" using sched_frame_keeps [OF s'(10)] by (simp add: keeps_upd_sem)
    have q': "Q' (SemBlocked i) \<noteq> None" using s'(4) ui sems by (simp add: sem_inv_def)
    have ty': "typed Q'" using s'(2) by (simp add: sched_inv_def)
    have Qi: "Q' (SemBlocked i) = Some (map TSemList ts)" "Q (SemBlocked i) = Some (map TSemList (t # ts))"
      using sem_queue [OF ty' q'] sem_queue [OF v(9) q] s'(7) Cons by simp_all
    have dt: "t \<notin> set ts" using dl.rep_distinct [OF v(8) Qi(2)] by (simp add: image_iff)
    have lt: "on_list Q (SemBlocked i) (TSemList t)" using Qi(2) by (simp add: on_list_def)
    have tb: "t \<in> set (tasks_on Q Blocked)" and kt: "k_ctx (task s t) = KSemWait i" using ctx_invD(5,6) [OF v(4) lt] .
    have b: "set (tasks_on Q' Blocked) = set (tasks_on Q Blocked) - {t}"
      using s'(6) distinct_tasks_on [OF v(8,9), of Blocked] by (simp add: set_remove1_eq)
    have rdy: "u \<in> set (tasks_on Q Readyqueue) \<or> u = t \<or> u = cur s" if "u \<in> set (tasks_on Q' Readyqueue)" for u
      using rr_next_other(1) [OF s'(5) that] by auto
    have nx: "cur s' = idle_task s \<or> cur s' \<in> set (tasks_on Q Readyqueue) \<or> cur s' = t" using rr_next_other(2) [OF s'(5)] by auto
    have ne: "cur s' \<noteq> cur s" using nx ni n [of Readyqueue] n [of Blocked] tb by auto
    have os: "on_list Q' (SemBlocked j) (TSemList u) \<longleftrightarrow> on_list Q (SemBlocked j) (TSemList u) \<and> u \<noteq> t" for j u
    proof (cases "j = i")
      case True
      then show ?thesis using Qi dt by (auto simp: on_list_def)
    next
      case False
      then have "on_list Q' (SemBlocked j) (TSemList u) = on_list Q (SemBlocked j) (TSemList u)" using s'(9) by (simp add: on_list_def)
      then show ?thesis using dl.on_list_unique [OF v(8) lt, of "SemBlocked j"] False by auto
    qed
    have ow: "on_list Q' (TWaitList p) m = on_list Q (TWaitList p) m" for p m using s'(9) by (simp add: on_list_def)
    have idle: "idle_task s' = idle_task s" using kp by (simp add: keeps_def)
    have rb: "tasks_on Q' ReadBlocked = tasks_on Q ReadBlocked" using s'(9) by (simp add: tasks_on_def)
    have "ctx_inv s' Q'"
    proof (rule ctx_inv_step [OF v(4) idle])
      show "u \<in> set (tasks_on Q Readyqueue) \<or> u \<in> set (tasks_on Q Blocked) \<or> u = cur s \<and> ready_ctx (k_ctx (task s' u))"
        if "u \<in> set (tasks_on Q' Readyqueue)" for u using rdy [OF that] tb s'(8) by auto
      show "u \<in> set (tasks_on Q' Blocked) \<and> (on_list Q (SemBlocked j) (TSemList u) \<or> u = cur s \<and> k_ctx (task s' u) = KSemWait j)"
        if "on_list Q' (SemBlocked j) (TSemList u)" for j u using that ctx_invD(5) [OF v(4)] by (auto simp: os b)
      show "u \<in> set (tasks_on Q' Blocked) \<and> (on_list Q (TWaitList p) (TWaitAnchor u) \<or> u = cur s \<and> k_ctx (task s' u) = KWaitThread p)"
        if "on_list Q' (TWaitList p) (TWaitAnchor u)" for p u
        using that ctx_invD(7,8) [OF v(4), of p u] kt by (auto simp: ow b)
      show "on_list Q' a m" if m: "u \<in> set (tasks_on Q' Blocked)" "m = TSemList u \<or> m = TWaitAnchor u" "on_list Q a m" for a m u
      proof -
        have "fits a m" using m(3) v(9) unfolding typed_def by blast
        then show ?thesis using m os [of _ u] ow b by auto
      qed
    qed (use s'(11) ni n b rb in auto)
    moreover have "same_families Q Q'" by (rule same_familiesI) (use s'(9) in simp_all)
    moreover have "sem_use s'" by (rule sem_use_upd [OF v(3) sems]) (use kp in \<open>simp_all add: keeps_def\<close>)
    ultimately have "kernel_inv s' Q'" using kernel_step [OF ki kp] s'(2,4) by blast
    moreover have "ready_ctx (k_ctx (task s' (cur s')))"
      by (rule next_ctx [OF v(4)]) (use s'(11) ne nx tb in auto)
    ultimately show ?thesis using proceeds_switch s'(1,3) by simp
  qed
qed

lemma ctx_inv_same_lists:
  assumes "ctx_inv s Q" "\<And>a m. on_list Q' a m \<longleftrightarrow> on_list Q a m" "typed Q" "typed Q'"
    and "cur s' = cur s" "idle_task s' = idle_task s" "\<And>t. k_ctx (task s' t) = k_ctx (task s t)"
  shows "ctx_inv s' Q'"
proof -
  have q: "t \<in> set (tasks_on Q' d) \<longleftrightarrow> t \<in> set (tasks_on Q d)" if "d \<in> sched_queues" for d t
    using on_queue_iff [OF assms(3) that] on_queue_iff [OF assms(4) that] assms(2) by simp
  have b: "blocked_ctx Q' t k \<longleftrightarrow> blocked_ctx Q t k" for t k by (cases k) (simp_all add: assms(2))
  show ?thesis using assms(1) unfolding ctx_inv_def assms(2,5-7) b by (simp add: q)
qed

lemma semCreate_proceeds:
  assumes ki: "kernel_inv s Q" and cpu: "cpu_inv s Q" and val: "0 \<le> val" "val < 2 ^ 31"
  shows "proceeds (sys_semCreate val s)"
proof (cases "\<exists>j < NUM_SEMS. sem_free (semaphores s j)")
  case False
  then have "find_from 0 (\<lambda>i. sem_free (semaphores s i)) 0 NUM_SEMS = None"
    using find_from_unit_Some by (cases "find_from 0 (\<lambda>i. sem_free (semaphores s i)) 0 NUM_SEMS") blast+
  then have "sys_semCreate val s = Some (Ret (-1), s)" by (simp add: sys_semCreate_def sys_semCreate_extended_def)
  then show ?thesis using proceeds_return [OF ki cpu] by simp
next
  case True
  note v = kernel_invD [OF ki]
  have ids: "sem_ids s" using v(3) by (simp add: sem_use_def)
  obtain i s' Q' h' where e: "s' = (upd_sem i (\<lambda>sm. sm\<lparr>sem_free := False, sem_value := val, creatorPID := sys_getpid s,
       sem_id := semIDglobal s\<rparr>) s)\<lparr>links := h', semIDglobal := semIDglobal s + 1\<rparr>"
    and Q': "Q' = Q(SemBlocked i \<mapsto> [])" and o: "\<forall>a m. on_list Q' a m \<longleftrightarrow> on_list Q a m" and i: "i < NUM_SEMS"
    and s': "sys_semCreate val s = Some (Ret (semIDglobal s), s')" "sched_inv s' Q'" "cpu_inv s' Q'" "sem_inv s' Q'" "sem_ids s'"
    using sys_semCreate_spec [OF v(1) cpu v(2) ids val True] by (elim exE conjE)
  have sems: "semaphores s' j = (if j = i then (semaphores s i)\<lparr>sem_free := False, sem_value := val, creatorPID := sys_getpid s,
       sem_id := semIDglobal s\<rparr> else semaphores s j)" for j by (simp add: e upd_sem_def)
  have lt: "sem_id (semaphores s j) < semIDglobal s" if "j < NUM_SEMS" for j using ids that by (simp add: sem_ids_def)
  have id0: "100000 \<le> semIDglobal s" using ids by (simp add: sem_ids_def)
  have f: "cur s' = cur s" "idle_task s' = idle_task s" "task s' = task s" "task1 s' = task1 s" "pidGlobal s' = pidGlobal s"
    "mm s' = mm s" by (simp_all add: e upd_sem_def)
  have "sem_use s'"
    unfolding sem_use_def
  proof (intro conjI allI impI)
    show "100000 \<le> sem_id (semaphores s' j)" if "j < NUM_SEMS" "\<not> sem_free (semaphores s' j)" for j
      using that v(3) id0 by (cases "j = i") (simp_all add: sems sem_use_def)
    show "j = k" if "j < NUM_SEMS" "k < NUM_SEMS" "sem_id (semaphores s' j) = sem_id (semaphores s' k)"
      "100000 \<le> sem_id (semaphores s' j)" for j k
      using that v(3) lt [of j] lt [of k] by (cases "j = i"; cases "k = i") (auto simp: sems sem_use_def)
  qed (rule s'(5))
  moreover have ty': "typed Q'" using s'(2) by (simp add: sched_inv_def)
  have "ctx_inv s' Q'" by (rule ctx_inv_same_lists [OF v(4) _ v(9) ty']) (use o f in simp_all)
  moreover have "live Q' t \<longleftrightarrow> live Q t" for t using o by (simp add: live_def)
  then have "families_inv s' Q'" "ident_inv s' Q'" "heaps_inv s' Q'"
    using v(5-7) o unfolding families_inv_def ident_inv_def heaps_inv_def by (simp_all add: f) (simp add: Q')
  ultimately have "kernel_inv s' Q'" using s'(2,4) by (simp add: kernel_inv_def)
  then show ?thesis using proceeds_return s'(1,3) by auto
qed

text \<open>Every semaphore in use has an identifier of its own, so the loop of \<open>semDestroy\<close> finds at most one.\<close>

lemma sem_unique:
  assumes "sem_use s" "owns s i" "j < NUM_SEMS" "j \<noteq> i"
  shows "sem_id (semaphores s j) \<noteq> sem_id (semaphores s i)"
  using assms unfolding sem_use_def owns_def by metis

lemma freed_sem_inv:
  assumes ki: "kernel_inv s Q" and cpu: "cpu_inv s Q" and w: "waiters Q i = []"
  shows "kernel_inv (upd_sem i (\<lambda>sm. sm\<lparr>sem_free := True\<rparr>) s) Q" "cpu_inv (upd_sem i (\<lambda>sm. sm\<lparr>sem_free := True\<rparr>) s) Q"
proof -
  let ?f = "\<lambda>sm. sm\<lparr>sem_free := True\<rparr>"
  note v = kernel_invD [OF ki]
  have "sem_inv (upd_sem i ?f s) Q"
    by (rule sem_inv_upd [OF v(2), of _ i ?f]) (use v(2) w in \<open>auto simp: sem_inv_def\<close>)
  then show "kernel_inv (upd_sem i ?f s) Q"
    by (intro kernel_step [OF ki _ _ upd_sem_inv(1) [OF v(1)] _ sem_use_upd [OF v(3), of _ i ?f]])
      (use v(4) in \<open>simp_all add: keeps_def same_families_def ctx_inv_def upd_sem_def\<close>)
  show "cpu_inv (upd_sem i ?f s) Q" by (rule upd_sem_inv(2) [OF cpu])
qed

lemma no_waiters:
  assumes "kernel_inv s Q" "i < NUM_SEMS" "\<not> sem_free (semaphores s i)" "list_empty (SemBlocked i) (links s)"
  shows "waiters Q i = []"
proof -
  note v = kernel_invD [OF assms(1)]
  have "Q (SemBlocked i) \<noteq> None" using v(2) assms(2,3) by (simp add: sem_inv_def)
  from dl.rep_empty [OF v(8) sem_queue [OF v(9) this]] show ?thesis using assms(4) by simp
qed

lemma semDestroy_proceeds:
  assumes ki: "kernel_inv s Q" and cpu: "cpu_inv s Q"
    and idle: "\<forall>i. owns s i \<longrightarrow> sem_id (semaphores s i) = semid \<longrightarrow> list_empty (SemBlocked i) (links s)"
  shows "proceeds (sys_semDestroy semid s)"
proof (cases "100000 \<le> semid \<and> (\<exists>i. owns s i \<and> sem_id (semaphores s i) = semid)")
  case True
  then obtain i where i: "owns s i" "sem_id (semaphores s i) = semid" by blast
  note u = sem_unique [OF kernel_invD(3) [OF ki] i(1)]
  have e: "list_empty (SemBlocked i) (links s)" using idle i by blast
  have "sys_semDestroy semid s = Some (Ret (-1), upd_sem i (\<lambda>sm. sm\<lparr>sem_free := True\<rparr>) s)"
    using sem_destroy_owned [OF i(1) e, of None] u True i(2) by (simp add: sys_semDestroy_def sys_semDestroy_extended_def)
  moreover have "waiters Q i = []" using no_waiters [OF ki _ _ e] i(1) by (simp add: owns_def)
  ultimately show ?thesis using proceeds_return [OF freed_sem_inv [OF ki cpu]] by simp
next
  case False
  have "\<exists>r. sys_semDestroy semid s = Some (Ret r, s)"
  proof (cases "100000 \<le> semid")
    case True
    then have "\<forall>j < NUM_SEMS. 0 \<le> j \<longrightarrow> sem_id (semaphores s j) = semid \<longrightarrow> \<not> owns s j" using False by blast
    from sem_destroy_refused [OF this, of None] show ?thesis using True
      by (auto simp: sys_semDestroy_def sys_semDestroy_extended_def)
  qed (simp add: sys_semDestroy_def sys_semDestroy_extended_def)
  then show ?thesis using proceeds_return [OF ki cpu] by auto
qed

end
