(* ===== verification/Kernel_Life.thy ===== *)
theory Kernel_Life
  imports Kernel_Calls Fork
begin

text \<open>
  The system calls that make and end threads, change the heap or write to the console keep the
  invariant of the kernel.
\<close>

section \<open>New threads\<close>

lemma free_head:
  assumes ki: "kernel_inv s Q" and cpu: "cpu_inv s Q" and ne: "\<not> list_empty Freequeue (links s)"
  shows "\<exists>c. can_spawn s Q c"
proof -
  note v = kernel_invD [OF ki]
  have f: "Q Freequeue = Some (map TList (tasks_on Q Freequeue))" using tasks_on_queue [OF v(9), of Freequeue] by simp
  then obtain c fs where c: "tasks_on Q Freequeue = c # fs"
    using ne dl.rep_empty [OF v(8) f] by (cases "tasks_on Q Freequeue") auto
  have l: "on_list Q Freequeue (TList c)" using f c by (simp add: on_list_def)
  then have nl: "\<not> live Q c" by (simp add: live_def)
  have b: "c \<notin> set (tasks_on Q Blocked)" using nl queue_state(3) [OF v(1), of c Blocked] by auto
  have "\<not> on_list Q a m" if m: "m = TParentAnchor c \<or> m = TWaitAnchor c \<or> m = TSemList c" for a m
  proof
    assume o: "on_list Q a m"
    then have "fits a m" using v(9) unfolding typed_def by blast
    then show False using m o nl b families_invD(3) [OF v(5)] ctx_invD(5,7) [OF v(4)] by auto
  qed
  then have "detached Q c" by (simp add: detached_def)
  moreover have "Q (TFills (cur s)) \<noteq> None" using families_invD(1) [OF v(5)] cpu by (simp add: cpu_inv_def)
  moreover have "0 < pidGlobal s" "\<forall>t < NR_TASKS. live Q t \<longrightarrow> PID (task s t) < pidGlobal s"
    using v(6) unfolding ident_inv_def by simp_all
  ultimately show ?thesis using f c by (auto simp: can_spawn_def)
qed

text \<open>What the state after \<open>fork\<close> or \<open>create_thread\<close> has in common.\<close>

definition spawned :: "kstate \<Rightarrow> nat \<Rightarrow> kstate \<Rightarrow> bool" where
  "spawned s c s' \<longleftrightarrow> cur s' = cur s \<and> idle_task s' = idle_task s \<and> task1 s' = task1 s \<and> semaphores s' = semaphores s \<and>
     semIDglobal s' = semIDglobal s \<and> pidGlobal s' = pidGlobal s + 1 \<and> (\<forall>t. t \<noteq> c \<longrightarrow> task s' t = task s t) \<and>
     PID (task s' c) = pidGlobal s \<and> ready_ctx (k_ctx (task s' c)) \<and> my_heap (task s' c) = my_heap (task s (cur s)) \<and>
     (\<forall>hz. heap_fits (heap_zones (mm s) hz) \<longrightarrow> heap_fits (heap_zones (mm s') hz))"

lemma spawn_proceeds:
  assumes ki: "kernel_inv s Q" and cpu: "cpu_inv s Q" and ni: "cur s \<noteq> idle_task s" and sp: "can_spawn s Q c"
    and s': "sched_inv s' (spawn_lists (cur s) c Q)" "cpu_inv s' (spawn_lists (cur s) c Q)" and e: "spawned s c s'"
  shows "proceeds (Some (Ret r, s'))"
proof -
  let ?Q = "spawn_lists (cur s) c Q"
  note v = kernel_invD [OF ki]
  note f = e [unfolded spawned_def]
  have ne: "cur s \<noteq> c" using can_spawn_other [OF sp cpu] .
  have fr: "on_list Q Freequeue (TList c)" using can_spawn_free [OF sp] .
  have lc: "live Q (cur s)" using cpu by (simp add: cpu_inv_def)
  have cl: "\<not> live Q c" "c < NR_TASKS" "c \<noteq> idle_task s" using fr v(1) unfolding live_def sched_inv_def by blast+
  have Qf: "Q (TFills (cur s)) \<noteq> None" using sp by (simp add: can_spawn_def)
  note o = on_list_spawn [OF v(8,9) ne Qf]
  note ts = tasks_on_spawn [OF v(1) sp cpu]
  have q: "tasks_on ?Q Readyqueue = tasks_on Q Readyqueue @ [c]" "tasks_on ?Q Blocked = tasks_on Q Blocked"
    "tasks_on ?Q ReadBlocked = tasks_on Q ReadBlocked" using ts by simp_all
  have nq: "c \<notin> set (tasks_on Q d)" if "d \<in> {Readyqueue, Blocked, ReadBlocked}" for d
    using cl(1) queue_state(3) [OF v(1) _ that] by blast
  have lv: "live ?Q t \<longleftrightarrow> t = c \<or> live Q t" for t using o by (auto simp: live_def)
  have sb: "?Q (SemBlocked i) = Q (SemBlocked i)" for i
  proof -
    have "\<not> on_list Q (SemBlocked i) (TList c)" using typed_sched [OF v(9), of "SemBlocked i" "TList c"] by auto
    then show ?thesis by (cases "Q (SemBlocked i)") (auto simp: spawn_lists_def unlink_def enqueue_def on_list_def remove1_absent)
  qed
  have tt: "task s' t = task s t" if "t \<noteq> c" for t using f that by simp
  have dead: "\<not> on_list Q (TWaitList c) n" for n using families_invD(5) [OF v(5)] cl(1) by blast
  have oa: "on_list ?Q a m \<longleftrightarrow> on_list Q a m" if "m = TSemList t \<or> m = TWaitAnchor t" for a m t
  proof -
    have "on_list Q (TFills c) m \<Longrightarrow> fits (TFills c) m" using v(9) unfolding typed_def by blast
    then have "\<not> on_list Q (TFills c) m" using that by auto
    then show ?thesis using that dead by (auto simp: o)
  qed
  have "sem_inv s' ?Q" by (rule sem_inv_lists [OF v(2)]) (use f sb q in simp_all)
  moreover have "sem_use s'" by (rule sem_use_cong [OF v(3)]) (use f in simp_all)
  moreover have "ctx_inv s' ?Q"
    unfolding ctx_inv_def
  proof (intro conjI allI impI ballI)
    show "ready_ctx (k_ctx (task s' t))" if "t \<in> set (tasks_on ?Q Readyqueue)" for t
      using that f ctx_invD(1) [OF v(4), of t] tt [of t] by (cases "t = c") (auto simp: q)
    show "ready_ctx (k_ctx (task s' (idle_task s')))" if "cur s' \<noteq> idle_task s'"
      using ctx_invD(2) [OF v(4)] f tt [of "idle_task s"] cl(3) ni by simp
    show "blocked_ctx ?Q t (k_ctx (task s' t))" if "t \<in> set (tasks_on ?Q Blocked)" for t
    proof -
      have t: "t \<in> set (tasks_on Q Blocked)" "t \<noteq> c" using that nq [of Blocked] by (auto simp: q)
      then show ?thesis using ctx_invD(3) [OF v(4) t(1)] tt [OF t(2)] oa [of _ t] by (cases "k_ctx (task s t)") auto
    qed
    show "reader_ctx (k_ctx (task s' t))" if "t \<in> set (tasks_on ?Q ReadBlocked)" for t
      using that ctx_invD(4) [OF v(4), of t] tt [of t] nq [of ReadBlocked] by (cases "t = c") (auto simp: q)
    have anchored: "u \<in> set (tasks_on ?Q Blocked) \<and> task s' u = task s u" if "u \<in> set (tasks_on Q Blocked)" for u
      using that nq [of Blocked] tt [of u] q(2) by (cases "u = c") auto
    show "t \<in> set (tasks_on ?Q Blocked)" "k_ctx (task s' t) = KSemWait i" if "on_list ?Q (SemBlocked i) (TSemList t)" for i t
      using that ctx_invD(5,6) [OF v(4), of i t] anchored [of t] oa [of "TSemList t" t] by auto
    show "t \<in> set (tasks_on ?Q Blocked)" "k_ctx (task s' t) = KWaitThread p" if "on_list ?Q (TWaitList p) (TWaitAnchor t)" for p t
      using that ctx_invD(7,8) [OF v(4), of p t] anchored [of t] oa [of "TWaitAnchor t" t] by auto
  qed
  moreover have "families_inv s' ?Q"
    unfolding families_inv_def
  proof (intro conjI allI impI)
    show "?Q (TFills p) \<noteq> None" "?Q (TWaitList p) \<noteq> None" if "p < NR_TASKS" "live ?Q p" for p
      using that families_invD(1,2) [OF v(5), of p] by (auto simp: spawn_lists_None lv)
    show "k < NR_TASKS" "live ?Q k" "k \<noteq> p" "k \<noteq> idle_task s'" "live ?Q p" if "on_list ?Q (TFills p) (TParentAnchor k)" for p k
      using that families_invD(3) [OF v(5), of p k] cl f ne lc by (auto simp: o lv)
    show "\<exists>p. on_list ?Q (TFills p) (TParentAnchor k)" if k: "k < NR_TASKS" "live ?Q k" "k \<noteq> idle_task s'" "k \<noteq> task1 s'" for k
    proof (cases "k = c")
      case False
      then obtain p where p: "on_list Q (TFills p) (TParentAnchor k)"
        using families_invD(4) [OF v(5), of k] k f lv by auto
      have "p \<noteq> c" using families_invD(3) [OF v(5) p] cl(1) by auto
      then show ?thesis using p by (auto simp: o)
    qed (auto simp: o)
    show "live ?Q p" if "on_list ?Q (TWaitList p) n" for p n
      using that families_invD(5) [OF v(5), of p n] by (auto simp: o lv)
  qed
  moreover have "ident_inv s' ?Q"
    unfolding ident_inv_def
  proof (intro conjI allI impI)
    show "0 < pidGlobal s'" using v(6) f by (simp add: ident_inv_def)
    show "if live ?Q t then PID (task s' t) < pidGlobal s' else PID (task s' t) < 0" if "t < NR_TASKS" for t
      using ident_invD [OF v(6) that] f tt [of t] lv by (cases "t = c"; cases "live Q t") simp_all
  qed
  moreover have "heaps_inv s' ?Q"
    unfolding heaps_inv_def
  proof (intro allI impI)
    fix t assume t: "t < NR_TASKS" "live ?Q t" "t \<noteq> idle_task s'"
    have "\<exists>u < NR_TASKS. live Q u \<and> u \<noteq> idle_task s \<and> my_heap (task s' t) = my_heap (task s u)"
    proof (cases "t = c")
      case True
      then show ?thesis using f lc ni cpu by (intro exI [of _ "cur s"]) (simp add: cpu_inv_def)
    next
      case False
      then show ?thesis using t f lv tt [of t] by (intro exI [of _ t]) simp
    qed
    then obtain u where u: "u < NR_TASKS" "live Q u" "u \<noteq> idle_task s" "my_heap (task s' t) = my_heap (task s u)" by blast
    then show "\<exists>hz. my_heap (task s' t) = Some hz \<and> heap_fits (heap_zones (mm s') hz)"
      using v(7) f unfolding heaps_inv_def by fastforce
  qed
  ultimately show ?thesis using proceeds_return s' by (auto simp: kernel_inv_def)
qed

text \<open>\<open>create_thread\<close> writes two words below the top of the stack it is given.\<close>

definition stack_mapped :: "u32 \<Rightarrow> kstate \<Rightarrow> bool" where
  "stack_mapped stack s \<longleftrightarrow> (\<forall>i < 4. translate (mm s) (unat (stack - 4) + i) \<noteq> None \<and> translate (mm s) (unat (stack - 8) + i) \<noteq> None)"

lemma create_proceeds:
  assumes ki: "kernel_inv s Q" and cpu: "cpu_inv s Q" and ni: "cur s \<noteq> idle_task s"
    and st: "access_ok VERIFY_READ func 4 \<noteq> 0 \<and> access_ok VERIFY_WRITE stack 4 \<noteq> 0 \<longrightarrow> stack_mapped stack s"
  shows "proceeds (sys_create_thread func stack parameter s)"
proof -
  note v = kernel_invD [OF ki]
  consider (none) "list_empty Freequeue (links s)" | (bad) "\<not> list_empty Freequeue (links s)"
      "access_ok VERIFY_READ func 4 = 0 \<or> access_ok VERIFY_WRITE stack 4 = 0"
    | (ok) "\<not> list_empty Freequeue (links s)" "access_ok VERIFY_READ func 4 \<noteq> 0" "access_ok VERIFY_WRITE stack 4 \<noteq> 0" by blast
  then show ?thesis
  proof cases
    case none
    then show ?thesis using proceeds_return [OF ki cpu] by (simp add: sys_create_thread_def)
  next
    case bad
    then show ?thesis using proceeds_return [OF ki cpu] by (auto simp: sys_create_thread_def)
  next
    case ok
    obtain c where sp: "can_spawn s Q c" using free_head [OF ki cpu ok(1)] by blast
    obtain r1 where r1: "st32 (translate (mm s)) (unat (stack - 4)) parameter (ram s) = Some r1"
      using st32_mapped [of "translate (mm s)" "unat (stack - 4)"] st ok(2,3) unfolding stack_mapped_def by blast
    obtain r2 where r2: "st32 (translate (mm s)) (unat (stack - 8)) 0 r1 = Some r2"
      using st32_mapped [of "translate (mm s)" "unat (stack - 8)"] st ok(2,3) unfolding stack_mapped_def by blast
    obtain d where d: "dir_pages_baseAddr (task s (cur s)) = Some d"
      using v(1) cpu unfolding sched_inv_def cpu_inv_def by blast
    obtain h where h: "sys_create_thread func stack parameter s = Some (Ret (pidGlobal s), thread_created func stack d r2 h c s)"
      "sched_inv (thread_created func stack d r2 h c s) (spawn_lists (cur s) c Q)"
      "cpu_inv (thread_created func stack d r2 h c s) (spawn_lists (cur s) c Q)"
      using create_thread_eq [OF v(1) cpu sp ok(2,3) r1 r2 d] by blast
    have "spawned s c (thread_created func stack d r2 h c s)" by (simp add: spawned_def thread_created_def)
    from spawn_proceeds [OF ki cpu ni sp h(2,3) this] h(1) show ?thesis by simp
  qed
qed

lemma fork_proceeds:
  assumes ki: "kernel_inv s Q" and cpu: "cpu_inv s Q" and ni: "cur s \<noteq> idle_task s"
    and cf: "\<not> list_empty Freequeue (links s) \<longrightarrow> (\<exists>d p hz h d' q. can_fork s d p hz h d' q)"
  shows "proceeds (sys_fork s)"
proof (cases "list_empty Freequeue (links s)")
  case True
  then show ?thesis using proceeds_return [OF ki cpu] by (simp add: sys_fork_def)
next
  case False
  note v = kernel_invD [OF ki]
  obtain d p hz h d' q where c: "can_fork s d p hz h d' q" using cf False by blast
  obtain c where sp: "can_spawn s Q c" using free_head [OF ki cpu False] by blast
  obtain hl fs pm r where f: "sys_fork s = Some (Ret (pidGlobal s), forked d' (forked_mm p q d' h fs pm (mm s)) r hl c s)"
    "reps hl (spawn_lists (cur s) c Q)" using fork_eq [OF v(1) cpu sp c] by blast
  have qp: "q \<noteq> p" using c by (simp add: can_fork_def)
  let ?s = "forked d' (forked_mm p q d' h fs pm (mm s)) r hl c s"
  have "spawned s c ?s" by (simp add: spawned_def forked_def forked_mm_def heap_fits_def)
  from spawn_proceeds [OF ki cpu ni sp forked_inv [OF v(1) cpu sp f(2) qp] this] f(1) show ?thesis by simp
qed

section \<open>exit\<close>

lemma on_list_heir:
  assumes "reps h Q" "c \<noteq> i" "Q (TFills i) \<noteq> None"
  shows "on_list (heir_lists c i cs Q) (TFills p) n \<longleftrightarrow>
     p \<noteq> c \<and> (on_list Q (TFills p) n \<and> n \<noteq> TParentAnchor c \<or> p = i \<and> n \<in> TParentAnchor ` set cs)"
proof -
  obtain os where os: "unlink (TParentAnchor c) Q (TFills i) = Some os" using assms(3) by (auto simp: unlink_def)
  have u: "on_list (unlink (TParentAnchor c) Q) a n \<longleftrightarrow> on_list Q a n \<and> n \<noteq> TParentAnchor c" for a
    by (rule dl.on_list_unlink [OF assms(1)])
  show ?thesis using os assms(2) u [of "TFills p"] by (auto simp: heir_lists_def Let_def on_list_def split: if_splits)
qed

lemma heir_lists_None: "heir_lists c i cs Q a = None \<longleftrightarrow> a = TFills c \<and> c \<noteq> i \<or> Q a = None"
  by (auto simp: heir_lists_def Let_def unlink_def)

lemma exit_proceeds:
  assumes ki: "kernel_inv s Q" and cpu: "cpu_inv s Q" and ni: "cur s \<noteq> idle_task s" and n1: "cur s \<noteq> task1 s"
    and own: "\<forall>i. owns s i \<longrightarrow> list_empty (SemBlocked i) (links s)"
  shows "proceeds (sys_exit s)"
proof -
  let ?c = "cur s" and ?i = "idle_task s"
  note v = kernel_invD [OF ki]
  have c: "?c < NR_TASKS" "live Q ?c" using cpu by (simp_all add: cpu_inv_def)
  have i: "?i < NR_TASKS" "live Q ?i" using v(1) idle_live [OF v(1)] by (simp_all add: sched_inv_def)
  note n = running_off(2) [OF v(1) cpu]
  obtain cs where cs: "Q (TFills ?c) = Some (map TParentAnchor cs)"
    using family_queues(2) [OF v(9)] families_invD(1) [OF v(5) c] by blast
  obtain ws where ws: "Q (TWaitList ?c) = Some (map TWaitAnchor ws)"
    using family_queues(1) [OF v(9)] families_invD(2) [OF v(5) c] by blast
  have kids: "k < NR_TASKS \<and> live Q k \<and> k \<noteq> ?c \<and> k \<noteq> ?i" if "k \<in> set cs" for k
    using families_invD(3) [OF v(5), of ?c k] that cs by (simp add: on_list_def)
  have wb: "w \<in> set (tasks_on Q Blocked)" "k_ctx (task s w) = KWaitThread ?c" "on_list Q (TWaitList ?c) (TWaitAnchor w)" if "w \<in> set ws" for w
    using ctx_invD(7,8) [OF v(4), of ?c w] that ws by (simp_all add: on_list_def)
  have Qi: "Q (TFills ?i) \<noteq> None" using families_invD(1) [OF v(5) i] .
  obtain p where "on_list Q (TFills p) (TParentAnchor ?c)" using families_invD(4) [OF v(5) c ni n1] by blast
  then have "\<exists>p. p \<noteq> ?c \<and> on_list Q (TFills p) (TParentAnchor ?c)" using families_invD(3) [OF v(5), of p ?c]
    by (intro exI [of _ p]) auto
  moreover have "\<not> on_list Q (SemBlocked j) (TSemList w)" if "w \<in> set ws" for w j
    using ctx_invD(6) [OF v(4), of j w] wb(2) [OF that] by auto
  ultimately have lv: "leaves s Q cs ws"
    unfolding leaves_def using ni cs ws Qi wb(1) by auto
  obtain d where d: "dir_pages_baseAddr (task s ?c) = Some d" using v(1) c unfolding sched_inv_def by blast
  obtain hz where hz: "my_heap (task s ?c) = Some hz" "heap_zones (mm s) hz = int (nat (heap_zones (mm s) hz))"
    using v(7) c ni unfolding heaps_inv_def heap_fits_def by auto
  have nobody: "\<forall>j. owns s j \<longrightarrow> waiters Q j = []"
    using no_waiters [OF ki] own by (auto simp: owns_def)
  have ids: "\<forall>j k. owns s j \<longrightarrow> k < NUM_SEMS \<longrightarrow> k \<noteq> j \<longrightarrow> sem_id (semaphores s k) \<noteq> sem_id (semaphores s j)"
    using sem_unique [OF v(3)] by blast
  obtain s' Q' where s': "sys_exit s = Some (Switched, s')" "sched_inv s' Q'" "cpu_inv s' Q'" "sem_inv s' Q'"
     "(cur s', tasks_on Q' Readyqueue) = rr_next ?i False (?c, tasks_on Q Readyqueue @ ws)"
     "tasks_on Q' Blocked = filter (\<lambda>t. t \<notin> set ws) (tasks_on Q Blocked)"
     "\<forall>i. semaphores s' i = (if owns s i then (semaphores s i)\<lparr>sem_free := True\<rparr> else semaphores s i)"
     "PID (task s' ?c) = -1" "exit_frame s s'"
    and Q': "Q' = (heir_lists ?c ?i cs Q)(Readyqueue := Q' Readyqueue, TWaitList ?c \<mapsto> [],
        Freequeue \<mapsto> map TList (tasks_on Q Freequeue @ [?c]), Blocked \<mapsto> map TList (filter (\<lambda>t. t \<notin> set ws) (tasks_on Q Blocked)))"
    using sys_exit_spec [OF v(1) cpu v(2) lv nobody ids d refl hz] by blast
  note fr = s'(9) [unfolded exit_frame_def]
  have other: "Q' a = Q a" if "a \<notin> {Readyqueue, TWaitList ?c, Freequeue, Blocked}" "\<forall>p. a \<noteq> TFills p" for a
    using that heir_lists_other [OF v(9) that(2)] by (subst Q') simp
  have fills: "on_list Q' (TFills p) m \<longleftrightarrow> on_list (heir_lists ?c ?i cs Q) (TFills p) m" for p m
    unfolding on_list_def by (subst Q') simp
  note heir = on_list_heir [OF v(8) ni Qi]
  have free: "Q Freequeue = Some (map TList (tasks_on Q Freequeue))" using tasks_on_queue [OF v(9), of Freequeue] by simp
  have Qfree: "Q' Freequeue = Some (map TList (tasks_on Q Freequeue @ [?c]))" by (subst Q') simp
  have lvQ: "live Q' t \<longleftrightarrow> live Q t \<and> t \<noteq> ?c" for t using free Qfree by (auto simp: live_def on_list_def)
  have b: "set (tasks_on Q' Blocked) = set (tasks_on Q Blocked) - set ws" using s'(6) by auto
  have wc: "on_list Q' (TWaitList p) m \<longleftrightarrow> on_list Q (TWaitList p) m \<and> p \<noteq> ?c" for p m
  proof (cases "p = ?c")
    case True
    have "Q' (TWaitList ?c) = Some []" by (subst Q') simp
    then show ?thesis using True by (simp add: on_list_def)
  qed (simp add: on_list_def other)
  have sm: "on_list Q' (SemBlocked j) m \<longleftrightarrow> on_list Q (SemBlocked j) m" for j m by (simp add: on_list_def other)
  have rb: "tasks_on Q' ReadBlocked = tasks_on Q ReadBlocked" by (simp add: tasks_on_def other)
  have ne: "cur s' \<noteq> ?c" using rr_next_other(2) [OF s'(5)] ni n [of Readyqueue] n [of Blocked] wb by auto
  have k: "k_ctx (task s' t) = k_ctx (task s t)" if "t \<noteq> ?c" for t using fr that by simp
  have "sem_use s'"
    using v(3) fr s'(7) unfolding sem_use_def sem_ids_def by (simp split: if_splits)
  moreover have "ctx_inv s' Q'"
  proof (rule ctx_inv_step [OF v(4)])
    show "t \<in> set (tasks_on Q Readyqueue) \<or> t \<in> set (tasks_on Q Blocked) \<or> t = ?c \<and> ready_ctx (k_ctx (task s' t))"
      if "t \<in> set (tasks_on Q' Readyqueue)" for t using rr_next_other(1) [OF s'(5) that] wb by auto
    show "t \<in> set (tasks_on Q' Blocked) \<and> (on_list Q (SemBlocked j) (TSemList t) \<or> t = ?c \<and> k_ctx (task s' t) = KSemWait j)"
      if "on_list Q' (SemBlocked j) (TSemList t)" for j t
      using that ctx_invD(5,6) [OF v(4), of j t] wb(2) [of t] by (auto simp: sm b)
    show "t \<in> set (tasks_on Q' Blocked) \<and> (on_list Q (TWaitList p) (TWaitAnchor t) \<or> t = ?c \<and> k_ctx (task s' t) = KWaitThread p)"
      if "on_list Q' (TWaitList p) (TWaitAnchor t)" for p t
      using that ctx_invD(7,8) [OF v(4), of p t] wb(2) [of t] by (auto simp: wc b)
    show "on_list Q' a m" if m: "t \<in> set (tasks_on Q' Blocked)" "m = TSemList t \<or> m = TWaitAnchor t" "on_list Q a m" for a m t
    proof -
      have "fits a m" using m(3) v(9) unfolding typed_def by blast
      moreover have "a \<noteq> TWaitList ?c" if "m = TWaitAnchor t" using m(1,3) that ws by (auto simp: b on_list_def)
      ultimately show ?thesis using m by (auto simp: sm wc)
    qed
    show "t \<in> set (tasks_on Q ReadBlocked) \<and> t \<noteq> ?c \<or> reader_ctx (k_ctx (task s' t))" if "t \<in> set (tasks_on Q' ReadBlocked)" for t
      using that n [of ReadBlocked] by (auto simp: rb)
  qed (use fr ni n b in auto)
  moreover have "families_inv s' Q'"
    unfolding families_inv_def
  proof (intro conjI allI impI)
    show "Q' (TFills p) \<noteq> None" "Q' (TWaitList p) \<noteq> None" if p: "p < NR_TASKS" "live Q' p" for p
    proof -
      show "Q' (TFills p) \<noteq> None" using families_invD(1) [OF v(5) p(1)] p(2) lvQ
        by (subst Q') (simp add: heir_lists_None del: not_None_eq)
      show "Q' (TWaitList p) \<noteq> None" using families_invD(2) [OF v(5) p(1)] p(2) lvQ other [of "TWaitList p"] by simp
    qed
    show "k < NR_TASKS" "live Q' k" "k \<noteq> p" "k \<noteq> idle_task s'" "live Q' p" if "on_list Q' (TFills p) (TParentAnchor k)" for p k
      using that families_invD(3) [OF v(5), of p k] kids [of k] fr i(2) ni by (auto simp: fills heir lvQ)
    show "\<exists>p. on_list Q' (TFills p) (TParentAnchor k)" if l: "k < NR_TASKS" "live Q' k" "k \<noteq> idle_task s'" "k \<noteq> task1 s'" for k
    proof -
      obtain p where p: "on_list Q (TFills p) (TParentAnchor k)" using families_invD(4) [OF v(5), of k] l fr lvQ by auto
      show ?thesis
      proof (cases "p = ?c")
        case True
        then have "k \<in> set cs" using p cs by (auto simp: on_list_def)
        then show ?thesis using ni by (intro exI [of _ ?i]) (simp add: fills heir)
      next
        case False
        then show ?thesis using p l(2) lvQ by (intro exI [of _ p]) (simp add: fills heir)
      qed
    qed
    show "live Q' p" if "on_list Q' (TWaitList p) m" for p m
      using that families_invD(5) [OF v(5), of p m] by (simp add: wc lvQ)
  qed
  moreover have "ident_inv s' Q'"
    unfolding ident_inv_def
  proof (intro conjI allI impI)
    show "0 < pidGlobal s'" using v(6) fr by (simp add: ident_inv_def)
    show "if live Q' t then PID (task s' t) < pidGlobal s' else PID (task s' t) < 0" if "t < NR_TASKS" for t
      using ident_invD [OF v(6) that] fr s'(8) lvQ by (cases "t = ?c"; cases "live Q t") simp_all
  qed
  moreover have "heaps_inv s' Q'"
    using v(7) fr unfolding heaps_inv_def by (auto simp: lvQ)
  ultimately have "kernel_inv s' Q'" using s'(2,4) by (simp add: kernel_inv_def)
  moreover have "ready_ctx (k_ctx (task s' (cur s')))"
    by (rule next_ctx [OF v(4)]) (use k ne wb rr_next_other(2) [OF s'(5)] in auto)
  ultimately show ?thesis using proceeds_switch s'(1,3) by simp
qed

section \<open>dyn_mem and write\<close>

text \<open>Taking frames and giving them back touches neither the directories nor the sizes of the heaps.\<close>

lemma alloc_loop_keeps:
  assumes "\<And>i m. refs_frame m (snd (alloc i m))" "\<And>j f m. refs_frame m (giveback j f m)"
  shows "refs_frame m (snd (alloc_loop alloc giveback n acc m))"
proof (induction n arbitrary: acc m)
  case 0
  then show ?case by (simp add: refs_frame_def)
next
  case (Suc n)
  obtain f m1 where f: "alloc (length acc) m = (f, m1)" by (cases "alloc (length acc) m")
  then have m1: "refs_frame m m1" using assms(1) [of m "length acc"] by simp
  have "refs_frame m1 (fold (\<lambda>(j, g). giveback j g) (enumerate 0 acc) m1)"
    by (rule refs_frame_fold) (use assms(2) in \<open>auto split: prod.split\<close>)
  then show ?case using f m1 Suc.IH [of m1 "acc @ [f]"] by (simp add: refs_frame_def)
qed

lemma page_alloc_keeps: "refs_frame m (snd (page_alloc p b n acc m))"
proof (rule alloc_loop_keeps)
  show "refs_frame m (snd (let (f, m1) = alloc_frame m in
      (f, if f < 0 then m1 else upd_PT p (\<lambda>PT. set_ss_pag PT (b + i) (word_of_int f)) m1)))" for i m
    using refs_frame_alloc [of m] by (simp add: case_prod_beta refs_frame_def upd_PT_def)
qed (simp add: refs_frame_def upd_PT_def free_frame_def)

lemma dyn_mem_grow_keeps:
  assumes "dyn_mem_grow p b n m = (fs, Some m')"
  shows "refs_frame m m'" "fs \<noteq> None \<Longrightarrow> 0 < n \<Longrightarrow> b + nat n \<le> TOTAL_PAGES"
proof -
  note r = checked_runs [OF assms [unfolded dyn_mem_grow_def]]
  show "refs_frame m m'" using page_alloc_keeps [of m p b "nat n" "[]"] r by simp
  show "b + nat n \<le> TOTAL_PAGES" if "fs \<noteq> None" "0 < n" using r that by simp
qed

text \<open>\<open>grow_fits n s\<close>: with \<open>n\<close> more pages, or with as many as there are frames, the heap of the caller ends in the table.\<close>

definition grow_fits :: "int \<Rightarrow> kstate \<Rightarrow> bool" where
  "grow_fits n s \<longleftrightarrow> (\<forall>hz. my_heap (task s (cur s)) = Some hz \<longrightarrow>
     int PAG_LOG_INIT_HEAP + heap_zones (mm s) hz + min n (int (card (avail (mm s)))) \<le> int TOTAL_PAGES)"

lemma dyn_mem_proceeds:
  assumes ki: "kernel_inv s Q" and cpu: "cpu_inv s Q" and ni: "cur s \<noteq> idle_task s" and n: "n \<noteq> - (2 ^ 31)"
    and gf: "0 < n \<longrightarrow> grow_fits n s"
  shows "proceeds (sys_dyn_mem n s)"
proof -
  note v = kernel_invD [OF ki]
  have c: "cur s < NR_TASKS" "live Q (cur s)" "cr3 (mm s) = dir_pages_baseAddr (task s (cur s))"
    using cpu by (simp_all add: cpu_inv_def)
  obtain hz where hz: "my_heap (task s (cur s)) = Some hz" "0 \<le> heap_zones (mm s) hz" "heap_zones (mm s) hz \<le> 740"
    using v(7) c(1,2) ni unfolding heaps_inv_def heap_fits_def by fastforce
  obtain d where d: "dir_pages_baseAddr (task s (cur s)) = Some d" using v(1) c(1,2) unfolding sched_inv_def by blast
  have p: "get_PT (cur s) s = Some (dir_PT (mm s) d)" using d by (simp add: get_PT_def)
  note ret = same_kernel_return [OF ki cpu]
  consider (zero) "n = 0" | (grow) "n > 0" | (refused) "n < 0" "heap_zones (mm s) hz < - n"
    | (shrink) "n < 0" "- n \<le> heap_zones (mm s) hz" by linarith
  then show ?thesis
  proof cases
    case zero
    then show ?thesis using hz ret by (simp add: sys_dyn_mem_def)
  next
    case grow
    let ?p = "dir_PT (mm s) d" and ?h = "nat (heap_zones (mm s) hz)"
    obtain r m' where r: "page_alloc ?p (PAG_LOG_INIT_HEAP + ?h) (nat n) [] (mm s) = (r, m')" by fastforce
    have "PAG_LOG_INIT_HEAP + ?h + min (nat n) (card (avail (mm s))) \<le> TOTAL_PAGES"
      using gf grow hz unfolding grow_fits_def by (auto simp: min_def split: if_splits)
    from dyn_mem_grow_eq [OF this r] have g: "dyn_mem_grow ?p (PAG_LOG_INIT_HEAP + ?h) n (mm s) = (r, Some m')"
      using grow by simp
    note k = dyn_mem_grow_keeps [OF g]
    have "same_kernel s (s\<lparr>mm := m'\<rparr>)" using k(1) by (simp add: same_kernel_def refs_frame_def)
    moreover have "same_kernel s (s\<lparr>mm := m'\<lparr>heap_zones := (heap_zones m')(hz := heap_zones (mm s) hz + n)\<rparr>\<rparr>)" if "r \<noteq> None"
    proof -
      have "heap_zones (mm s) hz + n \<le> 740" using k(2) [OF that grow] hz(2) grow by linarith
      then show ?thesis using k(1) hz(2) grow by (simp add: same_kernel_def refs_frame_def heap_fits_def)
    qed
    ultimately show ?thesis using grow hz p g ret by (cases r) (simp_all add: sys_dyn_mem_def Let_def)
  next
    case refused
    then show ?thesis using hz n ret by (simp add: sys_dyn_mem_def Let_def)
  next
    case shrink
    let ?h = "heap_zones (mm s) hz - (- n)"
    let ?s1 = "upd_mm (\<lambda>m. release_pages (dir_PT (mm s) d) (PAG_LOG_INIT_HEAP + nat ?h) (nat (- n)) m) s"
    let ?s2 = "upd_mm (\<lambda>m. m\<lparr>heap_zones := (heap_zones m)(hz := ?h)\<rparr>) ?s1"
    have e: "sys_dyn_mem n s = Some (Ret (heap_addr ?h), set_cr3 (get_DIR (cur ?s2) ?s2) ?s2)"
      using shrink hz n p by (simp add: sys_dyn_mem_def Let_def in_table_def)
    have "same_kernel s (set_cr3 (get_DIR (cur ?s2) ?s2) ?s2)"
      using shrink c(3) release_pages_keeps [of "dir_PT (mm s) d" "PAG_LOG_INIT_HEAP + nat ?h" "nat (- n)" "mm s"]
      by (simp add: same_kernel_def set_cr3_def upd_mm_def get_DIR_def heap_fits_def)
    then show ?thesis unfolding e using ret by simp
  qed
qed

text \<open>What \<open>write\<close> needs when its arguments pass the checks: the text and the kernel's buffer are mapped.\<close>

definition text_mapped :: "u32 \<Rightarrow> int \<Rightarrow> kstate \<Rightarrow> bool" where
  "text_mapped buf n s \<longleftrightarrow> user_bytes s (unat buf) (nat n) (\<lambda>i. the (translate (mm s) (unat buf + i)))"

lemma write_proceeds:
  assumes ki: "kernel_inv s Q" and cpu: "cpu_inv s Q" 
    and m: "fd = 1 \<and> buf \<noteq> 0 \<and> 0 < n \<and> access_ok VERIFY_READ buf (word_of_int n) \<noteq> 0 \<longrightarrow> text_mapped buf n s"
  shows "proceeds (sys_write fd buf n s)"
proof -
  note ret = same_kernel_return [OF ki cpu]
  show ?thesis
  proof (cases "check_fd fd ESCRIPTURA \<noteq> 0 \<or> buf = 0 \<or> n \<le> 0 \<or> access_ok VERIFY_READ buf (word_of_int n) = 0")
    case True
    then show ?thesis using ret by (auto simp: sys_write_def)
  next
    case False
    then obtain s' where s': "write_loop (unat buf) n 0 s = Some (n, s')"
      "printed s (map (\<lambda>i. ram s (the (translate (mm s) (unat buf + i)))) [0..<nat n]) s'"
      using write_loop_ok [of s "unat buf" "nat n" _ 0] m by (auto simp: text_mapped_def check_fd_def split: if_splits)
    have "s' = s\<lparr>ram := ram s', con := con s'\<rparr>" using s'(2) printed_fields(3) [OF s'(2)] by (simp only: printed_def)
    moreover have "same_kernel s (s\<lparr>ram := r, con := c\<rparr>)" for r c by (simp add: same_kernel_def)
    ultimately have "same_kernel s s'" by metis
    then show ?thesis using False s'(1) ret by (simp add: sys_write_def)
  qed
qed

lemma console_proceeds:
  assumes "kernel_inv s Q" "cpu_inv s Q"
  shows "proceeds (on_console f s)"
  using same_kernel_return [OF assms, of "s\<lparr>con := snd (f (con s))\<rparr>" "Ret (fst (f (con s)))"]
  by (simp add: on_console_def case_prod_beta same_kernel_def)

end
