(* ===== verification/Kernel_Read.thy ===== *)
theory Kernel_Read
  imports Kernel_Life
begin

text \<open>
  \<open>read\<close> and the keyboard interrupt keep the invariant of the kernel, and so does a thread that
  gets the CPU back.
\<close>

section \<open>read and the keyboard\<close>

text \<open>The suspension point of the caller is written by the switch; the invariant of the kernel with it
  already there.\<close>

definition marked :: "kcont \<Rightarrow> kstate \<Rightarrow> kstate" where
  "marked kc s = upd_task (cur s) (\<lambda>ts. ts\<lparr>k_ctx := kc\<rparr>) s"

lemma marked_simps [simp]:
  "links (marked kc s) = links s" "cur (marked kc s) = cur s" "idle_task (marked kc s) = idle_task s"
  "k_ctx (task (marked kc s) t) = (if t = cur s then kc else k_ctx (task s t))"
  "PID (task (marked kc s) t) = PID (task s t)" "current_state (task (marked kc s) t) = current_state (task s t)"
  "dir_pages_baseAddr (task (marked kc s) t) = dir_pages_baseAddr (task s t)" "my_heap (task (marked kc s) t) = my_heap (task s t)"
  "semaphores (marked kc s) = semaphores s" "mm (marked kc s) = mm s" "semIDglobal (marked kc s) = semIDglobal s"
  "pidGlobal (marked kc s) = pidGlobal s" "task1 (marked kc s) = task1 s" "esp0 (marked kc s) = esp0 s"
  by (simp_all add: marked_def upd_task_def)

lemma marked_same: "k_ctx (task s (cur s)) = kc \<Longrightarrow> marked kc s = s"
  by (auto simp: marked_def upd_task_def)

lemma marked_reader:
  assumes "kernel_inv (marked kc s) Q" "reading s Q"
  shows "sched_inv s Q" "reading (marked kc s) Q"
  using kernel_invD(1) [OF assms(1)] assms(2)
  by (auto simp: reading_def yieldable_def intro: sched_inv_cong [of "marked kc s"])

text \<open>A reader that waits gives the CPU away and stays on its queue.\<close>

lemma reader_switch:
  assumes ki: "kernel_inv (marked (KRead b n) s) Q" and rd: "reading s Q" and n: "0 \<le> n"
  shows "\<exists>s'. sched_then (KRead b n) rest s = Some (Switched, s') \<and> proceeds (Some (Switched, s')) \<and>
     ready_ctx (k_ctx (task s' (cur s')))"
proof -
  let ?m = "marked (KRead b n) s"
  note v = kernel_invD [OF ki]
  note inv = marked_reader(1) [OF ki rd]
  note f = reading_fields [OF inv rd]
  obtain s' Q' where s': "sched_then (KRead b n) rest s = Some (Switched, s')" "sched_inv s' Q'" "cpu_inv s' Q'"
     "(cur s', tasks_on Q' Readyqueue) = rr_next (idle_task s) False (cur s, tasks_on Q Readyqueue)"
     "\<forall>a. a \<noteq> Readyqueue \<longrightarrow> Q' a = Q a" "cur s' \<noteq> cur s" "k_ctx (task s' (cur s)) = KRead b n"
     "\<forall>t. t \<noteq> cur s \<longrightarrow> k_ctx (task s' t) = k_ctx (task s t)" "sched_frame s s'"
    using reader_suspended [OF inv rd, of "KRead b n" rest] by blast
  have q: "tasks_on Q' d = tasks_on Q d" if "d \<noteq> Readyqueue" for d using s'(5) that by (simp add: tasks_on_def)
  have o: "on_list Q' a m \<longleftrightarrow> on_list Q a m" if "a \<noteq> Readyqueue" for a m using s'(5) that by (simp add: on_list_def)
  have kp: "keeps ?m s'" using sched_frame_keeps [OF s'(9)] by (simp add: keeps_def)
  have "ctx_inv s' Q'"
  proof (rule ctx_inv_step [OF v(4)])
    show "t \<in> set (tasks_on Q Readyqueue) \<or> t \<in> set (tasks_on Q Blocked) \<or> t = cur ?m \<and> ready_ctx (k_ctx (task s' t))"
      if "t \<in> set (tasks_on Q' Readyqueue)" for t using rr_next_other(1) [OF s'(4) that] by simp
    show "on_list Q' a m" if "m = TSemList t \<or> m = TWaitAnchor t" "on_list Q a m" for a m t
      using o [of a m] typed_sched [OF v(9) that(2)] that by auto
    show "t \<in> set (tasks_on Q ReadBlocked) \<and> t \<noteq> cur ?m \<or> reader_ctx (k_ctx (task s' t))"
      if "t \<in> set (tasks_on Q' ReadBlocked)" for t using that s'(7) n by (cases "t = cur s") (simp_all add: q)
    show "t \<in> set (tasks_on Q' Blocked) \<and> (on_list Q (SemBlocked j) (TSemList t) \<or> t = cur ?m \<and> k_ctx (task s' t) = KSemWait j)"
      if "on_list Q' (SemBlocked j) (TSemList t)" for j t using that ctx_invD(5) [OF v(4)] by (simp add: o q)
    show "t \<in> set (tasks_on Q' Blocked) \<and> (on_list Q (TWaitList p) (TWaitAnchor t) \<or> t = cur ?m \<and> k_ctx (task s' t) = KWaitThread p)"
      if "on_list Q' (TWaitList p) (TWaitAnchor t)" for p t using that ctx_invD(7) [OF v(4)] by (simp add: o q)
  qed (use s'(7,8) f kp in \<open>auto simp: q keeps_def\<close>)
  moreover have "sem_inv s' Q'"
    by (rule sem_inv_lists [OF v(2)]) (use s'(5) q sched_frame_rest(2) [OF s'(9)] in auto)
  moreover have "same_families Q Q'" using s'(5) by (simp add: same_families_def on_list_def)
  moreover have "sem_use s'" by (rule sem_use_cong [OF v(3)]) (simp_all add: sched_frame_rest [OF s'(9)])
  ultimately have "kernel_inv s' Q'" using kernel_step [OF ki kp] s'(2) by blast
  moreover have "ready_ctx (k_ctx (task s' (cur s')))"
    by (rule next_ctx [OF v(4)]) (use s'(6,8) rr_next_other(2) [OF s'(4)] in auto)
  ultimately show ?thesis using proceeds_switch s'(1,3) by (intro exI [of _ s']) simp
qed

text \<open>What the copy of the characters needs.\<close>

definition reads_mapped :: "nat \<Rightarrow> int \<Rightarrow> kstate \<Rightarrow> bool" where
  "reads_mapped b n s \<longleftrightarrow> (\<forall>i < nat n. translate (mm s) (tmpbuff s + i) \<noteq> None \<and> translate (mm s) (b + i) \<noteq> None)"

lemma reader_returns:
  assumes ki: "kernel_inv (marked kc s) Q" and rd: "reading s Q" and m: "reads_mapped b n s"
  shows "proceeds (read_finish b n s)"
proof -
  let ?m = "marked kc s"
  note v = kernel_invD [OF ki]
  note inv = marked_reader(1) [OF ki rd]
  note f = reading_fields [OF inv rd]
  obtain r where r: "copy_data (translate (mm s)) (tmpbuff s) b n
      (store_bytes (tmpbuff s) (fst (pop_loop kb_buffer_pop (nat n) (kb s))) (ram s)) = Some r"
    using copy_data_total m unfolding reads_mapped_def by blast
  let ?s = "s\<lparr>kb := snd (pop_loop kb_buffer_pop (nat n) (kb s)), ram := r\<rparr>"
  obtain s' Q' where s': "read_finish b n s = Some (Ret n, s')" "sched_inv s' Q'" "cpu_inv s' Q'"
     "tasks_on Q' ReadBlocked = remove1 (cur s) (tasks_on Q ReadBlocked)" "\<forall>a. a \<noteq> ReadBlocked \<longrightarrow> Q' a = Q a"
     "cur s' = cur s" "\<forall>t. k_ctx (task s' t) = k_ctx (task s t)" "sched_frame ?s s'"
    using read_finish_spec [OF inv rd r] by blast
  have q: "tasks_on Q' d = tasks_on Q d" if "d \<noteq> ReadBlocked" for d using s'(5) that by (simp add: tasks_on_def)
  have o: "on_list Q' a m \<longleftrightarrow> on_list Q a m" if "a \<noteq> ReadBlocked" for a m using s'(5) that by (simp add: on_list_def)
  have kp: "keeps ?m s'" using sched_frame_keeps [OF s'(8)] by (simp add: keeps_def)
  have d: "distinct (tasks_on Q ReadBlocked)" using distinct_tasks_on [OF v(8,9)] by simp
  have "ctx_inv s' Q'"
  proof (rule ctx_inv_step [OF v(4)])
    show "on_list Q' a m" if "m = TSemList t \<or> m = TWaitAnchor t" "on_list Q a m" for a m t
      using o [of a m] typed_sched [OF v(9) that(2)] that by auto
    show "t \<in> set (tasks_on Q' Blocked) \<and> (on_list Q (SemBlocked j) (TSemList t) \<or> t = cur ?m \<and> k_ctx (task s' t) = KSemWait j)"
      if "on_list Q' (SemBlocked j) (TSemList t)" for j t using that ctx_invD(5) [OF v(4)] by (simp add: o q)
    show "t \<in> set (tasks_on Q' Blocked) \<and> (on_list Q (TWaitList p) (TWaitAnchor t) \<or> t = cur ?m \<and> k_ctx (task s' t) = KWaitThread p)"
      if "on_list Q' (TWaitList p) (TWaitAnchor t)" for p t using that ctx_invD(7) [OF v(4)] by (simp add: o q)
  qed (use s'(4,6,7) f kp d in \<open>auto simp: q keeps_def\<close>)
  moreover have "sem_inv s' Q'"
    by (rule sem_inv_lists [OF v(2)]) (use s'(5) q sched_frame_rest(2) [OF s'(8)] in auto)
  moreover have "same_families Q Q'" using s'(5) by (simp add: same_families_def on_list_def)
  moreover have "sem_use s'" by (rule sem_use_cong [OF v(3)]) (simp_all add: sched_frame_rest [OF s'(8)])
  ultimately have "kernel_inv s' Q'" using kernel_step [OF ki kp] s'(2) by blast
  then show ?thesis using proceeds_return s'(1,3) by simp
qed

lemma read_loop_proceeds:
  assumes ki: "kernel_inv (marked (KRead b n) s) Q" and rd: "reading s Q" and n: "0 \<le> n"
    and m: "n \<le> int (kb_buffer_size (kb s)) \<longrightarrow> reads_mapped b n s"
  shows "proceeds (read_loop b n s)"
proof (cases "int (kb_buffer_size (kb s)) < n")
  case True
  then show ?thesis using reader_switch [OF ki rd n, of "read_loop b n"] read_loop_waits [OF True] by auto
next
  case False
  then have "read_loop b n s = read_finish b n s" by (subst read_loop.simps) simp
  then show ?thesis using reader_returns [OF ki rd] m False by simp
qed

text \<open>In \<open>sys_read\<close> the caller joins the readers first.\<close>

lemma reader_joined:
  assumes ki: "kernel_inv s Q" and cpu: "cpu_inv s Q" and n: "0 \<le> n"
    and s1: "sched_inv s1 Q1" "tasks_on Q1 ReadBlocked = tasks_on Q ReadBlocked @ [cur s]"
      "\<forall>a. a \<noteq> ReadBlocked \<longrightarrow> Q1 a = Q a" "cur s1 = cur s" "\<forall>t. k_ctx (task s1 t) = k_ctx (task s t)" "sched_frame s s1"
  shows "kernel_inv (marked (KRead b n) s1) Q1"
proof -
  let ?m = "marked (KRead b n) s1"
  note v = kernel_invD [OF ki]
  note off = running_off(2) [OF v(1) cpu]
  have q: "tasks_on Q1 d = tasks_on Q d" if "d \<noteq> ReadBlocked" for d using s1(3) that by (simp add: tasks_on_def)
  have o: "on_list Q1 a m \<longleftrightarrow> on_list Q a m" if "a \<noteq> ReadBlocked" for a m using s1(3) that by (simp add: on_list_def)
  have kp: "keeps s ?m" using sched_frame_keeps [OF s1(6)] by (simp add: keeps_def)
  have "ctx_inv ?m Q1"
  proof (rule ctx_inv_step [OF v(4)])
    show "on_list Q1 a m" if "m = TSemList t \<or> m = TWaitAnchor t" "on_list Q a m" for a m t
      using o [of a m] typed_sched [OF v(9) that(2)] that by auto
    show "t \<in> set (tasks_on Q ReadBlocked) \<and> t \<noteq> cur s \<or> reader_ctx (k_ctx (task ?m t))"
      if "t \<in> set (tasks_on Q1 ReadBlocked)" for t using that n by (cases "t = cur s") (simp_all add: s1(2,4))
    show "t \<in> set (tasks_on Q1 Blocked) \<and> (on_list Q (SemBlocked j) (TSemList t) \<or> t = cur s \<and> k_ctx (task ?m t) = KSemWait j)"
      if "on_list Q1 (SemBlocked j) (TSemList t)" for j t using that ctx_invD(5) [OF v(4)] by (simp add: o q)
    show "t \<in> set (tasks_on Q1 Blocked) \<and> (on_list Q (TWaitList p) (TWaitAnchor t) \<or> t = cur s \<and> k_ctx (task ?m t) = KWaitThread p)"
      if "on_list Q1 (TWaitList p) (TWaitAnchor t)" for p t using that ctx_invD(7) [OF v(4)] by (simp add: o q)
  qed (use s1(4,5) off kp in \<open>auto simp: q keeps_def\<close>)
  moreover have "sched_inv ?m Q1" by (rule sched_inv_cong [OF s1(1)]) simp_all
  moreover have "sem_inv ?m Q1"
    by (rule sem_inv_lists [OF v(2)]) (use s1(3) q sched_frame_rest(2) [OF s1(6)] in auto)
  moreover have "same_families Q Q1" using s1(3) by (simp add: same_families_def on_list_def)
  moreover have "sem_use ?m" by (rule sem_use_cong [OF v(3)]) (simp_all add: sched_frame_rest [OF s1(6)])
  ultimately show ?thesis using kernel_step [OF ki kp] by blast
qed

lemma read_proceeds:
  assumes ki: "kernel_inv s Q" and cpu: "cpu_inv s Q" and ni: "cur s \<noteq> idle_task s"
    and m: "readable b n \<and> n \<le> int (kb_buffer_size (kb s)) \<longrightarrow> reads_mapped (unat b) n s"
  shows "proceeds (sys_read b n s)"
proof (cases "readable b n")
  case False
  then show ?thesis using proceeds_return [OF ki cpu] by (auto simp: sys_read_def readable_def)
next
  case True
  then have n: "0 \<le> n" by (simp add: readable_def)
  let ?rest = "read_loop (unat b) n"
  obtain s1 Q1 where s1: "sched_inv s1 Q1" "reading s1 Q1" "tasks_on Q1 ReadBlocked = tasks_on Q ReadBlocked @ [cur s]"
     "\<forall>a. a \<noteq> ReadBlocked \<longrightarrow> Q1 a = Q a" "cur s1 = cur s" "\<forall>t. k_ctx (task s1 t) = k_ctx (task s t)" "sched_frame s s1"
     "mm s1 = mm s"
     "sys_read b n s = (if tasks_on Q ReadBlocked \<noteq> [] then sched_then (KRead (unat b) n) ?rest s1 else ?rest s1)"
    using sys_read_joins [OF kernel_invD(1) [OF ki] cpu ni True] by blast
  have k: "kernel_inv (marked (KRead (unat b) n) s1) Q1" by (rule reader_joined [OF ki cpu n s1(1,3-7)])
  have "kb s1 = kb s" "tmpbuff s1 = tmpbuff s" using s1(7) by (simp_all add: sched_frame_def)
  then have "n \<le> int (kb_buffer_size (kb s1)) \<longrightarrow> reads_mapped (unat b) n s1"
    using m True s1(8) by (simp add: reads_mapped_def)
  then show ?thesis using read_loop_proceeds [OF k s1(2) n] reader_switch [OF k s1(2) n, of ?rest] s1(9)
    by (cases "tasks_on Q ReadBlocked = []") auto
qed

lemma keyboard_proceeds:
  assumes ki: "kernel_inv s Q" and cpu: "cpu_inv s Q"
  shows "proceeds (keyboard_routine b s)"
proof (cases "decode_key b")
  case None
  then show ?thesis using proceeds_return [OF ki cpu] by (simp add: keyboard_routine_def)
next
  case (Some c)
  define s1 where "s1 = (if kb_buffer_size (kb s) < KB_BUFFER_SIZE then s\<lparr>kb := kb_buffer_push c (kb s)\<rparr> else s)"
  have e: "same_kernel s s1" by (simp add: s1_def same_kernel_def)
  note k1 = kernel_inv_cong [OF e ki] and c1 = same_kernel_cpu [OF e cpu]
  note v = kernel_invD [OF k1]
  note off = running_off(2) [OF v(1) c1]
  show ?thesis
  proof (cases "tasks_on Q ReadBlocked")
    case Nil
    then have "list_empty ReadBlocked (links s1)"
      using dl.rep_empty [OF v(8), of ReadBlocked "[]"] tasks_on_queue [OF v(9), of ReadBlocked] by simp
    then show ?thesis using keyboard_routine_eq [OF Some s1_def] proceeds_return [OF k1 c1, of RetVoid] by simp
  next
    case (Cons t ts)
    have f: "cur s1 = cur s" "idle_task s1 = idle_task s" "task s1 = task s" by (simp_all add: s1_def)
    obtain s' Q' where s': "keyboard_routine b s = Some (Switched, s')" "sched_inv s' Q'" "reading s' Q'" "cur s' = t"
     "tasks_on Q' Readyqueue = tasks_on Q Readyqueue @ (if cur s \<noteq> idle_task s then [cur s] else [])"
     "\<forall>a. a \<noteq> Readyqueue \<longrightarrow> Q' a = Q a" "k_ctx (task s' (cur s)) = KInterrupt"
     "\<forall>t. t \<noteq> cur s \<longrightarrow> k_ctx (task s' t) = k_ctx (task s t)" "sched_frame s1 s'"
      using keyboard_routine_spec [OF kernel_invD(1) [OF ki] cpu Some Cons s1_def] by blast
    have q: "tasks_on Q' d = tasks_on Q d" if "d \<noteq> Readyqueue" for d using s'(6) that by (simp add: tasks_on_def)
    have o: "on_list Q' a m \<longleftrightarrow> on_list Q a m" if "a \<noteq> Readyqueue" for a m using s'(6) that by (simp add: on_list_def)
    have kp: "keeps s1 s'" using sched_frame_keeps [OF s'(9)] .
    have "ctx_inv s' Q'"
    proof (rule ctx_inv_step [OF v(4)])
      show "on_list Q' a m" if "m = TSemList t \<or> m = TWaitAnchor t" "on_list Q a m" for a m t
        using o [of a m] typed_sched [OF v(9) that(2)] that by auto
      show "t \<in> set (tasks_on Q' Blocked) \<and> (on_list Q (SemBlocked j) (TSemList t) \<or> t = cur s1 \<and> k_ctx (task s' t) = KSemWait j)"
        if "on_list Q' (SemBlocked j) (TSemList t)" for j t using that ctx_invD(5) [OF v(4)] by (simp add: o q)
      show "t \<in> set (tasks_on Q' Blocked) \<and> (on_list Q (TWaitList p) (TWaitAnchor t) \<or> t = cur s1 \<and> k_ctx (task s' t) = KWaitThread p)"
        if "on_list Q' (TWaitList p) (TWaitAnchor t)" for p t using that ctx_invD(7) [OF v(4)] by (simp add: o q)
    qed (use s'(5,7,8) off kp f in \<open>auto simp: q keeps_def split: if_splits\<close>)
    moreover have "sem_inv s' Q'"
      by (rule sem_inv_lists [OF v(2)]) (use s'(6) q sched_frame_rest(2) [OF s'(9)] in auto)
    moreover have "same_families Q Q'" using s'(6) by (simp add: same_families_def on_list_def)
    moreover have "sem_use s'" by (rule sem_use_cong [OF v(3)]) (simp_all add: sched_frame_rest [OF s'(9)])
    ultimately have "kernel_inv s' Q'" using kernel_step [OF k1 kp] s'(2) by blast
    then show ?thesis using proceeds_reading s'(1,3) by simp
  qed
qed

text \<open>What a thread does that got the CPU.\<close>

lemma resume_ready: "ready_ctx (k_ctx (task s (cur s))) \<Longrightarrow> \<exists>r. resume s = Some (r, s) \<and> r \<noteq> Switched"
  by (cases "k_ctx (task s (cur s))")
    (simp_all add: resume_def wait_thread_end_def sem_wait_end_def sem_signal_end_def)

lemma resume_reader:
  assumes ki: "kernel_inv s Q" and m: "mode_inv Resuming s Q" and nr: "\<not> ready_ctx (k_ctx (task s (cur s)))"
  shows "\<exists>b n. k_ctx (task s (cur s)) = KRead b n \<and> 0 \<le> n \<and> kernel_inv (marked (KRead b n) s) Q \<and> reading s Q \<and>
     resume s = read_loop b n s"
proof -
  have rd: "reading s Q" using m nr by (auto simp: mode_inv_def)
  then have "cur s \<in> set (tasks_on Q ReadBlocked)" by (simp add: reading_def)
  then have "reader_ctx (k_ctx (task s (cur s)))" using ctx_invD(4) [OF kernel_invD(4) [OF ki]] by blast
  then obtain b n where k: "k_ctx (task s (cur s)) = KRead b n" "0 \<le> n" by (cases "k_ctx (task s (cur s))") auto
  then show ?thesis using ki rd marked_same [OF k(1)] by (simp add: resume_def)
qed

text \<open>\<open>resume_mapped\<close>: a reader whose characters are there can copy them.\<close>

definition resume_mapped :: "kstate \<Rightarrow> bool" where
  "resume_mapped s \<longleftrightarrow> (case k_ctx (task s (cur s)) of
     KRead b n \<Rightarrow> n \<le> int (kb_buffer_size (kb s)) \<longrightarrow> reads_mapped b n s | _ \<Rightarrow> True)"

lemma resume_proceeds:
  assumes ki: "kernel_inv s Q" and m: "mode_inv Resuming s Q" and g: "resume_mapped s"
  shows "proceeds (resume s)"
proof (cases "ready_ctx (k_ctx (task s (cur s)))")
  case True
  have "\<not> reading s Q"
  proof
    assume "reading s Q"
    then have "reader_ctx (k_ctx (task s (cur s)))"
      using ctx_invD(4) [OF kernel_invD(4) [OF ki]] by (simp add: reading_def)
    then show False using True by (cases "k_ctx (task s (cur s))") simp_all
  qed
  then have "cpu_inv s Q" using m by (simp add: mode_inv_def)
  then show ?thesis using resume_ready [OF True] proceeds_return [OF ki] by auto
next
  case False
  obtain b n where k: "k_ctx (task s (cur s)) = KRead b n" "0 \<le> n" "kernel_inv (marked (KRead b n) s) Q" "reading s Q"
    "resume s = read_loop b n s" using resume_reader [OF ki m False] by blast
  show ?thesis using read_loop_proceeds [OF k(3,4,2)] g k(1,5) by (simp add: resume_mapped_def)
qed

text \<open>At most two threads get the CPU before one returns from the kernel.\<close>

lemma resume_returns:
  assumes ki: "kernel_inv s Q" and m: "mode_inv Resuming s Q" and g: "resume_mapped s"
  shows "\<exists>r s1. resume s = Some (r, s1) \<and> (r \<noteq> Switched \<or> ready_ctx (k_ctx (task s1 (cur s1))))"
proof (cases "ready_ctx (k_ctx (task s (cur s)))")
  case True
  then show ?thesis using resume_ready by blast
next
  case False
  obtain b n where k: "k_ctx (task s (cur s)) = KRead b n" "0 \<le> n" "kernel_inv (marked (KRead b n) s) Q" "reading s Q"
    "resume s = read_loop b n s" using resume_reader [OF ki m False] by blast
  show ?thesis
  proof (cases "int (kb_buffer_size (kb s)) < n")
    case True
    then show ?thesis using reader_switch [OF k(3,4,2), of "read_loop b n"] read_loop_waits [OF True] k(5) by auto
  next
    case False
    then have f: "read_loop b n s = read_finish b n s" by (subst read_loop.simps) simp
    have "reads_mapped b n s" using g k(1) False by (simp add: resume_mapped_def)
    then obtain r where "copy_data (translate (mm s)) (tmpbuff s) b n
        (store_bytes (tmpbuff s) (fst (pop_loop kb_buffer_pop (nat n) (kb s))) (ram s)) = Some r"
      using copy_data_total unfolding reads_mapped_def by blast
    then have "\<exists>s1. read_finish b n s = Some (Ret n, s1)"
      using read_finish_spec [OF marked_reader(1) [OF k(3,4)] k(4)] by blast
    then show ?thesis using f k(5) by auto
  qed
qed

end
