(* ===== verification/Spaces.thy ===== *)
theory Spaces
  imports Loading Dyn_Mem
begin

text \<open>
  The address spaces of all processes: which frames the tables name, and that no operation on them
  ever gives one frame to two pages. The invariant is about the tables alone; that every step of the
  kernel keeps it is the theory \<open>Isolation\<close>.
\<close>

section \<open>The invariant of the tables\<close>

text \<open>Data and heap belong to one process; the code pages and the kernel are shared.\<close>

definition private_page :: "nat \<Rightarrow> bool" where
  "private_page i \<longleftrightarrow> PAG_LOG_INIT_DATA \<le> i \<and> i < PAG_LOG_INIT_CODE \<or> PAG_LOG_INIT_HEAP \<le> i \<and> i < TOTAL_PAGES"

text \<open>The first frames of the pool hold the code, in every process.\<close>

abbreviation (input) CODE_END :: nat where "CODE_END \<equiv> NUM_PAG_KERNEL + 2 * NUM_PAG_CODE"

definition in_use :: "mm_state \<Rightarrow> (nat \<times> nat) set" where
  "in_use m = {(p, i). p < NR_TASKS \<and> private_page i \<and> pagusr_table m p i \<noteq> 0}"

text \<open>The frame of a page that is not private: one of the kernel or of the code.\<close>

definition shared_frame :: "mm_state \<Rightarrow> nat \<Rightarrow> nat \<Rightarrow> bool" where
  "shared_frame m p i \<longleftrightarrow> frame_no m p i < CODE_END \<and>
     (PAG_LOG_INIT_CODE \<le> i \<longrightarrow> pagusr_table m p i \<noteq> 0 \<longrightarrow> NUM_PAG_KERNEL \<le> frame_no m p i)"

lemma shared_frame_cong: "pagusr_table m' q i = pagusr_table m p i \<Longrightarrow> shared_frame m' q i = shared_frame m p i"
  by (simp add: shared_frame_def get_frame_def)

definition spaces_ok :: "mm_state \<Rightarrow> bool" where
  "spaces_ok m \<longleftrightarrow> (\<forall>d < NR_TASKS. row_of m d d) \<and> (\<forall>f \<in> avail m. CODE_END \<le> f) \<and>
     (\<forall>(p, i) \<in> in_use m. frame_no m p i \<in> pool - avail m \<and> CODE_END \<le> frame_no m p i) \<and>
     (\<forall>p < NR_TASKS. \<forall>i < TOTAL_PAGES. \<not> private_page i \<longrightarrow> shared_frame m p i) \<and>
     inj_on (\<lambda>(p, i). frame_no m p i) (in_use m)"

lemma spaces_okD:
  assumes "spaces_ok m"
  shows "d < NR_TASKS \<Longrightarrow> row_of m d d" "f \<in> avail m \<Longrightarrow> CODE_END \<le> f"
    "(p, i) \<in> in_use m \<Longrightarrow> frame_no m p i \<in> pool \<and> frame_no m p i \<notin> avail m \<and> CODE_END \<le> frame_no m p i"
    "p < NR_TASKS \<Longrightarrow> i < TOTAL_PAGES \<Longrightarrow> \<not> private_page i \<Longrightarrow> shared_frame m p i"
    "(p, i) \<in> in_use m \<Longrightarrow> (q, j) \<in> in_use m \<Longrightarrow> frame_no m p i = frame_no m q j \<Longrightarrow> p = q \<and> i = j"
proof -
  show "(p, i) \<in> in_use m \<Longrightarrow> (q, j) \<in> in_use m \<Longrightarrow> frame_no m p i = frame_no m q j \<Longrightarrow> p = q \<and> i = j"
    using assms inj_onD [of "\<lambda>(p, i). frame_no m p i" "in_use m" "(p, i)" "(q, j)"] by (simp add: spaces_ok_def)
qed (use assms in \<open>auto simp: spaces_ok_def\<close>)

lemma spaces_okI:
  assumes "\<And>d. d < NR_TASKS \<Longrightarrow> row_of m d d" "\<And>f. f \<in> avail m \<Longrightarrow> CODE_END \<le> f"
    "\<And>p i. (p, i) \<in> in_use m \<Longrightarrow> frame_no m p i \<in> pool \<and> frame_no m p i \<notin> avail m \<and> CODE_END \<le> frame_no m p i"
    "\<And>p i. p < NR_TASKS \<Longrightarrow> i < TOTAL_PAGES \<Longrightarrow> \<not> private_page i \<Longrightarrow> shared_frame m p i"
    "\<And>p i q j. (p, i) \<in> in_use m \<Longrightarrow> (q, j) \<in> in_use m \<Longrightarrow> frame_no m p i = frame_no m q j \<Longrightarrow> p = q \<and> i = j"
  shows "spaces_ok m"
  unfolding spaces_ok_def using assms by (auto intro!: inj_onI)

lemma spaces_ok_cong:
  assumes "pagusr_table m' = pagusr_table m" "dir_pages m' = dir_pages m" "pagusr_page m' = pagusr_page m" "phys_mem m' = phys_mem m"
  shows "spaces_ok m' = spaces_ok m"
proof -
  have "avail m' = avail m" using assms by (simp add: avail_def)
  then show ?thesis unfolding spaces_ok_def in_use_def row_of_def dir_PT_def shared_frame_def assms by simp
qed

section \<open>One page\<close>

text \<open>A page that is taken away: its frame is free, unless it had none.\<close>

lemma spaces_unmap:
  assumes ok: "spaces_ok m" and p: "p < NR_TASKS" "private_page i"
  shows "spaces_ok (upd_PT p (\<lambda>PT. del_ss_pag PT i) (free_frame (get_frame (pagusr_table m p) i) m))"
    (is "spaces_ok ?m")
proof (cases "pagusr_table m p i = 0")
  case True
  then have "get_frame (pagusr_table m p) i = 0" "del_ss_pag (pagusr_table m p) i = pagusr_table m p"
    by (auto simp: get_frame_def del_ss_pag_def)
  then have "?m = m" by (simp add: free_frame_def upd_PT_def)
  then show ?thesis using ok by simp
next
  case False
  then have u: "(p, i) \<in> in_use m" using p by (simp add: in_use_def)
  note o = spaces_okD [OF ok]
  let ?f = "frame_no m p i"
  have f: "?f \<in> pool" "?f \<notin> avail m" "CODE_END \<le> ?f" using o(3) [OF u] by blast+
  have m: "?m = upd_PT p (\<lambda>PT. del_ss_pag PT i) (m\<lparr>phys_mem := (phys_mem m)(?f := FREE_FRAME)\<rparr>)"
    using f by (simp add: free_frame_def pool_def)
  have av: "avail ?m = insert ?f (avail m)" unfolding m using f(1) by (auto simp: avail_def)
  have iu: "in_use ?m = in_use m - {(p, i)}" unfolding m by (auto simp: in_use_def del_ss_pag_def split: if_splits)
  have fr: "frame_no ?m q j = (if q = p \<and> j = i then 0 else frame_no m q j)" for q j
    unfolding m by (simp add: get_frame_def del_ss_pag_def)
  show ?thesis
  proof (rule spaces_okI)
    show "row_of ?m d d" if "d < NR_TASKS" for d using o(1) [OF that] unfolding m by (simp add: row_of_def dir_PT_def)
    show "CODE_END \<le> g" if "g \<in> avail ?m" for g using that f(3) o(2) unfolding av by auto
    show "frame_no ?m q j \<in> pool \<and> frame_no ?m q j \<notin> avail ?m \<and> CODE_END \<le> frame_no ?m q j" if "(q, j) \<in> in_use ?m" for q j
      using that o(3) [of q j] o(5) [OF u, of q j] unfolding iu av fr by auto
    show "shared_frame ?m q j" if "q < NR_TASKS" "j < TOTAL_PAGES" "\<not> private_page j" for q j
    proof -
      have "pagusr_table ?m q j = pagusr_table m q j" using that(3) p(2) unfolding m by (auto simp: del_ss_pag_def)
      then show ?thesis using o(4) [OF that] shared_frame_cong by blast
    qed
    show "q = q' \<and> j = j'" if "(q, j) \<in> in_use ?m" "(q', j') \<in> in_use ?m" "frame_no ?m q j = frame_no ?m q' j'" for q j q' j'
      using that o(5) [of q j q' j'] unfolding iu fr by (auto split: if_splits)
  qed
qed

text \<open>Frames that were free are mapped, each once, and are free no more.\<close>

lemma spaces_map:
  assumes ok: "spaces_ok m" and q: "q < NR_TASKS"
    and t: "\<And>p i. private_page i \<Longrightarrow> pagusr_table m' p i = (if p = q \<and> i \<in> I then user_pte (of_nat (F i)) else pagusr_table m p i)"
    and low: "\<And>p i. p < NR_TASKS \<Longrightarrow> i < TOTAL_PAGES \<Longrightarrow> \<not> private_page i \<Longrightarrow> shared_frame m' p i"
    and I: "\<And>i. i \<in> I \<Longrightarrow> private_page i" and F: "inj_on F I" "F ` I \<subseteq> avail m" "avail m' = avail m - F ` I"
    and dirs: "dir_pages m' = dir_pages m" "pagusr_page m' = pagusr_page m"
  shows "spaces_ok m'"
proof -
  note o = spaces_okD [OF ok]
  have b: "F i < 1024" if "i \<in> I" for i using that F(2) availD by blast
  have nz: "user_pte v \<noteq> 0" for v
  proof
    assume "user_pte v = 0"
    then have "present (0 :: u32)" using user_pte_fields(1) [of v] by simp
    then show False by simp
  qed
  have new: "frame_no m' q i = F i" if "i \<in> I" for i
  proof -
    have "F i < 2 ^ 20" using b [OF that] by simp
    then show ?thesis using t [OF I [OF that], of q] that unat_frame [OF b [OF that]] by (simp add: get_frame_def)
  qed
  have old: "frame_no m' p i = frame_no m p i" if "private_page i" "\<not> (p = q \<and> i \<in> I)" for p i
    using t [OF that(1), of p] that(2) unfolding get_frame_def by simp
  have iu: "in_use m' = in_use m \<union> {q} \<times> I"
    using I q t by (auto simp: in_use_def nz split: if_splits)
  have pr: "private_page i" if "(p, i) \<in> in_use m" for p i using that by (simp add: in_use_def)
  have u: "frame_no m p i \<notin> F ` I" if "(p, i) \<in> in_use m" for p i using o(3) [OF that] F(2) by blast
  have sub: "F i \<in> F ` I" if "i \<in> I" for i using that by blast
  have cases: "p = q \<and> i \<in> I \<and> frame_no m' p i = F i \<or>
      \<not> (p = q \<and> i \<in> I) \<and> (p, i) \<in> in_use m \<and> frame_no m' p i = frame_no m p i" if "(p, i) \<in> in_use m'" for p i
    using that new [of i] old [of i p] pr [of p i] unfolding iu by auto
  show ?thesis
  proof (rule spaces_okI)
    show "row_of m' d d" if "d < NR_TASKS" for d using o(1) [OF that] by (simp add: row_of_def dir_PT_def dirs)
    show "CODE_END \<le> g" if "g \<in> avail m'" for g using that o(2) F(3) by auto
    show "frame_no m' p i \<in> pool \<and> frame_no m' p i \<notin> avail m' \<and> CODE_END \<le> frame_no m' p i" if iu': "(p, i) \<in> in_use m'" for p i
    proof (cases "p = q \<and> i \<in> I")
      case True
      then have "F i \<in> avail m" using F(2) by blast
      then show ?thesis using True new o(2) F(3) by (auto simp: avail_def)
    next
      case False
      then show ?thesis using cases [OF iu'] o(3) [of p i] F(3) by auto
    qed
    show "p = p' \<and> i = i'" if uu: "(p, i) \<in> in_use m'" "(p', i') \<in> in_use m'" and e: "frame_no m' p i = frame_no m' p' i'" for p i p' i'
      using cases [OF uu(1)] cases [OF uu(2)] e u [of p i] u [of p' i'] sub [of i] sub [of i'] inj_onD [OF F(1), of i i'] o(5) [of p i p' i']
      by metis
  qed (rule low)
qed

lemma spaces_map_one:
  assumes ok: "spaces_ok m" and p: "p < NR_TASKS" "private_page i" and f: "f \<in> avail m"
  shows "spaces_ok (upd_PT p (\<lambda>PT. set_ss_pag PT i (of_nat f)) (m\<lparr>phys_mem := (phys_mem m)(f := USED_FRAME)\<rparr>))"
    (is "spaces_ok ?m")
proof (rule spaces_map [OF ok p(1), of ?m "{i}" "\<lambda>_. f"])
  show "shared_frame ?m q j" if "q < NR_TASKS" "j < TOTAL_PAGES" "\<not> private_page j" for q j
  proof -
    have "pagusr_table ?m q j = pagusr_table m q j" using that(3) p(2) by (auto simp: set_ss_pag_pte)
    then show ?thesis using spaces_okD(4) [OF ok that] shared_frame_cong by blast
  qed
  show "avail ?m = avail m - (\<lambda>_. f) ` {i}" using avail_mark_used [of m f] by (simp add: avail_def)
qed (use p f in \<open>auto simp: set_ss_pag_pte\<close>)

section \<open>The loops\<close>

lemma spaces_release:
  assumes "spaces_ok m" "p < NR_TASKS" "\<forall>i \<in> {lo..<lo + n}. private_page i"
  shows "spaces_ok (release_pages p lo n m)"
  unfolding release_pages_def using assms(1)
proof (rule fold_invariant [where P = spaces_ok and Q = "\<lambda>i. i \<in> {lo..<lo + n}", rotated 1])
  show "spaces_ok (upd_PT p (\<lambda>PT. del_ss_pag PT i) (free_frame (get_frame (pagusr_table m p) i) m))"
    if "i \<in> {lo..<lo + n}" "spaces_ok m" for i m
    using spaces_unmap [OF that(2) assms(2), of i] assms(3) that(1) by blast
qed auto

text \<open>The pages that the loop of \<open>dyn_mem\<close> mapped, and its rollback.\<close>

definition mapped_so_far :: "nat \<Rightarrow> nat \<Rightarrow> int list \<Rightarrow> mm_state \<Rightarrow> bool" where
  "mapped_so_far p base fs m \<longleftrightarrow> PAG_LOG_INIT_HEAP \<le> base \<and>
     (\<forall>j < length fs. base + j < TOTAL_PAGES \<and> get_frame (pagusr_table m p) (base + j) = word_of_int (fs ! j))"

lemma spaces_rollback:
  "spaces_ok m \<Longrightarrow> p < NR_TASKS \<Longrightarrow> mapped_so_far p (base + k) fs m \<Longrightarrow> PAG_LOG_INIT_HEAP \<le> base \<Longrightarrow>
   spaces_ok (fold (\<lambda>(j, f) m. upd_PT p (\<lambda>PT. del_ss_pag PT (base + j)) (free_frame (word_of_int f) m)) (enumerate k fs) m)"
proof (induction fs arbitrary: k m)
  case (Cons f fs)
  let ?m = "upd_PT p (\<lambda>PT. del_ss_pag PT (base + k)) (free_frame (word_of_int f) m)"
  have f: "get_frame (pagusr_table m p) (base + k) = word_of_int f" and pr: "private_page (base + k)"
    using Cons.prems(3,4) by (auto simp: mapped_so_far_def private_page_def)
  have "spaces_ok ?m" using spaces_unmap [OF Cons.prems(1,2) pr] unfolding f .
  moreover have "mapped_so_far p (base + Suc k) fs ?m"
    unfolding mapped_so_far_def
  proof (intro conjI allI impI)
    show "base + Suc k + j < TOTAL_PAGES" "get_frame (pagusr_table ?m p) (base + Suc k + j) = word_of_int (fs ! j)"
      if "j < length fs" for j
    proof -
      have "base + k + Suc j < TOTAL_PAGES \<and> get_frame (pagusr_table m p) (base + k + Suc j) = word_of_int ((f # fs) ! Suc j)"
        using Cons.prems(3) that unfolding mapped_so_far_def by (metis Suc_less_eq length_Cons)
      then show "base + Suc k + j < TOTAL_PAGES" "get_frame (pagusr_table ?m p) (base + Suc k + j) = word_of_int (fs ! j)"
        by (simp_all add: get_frame_def free_frame_def)
    qed
  qed (use Cons.prems(3) in \<open>auto simp: mapped_so_far_def\<close>)
  ultimately show ?case using Cons.IH [of ?m "Suc k"] Cons.prems(2,4) by simp
qed simp

lemma spaces_grow_loop:
  "checked_alloc p base n acc (Some m) = (r, Some m') \<Longrightarrow> spaces_ok m \<Longrightarrow> p < NR_TASKS \<Longrightarrow> mapped_so_far p base acc m \<Longrightarrow>
   spaces_ok m'"
proof (induction n arbitrary: acc m)
  case (Suc n)
  have base: "PAG_LOG_INIT_HEAP \<le> base" using Suc.prems(4) by (simp add: mapped_so_far_def)
  show ?case
  proof (cases rule: alloc_frame_cases [of m])
    case none
    then have "m' = fold (\<lambda>(j, f) m. upd_PT p (\<lambda>PT. del_ss_pag PT (base + j)) (free_frame (word_of_int f) m)) (enumerate 0 acc) m"
      using Suc.prems(1) by (simp add: map_frame_simps unmap_all)
    then show ?thesis using spaces_rollback [OF Suc.prems(2,3), of base 0 acc] Suc.prems(4) base by simp
  next
    case (some f)
    let ?m = "upd_PT p (\<lambda>PT. set_ss_pag PT (base + length acc) (word_of_int (int f))) (m\<lparr>phys_mem := (phys_mem m)(f := USED_FRAME)\<rparr>)"
    have t: "base + length acc < TOTAL_PAGES"
      using Suc.prems(1) some(3) checked_undefined [where p = p and base = base and n = n and acc = "acc @ [int f]"]
      by (auto simp: map_frame_simps split: if_splits)
    then have run: "checked_alloc p base n (acc @ [int f]) (Some ?m) = (r, Some m')"
      using Suc.prems(1) some(3) by (simp add: map_frame_simps)
    have pr: "private_page (base + length acc)" using base t by (simp add: private_page_def)
    have "f < 1024" using availD [OF some(1)] by simp
    then have "(of_nat f :: u32) AND mask 20 = of_nat f" by simp
    then have "mapped_so_far p base (acc @ [int f]) ?m"
      using Suc.prems(4) t by (auto simp: mapped_so_far_def nth_append less_Suc_eq)
    then show ?thesis
      using Suc.IH [OF run _ Suc.prems(3)] spaces_map_one [OF Suc.prems(2,3) pr some(1)] by simp
  qed
qed simp

lemma spaces_grow:
  assumes "dyn_mem_grow p base n m = (r, Some m')" "spaces_ok m" "p < NR_TASKS" "PAG_LOG_INIT_HEAP \<le> base"
  shows "spaces_ok m'"
  using spaces_grow_loop [OF assms(1) [unfolded dyn_mem_grow_def] assms(2,3)] assms(4) by (simp add: mapped_so_far_def)

section \<open>The tables after fork\<close>

lemma spaces_fork:
  assumes ok: "spaces_ok m" and pq: "p < NR_TASKS" "q < NR_TASKS" and h: "PAG_LOG_INIT_HEAP + h \<le> TOTAL_PAGES"
    and fs: "length fs = NUM_PAG_DATA + h" "distinct fs" "set fs \<subseteq> avail m"
    and av: "avail (forked_mm p q d h fs pm m) = avail m - set fs"
    and cd: "\<forall>i. PAG_LOG_INIT_CODE \<le> i \<and> i < PAG_LOG_INIT_HEAP \<longrightarrow> pagusr_table m p i \<noteq> 0"
  shows "spaces_ok (forked_mm p q d h fs pm m)"
    (is "spaces_ok ?m")
proof -
  let ?I = "{i. own_page h i}" and ?F = "\<lambda>i. fs ! frame_index i"
  have own: "private_page i" if "own_page h i" for i using that h by (auto simp: own_page_def private_page_def)
  have t: "pagusr_table ?m = (pagusr_table m)(q := child_table (pagusr_table m p) (map int fs) h (pagusr_table m q))"
    by (simp add: forked_mm_def upd_PT_def)
  have F: "?F ` ?I = set fs"
  proof
    show "?F ` ?I \<subseteq> set fs" using frame_index_bound fs(1) by auto
    show "set fs \<subseteq> ?F ` ?I"
    proof
      fix f assume "f \<in> set fs"
      then obtain k where k: "k < NUM_PAG_DATA + h" "fs ! k = f" using fs(1) by (auto simp: in_set_conv_nth)
      let ?i = "if k < NUM_PAG_DATA then PAG_LOG_INIT_DATA + k else PAG_LOG_INIT_HEAP + (k - NUM_PAG_DATA)"
      have "own_page h ?i" "frame_index ?i = k" using k(1) by (auto simp: own_page_def frame_index_def)
      then show "f \<in> ?F ` ?I" using k(2) by (intro image_eqI [of _ _ ?i]) auto
    qed
  qed
  show ?thesis
  proof (rule spaces_map [OF ok pq(2), of ?m ?I ?F])
    show "pagusr_table ?m r i = (if r = q \<and> i \<in> ?I then user_pte (of_nat (?F i)) else pagusr_table m r i)"
      if pr: "private_page i" for r i
    proof (cases "r = q \<and> own_page h i")
      case True
      then have "frame_index i < length fs" using frame_index_bound fs(1) by simp
      then show ?thesis using True unfolding t own_page_def
        by (auto simp: child_table_def frame_index_def)
    next
      case False
      then show ?thesis using pr unfolding t by (auto simp: child_table_def own_page_def private_page_def)
    qed
    show "shared_frame ?m r i" if b: "r < NR_TASKS" "i < TOTAL_PAGES" "\<not> private_page i" for r i
    proof (cases "r = q")
      case True
      have e: "pagusr_table ?m q i = user_pte (get_frame (pagusr_table m p) i)"
        using b(2,3) unfolding t by (auto simp: child_table_def private_page_def)
      then have "frame_no ?m q i = frame_no m p i" by (simp add: get_frame_def) (simp flip: get_frame_def)
      moreover have "PAG_LOG_INIT_CODE \<le> i \<Longrightarrow> pagusr_table m p i \<noteq> 0" using cd b(2,3) by (auto simp: private_page_def)
      ultimately show ?thesis using spaces_okD(4) [OF ok pq(1) b(2,3)] True by (simp add: shared_frame_def)
    next
      case False
      then have "pagusr_table ?m r i = pagusr_table m r i" unfolding t by simp
      then show ?thesis using spaces_okD(4) [OF ok b] shared_frame_cong by blast
    qed
    show "inj_on ?F ?I"
    proof (rule inj_onI)
      fix i j assume ij: "i \<in> ?I" "j \<in> ?I" "?F i = ?F j"
      then have "frame_index i = frame_index j"
        using nth_eq_iff_index_eq [OF fs(2)] frame_index_bound fs(1) by (metis mem_Collect_eq)
      then show "i = j" using inj_onD [OF frame_index_inj] ij by blast
    qed
    show "?F ` ?I \<subseteq> avail m" "avail ?m = avail m - ?F ` ?I" using F fs(3) av by simp_all
  qed (use own in \<open>simp_all add: forked_mm_def upd_PT_def\<close>)
qed

end
