(* ===== verification/Isolation.thy ===== *)
theory Isolation
  imports Spaces Kernel_Read
begin

text \<open>
  Every operation of the kernel keeps the address spaces apart: the invariant of \<open>Spaces\<close>, and what ties
  the tables to the threads that use them. \<open>spatial\<close> operations keep it whatever the rest of the state is; for \<open>fork\<close>,
  \<open>create_thread\<close>, \<open>exit\<close> and \<open>dyn_mem\<close> the invariant of the kernel is needed.
\<close>

section \<open>The invariant\<close>

text \<open>A directory counts at least the threads that use it; every thread but the idle one has its data and its code
  mapped; and all of them have the heap counter of the first thread, whose directory is never free.\<close>

definition users_of :: "kstate \<Rightarrow> nat \<Rightarrow> nat set" where
  "users_of s d = {t. t < NR_TASKS \<and> dir_pages_baseAddr (task s t) = Some d}"

definition homes_ok :: "kstate \<Rightarrow> bool" where
  "homes_ok s \<longleftrightarrow> (\<forall>t d. dir_pages_baseAddr (task s t) = Some d \<longrightarrow> d < NR_TASKS) \<and>
     (\<forall>d < NR_TASKS. int (card (users_of s d)) \<le> dir_pages_num_references (mm s) d) \<and>
     (\<forall>t < NR_TASKS. \<forall>d. t \<noteq> idle_task s \<longrightarrow> dir_pages_baseAddr (task s t) = Some d \<longrightarrow>
        my_heap (task s t) = dir_pages_baseAddr (task s (task1 s)) \<and>
        (\<forall>i. PAG_LOG_INIT_DATA \<le> i \<and> i < PAG_LOG_INIT_HEAP \<longrightarrow> present (pagusr_table (mm s) d i))) \<and>
     task1 s < NR_TASKS \<and> 0 \<le> PID (task s (task1 s)) \<and>
     (\<exists>d. dir_pages_baseAddr (task s (task1 s)) = Some d \<and> heap_fits (heap_zones (mm s) d))"

definition space_inv :: "kstate \<Rightarrow> bool" where
  "space_inv s \<longleftrightarrow> spaces_ok (mm s) \<and> homes_ok s"

lemma finite_users [simp]: "finite (users_of s d)"
  by (simp add: users_of_def)

lemma space_invD:
  assumes "space_inv s"
  shows "spaces_ok (mm s)" "dir_pages_baseAddr (task s t) = Some d \<Longrightarrow> d < NR_TASKS"
    "d < NR_TASKS \<Longrightarrow> int (card (users_of s d)) \<le> dir_pages_num_references (mm s) d"
    "t < NR_TASKS \<Longrightarrow> t \<noteq> idle_task s \<Longrightarrow> dir_pages_baseAddr (task s t) = Some d \<Longrightarrow>
       my_heap (task s t) = dir_pages_baseAddr (task s (task1 s))"
    "t < NR_TASKS \<Longrightarrow> t \<noteq> idle_task s \<Longrightarrow> dir_pages_baseAddr (task s t) = Some d \<Longrightarrow> PAG_LOG_INIT_DATA \<le> i \<Longrightarrow>
       i < PAG_LOG_INIT_HEAP \<Longrightarrow> present (pagusr_table (mm s) d i)"
    "task1 s < NR_TASKS" "0 \<le> PID (task s (task1 s))"
    "\<exists>d. dir_pages_baseAddr (task s (task1 s)) = Some d \<and> heap_fits (heap_zones (mm s) d)"
  using assms unfolding space_inv_def homes_ok_def by blast+

lemma space_user:
  assumes "space_inv s" "dir_pages_baseAddr (task s t) = Some d" "t < NR_TASKS"
  shows "0 < dir_pages_num_references (mm s) d"
proof -
  have d: "d < NR_TASKS" by (rule space_invD(2) [OF assms(1,2)])
  have "t \<in> users_of s d" using assms(2,3) by (simp add: users_of_def)
  then have "0 < card (users_of s d)" using card_gt_0_iff [of "users_of s d"] by auto
  then show ?thesis using space_invD(3) [OF assms(1) d] by linarith
qed

text \<open>Most of the kernel looks at neither the tables nor the directories of the tasks.\<close>

named_theorems space_steps

lemma space_inv_fields [simp]:
  "space_inv (s\<lparr>links := h\<rparr>) = space_inv s" "space_inv (s\<lparr>cur := c\<rparr>) = space_inv s" "space_inv (s\<lparr>esp0 := e\<rparr>) = space_inv s"
  "space_inv (s\<lparr>tick_counter := i\<rparr>) = space_inv s" "space_inv (s\<lparr>pidGlobal := i\<rparr>) = space_inv s"
  "space_inv (s\<lparr>semIDglobal := i\<rparr>) = space_inv s" "space_inv (s\<lparr>semIDsystem := i\<rparr>) = space_inv s"
  "space_inv (s\<lparr>semaphores := S\<rparr>) = space_inv s" "space_inv (s\<lparr>ram := r\<rparr>) = space_inv s" "space_inv (s\<lparr>kb := k\<rparr>) = space_inv s"
  "space_inv (s\<lparr>con := n\<rparr>) = space_inv s" "space_inv (s\<lparr>zeos_tick := i\<rparr>) = space_inv s"
  by (simp_all add: space_inv_def homes_ok_def users_of_def)

lemma space_inv_task:
  assumes "\<And>ts. dir_pages_baseAddr (f ts) = dir_pages_baseAddr ts" "\<And>ts. my_heap (f ts) = my_heap ts" "\<And>ts. PID (f ts) = PID ts"
  shows "space_inv (upd_task t f s) = space_inv s"
proof -
  have "dir_pages_baseAddr (task (upd_task t f s) u) = dir_pages_baseAddr (task s u)" "my_heap (task (upd_task t f s) u) = my_heap (task s u)"
    "PID (task (upd_task t f s) u) = PID (task s u)" "mm (upd_task t f s) = mm s" "idle_task (upd_task t f s) = idle_task s"
    "task1 (upd_task t f s) = task1 s" for u
    by (simp_all add: upd_task_def assms)
  then show ?thesis by (simp add: space_inv_def homes_ok_def users_of_def)
qed

text \<open>A change of the pages of heaps, and of nothing else that the threads share.\<close>

definition heap_change :: "mm_state \<Rightarrow> mm_state \<Rightarrow> bool" where
  "heap_change m m' \<longleftrightarrow> dir_pages_num_references m' = dir_pages_num_references m \<and>
     (\<forall>p i. i < PAG_LOG_INIT_HEAP \<longrightarrow> pagusr_table m' p i = pagusr_table m p i)"

lemma heap_change_trans: "heap_change a b \<Longrightarrow> heap_change b c \<Longrightarrow> heap_change a c"
  by (simp add: heap_change_def)

lemma space_heap_change:
  assumes "space_inv s" "heap_change (mm s) m" "spaces_ok m"
    and "\<And>d. heap_fits (heap_zones (mm s) d) \<Longrightarrow> heap_fits (heap_zones m d)"
  shows "space_inv (s\<lparr>mm := m\<rparr>)"
  using assms unfolding space_inv_def homes_ok_def users_of_def heap_change_def by fastforce

lemma space_inv_updates [simp]:
  "space_inv (init_head a s) = space_inv s" "space_inv (set_state t st s) = space_inv s" "space_inv (set_quantum t q s) = space_inv s"
  "space_inv (set_cr3 d s) = space_inv s"
  "space_inv (upd_sem i g s) = space_inv s" "space_inv (upd_task t (\<lambda>ts. ts\<lparr>k_ctx := kc\<rparr>) s) = space_inv s"
  "space_inv (upd_task t (\<lambda>ts. ts\<lparr>pending_unblocks := n ts\<rparr>) s) = space_inv s" "space_inv (upd_task t (\<lambda>ts. ts\<lparr>pare := p\<rparr>) s) = space_inv s"
  "space_inv (upd_task t (\<lambda>ts. ts\<lparr>u_eax := v\<rparr>) s) = space_inv s"
  "space_inv (upd_task t (\<lambda>ts. ts\<lparr>u_eip := v, u_esp := w, u_eax := x\<rparr>) s) = space_inv s" "space_inv (update_sched_data_rr s) = space_inv s"
proof -
  have "spaces_ok ((mm s)\<lparr>cr3 := d\<rparr>) = spaces_ok (mm s)" for d by (rule spaces_ok_cong) simp_all
  then show "space_inv (set_cr3 d s) = space_inv s" by (simp add: set_cr3_def upd_mm_def space_inv_def homes_ok_def users_of_def)
qed (simp_all add: init_head_def set_state_def set_quantum_def upd_sem_def update_sched_data_rr_def space_inv_task)

lemma space_on_links [space_steps]: "on_links f s = Some s' \<Longrightarrow> space_inv s \<Longrightarrow> space_inv s'"
  by (auto simp: on_links_def split: bind_split_asm)

section \<open>The scheduler\<close>

lemma space_update [space_steps]:
  assumes "update_process_state_rr t d s = Some s'" "space_inv s"
  shows "space_inv s'"
proof (cases "PID (task s t) < 0")
  case True
  then show ?thesis using assms by (auto simp: update_process_state_rr_def dest: space_on_links)
next
  case False
  with assms(1) obtain s1 where
    s1: "(if PID (task s t) > 0 \<and> current_state (task s t) \<noteq> ST_RUN then on_links (list_del (TList t)) s else Some s) = Some s1"
    and r: "(case d of None \<Rightarrow> Some (set_state t ST_RUN s1)
        | Some d \<Rightarrow>
            let s2 = (case dest_state d of Some st \<Rightarrow> set_state t st s1 | None \<Rightarrow> s1) in
            if PID (task s t) \<noteq> 0 then on_links (list_add_tail (TList t) d) s2 else Some s2) = Some s'"
    unfolding update_process_state_rr_def by (auto split: bind_split_asm)
  have i1: "space_inv s1" using s1 assms(2) by (auto split: if_splits dest: space_on_links)
  then have "space_inv (case dest_state d of Some st \<Rightarrow> set_state t st s1 | None \<Rightarrow> s1)" for d by (simp split: option.split)
  then show ?thesis using r i1 by (auto simp: Let_def split: option.splits if_splits dest: space_on_links)
qed

lemma space_switch: "space_inv s \<Longrightarrow> space_inv (inner_task_switch t kc s)"
  by (simp add: inner_task_switch_def Let_def)

lemma space_sched_next [space_steps]:
  assumes "sched_next_rr kc s = Some (b, s')" "space_inv s"
  shows "space_inv s'"
proof -
  obtain nt s1 s2 where
    s1: "(if current_state (task s (cur s)) = ST_RUN then update_process_state_rr (cur s) (Some Readyqueue) s else Some s) = Some s1"
    and s2: "update_process_state_rr nt None s1 = Some s2"
    and s': "s' = s2\<lparr>tick_counter := get_quantum nt s2\<rparr> \<or> s' = inner_task_switch nt kc (s2\<lparr>tick_counter := get_quantum nt s2\<rparr>)"
    using assms(1) unfolding sched_next_rr_def Let_def by (auto split: bind_split_asm if_splits)
  have "space_inv s1" using s1 assms(2) by (auto split: if_splits dest: space_update)
  then have "space_inv s2" by (rule space_update [OF s2])
  then show ?thesis using s' space_switch by auto
qed

definition spatial :: "call \<Rightarrow> bool" where
  "spatial f \<longleftrightarrow> (\<forall>s r s'. f s = Some (r, s') \<longrightarrow> space_inv s \<longrightarrow> space_inv s')"

lemma space_sched_then:
  assumes "spatial rest" "sched_then kc rest s = Some (r, s')" "space_inv s"
  shows "space_inv s'"
proof -
  obtain b s1 where "sched_next_rr kc s = Some (b, s1)" "(if b then Some (Switched, s1) else rest s1) = Some (r, s')"
    using assms(2) unfolding sched_then_def by (auto split: bind_split_asm)
  then show ?thesis using assms(1,3) space_sched_next unfolding spatial_def by (auto split: if_splits)
qed

section \<open>Loops\<close>

lemma for_each_keeps:
  assumes run: "for_each_from lk body a pos s = Some s'"
  shows "(\<forall>n s s'. body n s = Some s' \<longrightarrow> I s \<longrightarrow> I s') \<longrightarrow> I s \<longrightarrow> I s'"
proof (rule for_each_from.raw_induct [OF _ run])
  fix f :: "('a \<Rightarrow> 'b links) \<Rightarrow> ('b \<Rightarrow> 'a \<Rightarrow> 'a option) \<Rightarrow> 'b \<Rightarrow> 'b option \<Rightarrow> 'a \<Rightarrow> 'a option"
    and lk :: "'a \<Rightarrow> 'b links" and body :: "'b \<Rightarrow> 'a \<Rightarrow> 'a option" and a pos s s'
  assume IH: "\<And>lk body a pos s s'. f lk body a pos s = Some s' \<Longrightarrow> (\<forall>n s s'. body n s = Some s' \<longrightarrow> I s \<longrightarrow> I s') \<longrightarrow> I s \<longrightarrow> I s'"
    and r: "(if pos = Some a then Some s else case pos of None \<Rightarrow> None
      | Some p \<Rightarrow> Option.bind (body p s) (\<lambda>s'. f lk body a (nxt (lk s' p)) s')) = Some s'"
  show "(\<forall>n s s'. body n s = Some s' \<longrightarrow> I s \<longrightarrow> I s') \<longrightarrow> I s \<longrightarrow> I s'"
    using r IH [where body = body] by (auto split: if_splits option.splits bind_split_asm)
qed

lemma for_each_safe_keeps:
  assumes run: "for_each_safe_from lk body a pos n s = Some s'"
  shows "(\<forall>n s s'. body n s = Some s' \<longrightarrow> I s \<longrightarrow> I s') \<longrightarrow> I s \<longrightarrow> I s'"
proof (rule for_each_safe_from.raw_induct [OF _ run])
  fix f :: "('a \<Rightarrow> 'b links) \<Rightarrow> ('b \<Rightarrow> 'a \<Rightarrow> 'a option) \<Rightarrow> 'b \<Rightarrow> 'b option \<Rightarrow> 'b option \<Rightarrow> 'a \<Rightarrow> 'a option"
    and lk :: "'a \<Rightarrow> 'b links" and body :: "'b \<Rightarrow> 'a \<Rightarrow> 'a option" and a pos n s s'
  assume IH: "\<And>lk body a pos n s s'. f lk body a pos n s = Some s' \<Longrightarrow> (\<forall>n s s'. body n s = Some s' \<longrightarrow> I s \<longrightarrow> I s') \<longrightarrow> I s \<longrightarrow> I s'"
    and r: "(if pos = Some a then Some s else case pos of None \<Rightarrow> None
      | Some p \<Rightarrow> Option.bind (body p s) (\<lambda>s'. case n of None \<Rightarrow> None
          | Some q \<Rightarrow> f lk body a n (nxt (lk s' q)) s')) = Some s'"
  show "(\<forall>n s s'. body n s = Some s' \<longrightarrow> I s \<longrightarrow> I s') \<longrightarrow> I s \<longrightarrow> I s'"
    using r IH [where body = body] by (auto split: if_splits option.splits bind_split_asm)
qed

lemma list_for_each_keeps:
  assumes "list_for_each lk body a s = Some s'" "\<And>n s s'. body n s = Some s' \<Longrightarrow> I s \<Longrightarrow> I s'" "I s"
  shows "I s'"
  using for_each_keeps [OF assms(1) [unfolded list_for_each_def], of I] assms(2,3) by blast

lemma list_for_each_safe_keeps:
  assumes "list_for_each_safe lk body a s = Some s'" "\<And>n s s'. body n s = Some s' \<Longrightarrow> I s \<Longrightarrow> I s'" "I s"
  shows "I s'"
proof -
  obtain p where "for_each_safe_from lk body a (Some p) (nxt (lk s p)) s = Some s'"
    using assms(1) by (auto simp: list_for_each_safe_def split: option.splits)
  from for_each_safe_keeps [OF this, of I] show ?thesis using assms(2,3) by blast
qed

lemma space_wake [space_steps]:
  assumes "sem_wake i s = Some s'" "space_inv s"
  shows "space_inv s'"
  using assms by (auto simp: sem_wake_def split: bind_split_asm dest!: space_on_links dest: space_update)

lemma space_wake_all [space_steps]:
  assumes run: "sem_wake_all i semid ex s = Some (b, s')" and s: "space_inv s"
  shows "space_inv s'"
proof -
  have "space_inv s \<longrightarrow> space_inv (snd (b, s'))"
  proof (rule sem_wake_all.raw_induct [OF _ run])
    fix f i semid ex s and y :: "bool \<times> kstate"
    assume IH: "\<And>i semid ex s y. f i semid ex s = Some y \<Longrightarrow> space_inv s \<longrightarrow> space_inv (snd y)"
      and r: "(if list_empty (SemBlocked i) (links s) then Some (False, s)
        else Option.bind (sem_wake i (upd_sem i (\<lambda>sm. sm\<lparr>creatorPID := -1\<rparr>) s)) (\<lambda>s1.
          Option.bind (sched_next_rr (KSemDestroy i semid ex) s1) (\<lambda>(switched, s2).
            if switched then Some (True, s2) else f i semid ex s2))) = Some y"
    show "space_inv s \<longrightarrow> space_inv (snd y)"
    proof
      assume i: "space_inv s"
      show "space_inv (snd y)"
      proof (cases "list_empty (SemBlocked i) (links s)")
        case False
        then obtain s1 sw s2 where s1: "sem_wake i (upd_sem i (\<lambda>sm. sm\<lparr>creatorPID := -1\<rparr>) s) = Some s1"
          "sched_next_rr (KSemDestroy i semid ex) s1 = Some (sw, s2)" "(if sw then Some (True, s2) else f i semid ex s2) = Some y"
          using r by (auto split: bind_split_asm)
        have "space_inv s2" using space_sched_next [OF s1(2) space_wake [OF s1(1)]] i by simp
        then show ?thesis using s1(3) IH by (auto split: if_splits)
      qed (use r i in auto)
    qed
  qed
  then show ?thesis using s by simp
qed

lemma space_destroy_from [space_steps]:
  "sem_destroy_from i semid ex s = Some (r, s') \<Longrightarrow> space_inv s \<Longrightarrow> space_inv s'"
proof (induction i semid ex s rule: sem_destroy_from.induct)
  case (1 i semid ex s)
  note run = "1.prems"(1) [unfolded sem_destroy_from.simps [of i semid ex s]]
  consider (stop) "s' = s" | (onward) "\<not> NUM_SEMS \<le> i" "sem_id (semaphores s i) \<noteq> semid" "sem_destroy_from (Suc i) semid ex s = Some (r, s')"
    | (wake) b s1 where "\<not> NUM_SEMS \<le> i" "sem_id (semaphores s i) = semid" "\<not> sem_free (semaphores s i)"
        "\<not> sys_getpid s \<noteq> creatorPID (semaphores s i)"
        "sem_wake_all i semid ex s = Some (b, s1)"
        "b \<and> s' = s1 \<or> \<not> b \<and> sem_destroy_from (Suc i) semid ex (upd_sem i (\<lambda>sm. sm\<lparr>sem_free := True\<rparr>) s1) = Some (r, s')"
    using run by (auto split: if_splits bind_split_asm prod.splits)
  then show ?case
  proof cases
    case (wake b s1)
    have s1: "space_inv s1" by (rule space_wake_all [OF wake(5) "1.prems"(2)])
    then show ?thesis using wake "1.IH"(1) [OF wake(1-5) refl] by auto
  qed (use "1.prems" "1.IH"(2) in auto)
qed

section \<open>The system calls\<close>

lemma spatialD: "spatial f \<Longrightarrow> f s = Some (r, s') \<Longrightarrow> space_inv s \<Longrightarrow> space_inv s'"
  by (auto simp: spatial_def)

lemma spatial_sched_then: "spatial rest \<Longrightarrow> spatial (sched_then kc rest)"
  unfolding spatial_def using space_sched_then [unfolded spatial_def] by blast

lemma spatial_ends: "spatial (\<lambda>s. Some (r, s))" "spatial (wait_thread_end t)" "spatial (sem_wait_end i)" "spatial (sem_signal_end i)"
  by (simp_all add: spatial_def wait_thread_end_def sem_wait_end_def sem_signal_end_def)

lemma spatial_semaphores:
  "spatial (sys_semCreate v)" "spatial (sys_semWait n)" "spatial (sys_semSignal n)" "spatial (sys_semDestroy n)"
  "spatial (sem_destroy_resume i n ex)"
proof -
  show "spatial (sys_semCreate v)"
    by (auto simp: spatial_def sys_semCreate_def sys_semCreate_extended_def Let_def split: option.splits)
  show "spatial (sys_semWait n)"
    unfolding spatial_def
  proof (intro allI impI)
    fix s r s' assume run: "sys_semWait n s = Some (r, s')" and i: "space_inv s"
    have i': "space_inv (upd_sem k g s)" for k g using i by simp
    show "space_inv s'"
      using run i by (auto simp: sys_semWait_def sys_semWait_extended_def Let_def split: if_splits option.splits bind_split_asm
          dest!: space_on_links [OF _ i'] space_update spatialD [OF spatial_ends(3) _ i'] spatialD [OF spatial_sched_then [OF spatial_ends(3)]])
  qed
  show "spatial (sys_semSignal n)"
    unfolding spatial_def
  proof (intro allI impI)
    fix s r s' assume run: "sys_semSignal n s = Some (r, s')" and i: "space_inv s"
    have i': "space_inv (upd_sem k g s)" for k g using i by simp
    show "space_inv s'"
      using run i by (auto simp: sys_semSignal_def sys_semSignal_extended_def Let_def split: if_splits option.splits bind_split_asm
          dest!: space_wake [OF _ i'] spatialD [OF spatial_ends(4) _ i'] spatialD [OF spatial_sched_then [OF spatial_ends(4)]])
  qed
  show "spatial (sys_semDestroy n)"
    by (auto simp: spatial_def sys_semDestroy_def sys_semDestroy_extended_def dest: space_destroy_from)
  show "spatial (sem_destroy_resume i n ex)"
    unfolding spatial_def
  proof (intro allI impI)
    fix s r s' assume run: "sem_destroy_resume i n ex s = Some (r, s')" and i: "space_inv s"
    obtain b s1 where s1: "sem_wake_all i n ex s = Some (b, s1)"
      "(if b then Some (Switched, s1) else sem_destroy_from (Suc i) n ex (upd_sem i (\<lambda>sm. sm\<lparr>sem_free := True\<rparr>) s1)) = Some (r, s')"
      using run by (auto simp: sem_destroy_resume_def split: bind_split_asm)
    have "space_inv s1" by (rule space_wake_all [OF s1(1) i])
    then show "space_inv s'" using s1(2) space_destroy_from by (auto split: if_splits)
  qed
qed

lemma spatial_blocking: "spatial sys_block" "spatial (sys_unblock n)" "spatial (sys_wait_thread n)"
proof -
  note end1 = spatial_sched_then [OF spatial_ends(1)] and end2 = spatial_sched_then [OF spatial_ends(2)]
  show "spatial sys_block"
    by (auto simp: spatial_def sys_block_def split: if_splits bind_split_asm dest!: space_update spatialD [OF end1])
  show "spatial (sys_wait_thread n)"
    by (auto simp: spatial_def sys_wait_thread_def split: option.splits bind_split_asm
        dest!: space_on_links space_update spatialD [OF end2])
  have body: "space_inv (snd y)" if "unblock_body n e x = Some y" "space_inv (snd x)" for e x y
    using that by (cases x) (auto simp: unblock_body_def split: if_splits bind_split_asm dest: space_update)
  show "spatial (sys_unblock n)"
    unfolding spatial_def
  proof (intro allI impI)
    fix s r s' assume run: "sys_unblock n s = Some (r, s')" and i: "space_inv s"
    obtain ret s1 where s1: "list_for_each (links \<circ> snd) (unblock_body n) (TFills (cur s)) (-1, s) = Some (ret, s1)"
      "sched_then (KUnblock ret) (\<lambda>s. Some (Ret ret, s)) s1 = Some (r, s')"
      using run by (auto simp: sys_unblock_def split: bind_split_asm)
    have "space_inv (snd (ret, s1))"
      by (rule list_for_each_keeps [OF s1(1), of "\<lambda>x. space_inv (snd x)"]) (use body i in auto)
    then show "space_inv s'" using spatialD [OF end1 s1(2)] by simp
  qed
qed

lemma spatial_read: "spatial (read_loop b n)" "spatial (sys_read a n)"
proof -
  have fin: "space_inv s'" if "read_finish b n s = Some (r, s')" "space_inv s" for b n s r s'
  proof -
    have i: "space_inv (s\<lparr>kb := k, ram := x\<rparr>)" for k x using that(2) by simp
    show ?thesis using that(1) by (auto simp: read_finish_def split: bind_split_asm prod.splits dest!: space_update [OF _ i])
  qed
  have loop: "space_inv s'" if run: "read_loop b n s = Some (r, s')" and i: "space_inv s" for b n s r s'
  proof -
    have "space_inv s \<longrightarrow> space_inv (snd (r, s'))"
    proof (rule read_loop.raw_induct [OF _ run])
      fix f b n s and y :: "outcome \<times> kstate"
      assume IH: "\<And>b n s y. f b n s = Some y \<Longrightarrow> space_inv s \<longrightarrow> space_inv (snd y)"
        and r: "(if int (kb_buffer_size (kb s)) < n
          then Option.bind (sched_next_rr (KRead b n) s) (\<lambda>(switched, s1). if switched then Some (Switched, s1) else f b n s1)
          else read_finish b n s) = Some y"
      show "space_inv s \<longrightarrow> space_inv (snd y)"
        using r IH by (cases y) (auto split: if_splits bind_split_asm dest!: space_sched_next fin)
    qed
    then show ?thesis using i by simp
  qed
  then show l: "spatial (read_loop b n)" for b n by (auto simp: spatial_def)
  show "spatial (sys_read a n)"
    using spatialD [OF spatial_sched_then [OF l]] loop
    by (auto simp: spatial_def sys_read_def split: if_splits bind_split_asm dest!: space_update)
qed

lemma spatial_console: "spatial (on_console f)" "spatial (sys_write fd buf n)"
proof -
  show "spatial (on_console f)" by (auto simp: spatial_def on_console_def split: prod.splits)
  have chunk: "space_inv s'" if "write_chunk b n s = Some (r, s')" "space_inv s" for b n s r s'
    using that by (auto simp: write_chunk_def split: bind_split_asm prod.splits)
  have "space_inv s'" if "write_loop b n r s = Some (r', s')" "space_inv s" for b n r s r' s'
    using that
  proof (induction b n r s rule: write_loop.induct)
    case (1 b n r s)
    show ?case
    proof (cases "n > AUX_BUFF_MAX_SIZE")
      case True
      then obtain k s1 where s1: "write_chunk b AUX_BUFF_MAX_SIZE s = Some (k, s1)"
        "write_loop (b + 1024) (n - AUX_BUFF_MAX_SIZE) (r + k) s1 = Some (r', s')"
        using "1.prems"(1) by (subst (asm) write_loop.simps) (auto split: bind_split_asm)
      show ?thesis using "1.IH" [OF True s1(1) refl s1(2)] chunk [OF s1(1) "1.prems"(2)] by blast
    next
      case False
      then show ?thesis using "1.prems" chunk by (subst (asm) write_loop.simps) (auto split: bind_split_asm)
    qed
  qed
  then show "spatial (sys_write fd buf n)"
    by (auto simp: spatial_def sys_write_def split: if_splits bind_split_asm)
qed

section \<open>The system calls on memory\<close>

lemma private_data: "\<forall>i \<in> {PAG_LOG_INIT_DATA..<PAG_LOG_INIT_DATA + NUM_PAG_DATA}. private_page i"
  by (simp add: private_page_def)

lemma private_heap: "lo + n \<le> TOTAL_PAGES \<Longrightarrow> PAG_LOG_INIT_HEAP \<le> lo \<Longrightarrow> \<forall>i \<in> {lo..<lo + n}. private_page i"
  by (simp add: private_page_def)

text \<open>The table that the code takes for a thread is the one of its directory.\<close>

lemma space_row:
  assumes "space_inv s" "get_PT t s = Some p"
  shows "p < NR_TASKS" "dir_pages_baseAddr (task s t) = Some p"
proof -
  obtain d where d: "dir_pages_baseAddr (task s t) = Some d" "p = dir_PT (mm s) d" using assms(2) by (auto simp: get_PT_def)
  then have "d < NR_TASKS" using space_invD(2) [OF assms(1)] by blast
  then have "row_of (mm s) d d" using spaces_okD(1) [OF space_invD(1) [OF assms(1)]] by blast
  then show "p < NR_TASKS" "dir_pages_baseAddr (task s t) = Some p" using d \<open>d < NR_TASKS\<close> by (simp_all add: row_of_def)
qed

lemma alloc_loop_heap:
  assumes "\<And>i m. heap_change m (snd (alloc i m))" "\<And>j f m. heap_change m (giveback j f m)"
  shows "heap_change m (snd (alloc_loop alloc giveback n acc m))"
proof (induction n arbitrary: acc m)
  case 0
  then show ?case by (simp add: heap_change_def)
next
  case (Suc n)
  obtain f m1 where f: "alloc (length acc) m = (f, m1)" by (cases "alloc (length acc) m")
  then have m1: "heap_change m m1" using assms(1) [of m "length acc"] by simp
  have "heap_change m1 (fold (\<lambda>(j, g). giveback j g) (enumerate 0 acc) m1)"
    by (rule fold_invariant [where P = "heap_change m1" and Q = "\<lambda>_. True"])
      (use assms(2) heap_change_trans in \<open>auto simp: heap_change_def\<close>)
  then show ?case using f m1 Suc.IH [of m1 "acc @ [f]"] heap_change_trans by simp
qed

lemma heap_change_grow:
  assumes "dyn_mem_grow p base n m = (r, Some m')" "PAG_LOG_INIT_HEAP \<le> base"
  shows "heap_change m m'"
proof -
  have "heap_change m (snd (alloc_loop
     (\<lambda>i m. let (f, m1) = alloc_frame m in
        (f, if f < 0 then m1 else upd_PT p (\<lambda>PT. set_ss_pag PT (base + i) (word_of_int f)) m1))
     (\<lambda>j f m. upd_PT p (\<lambda>PT. del_ss_pag PT (base + j)) (free_frame (word_of_int f) m)) (nat n) [] m))"
  proof (rule alloc_loop_heap)
    show "heap_change m (snd (let (f, m1) = alloc_frame m in
        (f, if f < 0 then m1 else upd_PT p (\<lambda>PT. set_ss_pag PT (base + i) (word_of_int f)) m1)))" for i m
    proof (cases rule: alloc_frame_cases [of m])
      case none
      then show ?thesis by (simp add: heap_change_def)
    next
      case (some f)
      then show ?thesis using assms(2) by (simp add: heap_change_def set_ss_pag_pte)
    qed
    show "heap_change m (upd_PT p (\<lambda>PT. del_ss_pag PT (base + j)) (free_frame (word_of_int f) m))" for j f m
      using assms(2) by (simp add: heap_change_def free_frame_def del_ss_pag_def)
  qed
  then show ?thesis using checked_runs [OF assms(1) [unfolded dyn_mem_grow_def]] by simp
qed

lemma release_frame:
  "dir_pages_num_references (release_pages p lo n m) = dir_pages_num_references m"
  "pagusr_table (release_pages p lo n m) q i = (if q = p \<and> lo \<le> i \<and> i < lo + n then 0 else pagusr_table m q i)"
proof -
  obtain pm where "fold (\<lambda>i. free_frame (get_frame (pagusr_table m p) i)) [lo..<lo + n] m = m\<lparr>phys_mem := pm\<rparr>"
    using free_all_frame by blast
  then show "dir_pages_num_references (release_pages p lo n m) = dir_pages_num_references m"
    "pagusr_table (release_pages p lo n m) q i = (if q = p \<and> lo \<le> i \<and> i < lo + n then 0 else pagusr_table m q i)"
    by (simp_all add: release_pages_eq clear_pages_def)
qed

lemma spaces_heap_zones [simp]: "spaces_ok (m\<lparr>heap_zones := H\<rparr>) = spaces_ok m" "spaces_ok (m\<lparr>dir_pages_num_references := R\<rparr>) = spaces_ok m"
  by (rule spaces_ok_cong; simp)+

lemma spatial_dyn_mem: "spatial (sys_dyn_mem n)"
  unfolding spatial_def
proof (intro allI impI)
  fix s r s' assume run: "sys_dyn_mem n s = Some (r, s')" and i: "space_inv s"
  have ok: "spaces_ok (mm s)" by (rule space_invD(1) [OF i])
  obtain hz where hz: "my_heap (task s (cur s)) = Some hz" using run by (auto simp: sys_dyn_mem_def split: bind_split_asm)
  let ?h = "heap_zones (mm s) hz"
  have new: "space_inv (s\<lparr>mm := m\<lparr>heap_zones := H\<rparr>\<rparr>)"
    if "heap_change (mm s) m" "spaces_ok m" "\<And>d. heap_fits (heap_zones (mm s) d) \<Longrightarrow> heap_fits (H d)" for m H
    by (rule space_heap_change [OF i]) (use that in \<open>simp_all add: heap_change_def\<close>)
  consider (same) "s' = s"
    | (grow) p fs m where "get_PT (cur s) s = Some p" "dyn_mem_grow p (PAG_LOG_INIT_HEAP + nat ?h) n (mm s) = (fs, Some m)" "0 < n"
        "s' = s\<lparr>mm := m\<rparr> \<and> fs = None \<or> s' = s\<lparr>mm := m\<lparr>heap_zones := (heap_zones m)(hz := ?h + n)\<rparr>\<rparr> \<and> fs \<noteq> None"
    | (shrink) p m where "get_PT (cur s) s = Some p" "PAG_LOG_INIT_HEAP + nat ?h \<le> TOTAL_PAGES" "n < 0" "- n \<le> ?h"
        "m = release_pages p (PAG_LOG_INIT_HEAP + nat (?h - (- n))) (nat (- n)) (mm s)"
        "\<exists>d. s' = set_cr3 d (s\<lparr>mm := m\<lparr>heap_zones := (heap_zones m)(hz := ?h - (- n))\<rparr>\<rparr>)"
  proof (cases "n = 0 \<or> n < 0 \<and> ?h < - n")
    case True
    then show ?thesis using same run hz by (auto simp: sys_dyn_mem_def Let_def split: if_splits)
  next
    case nz: False
    show ?thesis
    proof (cases "n > 0")
      case True
      then obtain p fs m where g: "get_PT (cur s) s = Some p" "dyn_mem_grow p (PAG_LOG_INIT_HEAP + nat ?h) n (mm s) = (fs, Some m)"
        and s': "s' = s\<lparr>mm := m\<rparr> \<and> fs = None \<or> s' = s\<lparr>mm := m\<lparr>heap_zones := (heap_zones m)(hz := ?h + n)\<rparr>\<rparr> \<and> fs \<noteq> None"
        using run hz by (auto simp: sys_dyn_mem_def Let_def split: bind_split_asm prod.splits option.splits)
      then show ?thesis using grow [OF g True] by blast
    next
      case False
      then show ?thesis using shrink run hz nz
        by (auto simp: sys_dyn_mem_def Let_def upd_mm_def in_table_def split: bind_split_asm if_splits)
    qed
  qed
  then show "space_inv s'"
  proof cases
    case (grow p fs m)
    have k: "spaces_ok m" "heap_change (mm s) m" "refs_frame (mm s) m" "fs \<noteq> None \<Longrightarrow> PAG_LOG_INIT_HEAP + nat ?h + nat n \<le> TOTAL_PAGES"
      using spaces_grow [OF grow(2) ok] space_row [OF i grow(1)] heap_change_grow [OF grow(2)] dyn_mem_grow_keeps [OF grow(2)] grow(3)
      by simp_all
    have z: "heap_zones m = heap_zones (mm s)" using k(3) by (simp add: refs_frame_def)
    have e: "m\<lparr>heap_zones := heap_zones (mm s)\<rparr> = m" unfolding z [symmetric] by simp
    have "heap_fits (((heap_zones (mm s))(hz := ?h + n)) d)" if "heap_fits (heap_zones (mm s) d)" "fs \<noteq> None" for d
      using that k(4) grow(3) by (auto simp: heap_fits_def)
    moreover have "space_inv (s\<lparr>mm := m\<rparr>)" using new [OF k(2,1), of "heap_zones (mm s)"] unfolding e by simp
    ultimately show ?thesis using grow(4) z new [OF k(2,1), of "(heap_zones m)(hz := ?h + n)"] by auto
  next
    case (shrink p m)
    have "spaces_ok m" unfolding shrink(5)
      by (rule spaces_release [OF ok]) (use space_row [OF i shrink(1)] shrink(2-4) in \<open>auto simp: private_page_def\<close>)
    moreover have "heap_change (mm s) m" unfolding shrink(5) heap_change_def release_frame by simp
    moreover have "heap_fits (((heap_zones m)(hz := ?h - (- n))) d)" if "heap_fits (heap_zones (mm s) d)" for d
      using that shrink(3,4) release_pages_keeps [of p _ _ "mm s"] unfolding shrink(5) by (auto simp: heap_fits_def)
    ultimately show ?thesis using shrink(6) new by auto
  qed (use i in simp)
qed

section \<open>New threads\<close>

lemma users_spawn:
  assumes "\<And>t. dir_pages_baseAddr (task s' t) = (if t = c then Some e else dir_pages_baseAddr (task s t))"
  shows "card (users_of s' d) \<le> card (users_of s d) + (if d = e then 1 else 0)"
proof (cases "d = e")
  case True
  have "users_of s' d \<subseteq> insert c (users_of s d)" by (auto simp: users_of_def assms)
  then have "card (users_of s' d) \<le> card (insert c (users_of s d))" by (rule card_mono [rotated]) simp
  also have "\<dots> \<le> card (users_of s d) + 1" by (simp add: card_insert_if)
  finally show ?thesis using True by simp
next
  case False
  then have "users_of s' d \<subseteq> users_of s d" by (auto simp: users_of_def assms split: if_splits)
  then show ?thesis using False card_mono [of "users_of s d" "users_of s' d"] by simp
qed

text \<open>The free task that is taken is neither the first thread nor the idle one.\<close>

lemma spawn_fresh:
  assumes ki: "kernel_inv s Q" and sp: "can_spawn s Q c" and i: "space_inv s"
  shows "c < NR_TASKS" "c \<noteq> idle_task s" "c \<noteq> task1 s"
proof -
  note v = kernel_invD [OF ki]
  have f: "on_list Q Freequeue (TList c)" by (rule can_spawn_free [OF sp])
  then show c: "c < NR_TASKS" "c \<noteq> idle_task s" using v(1) unfolding sched_inv_def by blast+
  have "PID (task s c) < 0" using ident_invD(2) [OF v(6) c(1)] f by (simp add: live_def)
  then show "c \<noteq> task1 s" using space_invD(7) [OF i] by auto
qed

lemma create_spaces:
  assumes ki: "kernel_inv s Q" and cpu: "cpu_inv s Q" and ni: "cur s \<noteq> idle_task s" and i: "space_inv s"
    and st: "access_ok VERIFY_READ func 4 \<noteq> 0 \<and> access_ok VERIFY_WRITE stack 4 \<noteq> 0 \<longrightarrow> stack_mapped stack s"
    and run: "sys_create_thread func stack parameter s = Some (r, s')"
  shows "space_inv s'"
proof -
  note v = kernel_invD [OF ki]
  show ?thesis
  proof (cases "list_empty Freequeue (links s) \<or> access_ok VERIFY_READ func 4 = 0 \<or> access_ok VERIFY_WRITE stack 4 = 0")
    case True
    then have "\<exists>x. sys_create_thread func stack parameter s = Some (x, s)" by (auto simp: sys_create_thread_def)
    then show ?thesis using run i by auto
  next
    case ok: False
    obtain c where sp: "can_spawn s Q c" using free_head [OF ki cpu] ok by blast
    have cn: "cur s < NR_TASKS" using cpu by (simp add: cpu_inv_def)
    obtain d where d: "dir_pages_baseAddr (task s (cur s)) = Some d"
      using v(1) cpu unfolding sched_inv_def cpu_inv_def by blast
    obtain r1 r2 where w: "st32 (translate (mm s)) (unat (stack - 4)) parameter (ram s) = Some r1"
      "st32 (translate (mm s)) (unat (stack - 8)) 0 r1 = Some r2"
      using st32_mapped [of "translate (mm s)"] st ok unfolding stack_mapped_def by meson
    obtain h where s': "s' = thread_created func stack d r2 h c s"
      using create_thread_eq [OF v(1) cpu sp _ _ w d, of func] run ok by auto
    note cf = spawn_fresh [OF ki sp i]
    have t: "dir_pages_baseAddr (task s' t) = (if t = c then Some d else dir_pages_baseAddr (task s t))"
      "my_heap (task s' t) = my_heap (task s (if t = c then cur s else t))" "idle_task s' = idle_task s" "task1 s' = task1 s" 
      "PID (task s' (task1 s)) = PID (task s (task1 s))"
      "mm s' = (mm s)\<lparr>dir_pages_num_references := (dir_pages_num_references (mm s))(d := dir_pages_num_references (mm s) d + 1)\<rparr>" for t
      using cf d by (simp_all add: s' thread_created_def)
    have "int (card (users_of s' e)) \<le> dir_pages_num_references (mm s') e" if "e < NR_TASKS" for e
      using users_spawn [OF t(1), of e] space_invD(3) [OF i that] by (auto simp: t(6))
    moreover have "my_heap (task s' t) = dir_pages_baseAddr (task s (task1 s)) \<and>
        (\<forall>i. PAG_LOG_INIT_DATA \<le> i \<and> i < PAG_LOG_INIT_HEAP \<longrightarrow> present (pagusr_table (mm s) e i))"
      if "t < NR_TASKS" "t \<noteq> idle_task s" "dir_pages_baseAddr (task s' t) = Some e" for t e
      using that space_invD(4,5) [OF i, of "if t = c then cur s else t" e] cn ni d by (auto simp: t(1,2) split: if_splits)
    ultimately show ?thesis using space_invD(1,6-8) [OF i] space_invD(2) [OF i] d cf
      unfolding space_inv_def homes_ok_def by (auto simp: t split: if_splits)
  qed
qed

text \<open>What \<open>fork\<close> takes for granted: a directory is free, there are frames for the data and the heap of the child, the pages that the
  heap counter of the caller counts are those mapped in its table, and above them there is room for the temporary
  mappings. The counter is shared with the parent and the children, so it counts other pages than those of the caller's
  table once one of them has changed its heap.\<close>

definition fork_room :: "kstate \<Rightarrow> bool" where
  "fork_room s \<longleftrightarrow> (\<exists>p hz h.
     get_PT (cur s) s = Some p \<and> my_heap (task s (cur s)) = Some hz \<and> heap_zones (mm s) hz = int h \<and>
     find_from 0 (\<lambda>i. dir_pages_num_references (mm s) i \<le> 0) 0 NR_TASKS \<noteq> None \<and>
     NUM_PAG_DATA + h \<le> card (avail (mm s)) \<and>
     PAG_LOG_INIT_HEAP + h + (NUM_PAG_DATA + h) \<le> TOTAL_PAGES \<and>
     (\<forall>i. PAG_LOG_INIT_HEAP \<le> i \<and> i < PAG_LOG_INIT_HEAP + h \<longrightarrow> present (pagusr_table (mm s) p i)) \<and>
     (\<forall>i. PAG_LOG_INIT_HEAP + h \<le> i \<and> i < TOTAL_PAGES \<longrightarrow> pagusr_table (mm s) p i = 0))"

lemma present_frame:
  assumes ok: "spaces_ok m" and p: "p < NR_TASKS" and i: "PAG_LOG_INIT_DATA \<le> i" "i < TOTAL_PAGES" "present (pagusr_table m p i)"
  shows "frame_no m p i \<notin> avail m" "NUM_PAG_KERNEL \<le> frame_no m p i"
proof -
  have nz: "pagusr_table m p i \<noteq> 0" using i(3) by auto
  have "frame_no m p i \<notin> avail m \<and> NUM_PAG_KERNEL \<le> frame_no m p i"
  proof (cases "private_page i")
    case True
    then have "(p, i) \<in> in_use m" using p nz by (simp add: in_use_def)
    from spaces_okD(3) [OF ok this] show ?thesis by simp
  next
    case False
    then have "PAG_LOG_INIT_CODE \<le> i" using i(1) by (auto simp: private_page_def)
    then have "frame_no m p i < CODE_END" "NUM_PAG_KERNEL \<le> frame_no m p i"
      using spaces_okD(4) [OF ok p i(2) False] nz by (simp_all add: shared_frame_def)
    then show ?thesis using spaces_okD(2) [OF ok, of "frame_no m p i"] by auto
  qed
  then show "frame_no m p i \<notin> avail m" "NUM_PAG_KERNEL \<le> frame_no m p i" by blast+
qed

text \<open>The rest of what \<open>fork\<close> needs follows from the invariants.\<close>

lemma fork_room_can_fork:
  assumes i: "space_inv s" and c: "cur s < NR_TASKS" "cur s \<noteq> idle_task s" and fr: "fork_room s"
  shows "\<exists>d p hz h d' q. can_fork s d p hz h d' q"
proof -
  obtain p hz h d' where f: "get_PT (cur s) s = Some p" "my_heap (task s (cur s)) = Some hz" "heap_zones (mm s) hz = int h"
     "find_from 0 (\<lambda>i. dir_pages_num_references (mm s) i \<le> 0) 0 NR_TASKS = Some d'"
     "NUM_PAG_DATA + h \<le> card (avail (mm s))" "304 + 2 * h \<le> TOTAL_PAGES"
     "\<forall>i. PAG_LOG_INIT_HEAP \<le> i \<and> i < PAG_LOG_INIT_HEAP + h \<longrightarrow> present (pagusr_table (mm s) p i)"
     "\<forall>i. PAG_LOG_INIT_HEAP + h \<le> i \<and> i < TOTAL_PAGES \<longrightarrow> pagusr_table (mm s) p i = 0"
    using fr unfolding fork_room_def by auto
  have p: "p < NR_TASKS" "dir_pages_baseAddr (task s (cur s)) = Some p" using space_row [OF i f(1)] by blast+
  have ok: "spaces_ok (mm s)" by (rule space_invD(1) [OF i])
  have d': "d' < NR_TASKS" "dir_pages_num_references (mm s) d' \<le> 0" using find_from_unit_Some [OF f(4)] by auto
  have t1: "dir_pages_baseAddr (task s (task1 s)) = Some hz" using space_invD(4) [OF i c p(2)] f(2) by simp
  have "d' \<noteq> p" "hz \<noteq> d'" using space_user [OF i p(2) c(1)] space_user [OF i t1 space_invD(6) [OF i]] d'(2) by auto
  moreover have "space_ok (mm s) p h"
  proof -
    have pr: "present (pagusr_table (mm s) p j)" if "PAG_LOG_INIT_DATA \<le> j" "j < PAG_LOG_INIT_HEAP + h" for j
      using that f(7) space_invD(5) [OF i c p(2), of j] by (cases "j < PAG_LOG_INIT_HEAP") auto
    then show ?thesis unfolding space_ok_def using present_frame(1) [OF ok p(1)] f(6,8) by auto
  qed
  ultimately show ?thesis using f p d' spaces_okD(1) [OF ok] unfolding can_fork_def by blast
qed

lemma fork_spaces:
  assumes ki: "kernel_inv s Q" and cpu: "cpu_inv s Q" and ni: "cur s \<noteq> idle_task s" and i: "space_inv s"
    and cf: "\<not> list_empty Freequeue (links s) \<longrightarrow> fork_room s"
    and run: "sys_fork s = Some (r, s')"
  shows "space_inv s'"
proof (cases "list_empty Freequeue (links s)")
  case True
  then show ?thesis using run i by (simp add: sys_fork_def)
next
  case False
  have cn: "cur s < NR_TASKS" using cpu by (simp add: cpu_inv_def)
  obtain d p hz h d' q where cf': "can_fork s d p hz h d' q" using fork_room_can_fork [OF i cn ni] cf False by blast
  obtain c where sp: "can_spawn s Q c" using free_head [OF ki cpu False] by blast
  obtain hl fs pm ra where f: "s' = forked d' (forked_mm p q d' h fs pm (mm s)) ra hl c s"
    "length fs = NUM_PAG_DATA + h" "distinct fs" "set fs \<subseteq> avail (mm s)"
    "avail (forked_mm p q d' h fs pm (mm s)) = avail (mm s) - set fs"
    using fork_eq [OF kernel_invD(1) [OF ki] cpu sp cf'] run by auto
  let ?m = "forked_mm p q d' h fs pm (mm s)"
  have ok: "spaces_ok (mm s)" by (rule space_invD(1) [OF i])
  note c' = cf' [unfolded can_fork_def]
  have d: "d < NR_TASKS" "d' < NR_TASKS" "dir_pages_num_references (mm s) d' \<le> 0"
    using c' space_invD(2) [OF i] find_from_unit_Some [of _ 0 NR_TASKS d'] by auto
  have "row_of (mm s) d d" "row_of (mm s) d' d'" using spaces_okD(1) [OF ok] d by blast+
  then have pq: "p = d" "q = d'" using c' by (auto simp: row_of_def)
  have pr: "present (pagusr_table (mm s) d j)" if "PAG_LOG_INIT_DATA \<le> j" "j < PAG_LOG_INIT_HEAP" for j
    using that space_invD(5) [OF i cn ni, of d] c' by blast
  have sp': "spaces_ok ?m"
  proof (rule spaces_fork [OF ok _ _ _ f(2-5)])
    show "\<forall>j. PAG_LOG_INIT_CODE \<le> j \<and> j < PAG_LOG_INIT_HEAP \<longrightarrow> pagusr_table (mm s) p j \<noteq> 0"
    proof (intro allI impI)
      fix j assume "PAG_LOG_INIT_CODE \<le> j \<and> j < PAG_LOG_INIT_HEAP"
      then have "present (pagusr_table (mm s) p j)" using pr [of j] unfolding pq by simp
      then show "pagusr_table (mm s) p j \<noteq> 0" by auto
    qed
  qed (use c' d pq in simp_all)
  note fresh = spawn_fresh [OF ki sp i]
  have none: "users_of s d' = {}"
  proof -
    have "int (card (users_of s d')) \<le> 0" using space_invD(3) [OF i d(2)] d(3) by linarith
    then show ?thesis by simp
  qed
  have "0 \<le> dir_pages_num_references (mm s) d'" using space_invD(3) [OF i d(2)] by linarith
  then have z: "dir_pages_num_references (mm s) d' = 0" using d(3) by simp
  obtain e1 where e1: "dir_pages_baseAddr (task s (task1 s)) = Some e1" "heap_fits (heap_zones (mm s) e1)" using space_invD(8) [OF i] by blast
  have ne: "e \<noteq> d'" if "dir_pages_baseAddr (task s t) = Some e" "t < NR_TASKS" for t e
    using none that by (auto simp: users_of_def)
  have t: "dir_pages_baseAddr (task s' t) = (if t = c then Some d' else dir_pages_baseAddr (task s t))"
      "my_heap (task s' t) = my_heap (task s (if t = c then cur s else t))" "idle_task s' = idle_task s" "task1 s' = task1 s"
      "PID (task s' (task1 s)) = PID (task s (task1 s))" "mm s' = ?m" for t
    using fresh by (simp_all add: f(1) forked_def)
  have m: "dir_pages_num_references ?m = (dir_pages_num_references (mm s))(d' := 1)" "heap_zones ?m = (heap_zones (mm s))(d' := 0)"
     "pagusr_table ?m e = (if e = d' then child_table (pagusr_table (mm s) d) (map int fs) h (pagusr_table (mm s) d') else pagusr_table (mm s) e)" for e
    using z by (simp_all add: forked_mm_def upd_PT_def pq)
  have "int (card (users_of s' e)) \<le> dir_pages_num_references ?m e" if "e < NR_TASKS" for e
    using users_spawn [OF t(1), of e] space_invD(3) [OF i that] none by (cases "e = d'") (simp_all add: m)
  moreover have "my_heap (task s' t) = dir_pages_baseAddr (task s (task1 s)) \<and>
      (\<forall>j. PAG_LOG_INIT_DATA \<le> j \<and> j < PAG_LOG_INIT_HEAP \<longrightarrow> present (pagusr_table ?m e j))"
    if tt: "t < NR_TASKS" "t \<noteq> idle_task s" "dir_pages_baseAddr (task s' t) = Some e" for t e
  proof (cases "t = c")
    case True
    then have "e = d'" using tt(3) t(1) by simp
    moreover have "present (child_table (pagusr_table (mm s) d) (map int fs) h (pagusr_table (mm s) d') j)"
      if "PAG_LOG_INIT_DATA \<le> j" "j < PAG_LOG_INIT_HEAP" for j
      using that by (simp add: child_table_def)
    moreover have "my_heap (task s (cur s)) = dir_pages_baseAddr (task s (task1 s))" using space_invD(4) [OF i cn ni] c' by blast
    ultimately show ?thesis using True t(2) by (simp add: m)
  next
    case False
    then have "dir_pages_baseAddr (task s t) = Some e" using tt(3) t(1) by simp
    then show ?thesis using space_invD(4,5) [OF i tt(1,2)] ne tt(1) False by (auto simp: m t(2))
  qed
  moreover have "dir_pages_baseAddr (task s' (task1 s)) = Some e1" "heap_fits (heap_zones ?m e1)"
    using e1 ne [OF e1(1) space_invD(6) [OF i]] fresh by (simp_all add: t(1) m)
  ultimately show ?thesis using sp' space_invD(2) [OF i] space_invD(6,7) [OF i] d(2) fresh
    unfolding space_inv_def homes_ok_def t(3,4,6) by (auto simp: t(1,5) split: if_splits)
qed

section \<open>The end of a thread\<close>

lemma exit_family_spaces:
  assumes run: "exit_family s = Some s'" and i: "space_inv s"
  shows "space_inv s'"
proof -
  have b1: "space_inv t" if "Option.bind (list_head_to_task_struct pos) (\<lambda>t. on_links (list_add_tail pos (TFills (idle_task s)))
      (upd_task t (\<lambda>ts. ts\<lparr>pare := Some (idle_task s)\<rparr>) s)) = Some t" "space_inv s" for pos s t
    using that by (auto split: bind_split_asm dest!: space_on_links)
  have b2: "space_inv t" if "Option.bind (list_head_to_task_struct pos) (\<lambda>t. Option.bind (update_process_state_rr t (Some Readyqueue) s)
      (on_links (list_del pos))) = Some t" "space_inv s" for pos s t
    using that by (auto split: bind_split_asm dest!: space_on_links dest: space_update)
  obtain s1 s2 where st: "on_links (list_del (TParentAnchor (cur s))) s = Some s1"
    "list_for_each_safe links (\<lambda>pos s. Option.bind (list_head_to_task_struct pos) (\<lambda>t. on_links (list_add_tail pos (TFills (idle_task s)))
      (upd_task t (\<lambda>ts. ts\<lparr>pare := Some (idle_task s)\<rparr>) s))) (TFills (cur s1)) s1 = Some s2"
    "list_for_each_safe links (\<lambda>pos s. Option.bind (list_head_to_task_struct pos) (\<lambda>t. Option.bind (update_process_state_rr t (Some Readyqueue) s)
      (on_links (list_del pos)))) (TWaitList (cur s2)) s2 = Some s'"
    using run unfolding exit_family_def by (auto split: bind_split_asm)
  have "space_inv s1" by (rule space_on_links [OF st(1) i])
  then have "space_inv s2" using list_for_each_safe_keeps [OF st(2), of space_inv] b1 by blast
  then show ?thesis using list_for_each_safe_keeps [OF st(3), of space_inv] b2 by blast
qed

text \<open>The directory counts one thread less; when it counts none its pages are gone, and nobody has it.\<close>

lemma leave_directory:
  assumes i: "space_inv s" and c: "c < NR_TASKS" "c \<noteq> task1 s" "dir_pages_baseAddr (task s c) = Some d"
    and m: "spaces_ok m" "dir_pages_num_references m = (dir_pages_num_references (mm s))(d := dir_pages_num_references (mm s) d - 1)"
      "heap_zones m = heap_zones (mm s)"
      "\<And>e j. e \<noteq> d \<or> 1 < dir_pages_num_references (mm s) d \<Longrightarrow> j < PAG_LOG_INIT_HEAP \<Longrightarrow> pagusr_table m e j = pagusr_table (mm s) e j"
  shows "space_inv (upd_task c (\<lambda>ts. ts\<lparr>PID := -1, dir_pages_baseAddr := None, pare := None\<rparr>) (s\<lparr>mm := m\<rparr>))" (is "space_inv ?s")
proof -
  have t: "dir_pages_baseAddr (task ?s t) = (if t = c then None else dir_pages_baseAddr (task s t))" "my_heap (task ?s t) = my_heap (task s t)"
    "PID (task ?s t) = (if t = c then -1 else PID (task s t))" "mm ?s = m" "idle_task ?s = idle_task s" "task1 ?s = task1 s" for t
    by (simp_all add: upd_task_def)
  have u: "users_of ?s e = users_of s e - {c}" for e unfolding users_of_def t by auto
  have cu: "c \<in> users_of s d" using c by (simp add: users_of_def)
  have n: "int (card (users_of ?s e)) \<le> dir_pages_num_references m e" if "e < NR_TASKS" for e
  proof (cases "e = d")
    case True
    have "card (users_of ?s d) = card (users_of s d) - 1" "0 < card (users_of s d)"
      using cu card_gt_0_iff [of "users_of s d"] unfolding u by auto
    then show ?thesis using True m(2) space_invD(3) [OF i that] by simp
  next
    case False
    have "card (users_of ?s e) \<le> card (users_of s e)" unfolding u by (rule card_mono) auto
    then show ?thesis using False m(2) space_invD(3) [OF i that] by simp
  qed
  have same: "pagusr_table m e j = pagusr_table (mm s) e j"
    if tt: "t < NR_TASKS" "t \<noteq> c" "dir_pages_baseAddr (task s t) = Some e" "j < PAG_LOG_INIT_HEAP" for t e j
  proof (rule m(4) [OF _ tt(4)])
    have "t \<in> users_of ?s e" using tt(1,2,3) unfolding u by (simp add: users_of_def)
    then have "0 < card (users_of ?s e)" using card_gt_0_iff [of "users_of ?s e"] by auto
    then show "e \<noteq> d \<or> 1 < dir_pages_num_references (mm s) d" using n [OF space_invD(2) [OF i tt(3)]] m(2) by auto
  qed
  show ?thesis unfolding space_inv_def homes_ok_def t
  proof (intro conjI allI impI)
    show "int (card (users_of ?s e)) \<le> dir_pages_num_references m e" if "e < NR_TASKS" for e using n [OF that] .
    fix t e
    show "e < NR_TASKS" if "(if t = c then None else dir_pages_baseAddr (task s t)) = Some e" 
      using that space_invD(2) [OF i] by (auto split: if_splits)
    assume tt: "t < NR_TASKS" "t \<noteq> idle_task s" "(if t = c then None else dir_pages_baseAddr (task s t)) = Some e"
    then have te: "t \<noteq> c" "dir_pages_baseAddr (task s t) = Some e" by (auto split: if_splits)
    show "my_heap (task s t) = (if task1 s = c then None else dir_pages_baseAddr (task s (task1 s)))"
      using space_invD(4) [OF i tt(1,2) te(2)] c(2) by simp
    fix j
    assume j: "PAG_LOG_INIT_DATA \<le> j \<and> j < PAG_LOG_INIT_HEAP"
    then show "present (pagusr_table m e j)" using same [OF tt(1) te, of j] space_invD(5) [OF i tt(1,2) te(2), of j] by simp
  qed (use m(1,3) c(2) space_invD(6-8) [OF i] in auto)
qed

lemma exit_spaces:
  assumes ki: "kernel_inv s Q" and cpu: "cpu_inv s Q" and ni: "cur s \<noteq> idle_task s" and n1: "cur s \<noteq> task1 s"
    and own: "\<forall>k. owns s k \<longrightarrow> list_empty (SemBlocked k) (links s)" and i: "space_inv s"
    and run: "sys_exit s = Some (r, s')"
  shows "space_inv s'"
proof -
  let ?c = "cur s" and ?s0 = "closed_sems NUM_SEMS s"
  have c: "?c < NR_TASKS" using cpu by (simp add: cpu_inv_def)
  have "closed_sems 0 s = s" by (simp add: closed_sems_def)
  then have "exit_sems 0 s = Some (False, ?s0)"
    using exit_sems_ok [of s 0] own sem_unique [OF kernel_invD(3) [OF ki]] by simp
  then have rest: "exit_rest ?s0 = Some (r, s')" using run by (simp add: sys_exit_def exit_from_def split: option.splits)
  have i0: "space_inv ?s0" using i by (simp add: closed_sems_def)
  have f0: "cur ?s0 = ?c" "task ?s0 = task s" "mm ?s0 = mm s" "task1 ?s0 = task1 s" "idle_task ?s0 = idle_task s" by (simp_all add: closed_sems_def)
  obtain p n s1 s2 s3 s4 where st: "get_PT ?c ?s0 = Some p" "sub_DIR_ref ?c ?s0 = Some (n, s1)"
      "(if n \<le> 0 then Option.bind (heap_pages ?c s1) (\<lambda>h.
         Some (upd_mm (\<lambda>m. release_pages p PAG_LOG_INIT_HEAP (nat h) (release_pages p PAG_LOG_INIT_DATA NUM_PAG_DATA m)) s1))
        else Some s1) = Some s2"
      "exit_family (upd_task ?c (\<lambda>ts. ts\<lparr>PID := -1, dir_pages_baseAddr := None, pare := None\<rparr>) s2) = Some s3"
      "update_process_state_rr ?c (Some Freequeue) s3 = Some s4" "sched_then KExited (\<lambda>s. Some (RetVoid, s)) s4 = Some (r, s')"
      using rest unfolding exit_rest_def Let_def f0(1) by (clarsimp simp: Option.bind_eq_Some_conv simp del: One_nat_def)
  have p: "p < NR_TASKS" "dir_pages_baseAddr (task s ?c) = Some p" using space_row [OF i0 st(1)] f0 by simp_all
  let ?m1 = "(mm s)\<lparr>dir_pages_num_references := (dir_pages_num_references (mm s))(p := dir_pages_num_references (mm s) p - 1)\<rparr>"
  have s1: "n = dir_pages_num_references (mm s) p - 1" "s1 = ?s0\<lparr>mm := ?m1\<rparr>"
    using st(2) p(2) f0 by (auto simp: sub_DIR_ref_def Let_def upd_mm_def)
  have ok1: "spaces_ok ?m1" using space_invD(1) [OF i] by simp
  note leave = leave_directory [OF i0, unfolded f0, OF c n1 p(2)]
  have "space_inv (upd_task ?c (\<lambda>ts. ts\<lparr>PID := -1, dir_pages_baseAddr := None, pare := None\<rparr>) s2)"
  proof (cases "n \<le> 0")
    case False
    then show ?thesis using leave [OF ok1] st(3) s1(2) by simp
  next
    case True
    obtain hz where hz: "my_heap (task s ?c) = Some hz" "heap_fits (heap_zones (mm s) hz)"
      using space_invD(4) [OF i c ni p(2)] space_invD(8) [OF i] by auto
    let ?m2 = "release_pages p PAG_LOG_INIT_DATA NUM_PAG_DATA ?m1" and ?h = "nat (heap_zones (mm s) hz)"
    let ?m = "release_pages p PAG_LOG_INIT_HEAP ?h ?m2"
    have s2: "s2 = ?s0\<lparr>mm := ?m\<rparr>" using st(3) True hz(1) f0 unfolding s1(2) by (simp add: heap_pages_def upd_mm_def)
    have "PAG_LOG_INIT_HEAP + ?h \<le> TOTAL_PAGES" using hz(2) by (auto simp: heap_fits_def)
    then have ok: "spaces_ok ?m" using spaces_release [OF spaces_release [OF ok1 p(1) private_data] p(1) private_heap] by simp
    show ?thesis unfolding s2
    proof (rule leave [OF ok])
      show "dir_pages_num_references ?m = (dir_pages_num_references (mm s))(p := dir_pages_num_references (mm s) p - 1)"
        by (simp add: release_frame)
      show "heap_zones ?m = heap_zones (mm s)" by (simp add: release_pages_keeps)
      show "pagusr_table ?m e j = pagusr_table (mm s) e j" if "e \<noteq> p \<or> 1 < dir_pages_num_references (mm s) p" for e j
        using that True s1(1) by (simp add: release_frame)
    qed
  qed
  from space_update [OF st(5) exit_family_spaces [OF st(4) this]]
  show ?thesis using spatialD [OF spatial_sched_then [OF spatial_ends(1)] st(6)] by blast
qed

section \<open>Interrupts and suspended threads\<close>

lemma spatial_interrupts: "spatial (keyboard_routine k)" "spatial (clock_routine clk)"
proof -
  show "spatial (keyboard_routine k)"
    unfolding spatial_def
  proof (intro allI impI)
    fix s r s' assume run: "keyboard_routine k s = Some (r, s')" and i: "space_inv s"
    show "space_inv s'"
    proof (cases "decode_key k")
      case (Some c)
      define s1 where "s1 = (if kb_buffer_size (kb s) < KB_BUFFER_SIZE then s\<lparr>kb := kb_buffer_push c (kb s)\<rparr> else s)"
      have i1: "space_inv s1" using i by (simp add: s1_def)
      have "(if list_empty ReadBlocked (links s1) then Some (RetVoid, s1)
         else Option.bind (list_first ReadBlocked (links s1)) (\<lambda>e.
           Option.bind (if current_state (task s1 (cur s1)) = ST_RUN then update_process_state_rr (cur s1) (Some Readyqueue) s1 else Some s1)
             (\<lambda>s2. Option.bind (list_head_to_task_struct e) (\<lambda>nt. Some (Switched, inner_task_switch nt KInterrupt s2))))) = Some (r, s')"
        using run unfolding keyboard_routine_def Some option.case Let_def s1_def [symmetric] .
      then show ?thesis using i1 by (auto split: if_splits bind_split_asm intro!: space_switch dest!: space_update)
    qed (use run i in \<open>simp add: keyboard_routine_def\<close>)
  qed
  show "spatial (clock_routine clk)"
    using spatialD [OF spatial_sched_then [OF spatial_ends(1)]]
    by (fastforce simp: spatial_def clock_routine_def Let_def split: if_splits)
qed

text \<open>No thread of the invariant is suspended in the destruction of a semaphore.\<close>

lemma resume_spaces:
  assumes ki: "kernel_inv s Q" and k: "mode_inv Resuming s Q" and i: "space_inv s" and run: "resume s = Some (r, s')"
  shows "space_inv s'"
proof -
  have "ready_ctx (k_ctx (task s (cur s))) \<or> reader_ctx (k_ctx (task s (cur s)))"
    using k ctx_invD(4) [OF kernel_invD(4) [OF ki]] by (auto simp: mode_inv_def reading_def)
  then show ?thesis
    using run i spatialD [OF spatial_read(1)]
    by (cases "k_ctx (task s (cur s))")
      (auto simp: resume_def wait_thread_end_def sem_wait_end_def sem_signal_end_def)
qed

section \<open>Stores of user programs\<close>

text \<open>From \<open>L_USER_START\<close> on, an address of a thread is in a frame behind the kernel's.\<close>

lemma user_store_above:
  assumes i: "space_inv s" and c: "cr3 (mm s) = dir_pages_baseAddr (task s (cur s))" and w: "user_writable (mm s) a"
    and a: "L_USER_START \<le> a" "a < TOTAL_PAGES * PAGE_SIZE"
  shows "\<exists>p. translate (mm s) a = Some p \<and> L_USER_START \<le> p"
proof -
  obtain d where d: "cr3 (mm s) = Some d" using w by (auto simp: user_writable_def split: option.splits)
  then have dn: "d < NR_TASKS" using c space_invD(2) [OF i] by simp
  note ok = space_invD(1) [OF i]
  let ?i = "a div PAGE_SIZE"
  have b: "PAG_LOG_INIT_DATA \<le> ?i" "?i < TOTAL_PAGES" using a by simp_all
  have t: "translate (mm s) (?i * PAGE_SIZE + a mod PAGE_SIZE) =
      (if present (pagusr_table (mm s) d ?i) then Some (frame_no (mm s) d ?i * PAGE_SIZE + a mod PAGE_SIZE) else None)"
    by (rule translate_row [OF d spaces_okD(1) [OF ok dn] b(2)]) simp
  have "translate (mm s) a \<noteq> None" using w by (auto simp: user_writable_def translate_def Let_def split: option.splits)
  then have pr: "present (pagusr_table (mm s) d ?i)" "translate (mm s) a = Some (frame_no (mm s) d ?i * PAGE_SIZE + a mod PAGE_SIZE)"
    using t unfolding div_mult_mod_eq by (simp_all split: if_splits)
  have "256 \<le> frame_no (mm s) d ?i" using present_frame(2) [OF ok dn b pr(1)] by simp
  then show ?thesis using pr(2) by simp
qed

section \<open>The start\<close>

text \<open>The tables that the start leaves: one process, and nine empty directories.\<close>

lemma start_spaces:
  assumes st: "start_tasks s = Some s'" and pp: "pagusr_page (mm s) + NR_TASKS \<le> 2 ^ 20"
  shows "spaces_ok (mm s')"
proof -
  let ?m = "mm s'"
  note T = start_tables [OF st pp]
  have k: "kernel_pte i = 0" if "PAG_LOG_INIT_DATA \<le> i" for i using that by (auto simp: kernel_pte_def)
  have av: "avail ?m = {f \<in> pool. 256 + 2 * 28 \<le> f}" using T(2) by (simp add: used_upto_def)
  have iu: "(p, i) \<in> in_use ?m \<Longrightarrow> p = 2 \<and> PAG_LOG_INIT_DATA \<le> i \<and> i < PAG_LOG_INIT_CODE" for p i
    using T(4) [of p i] k [of i] by (auto simp: in_use_def private_page_def start_pte_def split: if_splits)
  have fr: "frame_no ?m 2 i = 256 + 2 * (NUM_PAG_CODE + (i - PAG_LOG_INIT_DATA))" if "PAG_LOG_INIT_DATA \<le> i" "i < PAG_LOG_INIT_CODE" for i
    using T(4) [of 2 i] start_pte_frame [of i] that by (simp add: get_frame_def user_frame_def)
  show ?thesis
  proof (rule spaces_okI)
    show "row_of ?m d d" if "d < NR_TASKS" for d using T(3) [OF that] by blast
    show "CODE_END \<le> f" if "f \<in> avail ?m" for f using that av by simp
    show "frame_no ?m p i \<in> pool \<and> frame_no ?m p i \<notin> avail ?m \<and> CODE_END \<le> frame_no ?m p i" if "(p, i) \<in> in_use ?m" for p i
      using iu [OF that] fr [of i] by (auto simp: av pool_def)
    show "p = q \<and> i = j" if "(p, i) \<in> in_use ?m" "(q, j) \<in> in_use ?m" "frame_no ?m p i = frame_no ?m q j" for p i q j
      using iu [OF that(1)] iu [OF that(2)] fr [of i] fr [of j] that(3) by auto
    show "shared_frame ?m p i" if "p < NR_TASKS" "i < TOTAL_PAGES" "\<not> private_page i" for p i
    proof -
      have "unat (pbase_addr (start_pte i)) < CODE_END"
        using start_pte_frame [of i] that(2,3) by (cases "i = 0") (auto simp: private_page_def user_frame_def start_pte_def)
      moreover have "unat (pbase_addr (kernel_pte i)) < CODE_END"
        using unat_frame [of i] by (auto simp: kernel_pte_def)
      moreover have "NUM_PAG_KERNEL \<le> unat (pbase_addr (start_pte i))" if "PAG_LOG_INIT_CODE \<le> i"
        using start_pte_frame [of i] that \<open>i < TOTAL_PAGES\<close> \<open>\<not> private_page i\<close> by (auto simp: private_page_def user_frame_def)
      ultimately show ?thesis using T(4) [OF that(1,2)] k [of i] by (auto simp: shared_frame_def get_frame_def)
    qed
  qed
qed

lemma start_space_inv:
  assumes st: "start_tasks s = Some s'" and pp: "pagusr_page (mm s) + NR_TASKS \<le> 2 ^ 20"
    and no: "\<forall>t. dir_pages_baseAddr (task s t) = None"
  shows "space_inv s'"
proof -
  have f: "idle_task s' = 0" "PID (task s' 1) = 1" "dir_pages_baseAddr (task s' 0) = Some 1" "dir_pages_baseAddr (task s' 1) = Some 2"
     "\<forall>t \<ge> 2. dir_pages_baseAddr (task s' t) = None" "my_heap (task s' 1) = Some 2" "task1 s' = 1" "heap_zones (mm s') 2 = 0" "refs_upto 3 s'"
    using start_tasks_spec [of s] st no by auto
  have t: "dir_pages_baseAddr (task s' t) = (if t = 0 then Some 1 else if t = 1 then Some 2 else None)" for t
    using f(3-5) by (cases "t < 2") (auto simp: less_2_cases_iff)
  have u: "users_of s' d = (if d = 1 then {0} else if d = 2 then {1} else {})" for d by (auto simp: users_of_def t)
  have pr: "present (start_pte j)" if "PAG_LOG_INIT_DATA \<le> j" "j < PAG_LOG_INIT_HEAP" for j
    using that start_pte_user [of j] by (cases "j < PAG_LOG_INIT_CODE") (auto simp: start_pte_def)
  have "present (pagusr_table (mm s') 2 j)" if "PAG_LOG_INIT_DATA \<le> j" "j < PAG_LOG_INIT_HEAP" for j
    using start_tables(4) [OF st pp, of 2 j] pr [OF that] that by simp
  moreover have "int (card (users_of s' d)) \<le> dir_pages_num_references (mm s') d" if "d < NR_TASKS" for d
    using f(9) that unfolding u refs_upto_def by auto
  ultimately show ?thesis using start_spaces [OF st pp] f unfolding space_inv_def homes_ok_def
    by (auto simp: t heap_fits_def split: if_splits)
qed

end
