(* ===== verification/Kernel.thy ===== *)
theory Kernel
  imports Isolation
begin

text \<open>
  The whole kernel: every state that the machine of \<open>Machine\<close> reaches from the boot satisfies the
  invariant of the kernel, and no event that is \<open>allowed\<close> faults in it. What is not allowed is what
  the code itself leaves open: the guards of \<open>call_allowed\<close> name, system call by system call, the
  requests for which the code has no check.
\<close>

section \<open>The requests that are safe\<close>

text \<open>\<open>call_allowed h a b c s\<close>: handler \<open>h\<close> can be entered with the arguments \<open>a\<close>, \<open>b\<close> and \<open>c\<close>, which the caller
  has in \<open>edx\<close>, \<open>ecx\<close> and \<open>ebx\<close>. The conditions, call by call:

  \<^item> \<open>exit\<close>: not by the first user thread, and nobody waits on a semaphore of the caller;
  \<^item> \<open>fork\<close>, when there is a free task: \<open>fork_room\<close>, that is a free directory, frames for the data and the heap of the child,
    a heap counter that agrees with the pages mapped in the table of the caller, and room in the table for
    the temporary mappings;
  \<^item> \<open>write\<close>, \<open>read\<close>: the buffer is mapped, once the checks of the code let it through;
  \<^item> \<open>unblock\<close>: a blocked thread with that identifier is blocked in \<open>block\<close>, and not in another call;
  \<^item> \<open>create_thread\<close>: the two words below the stack pointer are mapped and not in the kernel's pages;
  \<^item> \<open>wait_thread\<close>, \<open>semCreate\<close>: the argument is not negative;
  \<^item> \<open>dyn_mem\<close>: the argument is not the smallest \<open>int\<close>, and the pages it can get have entries in the table;
  \<^item> \<open>semSignal\<close>: the counter does not overflow;
  \<^item> \<open>semDestroy\<close>: nobody waits on the semaphore that is destroyed.\<close>

fun call_allowed :: "handler \<Rightarrow> u32 \<Rightarrow> u32 \<Rightarrow> u32 \<Rightarrow> kstate \<Rightarrow> bool" where
  "call_allowed H_exit a b c s =
     (cur s \<noteq> task1 s \<and> (\<forall>i. owns s i \<longrightarrow> list_empty (SemBlocked i) (links s)))"
| "call_allowed H_fork a b c s =
     (\<not> list_empty Freequeue (links s) \<longrightarrow> fork_room s)"
| "call_allowed H_write a b c s =
     (sint a = 1 \<and> b \<noteq> 0 \<and> 0 < sint c \<and> access_ok VERIFY_READ b (word_of_int (sint c)) \<noteq> 0 \<longrightarrow> text_mapped b (sint c) s)"
| "call_allowed H_unblock a b c s =
     (\<forall>t < NR_TASKS. PID (task s t) = sint a \<longrightarrow> current_state (task s t) = ST_BLOCKED \<longrightarrow> k_ctx (task s t) = KBlock)"
| "call_allowed H_read a b c s =
     (readable a (sint b) \<and> sint b \<le> int (kb_buffer_size (kb s)) \<longrightarrow> reads_mapped (unat a) (sint b) s)"
| "call_allowed H_create_thread a b c s =
     (access_ok VERIFY_READ a 4 \<noteq> 0 \<and> access_ok VERIFY_WRITE b 4 \<noteq> 0 \<longrightarrow>
        stack_mapped b s \<and> L_USER_START + 8 \<le> unat b)"
| "call_allowed H_wait_thread a b c s = (0 \<le> sint a)"
| "call_allowed H_dyn_mem a b c s = (sint a \<noteq> - (2 ^ 31) \<and> (0 < sint a \<longrightarrow> grow_fits (sint a) s))"
| "call_allowed H_semCreate a b c s = (0 \<le> sint a)"
| "call_allowed H_semSignal a b c s = (\<forall>i. usable s (sint a) i \<longrightarrow> sem_value (semaphores s i) < 2 ^ 31 - 1)"
| "call_allowed H_semDestroy a b c s =
     (\<forall>i. owns s i \<longrightarrow> sem_id (semaphores s i) = sint a \<longrightarrow> list_empty (SemBlocked i) (links s))"
| "call_allowed _ a b c s = True"

definition entered :: "u32 \<Rightarrow> u32 \<Rightarrow> u32 \<Rightarrow> kstate \<Rightarrow> kstate" where
  "entered eax eip esp s = upd_task (cur s) (\<lambda>ts. ts\<lparr>u_eip := eip, u_esp := esp, u_eax := eax\<rparr>) s"

text \<open>The number \<open>MAX_SYSCALL\<close> passes the comparison of \<open>system_call_handler\<close> and is not allowed. A user program
  stores at addresses of its own, from \<open>L_USER_START\<close> on: the table of a child of \<open>fork\<close> lets it store below them too, into the
  kernel, and after such a store nothing is claimed. A reader that goes on has its buffer mapped.\<close>

fun allowed :: "event \<Rightarrow> mode \<times> kstate \<Rightarrow> bool" where
  "allowed (Syscall eax ebx ecx edx eip esp) (User, s) =
     (cur s \<noteq> idle_task s \<and> sint eax \<noteq> MAX_SYSCALL \<and>
      (0 \<le> sint eax \<and> sint eax < MAX_SYSCALL \<longrightarrow>
        call_allowed (sys_call_table ! nat (sint eax)) edx ecx ebx (entered eax eip esp s)))"
| "allowed (UserStore a v) (User, s) =
     (cur s \<noteq> idle_task s \<and> user_writable (mm s) a \<and> L_USER_START \<le> a \<and> a < TOTAL_PAGES * PAGE_SIZE)"
| "allowed Resume (User, s) = False"
| "allowed _ (User, s) = True"
| "allowed Resume (Resuming, s) = resume_mapped s"
| "allowed _ _ = False"

section \<open>One step\<close>

lemma handler_proceeds:
  assumes ki: "kernel_inv s Q" and cpu: "cpu_inv s Q" and ni: "cur s \<noteq> idle_task s" and i: "space_inv s"
    and g: "call_allowed h a b c s"
  shows "proceeds (run_handler h a b c s)"
proof -
  note ret = proceeds_return [OF ki cpu]
  have b31: "sint a < 2 ^ 31" using sint_lt [of a] by simp
  have "cur s < NR_TASKS" using cpu by (simp add: cpu_inv_def)
  note room = fork_room_can_fork [OF i this ni]
  show ?thesis
    using g b31 room ret console_proceeds [OF ki cpu] exit_proceeds [OF ki cpu ni] fork_proceeds [OF ki cpu ni]
      write_proceeds [OF ki cpu] block_proceeds [OF ki cpu ni] unblock_proceeds [OF ki cpu ni]
      read_proceeds [OF ki cpu ni] create_proceeds [OF ki cpu ni] wait_proceeds [OF ki cpu ni]
      dyn_mem_proceeds [OF ki cpu ni] semCreate_proceeds [OF ki cpu] semWait_proceeds [OF ki cpu ni]
      semSignal_proceeds [OF ki cpu ni] semDestroy_proceeds [OF ki cpu]
    by (cases h; simp only: run_handler.simps call_allowed.simps; simp)
qed

lemma leave_ok:
  assumes "proceeds res"
  shows "\<exists>m s' Q'. map_option leave_kernel res = Some (m, s') \<and> kernel_ok m s' Q'"
proof -
  obtain r s1 Q1 where r: "res = Some (r, s1)" "kernel_ok (if r = Switched then Resuming else User) s1 Q1"
    using assms unfolding proceeds_def by blast
  have e: "same_kernel s1 (upd_task (cur s1) (\<lambda>ts. ts\<lparr>u_eax := v\<rparr>) s1)" for v by (simp add: same_kernel_def upd_task_def)
  show ?thesis
  proof (cases r)
    case (Ret v)
    then have "kernel_ok User (upd_task (cur s1) (\<lambda>ts. ts\<lparr>u_eax := word_of_int v\<rparr>) s1) Q1"
      using r(2) kernel_inv_cong [OF e] same_kernel_mode [OF e] by (simp add: kernel_ok_def)
    then show ?thesis using r(1) Ret by (auto simp: leave_kernel_def)
  qed (use r in \<open>auto simp: leave_kernel_def\<close>)
qed

lemma kernel_ok_same: "same_kernel s s' \<Longrightarrow> kernel_ok m s Q \<Longrightarrow> kernel_ok m s' Q"
  using kernel_inv_cong same_kernel_mode by (simp add: kernel_ok_def)

lemma kernel_step_ok:
  assumes ok: "kernel_ok m s Q" and i: "space_inv s" and al: "allowed ev (m, s)"
  shows "\<exists>m' s' Q'. kstep clk ev (m, s) = Some (m', s') \<and> kernel_ok m' s' Q'"
proof (cases m)
  case User
  then have ki: "kernel_inv s Q" and cpu: "cpu_inv s Q" using ok by (simp_all add: kernel_ok_def mode_inv_def)
  show ?thesis
  proof (cases ev)
    case (Syscall eax ebx ecx edx eip esp)
    let ?s = "entered eax eip esp s"
    have e: "same_kernel s ?s" by (simp add: entered_def same_kernel_def upd_task_def)
    have f: "cur ?s \<noteq> idle_task ?s" using al User Syscall by (simp add: entered_def upd_task_def)
    have sp: "space_inv ?s" using i by (simp add: entered_def)
    have "proceeds (system_call_handler (sint eax) ebx ecx edx ?s)"
      using handler_proceeds [OF kernel_inv_cong [OF e ki] same_kernel_cpu [OF e cpu] f sp]
        proceeds_return [OF kernel_inv_cong [OF e ki] same_kernel_cpu [OF e cpu]] al User Syscall
      by (auto simp: system_call_handler_def MAX_SYSCALL_def)
    from leave_ok [OF this] show ?thesis using al User Syscall by (simp add: entered_def)
  next
    case Clock
    then show ?thesis using leave_ok [OF clock_proceeds [OF ki cpu]] User by simp
  next
    case (Key b)
    then show ?thesis using leave_ok [OF keyboard_proceeds [OF ki cpu]] User by simp
  next
    case (PageFault eip)
    have "kernel_inv (s\<lparr>con := page_fault_routine_2 eip (con s)\<rparr>) Q"
      by (rule kernel_inv_cong [OF _ ki]) (simp add: same_kernel_def)
    then show ?thesis using PageFault User by (auto simp: kernel_ok_def mode_inv_def)
  next
    case Resume
    then show ?thesis using al User by simp
  next
    case (UserStore a v)
    then have w: "cur s \<noteq> idle_task s" "user_writable (mm s) a" "L_USER_START \<le> a" "a < TOTAL_PAGES * PAGE_SIZE"
      using al User by simp_all
    have "cr3 (mm s) = dir_pages_baseAddr (task s (cur s))" using cpu by (simp add: cpu_inv_def)
    from user_store_above [OF i this w(2-4)] obtain p where p: "translate (mm s) a = Some p" "L_USER_START \<le> p" by blast
    have "kernel_ok User (s\<lparr>ram := (ram s)(p := v)\<rparr>) Q"
      by (rule kernel_ok_same [OF _ ok [unfolded User]]) (simp add: same_kernel_def)
    then show ?thesis using UserStore User w p by auto
  qed
next
  case Resuming
  then have e: "ev = Resume" using al by (cases ev) simp_all
  have "proceeds (resume s)"
    by (rule resume_proceeds) (use ok al Resuming e in \<open>auto simp: kernel_ok_def\<close>)
  from leave_ok [OF this] show ?thesis using Resuming e by simp
next
  case Halted
  then show ?thesis using al by simp
qed

text \<open>The address spaces stay apart.\<close>

lemma handler_spaces:
  assumes ki: "kernel_inv s Q" and cpu: "cpu_inv s Q" and ni: "cur s \<noteq> idle_task s" and i: "space_inv s"
    and g: "call_allowed h a b c s" and run: "run_handler h a b c s = Some (r, s')"
  shows "space_inv s'"
proof -
  consider (exit) "h = H_exit" | (fork) "h = H_fork" | (create) "h = H_create_thread"
    | (plain) "h \<noteq> H_exit" "h \<noteq> H_fork" "h \<noteq> H_create_thread" by blast
  then show ?thesis
  proof cases
    case exit
    then have "cur s \<noteq> task1 s" "\<forall>k. owns s k \<longrightarrow> list_empty (SemBlocked k) (links s)" "sys_exit s = Some (r, s')" using g run by simp_all
    then show ?thesis using exit_spaces [OF ki cpu ni _ _ i] by blast
  next
    case fork
    then have "\<not> list_empty Freequeue (links s) \<longrightarrow> fork_room s" "sys_fork s = Some (r, s')" using g run by simp_all
    then show ?thesis by (rule fork_spaces [OF ki cpu ni i])
  next
    case create
    then have "access_ok VERIFY_READ a 4 \<noteq> 0 \<and> access_ok VERIFY_WRITE b 4 \<noteq> 0 \<longrightarrow> stack_mapped b s" "sys_create_thread a b c s = Some (r, s')"
      using g run by simp_all
    then show ?thesis by (rule create_spaces [OF ki cpu ni i])
  next
    case plain
    have ret: "space_inv s'" if "Some (x, s) = Some (r, s')" for x using that i by simp
    note d = spatialD [OF _ _ i]
    show ?thesis
      using run plain ret d [OF spatial_semaphores(1)] d [OF spatial_semaphores(2)] d [OF spatial_semaphores(3)]
        d [OF spatial_semaphores(4)] d [OF spatial_blocking(1)] d [OF spatial_blocking(2)] d [OF spatial_blocking(3)]
        d [OF spatial_read(2)] d [OF spatial_console(1)] d [OF spatial_console(2)] d [OF spatial_dyn_mem]
      by (cases h; simp only: run_handler.simps; blast)
  qed
qed

lemma kernel_step_spaces:
  assumes ok: "kernel_ok m s Q" and i: "space_inv s" and al: "allowed ev (m, s)" and st: "kstep clk ev (m, s) = Some (m', s')"
  shows "space_inv s'"
proof -
  have out: "space_inv s'" if f: "map_option leave_kernel (f t) = Some (m', s')" and k: "\<And>r t'. f t = Some (r, t') \<Longrightarrow> space_inv t'"
    for f and t :: kstate
  proof -
    obtain r t' where "f t = Some (r, t')" "leave_kernel (r, t') = (m', s')" using f by auto
    then show ?thesis using k by (cases r) (auto simp: leave_kernel_def)
  qed
  show ?thesis
  proof (cases m)
    case User
    then have ki: "kernel_inv s Q" and cpu: "cpu_inv s Q" using ok by (simp_all add: kernel_ok_def mode_inv_def)
    show ?thesis
    proof (cases ev)
      case (Syscall eax ebx ecx edx eip esp)
      let ?s = "entered eax eip esp s"
      have e: "same_kernel s ?s" by (simp add: entered_def same_kernel_def upd_task_def)
      have f: "cur ?s \<noteq> idle_task ?s" using al User Syscall by (simp add: entered_def upd_task_def)
      have sp: "space_inv ?s" using i by (simp add: entered_def)
      note h = handler_spaces [OF kernel_inv_cong [OF e ki] same_kernel_cpu [OF e cpu] f sp]
      show ?thesis
      proof (rule out [of "system_call_handler (sint eax) ebx ecx edx" ?s])
        show "map_option leave_kernel (system_call_handler (sint eax) ebx ecx edx ?s) = Some (m', s')"
          using st User Syscall al by (simp add: entered_def)
        show "space_inv t" if "system_call_handler (sint eax) ebx ecx edx ?s = Some (r, t)" for r t
          using that sp h al User Syscall by (auto simp: system_call_handler_def MAX_SYSCALL_def split: if_splits)
      qed
    next
      case Clock
      then show ?thesis using st User by (intro out [of "clock_routine clk" s]) (auto dest: spatialD [OF spatial_interrupts(2)] intro: i)
    next
      case (Key b)
      then show ?thesis using st User by (intro out [of "keyboard_routine b" s]) (auto dest: spatialD [OF spatial_interrupts(1)] intro: i)
    next
      case (UserStore a v)
      then show ?thesis using st User i by (auto split: if_splits bind_split_asm)
    qed (use st User i al in auto)
  next
    case Resuming
    then have "ev = Resume" "kernel_inv s Q" "mode_inv Resuming s Q" using al ok by (cases ev; simp add: kernel_ok_def)+
    then show ?thesis using st Resuming resume_spaces [OF _ _ i] by (intro out [of resume s]) auto
  qed (use al in simp)
qed

section \<open>The start\<close>

text \<open>What the image of the kernel has in its data segment; the tables lie inside of the address space.\<close>

definition kernel_image :: "kstate \<Rightarrow> bool" where
  "kernel_image s \<longleftrightarrow> pidGlobal s = 1000 \<and> semIDglobal s = 100000 \<and> (\<forall>i. sem_id (semaphores s i) = 0) \<and>
     (\<forall>t. dir_pages_baseAddr (task s t) = None) \<and> pagusr_page (mm s) + NR_TASKS \<le> 2 ^ 20"

lemma start_ok:
  assumes i: "kernel_image s0" and st: "start_tasks s0 = Some s"
  shows "kernel_ok User s boot_queues"
proof -
  have f: "sched_inv s boot_queues" "cpu_inv s boot_queues" "idle_task s = 0" "cur s = 1" "PID (task s 1) = 1"
    "my_heap (task s 1) = Some 2" "task1 s = 1" "k_ctx (task s 0) = KIdle" "heap_zones (mm s) 2 = 0"
    "\<forall>t. 2 \<le> t \<longrightarrow> t < NR_TASKS \<longrightarrow> PID (task s t) = -1" "pidGlobal s = pidGlobal s0" "semIDglobal s = semIDglobal s0"
    "\<forall>i. semaphores s i = (if i < NUM_SEMS then (semaphores s0 i)\<lparr>sem_free := True\<rparr> else semaphores s0 i)"
    using start_tasks_spec [of s0] st by auto
  have "PID (task s 0) = 0" using f(1,3) by (simp add: sched_inv_def)
  then have id: "ident_inv s boot_queues"
    using i f(5,10,11) unfolding ident_inv_def kernel_image_def live_boot by (auto simp: lt2)
  have "boot_queues (SemBlocked j) = None" for j by (simp add: boot_queues_def queues0_def)
  then have "sem_inv s boot_queues"
    using f(13) by (simp add: sem_inv_def waiters_def on_list_boot tasks_on_def)
  moreover have "sem_use s" using f(12,13) i by (simp add: sem_use_def sem_ids_def kernel_image_def)
  moreover have "ctx_inv s boot_queues"
    using f(3,8) by (simp add: ctx_inv_def tasks_on_boot on_list_boot)
  moreover have "families_inv s boot_queues"
    using f(3,7) by (auto simp: families_inv_def live_boot on_list_boot lt2) (auto simp: boot_queues_def)
  moreover have "heaps_inv s boot_queues" using f(3,6,9) by (auto simp: heaps_inv_def heap_fits_def live_boot lt2)
  ultimately show ?thesis using f(1,2) id by (simp add: kernel_ok_def kernel_inv_def mode_inv_def)
qed

text \<open>\<open>boot\<close> prints on the console, starts the tasks and copies the program of the user.\<close>

lemma boot_start:
  assumes "boot s0 = Some s"
  shows "\<exists>c s1. start_tasks (s0\<lparr>con := c, zeos_tick := 0\<rparr>) = Some s1 \<and> same_kernel s1 s \<and> kb s = kb s1 \<and>
    (\<exists>r c. s = s1\<lparr>ram := r, con := c\<rparr>)"
proof -
  let ?s0 = "s0\<lparr>con := printk (bytes (''Kernel Loaded!    '' @ [CHR 0x0A])) (printk (bytes banner) (con s0)), zeos_tick := 0\<rparr>"
  obtain s2 s3 s4 r c where "init_sched (init_mm ?s0) = Some s2" "init_idle s2 = Some s3" "init_task1 s3 = Some s4"
    "s = s4\<lparr>ram := r, con := c, cur := task1 s4\<rparr>"
    using assms by (auto simp: boot_def Let_def)
  then have "start_tasks ?s0 = Some (s4\<lparr>cur := task1 s4\<rparr>)" "same_kernel (s4\<lparr>cur := task1 s4\<rparr>) s"
    "kb s = kb (s4\<lparr>cur := task1 s4\<rparr>)" "s = (s4\<lparr>cur := task1 s4\<rparr>)\<lparr>ram := r, con := c\<rparr>"
    by (simp_all add: start_tasks_def same_kernel_def)
  then show ?thesis by blast
qed

lemma boot_kernel_ok:
  assumes "kernel_image s0" "boot s0 = Some s"
  shows "kernel_ok User s boot_queues" "space_inv s"
proof -
  obtain c s1 r c' where s1: "start_tasks (s0\<lparr>con := c, zeos_tick := 0\<rparr>) = Some s1" "same_kernel s1 s" "s = s1\<lparr>ram := r, con := c'\<rparr>"
    using boot_start [OF assms(2)] by blast
  have "kernel_image (s0\<lparr>con := c, zeos_tick := 0\<rparr>)" using assms(1) by (simp add: kernel_image_def)
  from kernel_ok_same [OF s1(2) start_ok [OF this s1(1)]] show "kernel_ok User s boot_queues" .
  have "space_inv s1" by (rule start_space_inv [OF s1(1)]) (use assms(1) in \<open>simp_all add: kernel_image_def\<close>)
  then show "space_inv s" unfolding s1(3) by simp
qed

section \<open>Reachable states\<close>

inductive kreach :: "(int \<Rightarrow> console \<Rightarrow> console) \<Rightarrow> mode \<times> kstate \<Rightarrow> bool" for clk where
  kreach_boot: "kernel_image s0 \<Longrightarrow> boot s0 = Some s \<Longrightarrow> kreach clk (User, s)"
| kreach_step: "kreach clk x \<Longrightarrow> allowed ev x \<Longrightarrow> kstep clk ev x = Some y \<Longrightarrow> kreach clk y"

lemma kreach_ok: "kreach clk x \<Longrightarrow> (\<exists>Q. kernel_ok (fst x) (snd x) Q) \<and> space_inv (snd x)"
proof (induction rule: kreach.induct)
  case (kreach_boot s0 s)
  then show ?case using boot_kernel_ok by auto
next
  case (kreach_step x ev y)
  then obtain Q where k: "kernel_ok (fst x) (snd x) Q" and i: "space_inv (snd x)" by blast
  from kernel_step_ok [OF k i, of ev clk] kernel_step_spaces [OF k i, of ev clk "fst y" "snd y"] kreach_step(2,3) show ?case by auto
qed

text \<open>C1. In every state the kernel reaches from its boot by allowed events, in every order, its invariant
  holds: the lists are well formed, every thread is on the list that belongs to its state, exactly one runs,
  every suspended thread is at a point of the kernel from which it can go on, families, identifiers, heaps and
  semaphores are consistent; the address spaces are apart: no frame is in two private pages, of one process or of two,
  frames in use are not free, and no page from \<open>L_USER_START\<close> on is in a frame of the kernel;
  and every allowed event, interrupts at any moment included, is
  executed without a fault. Allowed are the system calls under the conditions of \<open>call_allowed\<close>, and the stores of user
  programs from \<open>L_USER_START\<close> on: a child of \<open>fork\<close> that stores into the kernel's pages, which its table permits, is not
  covered, and neither is a \<open>fork\<close> whose heap counter, shared with other processes, disagrees with its table.\<close>
theorem kernel_safe:
  assumes "kreach clk (m, s)"
  shows "(\<exists>Q. kernel_ok m s Q) \<and> space_inv s \<and>
     (\<forall>ev. allowed ev (m, s) \<longrightarrow> (\<exists>y. kstep clk ev (m, s) = Some y \<and> kreach clk y))"
proof (intro conjI allI impI)
  show ex: "\<exists>Q. kernel_ok m s Q" and i: "space_inv s" using kreach_ok [OF assms] by simp_all
  show "\<exists>y. kstep clk ev (m, s) = Some y \<and> kreach clk y" if al: "allowed ev (m, s)" for ev
  proof -
    obtain y where "kstep clk ev (m, s) = Some y" using ex kernel_step_ok [OF _ i al, of _ clk] by blast
    then show ?thesis using kreach.kreach_step [OF assms al] by blast
  qed
qed

text \<open>The image that boots in \<open>Loading\<close>: its first thread makes a semaphore.\<close>

lemma image_boots:
  "\<exists>s. boot disk_image = Some s \<and> kreach clk (User, s) \<and> cur s = 1 \<and> idle_task s = 0 \<and> kb s = init_kb \<and>
     k_ctx (task s 0) = KIdle \<and> sched_inv s boot_queues \<and> cpu_inv s boot_queues"
proof -
  have n: "2 = nat (sint (ram_word (ram disk_image) (KERNEL_START + 4)))" "0x10008 = KERNEL_START + unat (ram_word (ram disk_image) KERNEL_START)"
    unfolding image_words by simp_all
  obtain s where s: "boot disk_image = Some s" "sched_inv s boot_queues" "cpu_inv s boot_queues" "cur s = 1"
    using boot_spec [OF image_pages n(1) _ n(2)] by auto
  have "kernel_image disk_image" using image_pages by (simp add: kernel_image_def) (simp add: disk_image_def sample_kernel_def sample_task_def)
  then have k: "kreach clk (User, s)" using s(1) by (rule kreach_boot)
  obtain c s1 where s1: "start_tasks (disk_image\<lparr>con := c, zeos_tick := 0\<rparr>) = Some s1" "same_kernel s1 s" "kb s = kb s1"
    using boot_start [OF s(1)] by blast
  have "idle_task s1 = 0" "k_ctx (task s1 0) = KIdle" "kb s1 = kb disk_image"
    using start_tasks_spec [of "disk_image\<lparr>con := c, zeos_tick := 0\<rparr>"] s1(1) by auto
  then show ?thesis using s k s1(2,3) unfolding same_kernel_def by (auto simp: disk_image_def sample_kernel_def)
qed

lemma kernel_safe_witness:
  "\<exists>s y. boot disk_image = Some s \<and> kstep (\<lambda>_ c. c) (Syscall 14 0 0 5 0 0) (User, s) = Some y \<and> kreach (\<lambda>_ c. c) y"
proof -
  obtain s where s: "boot disk_image = Some s" "kreach (\<lambda>_ c. c) (User, s)" "cur s = 1" "idle_task s = 0"
    using image_boots [of "\<lambda>_ c. c"] by blast
  have "allowed (Syscall 14 0 0 5 0 0) (User, s)"
    using s(3,4) by (simp add: MAX_SYSCALL_def sys_call_table_def)
  then show ?thesis using kernel_safe [OF s(2)] s(1) by blast
qed

text \<open>C5. A thread that gets the CPU inside the kernel returns from it, or is a reader whose characters are not
  there yet and gives the CPU to one that does: after at most two switches user code runs, and the
  invariant holds. The hypothesis \<open>resume_mapped\<close> is about a reader whose characters are there: its buffer is
  mapped. Of the points where a thread is suspended two are in loops, that of \<open>read\<close> and that of
  \<open>semDestroy\<close>, which wakes the waiting threads one by one; in the states of \<open>kreach\<close> nobody is suspended in the second, because
  \<open>allowed\<close> excludes the destruction, by \<open>semDestroy\<close> or in \<open>exit\<close>, of a semaphore with waiting threads.
  For those threads the bound of two switches is not claimed.\<close>
theorem kernel_returns:
  assumes "kreach clk (Resuming, s)" and "resume_mapped s"
  shows "\<exists>s1 Q1. (kstep clk Resume (Resuming, s) = Some (User, s1) \<or>
       (\<exists>s'. kstep clk Resume (Resuming, s) = Some (Resuming, s') \<and> kstep clk Resume (Resuming, s') = Some (User, s1))) \<and>
     sched_inv s1 Q1 \<and> cpu_inv s1 Q1 \<and> kreach clk (User, s1)"
proof -
  obtain Q where Q: "kernel_inv s Q" "mode_inv Resuming s Q" using kreach_ok [OF assms(1)] by (auto simp: kernel_ok_def)
  have user: "\<exists>s1. map_option leave_kernel (Some (r, t)) = Some (User, s1)" if "r \<noteq> Switched" for r t
    using that by (cases r) (auto simp: leave_kernel_def)
  have "\<exists>s1. kreach clk (User, s1) \<and> (kstep clk Resume (Resuming, s) = Some (User, s1) \<or>
       (\<exists>s'. kstep clk Resume (Resuming, s) = Some (Resuming, s') \<and> kstep clk Resume (Resuming, s') = Some (User, s1)))"
  proof -
    obtain r t where r: "resume s = Some (r, t)" "r \<noteq> Switched \<or> ready_ctx (k_ctx (task t (cur t)))"
      using resume_returns [OF Q assms(2)] by blast
    show ?thesis
    proof (cases "r = Switched")
      case False
      then obtain s1 where "kstep clk Resume (Resuming, s) = Some (User, s1)" using user [OF False, of t] r(1) by auto
      then show ?thesis using kreach_step [OF assms(1), of Resume] assms(2) by auto
    next
      case True
      then have st: "kstep clk Resume (Resuming, s) = Some (Resuming, t)" using r(1) by (simp add: leave_kernel_def)
      then have k: "kreach clk (Resuming, t)" using kreach_step [OF assms(1), of Resume] assms(2) by auto
      have rd: "ready_ctx (k_ctx (task t (cur t)))" using r True by blast
      have "resume_mapped t" using rd by (cases "k_ctx (task t (cur t))") (simp_all add: resume_mapped_def)
      moreover obtain r2 where r2: "resume t = Some (r2, t)" "r2 \<noteq> Switched" using resume_ready [OF rd] by blast
      moreover obtain s1 where "kstep clk Resume (Resuming, t) = Some (User, s1)" using user [OF r2(2), of t] r2(1) by auto
      ultimately show ?thesis using st kreach_step [OF k, of Resume] by auto
    qed
  qed
  then obtain s1 where s1: "kreach clk (User, s1)" "kstep clk Resume (Resuming, s) = Some (User, s1) \<or>
       (\<exists>s'. kstep clk Resume (Resuming, s) = Some (Resuming, s') \<and> kstep clk Resume (Resuming, s') = Some (User, s1))"
    by blast
  obtain Q1 where "kernel_ok User s1 Q1" using kreach_ok [OF s1(1)] by auto
  then show ?thesis using s1 by (auto simp: kernel_ok_def mode_inv_def kernel_inv_def)
qed

text \<open>The first thread reads before a key is pressed: the idle task gets the CPU and returns to its loop.\<close>

lemma kernel_returns_witness:
  "\<exists>s s1 s2. boot disk_image = Some s \<and> kstep (\<lambda>_ c. c) (Syscall 7 0 1 0x101000 0 0) (User, s) = Some (Resuming, s1) \<and>
     cur s1 = 0 \<and> kstep (\<lambda>_ c. c) Resume (Resuming, s1) = Some (User, s2)"
proof -
  obtain s where s: "boot disk_image = Some s" "kreach (\<lambda>_ c. c) (User, s)" "cur s = 1" "idle_task s = 0" "kb s = init_kb"
     "k_ctx (task s 0) = KIdle" "sched_inv s boot_queues" "cpu_inv s boot_queues"
    using image_boots [of "\<lambda>_ c. c"] by blast
  let ?e = "Syscall 7 0 1 0x101000 0 0" and ?s = "entered 7 0 0 s"
  have e: "same_kernel s ?s" "kb ?s = init_kb" by (simp_all add: entered_def same_kernel_def upd_task_def s(5))
  have f: "cur ?s = 1" "idle_task ?s = 0" "k_ctx (task ?s 0) = KIdle" using e(1) s(3,4,6) by (simp_all add: same_kernel_def)
  have inv: "sched_inv ?s boot_queues" "cpu_inv ?s boot_queues"
    by (rule sched_inv_cong [OF s(7)]; simp add: entered_def upd_task_def) (rule same_kernel_cpu [OF e(1) s(8)])
  have kb: "kb_buffer_size init_kb = 0" by (simp add: init_kb_def kb_buffer_size_def)
  have "readable 0x101000 1" by (simp add: readable_def access_ok_def Let_def)
  then obtain s1 where s1: "sys_read 0x101000 1 ?s = Some (Switched, s1)"
     "(cur s1, []) = rr_next 0 False (1 :: nat, []) \<or> cur s1 = 0" "\<forall>t. t \<noteq> 1 \<longrightarrow> k_ctx (task s1 t) = k_ctx (task ?s t)"
    using sys_read_suspends [OF inv, of "0x101000" 1] f kb e(2) by (auto simp: tasks_on_boot)
  have c: "cur s1 = 0" "k_ctx (task s1 0) = KIdle" using s1(2,3) f(3) by auto
  have "kstep (\<lambda>_ c. c) ?e (User, s) = Some (Resuming, s1)"
    using s1(1) s(3,4) by (simp add: system_call_handler_def MAX_SYSCALL_def sys_call_table_def leave_kernel_def entered_def)
  moreover have "allowed ?e (User, s)"
    using s(3,4) kb e(2) by (simp add: MAX_SYSCALL_def sys_call_table_def)
  ultimately have k: "kstep (\<lambda>_ c. c) ?e (User, s) = Some (Resuming, s1)" "kreach (\<lambda>_ c. c) (Resuming, s1)"
    using kreach_step [OF s(2)] by blast+
  have m: "resume_mapped s1" using c by (simp add: resume_mapped_def)
  have "\<exists>s2. kstep (\<lambda>_ c. c) Resume (Resuming, s1) = Some (User, s2)"
    using kernel_returns [OF k(2) m] c by (auto simp: resume_def leave_kernel_def)
  then show ?thesis using s(1) k(1) c(1) by blast
qed

end
