(* ===== verification/Build.thy ===== *)
theory Build
  imports Memory
begin

text \<open>
  The program \<^verbatim>\<open>build.c\<close> of the host: it makes the disk image from the boot sector, the kernel and the user's
  program, and writes the sizes that the boot sector and \<open>main\<close> of \<^verbatim>\<open>system.c\<close> read.

  A file is what \<open>fstat\<close> and \<open>read\<close> say of it, \<open>None\<close> one that cannot be opened. \<open>read\<close> gives as many bytes as there
  are, and writing to the standard output, a file, succeeds. A result \<open>Inl m\<close> is a call of \<open>die\<close> with the message
  \<open>m\<close>, without the names of files in it. The buffer \<open>buf\<close> is not kept from one use to the next: each
  write takes only bytes that were read or stored just before.
\<close>

section \<open>The code\<close>

record host_file =
  st_size :: nat
  contents :: "u8 list"

definition and_then :: "string + 'a \<Rightarrow> ('a \<Rightarrow> string + 'b) \<Rightarrow> string + 'b" where
  "and_then r f = (case r of Inl m \<Rightarrow> Inl m | Inr x \<Rightarrow> f x)"

definition MINIX_HEADER_LEN :: nat where
  "MINIX_HEADER_LEN = 32"

definition hdr :: "u8 list" where
  "hdr = [0x01, 0x03, 0x10, 0x04, 0x20, 0x00, 0x00, 0x00]"

definition lb :: "u8 list \<Rightarrow> nat \<Rightarrow> u32" where
  "lb buf k = le32 (buf ! (4 * k)) (buf ! (4 * k + 1)) (buf ! (4 * k + 2)) (buf ! (4 * k + 3))"

text \<open>The result is what follows the header in the file.\<close>

definition minix_open :: "host_file option \<Rightarrow> string + u8 list" where
  "minix_open f =
     (case f of None \<Rightarrow> Inl ''Unable to open''
      | Some f \<Rightarrow>
          let buf = take MINIX_HEADER_LEN (contents f) in
          if length buf \<noteq> MINIX_HEADER_LEN then Inl ''Unable to read header''
          else if take 8 buf \<noteq> hdr \<or> lb buf 5 \<noteq> 0 then Inl ''Non-Minix header''
          else if lb buf 3 \<noteq> 0 then Inl ''Illegal data segment''
          else if lb buf 4 \<noteq> 0 then Inl ''Illegal bss segment''
          else if lb buf 7 \<noteq> 0 then Inl ''Illegal symbol table''
          else Inr (drop MINIX_HEADER_LEN (contents f)))"

text \<open>The loops that copy the kernel and the user's program; \<open>rest\<close> is what is left of the file, and writing
  appends to \<open>out\<close>.\<close>

function copy_loop :: "u32 \<Rightarrow> u8 list \<Rightarrow> u8 list \<Rightarrow> string + u8 list" where
  "copy_loop sz rest out =
     (if sz > 0 then
        let l = (if sz > 1024 then 1024 else sz); buf = take (unat l) rest in
        if length buf \<noteq> unat l then Inl ''Unexpected EOF''
        else copy_loop (sz - l) (drop (unat l) rest) (out @ buf)
      else Inr out)"
  by pat_completeness auto
termination
proof (relation "measure (\<lambda>(sz, rest, out). unat sz)", simp)
  fix sz l :: u32 and rest out x :: "u8 list"
  assume "0 < sz" and l: "l = (if sz > 1024 then 1024 else sz)"
  then have "l \<le> sz" "0 < l" by (auto simp: word_gt_0)
  then show "((sz - l, drop (unat l) rest, out @ x), sz, rest, out) \<in> measure (\<lambda>(sz, rest, out). unat sz)"
    by (simp add: unat_sub word_less_nat_alt word_le_nat_alt)
qed

declare copy_loop.simps [simp del]

definition copy_file :: "host_file option \<Rightarrow> u8 list \<Rightarrow> string + (u32 \<times> u8 list)" where
  "copy_file f out =
     (case f of None \<Rightarrow> Inl ''Unable to open''
      | Some f \<Rightarrow>
          let sz = of_nat (st_size f) in
          and_then (copy_loop sz (contents f) out) (\<lambda>out1. Inr (sz, out1)))"

text \<open>\<open>lseek\<close> to \<open>p\<close> and \<open>write\<close>: a gap before \<open>p\<close> is filled with zeros.\<close>

definition write_at :: "nat \<Rightarrow> u8 list \<Rightarrow> u8 list \<Rightarrow> u8 list" where
  "write_at p bs out = take p out @ replicate (p - length out) 0 @ bs @ drop (p + length bs) out"

definition size_bytes :: "u32 \<Rightarrow> u8 list" where
  "size_bytes w = [byte_of 0 w, byte_of 1 w, byte_of 2 w, 0]"

fun build :: "host_file option list \<Rightarrow> string + u8 list" where
  "build [boot, system, usr] =
     and_then (minix_open boot) (\<lambda>rest.
       let buf = take 1024 rest in
       if length buf \<noteq> 512 then Inl ''Boot block must be exactly 512 bytes''
       else if buf ! 510 \<noteq> 0x55 \<or> buf ! 511 \<noteq> 0xaa then Inl ''Boot block hasn't got boot flag (0xAA55)''
       else and_then (copy_file system (buf[508 := 0, 509 := 0])) (\<lambda>(sys_size, out1).
         and_then (copy_file usr out1) (\<lambda>(usr_size, out2).
           let im_size = (sys_size + usr_size + 15) div 16
           in Inr (write_at 520 (size_bytes 0x7E6A)
                (write_at 516 (size_bytes usr_size)
                  (write_at 512 (size_bytes sys_size)
                    (write_at 500 [byte_of 0 im_size, byte_of 1 im_size] out2)))))))"
| "build _ = Inl ''Usage: build bootsect system user [> image]''"

section \<open>What the image holds\<close>

lemma copy_loop_eq:
  "copy_loop sz rest out =
     (if unat sz \<le> length rest then Inr (out @ take (unat sz) rest) else Inl ''Unexpected EOF'')"
proof (induction sz rest out rule: copy_loop.induct)
  case (1 sz rest out)
  show ?case
  proof (cases "sz > 0")
    case True
    define l where "l = (if sz > 1024 then 1024 else sz)"
    have l: "unat l \<le> unat sz" "unat (sz - l) = unat sz - unat l"
      by (auto simp: l_def unat_sub word_le_nat_alt word_less_nat_alt)
    show ?thesis
    proof (cases "unat l \<le> length rest")
      case long: True
      have "copy_loop sz rest out = copy_loop (sz - l) (drop (unat l) rest) (out @ take (unat l) rest)"
        using True long unfolding l_def by (subst copy_loop.simps) (simp add: Let_def)
      also have "\<dots> = (if unat (sz - l) \<le> length (drop (unat l) rest)
          then Inr ((out @ take (unat l) rest) @ take (unat (sz - l)) (drop (unat l) rest)) else Inl ''Unexpected EOF'')"
        using "1.IH" [OF True l_def refl] long by simp
      also have "take (unat l) rest @ take (unat (sz - l)) (drop (unat l) rest) = take (unat sz) rest"
        using l take_add [of "unat l" "unat sz - unat l" rest] by simp
      then have "(out @ take (unat l) rest) @ take (unat (sz - l)) (drop (unat l) rest) = out @ take (unat sz) rest"
        by simp
      finally show ?thesis using l long by (simp add: le_diff_conv2 le_diff_iff)
    next
      case False
      then show ?thesis using True l(1) unfolding l_def by (subst copy_loop.simps) (simp add: Let_def)
    qed
  qed (subst copy_loop.simps, simp add: word_gt_0)
qed

lemma copy_file_eq:
  assumes "st_size f = length (contents f)" "st_size f < 2 ^ 32"
  shows "copy_file (Some f) out = Inr (of_nat (st_size f), out @ contents f)"
proof -
  have "unat (of_nat (st_size f) :: u32) = st_size f" using assms(2) by (simp add: unat_of_nat take_bit_nat_eq_self)
  then show ?thesis using assms(1) by (simp add: copy_file_def copy_loop_eq and_then_def Let_def)
qed

lemma length_write_at: "length (write_at p bs out) = max (length out) (p + length bs)"
  by (simp add: write_at_def)

lemma nth_write_at:
  "i < max (length out) (p + length bs) \<Longrightarrow>
     write_at p bs out ! i = (if p \<le> i \<and> i < p + length bs then bs ! (i - p) else if i < length out then out ! i else 0)"
  by (auto simp: write_at_def nth_append min_def)

lemma unat_byte_of: "unat (byte_of k w) = unat w div 2 ^ (8 * k) mod 256"
proof -
  have "unat (byte_of k w) = take_bit 8 (unat (drop_bit (8 * k) w))"
    by (simp add: byte_of_def unsigned_ucast_eq take_bit_word_eq_self)
  moreover have "unat (drop_bit (8 * k) w) = unat w div 2 ^ (8 * k)"
    using unat_u32 [of w] by (subst unsigned_drop_bit_eq) (simp add: drop_bit_eq_div take_bit_nat_eq_self)
  ultimately show ?thesis by (simp add: take_bit_eq_mod)
qed

lemma size_word:
  assumes "n < 2 ^ 24"
  shows "le32 (byte_of 0 (of_nat n)) (byte_of 1 (of_nat n)) (byte_of 2 (of_nat n)) 0 = of_nat n"
proof -
  have "unat (of_nat n :: u32) = n" using assms by (simp add: unat_of_nat take_bit_nat_eq_self)
  then have "unat (byte_of 3 (of_nat n)) = 0" using assms by (simp add: unat_byte_of)
  then have "byte_of 3 (of_nat n) = 0" by (simp only: unat_eq_0)
  then show ?thesis using le32_byte_of [of "of_nat n"] by simp
qed

lemma half_word: "unat (byte_of 0 w) + 256 * unat (byte_of 1 w) = unat w mod 2 ^ 16"
proof -
  have "n mod 256 + 256 * (n div 256 mod 256) = n mod 65536" for n :: nat
    using mod_mult2_eq [of n 256 256] by simp
  then show ?thesis by (simp add: unat_byte_of)
qed

text \<open>The image that \<open>build\<close> writes, for a boot sector \<open>code\<close>, a kernel and a user's program.\<close>

definition disk_image_of :: "u8 list \<Rightarrow> u8 list \<Rightarrow> u8 list \<Rightarrow> u8 list \<Rightarrow> bool" where
  "disk_image_of code sys usr img \<longleftrightarrow> length img = 512 + length sys + length usr \<and>
     (\<forall>i < 512. i \<notin> {500, 501, 508, 509} \<longrightarrow> img ! i = code ! i) \<and> img ! 508 = 0 \<and> img ! 509 = 0 \<and>
     unat (img ! 500) + 256 * unat (img ! 501) = (length sys + length usr + 15) div 16 mod 2 ^ 16 \<and>
     lb (drop 512 img) 0 = of_nat (length sys) \<and> lb (drop 512 img) 1 = of_nat (length usr) \<and>
     lb (drop 512 img) 2 = 0x7E6A \<and>
     (\<forall>i. 12 \<le> i \<longrightarrow> i < length sys \<longrightarrow> img ! (512 + i) = sys ! i) \<and>
     (\<forall>i < length usr. img ! (512 + length sys + i) = usr ! i)"

lemma build_spec:
  assumes b: "minix_open boot = Inr code" "length code = 512" "code ! 510 = 0x55" "code ! 511 = 0xaa"
    and f: "st_size sf = length (contents sf)" "st_size uf = length (contents uf)"
    and s: "12 \<le> st_size sf" "st_size sf < 2 ^ 24" "st_size uf < 2 ^ 24"
  shows "\<exists>img. build [boot, Some sf, Some uf] = Inr img \<and> disk_image_of code (contents sf) (contents uf) img"
proof -
  let ?s = "of_nat (st_size sf) :: u32" and ?u = "of_nat (st_size uf) :: u32"
  let ?o = "code[508 := 0, 509 := 0] @ contents sf @ contents uf" and ?im = "(?s + ?u + 15) div 16"
  let ?img = "write_at 520 (size_bytes 0x7E6A) (write_at 516 (size_bytes ?u) (write_at 512 (size_bytes ?s)
     (write_at 500 [byte_of 0 ?im, byte_of 1 ?im] ?o)))"
  have "build [boot, Some sf, Some uf] = Inr ?img"
    using b copy_file_eq [of sf] copy_file_eq [of uf] f s by (simp add: and_then_def Let_def)
  moreover have "disk_image_of code (contents sf) (contents uf) ?img"
  proof -
    have len: "length ?o = 512 + st_size sf + st_size uf" using b(2) f by simp
    have l: "length ?img = 512 + st_size sf + st_size uf" using len s(1) by (simp add: length_write_at size_bytes_def)
    have n: "?img ! i = (if i \<in> {500, 501} then [byte_of 0 ?im, byte_of 1 ?im] ! (i - 500)
        else if 512 \<le> i \<and> i < 516 then size_bytes ?s ! (i - 512) else if 516 \<le> i \<and> i < 520 then size_bytes ?u ! (i - 516)
        else if 520 \<le> i \<and> i < 524 then size_bytes 0x7E6A ! (i - 520) else ?o ! i)"
      if "i < 512 + st_size sf + st_size uf" for i
      using that len s(1) by (auto simp: nth_write_at length_write_at size_bytes_def)
    have sz: "unat ?s = st_size sf" "unat ?u = st_size uf" using s(2,3) by (simp_all add: unat_of_nat take_bit_nat_eq_self)
    have im: "unat ?im = (st_size sf + st_size uf + 15) div 16"
      using s(2,3) sz by (simp add: unat_div unat_word_ariths)
    show ?thesis
      unfolding disk_image_of_def
    proof (intro conjI allI impI)
      show "length ?img = 512 + length (contents sf) + length (contents uf)" using l f by simp
      show "?img ! i = code ! i" if "i < 512" "i \<notin> {500, 501, 508, 509}" for i
        using that n [of i] b(2) by (simp add: nth_append)
      show "?img ! 508 = 0" "?img ! 509 = 0" using n [of 508] n [of 509] b(2) by (simp_all add: nth_append)
      have "?img ! 500 = byte_of 0 ?im" "?img ! 501 = byte_of 1 ?im" using n [of 500] n [of 501] by simp_all
      then show "unat (?img ! 500) + 256 * unat (?img ! 501) = (length (contents sf) + length (contents uf) + 15) div 16 mod 2 ^ 16"
        using half_word [of ?im] im f by (simp del: One_nat_def)
      have "lb (drop 512 ?img) 2 = le32 (byte_of 0 0x7E6A) (byte_of 1 0x7E6A) (byte_of 2 0x7E6A) 0"
        using l s(1) n [of 520] n [of 521] n [of 522] n [of 523]
        by (simp add: lb_def size_bytes_def nth_drop del: One_nat_def)
      then show "lb (drop 512 ?img) 2 = 0x7E6A" using size_word [of "0x7E6A"] by simp
      have "lb (drop 512 ?img) 0 = le32 (byte_of 0 ?s) (byte_of 1 ?s) (byte_of 2 ?s) 0"
        "lb (drop 512 ?img) 1 = le32 (byte_of 0 ?u) (byte_of 1 ?u) (byte_of 2 ?u) 0"
        using l s(1) n [of 512] n [of 513] n [of 514] n [of 515] n [of 516] n [of 517] n [of 518] n [of 519]
        by (simp_all add: lb_def size_bytes_def nth_drop del: One_nat_def)
      then show "lb (drop 512 ?img) 0 = of_nat (length (contents sf))" "lb (drop 512 ?img) 1 = of_nat (length (contents uf))"
        using size_word [OF s(2)] size_word [OF s(3)] f by simp_all
      show "?img ! (512 + i) = contents sf ! i" if "12 \<le> i" "i < length (contents sf)" for i
        using that n [of "512 + i"] b(2) f by (simp add: nth_append)
      show "?img ! (512 + length (contents sf) + i) = contents uf ! i" if "i < length (contents uf)" for i
        using that n [of "512 + length (contents sf) + i"] b(2) f s(1) by (simp add: nth_append)
    qed
  qed
  ultimately show ?thesis by blast
qed

text \<open>C26. \<open>build\<close> on a boot sector with header and flag, a kernel of at least 12 bytes and a user's program, both
  below 16 MB: the image is the boot sector with the number of paragraphs in bytes 500 and 501, the kernel with the two
  sizes as its first words and \<open>0x7E6A\<close> as its third, and the user's program behind it, every other byte as in the files.\<close>
theorem build_ok:
  assumes "minix_open boot = Inr code" and "length code = 512" and "code ! 510 = 0x55" and "code ! 511 = 0xaa"
    and "st_size sf = length (contents sf)" and "st_size uf = length (contents uf)"
    and "12 \<le> st_size sf" and "st_size sf < 2 ^ 24" and "st_size uf < 2 ^ 24"
  shows "\<exists>img. build [boot, Some sf, Some uf] = Inr img \<and> disk_image_of code (contents sf) (contents uf) img"
  by (rule build_spec [OF assms])

text \<open>The smallest system: a boot sector that does nothing, a kernel of 12 bytes and a program of two.\<close>

definition boot_code :: "u8 list" where
  "boot_code = replicate 510 0 @ [0x55, 0xaa]"

definition boot_file :: host_file where
  "boot_file = \<lparr>st_size = 544, contents = hdr @ replicate 24 0 @ boot_code\<rparr>"

definition system_file :: host_file where
  "system_file = \<lparr>st_size = 12, contents = replicate 12 0\<rparr>"

definition user_file :: host_file where
  "user_file = \<lparr>st_size = 2, contents = [0x90, 0xC3]\<rparr>"

lemma small_files:
  "minix_open (Some boot_file) = Inr boot_code" "length boot_code = 512" "boot_code ! 510 = 0x55" "boot_code ! 511 = 0xaa"
  "st_size system_file = length (contents system_file)" "st_size user_file = length (contents user_file)"
  "12 \<le> st_size system_file" "st_size system_file < 2 ^ 24" "st_size user_file < 2 ^ 24"
proof -
  show "minix_open (Some boot_file) = Inr boot_code"
    by (simp add: minix_open_def boot_file_def MINIX_HEADER_LEN_def hdr_def boot_code_def lb_def nth_append le32_def Let_def)
qed (simp_all add: boot_code_def system_file_def user_file_def nth_append)

lemma build_ok_witness:
  "\<exists>img. build [Some boot_file, Some system_file, Some user_file] = Inr img \<and> length img = 526 \<and> img ! 524 = 0x90 \<and>
     lb (drop 512 img) 1 = 2"
proof -
  obtain img where i: "build [Some boot_file, Some system_file, Some user_file] = Inr img"
    "disk_image_of boot_code (contents system_file) (contents user_file) img" using build_ok [OF small_files] by blast
  have "\<forall>i < length (contents user_file). img ! (512 + length (contents system_file) + i) = contents user_file ! i"
    using i(2) unfolding disk_image_of_def by blast
  from this [rule_format, of 0] have "img ! (512 + length (contents system_file) + 0) = 0x90" by (simp add: user_file_def)
  then show ?thesis using i by (simp add: disk_image_of_def system_file_def user_file_def)
qed

text \<open>When \<open>build\<close> writes an image, it found the three files with all their bytes, the header and the flag.\<close>

lemma build_checked:
  assumes "build args = Inr img"
  shows "\<exists>boot sf uf code. args = [boot, Some sf, Some uf] \<and> minix_open boot = Inr code \<and> length code = 512 \<and>
     code ! 510 = 0x55 \<and> code ! 511 = 0xaa \<and> st_size sf mod 2 ^ 32 \<le> length (contents sf) \<and>
     st_size uf mod 2 ^ 32 \<le> length (contents uf)"
proof -
  have cp: "\<exists>g. f = Some g \<and> st_size g mod 2 ^ 32 \<le> length (contents g)" if "copy_file f out = Inr x" for f out x
    using that by (cases f)
      (auto simp: copy_file_def and_then_def copy_loop_eq Let_def unat_of_nat take_bit_eq_mod split: if_splits)
  obtain boot sys usr where a: "args = [boot, sys, usr]" using assms by (cases args rule: build.cases) auto
  obtain code where c: "minix_open boot = Inr code" "length (take 1024 code) = 512"
    "take 1024 code ! 510 = 0x55" "take 1024 code ! 511 = 0xaa"
    using assms unfolding a by (cases "minix_open boot") (auto simp: and_then_def Let_def split: if_splits)
  have l: "length code = 512" using c(2) by (simp add: min_def split: if_splits)
  obtain x y where s: "copy_file sys ((take 1024 code)[508 := 0, 509 := 0]) = Inr x" "copy_file usr (snd x) = Inr y"
    using assms c unfolding a
    by (cases "copy_file sys ((take 1024 code)[508 := 0, 509 := 0])"; cases "copy_file usr (snd (projr (copy_file sys ((take 1024 code)[508 := 0, 509 := 0]))))")
      (auto simp: and_then_def Let_def case_prod_beta)
  show ?thesis using a c(1,3,4) l cp [OF s(1)] cp [OF s(2)] by auto
qed

end
