(* ===== verification/Disk.thy ===== *)
theory Disk
  imports Build Loading
begin

text \<open>
  From the files on the host to the first instruction of the user: the image of \<open>build\<close>, in memory where the
  boot sector puts it, is one that \<open>main\<close> starts, with the user's program in the pages of the first process.
\<close>

text \<open>The boot sector reads the image from its second sector on to the address \<open>KERNEL_START\<close>.\<close>

definition loaded :: "u8 list \<Rightarrow> ram \<Rightarrow> bool" where
  "loaded img r \<longleftrightarrow> (\<forall>i < length img - 512. r (KERNEL_START + i) = img ! (512 + i))"

lemma loaded_word:
  assumes "loaded img r" "512 + 4 * k + 4 \<le> length img"
  shows "ram_word r (KERNEL_START + 4 * k) = lb (drop 512 img) k"
proof -
  have "r (KERNEL_START + (4 * k + j)) = img ! (512 + (4 * k + j))" if "j < 4" for j
    using assms that unfolding loaded_def by simp
  from this [of 0] this [of 1] this [of 2] this [of 3] show ?thesis
    using assms(2) by (simp add: ram_word_def lb_def nth_drop add.assoc)
qed

text \<open>C4. Build, load and boot: when the image that \<open>build\<close> makes of a kernel and a user's program fits below the
  memory of the screen, and the program in the 28 pages of a process, the system starts, and byte \<open>i\<close> of the user's file
  is at address \<open>L_USER_START + i\<close> of the first process, but for the word at \<open>0x113FFC\<close>: there the first
  process finds \<open>0x7E6A\<close>, the third word that \<open>build\<close> writes, whatever the file has there.\<close>
theorem build_boots:
  assumes "build [bs, Some sf, Some uf] = Inr img" and "loaded img (ram s)"
    and "minix_open bs = Inr code" and "length code = 512" and "code ! 510 = 0x55" and "code ! 511 = 0xaa"
    and "st_size sf = length (contents sf)" and "st_size uf = length (contents uf)" and "12 \<le> st_size sf"
    and "KERNEL_START + st_size sf + st_size uf \<le> 0xA0000" and "st_size uf \<le> 28 * PAGE_SIZE"
    and "pagusr_page (mm s) + NR_TASKS \<le> 2 ^ 20"
  shows "\<exists>s'. boot s = Some s' \<and> sched_inv s' boot_queues \<and> cpu_inv s' boot_queues \<and> cur s' = 1 \<and>
     (\<forall>i < st_size uf. i \<notin> {GATE_WORD..<GATE_WORD + 4} \<longrightarrow>
        ld8 (translate (mm s')) (L_USER_START + i) (ram s') = Some (contents uf ! i)) \<and>
     ld32 (translate (mm s')) (L_USER_START + GATE_WORD) (ram s') = Some 0x7E6A"
proof -
  have "st_size sf < 2 ^ 24" "st_size uf < 2 ^ 24" using assms(10) by simp_all
  from build_spec [OF assms(3-9) this] assms(1)
  have d: "disk_image_of code (contents sf) (contents uf) img" by simp
  note i = d [unfolded disk_image_of_def]
  have "ram_word (ram s) KERNEL_START = of_nat (st_size sf)" "ram_word (ram s) (KERNEL_START + 4) = of_nat (st_size uf)"
    and w8: "ram_word (ram s) (KERNEL_START + 8) = 0x7E6A"
    using loaded_word [OF assms(2), of 0] loaded_word [OF assms(2), of 1] loaded_word [OF assms(2), of 2] i assms(7-9) by simp_all
  moreover have "unat (of_nat (st_size sf) :: u32) = st_size sf" "nat (sint (of_nat (st_size uf) :: u32)) = st_size uf"
  proof -
    show "unat (of_nat (st_size sf) :: u32) = st_size sf" using assms(10) by (simp add: unat_of_nat take_bit_nat_eq_self)
    have "sint (of_nat (st_size uf) :: u32) = int (st_size uf)"
      using assms(11) by (simp add: sint_uint uint_nat unat_of_nat take_bit_nat_eq_self signed_take_bit_int_eq_self)
    then show "nat (sint (of_nat (st_size uf) :: u32)) = st_size uf" by simp
  qed
  ultimately have w: "KERNEL_START + st_size sf = KERNEL_START + unat (ram_word (ram s) KERNEL_START)"
    "st_size uf = nat (sint (ram_word (ram s) (KERNEL_START + 4)))" by simp_all
  obtain s' where s': "boot s = Some s'" "sched_inv s' boot_queues" "cpu_inv s' boot_queues" "cur s' = 1"
    "\<forall>i < 28 * PAGE_SIZE. translate (mm s') (L_USER_START + i) = Some (user_place i) \<and> L_USER_START \<le> user_place i"
    "\<forall>i < 28 * PAGE_SIZE. i \<notin> {GATE_WORD..<GATE_WORD + 4} \<longrightarrow>
       ram s' (user_place i) = (if i < st_size uf then ram s (KERNEL_START + st_size sf + i) else ram s (user_place i))"
    "\<forall>j < 4. ram s' (user_place (GATE_WORD + j)) = ram s (KERNEL_START + 8 + j)"
    using boot_spec [OF assms(12) w(2) assms(11) w(1) assms(10)] by blast
  have "ld8 (translate (mm s')) (L_USER_START + i) (ram s') = Some (contents uf ! i)"
    if "i < st_size uf" "i \<notin> {GATE_WORD..<GATE_WORD + 4}" for i
  proof -
    have "ram s (KERNEL_START + st_size sf + i) = contents uf ! i"
      using assms(2,7,8) i that unfolding loaded_def by (simp add: add.assoc)
    then show ?thesis using s'(5,6) that assms(11) by (simp add: ld8_def)
  qed
  moreover have "ld32 (translate (mm s')) (L_USER_START + GATE_WORD) (ram s') = Some (ram_word (ram s) (KERNEL_START + 8))"
  proof -
    have b: "ld8 (translate (mm s')) (L_USER_START + (GATE_WORD + j)) (ram s') = Some (ram s (KERNEL_START + 8 + j))" if "j < 4" for j
    proof -
      have "translate (mm s') (L_USER_START + (GATE_WORD + j)) = Some (user_place (GATE_WORD + j))"
        using s'(5) [rule_format, of "GATE_WORD + j"] that by simp
      then show ?thesis using s'(7) that by (simp only: ld8_def option.map)
    qed
    show ?thesis using b [of 0] b [of 1] b [of 2] b [of 3] by (simp add: ld32_def ram_word_def)
  qed
  ultimately show ?thesis using s'(1-4) w8 by (intro exI [of _ s']) simp
qed

text \<open>A system in memory whose user's program has its data and two bytes of code behind them.\<close>

definition data_pages :: "u8 list" where
  "data_pages = replicate (NUM_PAG_DATA * PAGE_SIZE) 0x41"

definition program_file :: host_file where
  "program_file = \<lparr>st_size = 0x14002, contents = data_pages @ [0x90, 0xC3]\<rparr>"

lemma program_bytes: "length data_pages = 0x14000" "i < 0x14000 \<Longrightarrow> data_pages ! i = 0x41"
  by (simp_all only: data_pages_def length_replicate nth_replicate)

definition small_image :: "u8 list" where
  "small_image = projr (build [Some boot_file, Some system_file, Some program_file])"

definition small_kernel :: kstate where
  "small_kernel = sample_kernel\<lparr>ram := (\<lambda>a. small_image ! (512 + (a - KERNEL_START)))\<rparr>"

lemma build_boots_witness:
  "\<exists>s'. boot small_kernel = Some s' \<and> ld8 (translate (mm s')) 0x100000 (ram s') = Some 0x41 \<and>
     ld8 (translate (mm s')) 0x114001 (ram s') = Some 0xC3 \<and> ld32 (translate (mm s')) 0x113FFC (ram s') = Some 0x7E6A"
proof -
  have f: "st_size program_file = length (contents program_file)" "st_size program_file = 0x14002"
    "contents program_file ! 0 = 0x41" "contents program_file ! 0x14001 = 0xC3"
    by (simp_all add: program_file_def program_bytes nth_append)
  have b: "build [Some boot_file, Some system_file, Some program_file] = Inr small_image"
    using build_spec [OF small_files(1-5) f(1) small_files(7,8)] f(2) by (auto simp: small_image_def)
  have l: "loaded small_image (ram small_kernel)" by (simp add: loaded_def small_kernel_def)
  have p: "pagusr_page (mm small_kernel) + NR_TASKS \<le> 2 ^ 20"
    by (simp add: small_kernel_def sample_kernel_def sample_mm_def init_frames_def)
  have "st_size system_file = 12" by (simp add: system_file_def)
  with p f(2) obtain s' where s': "boot small_kernel = Some s'"
    "\<forall>i < st_size program_file. i \<notin> {GATE_WORD..<GATE_WORD + 4} \<longrightarrow>
       ld8 (translate (mm s')) (L_USER_START + i) (ram s') = Some (contents program_file ! i)"
    "ld32 (translate (mm s')) (L_USER_START + GATE_WORD) (ram s') = Some 0x7E6A"
    using build_boots [OF b l small_files(1-5) f(1) small_files(7)] by auto
  have "ld8 (translate (mm s')) (L_USER_START + 0) (ram s') = Some 0x41"
    "ld8 (translate (mm s')) (L_USER_START + 0x14001) (ram s') = Some 0xC3"
    using s'(2) [rule_format, of 0] s'(2) [rule_format, of "0x14001"] f(2-4) by simp_all
  then show ?thesis using s'(1,3) by simp
qed

end
