(* ===== verification/Spec2Isabelle.thy ===== *)
theory Spec2Isabelle
  imports Prelude Lists Paging Frames Memory Tables Console Keyboard Sched Semaphores Process FileIO Machine Round_Robin Boot Scheduling Blocking Threads Sem_Queues Fork Dyn_Mem Exit Writing Libc Heap Allocator Strings Sprites Game Play Reading Loading Kernel_State Kernel_Calls Kernel_Life Kernel_Read Spaces Isolation Kernel Build Disk
begin

text \<open>
  A model of the teaching operating system in this repository, a kernel for one 386 processor with
  its user library and the game that runs on it, and the properties that make it correct.

  \<^bold>\<open>The program.\<close> \<^verbatim>\<open>src/system.c\<close> starts the machine: descriptor tables, paging, process table, then the
  first user thread. After that the kernel runs only when it is entered: by the clock or the keyboard
  (\<^verbatim>\<open>src/interrupt.c\<close>) or by a system call (\<^verbatim>\<open>src/entry.S\<close>, \<^verbatim>\<open>src/sys_call_table.S\<close>, \<^verbatim>\<open>src/sys.c\<close>), with the
  interrupts off. The system calls use the scheduler (\<^verbatim>\<open>src/sched.c\<close>), the frames and page tables
  (\<^verbatim>\<open>src/mm.c\<close>), the copy routines (\<^verbatim>\<open>src/utils.c\<close>), the console (\<^verbatim>\<open>src/io.c\<close>, \<^verbatim>\<open>src/devices.c\<close>) and the
  intrusive lists (\<^verbatim>\<open>src/list.c\<close>). User programs link \<^verbatim>\<open>src/libc.c\<close>, whose \<open>malloc\<close> lives on the system
  call \<open>dyn_mem\<close>; \<^verbatim>\<open>src/user.c\<close> is a game of three threads.

  \<^bold>\<open>State.\<close> A pointer to a list node is a value of the type \<open>lnode\<close> (\<open>Sched\<close>), NULL is \<open>None\<close>, and the nodes
  are a function from addresses to pairs of pointers. A task is its index in \<^verbatim>\<open>task[]\<close>; the record
  \<open>task_struct\<close> has the fields of the C structure, and in \<open>k_ctx\<close> the point of the kernel code at which
  the thread is suspended, which the source keeps on the kernel stack. \<open>mm_state\<close> (\<open>Paging\<close>) has the
  table of frames, the directories and page tables, and \<^verbatim>\<open>cr3\<close>. \<open>kstate\<close> (\<open>Sched\<close>) is the whole kernel. \<open>libc\<close>
  (\<open>Libc\<close>) adds the variables of the user library, \<open>tables\<close> (\<open>Tables\<close>) are the tables of the processor,
  \<open>game\<close> (\<open>Game\<close>) the variables of the game with the screen it draws on. Page table entries, user
  pointers, bytes and the fields of the descriptor tables are machine words; the integers of the kernel
  are \<open>int\<close>, with the wrap-around written out where a value can reach it (the counters of the semaphores)
  and a fault where C leaves it undefined.

  \<^bold>\<open>Errors.\<close> A function that can fault (a NULL or wild pointer, an unmapped page, an index outside of an
  array) returns an \<open>option\<close>, and \<open>None\<close> is the fault. Error codes are values, as in the source. A
  system call ends in an \<open>outcome\<close>: a value, no value, or the CPU given to another thread.

  \<^bold>\<open>Theories.\<close> The code:
    \<^item> \<open>Prelude\<close>: words, loops over ranges, searches in tables, the collections \<open>fault_simps\<close> and \<open>wf_intros\<close>;
    \<^item> \<open>Lists\<close>: \<^verbatim>\<open>list.c\<close>, \<^verbatim>\<open>list.h\<close>; \<open>Paging\<close>: the paging part of \<^verbatim>\<open>mm.c\<close>, \<^verbatim>\<open>mm_address.h\<close>, the entries of \<^verbatim>\<open>types.h\<close>;
      \<open>Memory\<close>: \<^verbatim>\<open>utils.c\<close>; \<open>Tables\<close>: gates, descriptors and their setting up; \<open>Console\<close>: \<^verbatim>\<open>io.c\<close>, \<^verbatim>\<open>devices.c\<close>;
      \<open>Keyboard\<close>: the key buffer of \<^verbatim>\<open>interrupt.c\<close>;
    \<^item> \<open>Sched\<close>: \<^verbatim>\<open>sched.c\<close>; \<open>Semaphores\<close>, \<open>Process\<close>, \<open>FileIO\<close>: the system calls of \<^verbatim>\<open>sys.c\<close>; \<open>Machine\<close>: interrupt
      routines, dispatch, resumption of suspended threads, start, and the step function of the machine;
    \<^item> \<open>Libc\<close>: \<^verbatim>\<open>libc.c\<close>; \<open>Sprites\<close>, \<open>Game\<close>: the game of \<^verbatim>\<open>user.c\<close>; \<open>Build\<close>: \<^verbatim>\<open>build.c\<close>, the program of the host
      that writes the disk image.

  What is proved about it:
    \<^item> \<open>Lists\<close>: \<open>reps h Q\<close>, the links \<open>h\<close> hold the lists \<open>Q\<close>. The locale \<open>list_store\<close> is the contract the
      kernel uses (initialise, append, delete, first element); its interpretation \<open>dl\<close> discharges it for the
      pointer operations, and \<open>for_each\<close> loops become folds;
    \<^item> \<open>Round_Robin\<close>: the invariants \<open>sched_inv\<close> (queues agree with states, identifiers differ) and \<open>cpu_inv\<close>
      (one running thread, its stack and directory loaded), the policy \<open>rr_next\<close> on lists of tasks, and
      that \<open>sched_next_rr\<close> implements it. \<open>Boot\<close> establishes the invariants; \<open>Scheduling\<close> has the time slices and
      the absence of starvation; \<open>Loading\<close> is the whole start: the page tables of the first process and the copy
      of the user's program, with the word that \<open>return_gate\<close> then stores over it; \<open>Disk\<close> composes it with \<open>Build\<close>, from the files on the host to the memory of the first
      process;
    \<^item> \<open>Blocking\<close> (block, the moves \<open>suspend\<close> and \<open>wake\<close>), \<open>Threads\<close> (create_thread, unblock), \<open>Sem_Queues\<close>
      (semaphores: \<open>sem_inv\<close> ties counter and queue), \<open>Exit\<close> (exit, wait_thread), \<open>Fork\<close> (fork), \<open>Dyn_Mem\<close>
      (dyn_mem), \<open>Writing\<close> (write), \<open>Reading\<close> (read and the keyboard interrupt): what each call does, on every branch, and that the invariants survive;
    \<^item> \<open>Kernel_State\<close>: the invariant of the whole kernel, \<open>kernel_inv\<close>: the two of the scheduler, \<open>sem_inv\<close>, where every
      suspended thread is in the kernel code and that its anchors are on the list it waits on (\<open>ctx_inv\<close>), the lists of
      children and of waiting threads (\<open>families_inv\<close>), identifiers, heaps and the table of semaphores. \<open>Kernel_Calls\<close>,
      \<open>Kernel_Life\<close> and \<open>Kernel_Read\<close> show, handler by handler, that it survives and that the handler does not fault
      (\<open>proceeds\<close>);
    \<^item> \<open>Spaces\<close>: the invariant of the page tables of all processes, \<open>spaces_ok\<close>: no frame is in two private pages,
      frames in use are not free, user pages are never in frames of the kernel. \<open>Isolation\<close>: every handler keeps it, with what ties
      the tables to the threads (\<open>space_inv\<close>: a directory counts its users, all of them have their data and code mapped,
      and all use the heap counter of the first thread);
    \<^item> \<open>Kernel\<close> puts these together: \<open>kreach\<close> are the states reached from \<open>boot\<close> by system calls, interrupts,
      stores of user code and resumptions in any order, and \<open>kernel_safe\<close> is the two invariants and the absence of faults in
      all of them;
    \<^item> \<open>Frames\<close>: the locale \<open>frame_store\<close>, a supply of frames with a defect set that cannot be given back, and
      its interpretation \<open>fr\<close> on \<open>alloc_frame\<close>, on which the loops with rollback of fork and dyn_mem rest;
    \<^item> \<open>Keyboard\<close>: the locale \<open>bounded_queue\<close> and its interpretation \<open>kbq\<close> on the ring of keys;
    \<^item> \<open>Heap\<close>, \<open>Allocator\<close>: the locale \<open>cell_store\<close>, words and bytes in a region that a process owns, its
      interpretation \<open>hm\<close> on the memory behind the page tables, the heap as a list of blocks that tile it
      (\<open>tiles\<close>, \<open>heap_inv\<close>), and that \<open>malloc\<close> and \<open>free\<close> implement first fit with joining on these lists; \<open>Strings\<close>:
      \<open>itoa\<close> and \<open>strlen\<close>;
    \<^item> \<open>Sprites\<close>: the locale \<open>grid\<close> for arrays and for the screen, with the interpretations \<open>arr\<close> and \<open>scr\<close>; \<open>Play\<close>:
      the invariant of the game under the interleavings of its threads in which no shot is fired between a move of the dragon
      that will be taken back and its check (\<open>sin_carrera\<close>; \<open>shot_race\<close> is what that one does), the rules of the game and that
      \<open>gameThread\<close> implements them, and a winning run. A step is a phase of a round, one shot or one key: a switch of
      threads inside of these is not modelled.

  \<^bold>\<open>What is allowed.\<close> \<open>kernel_safe\<close> is about the events that satisfy \<open>allowed\<close>. Each of its guards stands for a
  check the code does not make: the number \<open>MAX_SYSCALL\<close> calls through the word behind the table; a buffer that passes
  \<open>access_ok\<close> need not be mapped; \<open>exit\<close> of the first thread, which is nobody's child, unlinks a node that is on no list;
  the destruction of a semaphore with waiting threads gives the CPU away after each one it wakes, with the value of the
  semaphore unchanged, so a \<open>semSignal\<close> in between can take a thread from an empty list;
  \<open>unblock\<close> makes a thread ready that waits for a semaphore or for the end of a thread without taking its anchor
  off that list; \<open>semCreate\<close> takes a negative value as a number of threads that wait, and \<open>semSignal\<close> wraps around at the
  largest value; \<open>wait_thread\<close> of -1 waits on a free task; \<open>dyn_mem\<close> negates the smallest \<open>int\<close> and maps pages behind
  the last entry of the table; \<open>create_thread\<close> writes below the stack pointer it checked. A \<open>fork\<close> is allowed under \<open>fork_room\<close>
  (\<open>Isolation\<close>): a free directory, because the failure of \<open>allocate_DIR\<close> is ignored; frames for the data and the heap, because
  a \<open>fork\<close> that fails leaves the identifier of the caller in a free task; and a heap counter equal to the number of heap pages
  mapped in the table of the caller, because parent and child share one counter, so that after either of them calls \<open>dyn_mem\<close> a
  \<open>fork\<close> of the other copies pages that are not there.
  The structures of the kernel are values of the model and not bytes of \<open>ram\<close>. The table of a child of \<open>fork\<close> lets
  it write them (\<open>sys_fork_exposes_kernel\<close>); such a store is no step of the model and \<open>kernel_safe\<close> claims nothing after
  it. Stores from \<open>L_USER_START\<close> on are steps, and by \<open>space_inv\<close> none of them reaches a frame of the kernel.

  \<^bold>\<open>Loops.\<close> A loop over a range or a list is a fold or structural recursion, a search or a copy loop a
  \<open>function\<close> with a measure. Four loops may run for ever and are \<open>partial_function (option)\<close>, where \<open>None\<close> is
  also not to return: the list traversals (proved to be folds on every well-formed list), \<open>sem_wake_all\<close>,
  \<open>read_loop\<close> (\<open>kernel_returns\<close>; the same loop of \<open>sem_wake_all\<close> is not in its states, since no allowed event destroys a semaphore with
  waiting threads) and \<open>malloc_loop\<close> (proved to end on every well-formed heap, and not to end on a heap whose header
  was overwritten). No fuel is used.

  \<^bold>\<open>Parameters.\<close> \<open>zeos_show_clock\<close> and \<open>set_handlers\<close> are in the archive \<^verbatim>\<open>libzeos.a\<close> and are arguments, of
  the second it is assumed that it sets the exceptions, vectors 0 to 17, with \<open>setInterruptHandler\<close> (\<open>sets_exceptions\<close>); so are
  what the machine supplies, the byte read from the keyboard port and the time stamp counter. The
  addresses the linker chooses are the record \<open>symbols\<close> and the fields \<open>bufferAux\<close>, \<open>tmpbuff\<close> and \<open>pagusr_page\<close>.

  \<^bold>\<open>Not modelled.\<close> The inline assembly of \<^verbatim>\<open>hardware.c\<close> but for the store of \<open>return_gate\<close>, the boot sector, \<^verbatim>\<open>suma.S\<close>, and the saving and
  restoring of registers in \<^verbatim>\<open>entry.S\<close> and \<^verbatim>\<open>wrappers.S\<close> (handlers get the registers \<open>edx\<close>, \<open>ecx\<close>, \<open>ebx\<close> in this order; the fields \<open>u_eip\<close>, \<open>u_esp\<close>, \<open>u_eax\<close> are the saved
  registers the kernel reads or writes); the translation buffer of the processor, so a mapping takes
  effect at once; the depth of the kernel stack, which the arrays of variable length in fork and dyn_mem can
  overrun; the wrap-around of process and semaphore identifiers after 2^31 of them; the errors of reading and writing
  files in \<^verbatim>\<open>build.c\<close>; the \<open>test_\<close> programs of \<^verbatim>\<open>user.c\<close>, which print the results of system
  calls, and the allocations of its \<open>main\<close> (the objects of the game are values).
\<close>

end
